(* ===== verification/Prelude.thy ===== *)
theory Prelude
  imports Main "HOL-Library.Word"
begin

text \<open>
  Shared vocabulary of the development: the machine types of the miner, byte buffers
  as lists, positional values, and the generic lemmas that the component theories use.
  Buffers are lists of fixed length; a write through a pointer is a list update and a
  block copy is \<open>memcpy_at\<close>.
\<close>

unbundle bit_operations_syntax

type_synonym byte = "8 word"
type_synonym u32 = "32 word"
type_synonym u64 = "64 word"

named_theorems layout_simps \<open>lengths and indices of buffers\<close>
named_theorems value_simps \<open>numbers denoted by buffers\<close>

section \<open>Buffers\<close>

text \<open>\<open>memcpy(dst + off, src, length src)\<close> on a buffer that is long enough.\<close>

definition memcpy_at :: "'a list \<Rightarrow> nat \<Rightarrow> 'a list \<Rightarrow> 'a list" where
  "memcpy_at dst off src = take off dst @ src @ drop (off + length src) dst"

lemma length_memcpy_at [layout_simps]:
  "off + length src \<le> length dst \<Longrightarrow> length (memcpy_at dst off src) = length dst"
  by (simp add: memcpy_at_def)

lemma memcpy_at_whole [layout_simps]:
  "length src = length dst \<Longrightarrow> memcpy_at dst 0 src = src"
  by (simp add: memcpy_at_def)

lemma nth_memcpy_at:
  "off + length src \<le> length dst \<Longrightarrow>
   memcpy_at dst off src ! i = (if off \<le> i \<and> i < off + length src then src ! (i - off) else dst ! i)"
  by (auto simp: memcpy_at_def nth_append)

text \<open>The number of leading elements that satisfy a test.\<close>

definition lead_count :: "('a \<Rightarrow> bool) \<Rightarrow> 'a list \<Rightarrow> nat" where
  "lead_count P xs = length (takeWhile P xs)"

lemma takeWhile_stops:
  "\<lbrakk>k \<le> length xs; \<forall>m < k. P (xs ! m); k < length xs \<longrightarrow> \<not> P (xs ! k)\<rbrakk> \<Longrightarrow> lead_count P xs = k"
proof -
  assume k: "k \<le> length xs" "\<forall>m < k. P (xs ! m)" "k < length xs \<longrightarrow> \<not> P (xs ! k)"
  have "takeWhile P (take k xs @ drop k xs) = take k xs @ takeWhile P (drop k xs)"
    using k(1,2) by (intro takeWhile_append2) (auto simp: in_set_conv_nth)
  moreover have "takeWhile P (drop k xs) = []"
    using k by (cases "k < length xs") (simp_all add: Cons_nth_drop_Suc [symmetric])
  ultimately show ?thesis using k(1) by (simp add: lead_count_def)
qed

section \<open>Positional values\<close>

text \<open>The number written by a list of digits in a base, most significant digit first.\<close>

definition digits_val :: "nat \<Rightarrow> nat list \<Rightarrow> nat" where
  "digits_val b ds = foldl (\<lambda>acc d. acc * b + d) 0 ds"

lemma foldl_digits: "foldl (\<lambda>acc d. acc * b + d) s ds = s * b ^ length ds + digits_val b ds"
proof (induction ds arbitrary: s)
  case Nil
  then show ?case by (simp add: digits_val_def)
next
  case (Cons d ds)
  have "foldl (\<lambda>acc d. acc * b + d) s (d # ds)
      = (s * b + d) * b ^ length ds + digits_val b ds"
    by (simp add: Cons.IH)
  moreover have "digits_val b (d # ds) = d * b ^ length ds + digits_val b ds"
    using Cons.IH [of d] by (simp add: digits_val_def)
  ultimately show ?case
    by (simp add: algebra_simps)
qed

lemma digits_val_Nil [simp]: "digits_val b [] = 0"
  by (simp add: digits_val_def)

lemma digits_val_Cons [value_simps]:
  "digits_val b (d # ds) = d * b ^ length ds + digits_val b ds"
  using foldl_digits [of b d ds] by (simp add: digits_val_def)

lemma digits_val_append [value_simps]:
  "digits_val b (xs @ ys) = digits_val b xs * b ^ length ys + digits_val b ys"
  using foldl_digits [of b "digits_val b xs" ys] by (simp add: digits_val_def)

lemma digits_val_less: "\<forall>d \<in> set ds. d < b \<Longrightarrow> digits_val b ds < b ^ length ds"
proof (induction ds)
  case Nil
  then show ?case by simp
next
  case (Cons d ds)
  then have "digits_val b ds < b ^ length ds" and "d + 1 \<le> b" by simp_all
  then have "d * b ^ length ds + digits_val b ds < (d + 1) * b ^ length ds"
    by simp
  also have "\<dots> \<le> b * b ^ length ds"
    using \<open>d + 1 \<le> b\<close> by (intro mult_le_mono1)
  finally show ?case by (simp add: digits_val_Cons)
qed

lemma digits_val_inject:
  "\<lbrakk>digits_val b xs = digits_val b ys; length xs = length ys;
    \<forall>d \<in> set xs. d < b; \<forall>d \<in> set ys. d < b\<rbrakk> \<Longrightarrow> xs = ys"
proof (induction xs ys rule: list_induct2')
  case (4 x xs y ys)
  then have lx: "digits_val b xs < b ^ length xs" and ly: "digits_val b ys < b ^ length xs"
    using digits_val_less [of xs b] digits_val_less [of ys b] by simp_all
  have eq: "x * b ^ length xs + digits_val b xs = y * b ^ length xs + digits_val b ys"
    using 4 by (simp add: digits_val_Cons)
  then have "(x * b ^ length xs + digits_val b xs) div b ^ length xs
      = (y * b ^ length xs + digits_val b ys) div b ^ length xs" by simp
  with lx ly have "x = y" by (cases "b ^ length xs = 0") simp_all
  with eq 4 show ?case by simp
qed simp_all

abbreviation be_val :: "byte list \<Rightarrow> nat" where
  "be_val bs \<equiv> digits_val 256 (map unat bs)"

lemma unat_byte_less [simp]: "unat (x :: byte) < 256"
  using unsigned_less [of x] by simp

lemma unat_u32_less [simp]: "unat (x :: u32) < 4294967296"
  using unsigned_less [of x] by simp

lemma be_val_less: "be_val bs < 256 ^ length bs"
  using digits_val_less [of "map unat bs" 256] by simp

lemma be_val_inject: "be_val xs = be_val ys \<Longrightarrow> length xs = length ys \<Longrightarrow> xs = ys"
  using digits_val_inject [of 256 "map unat xs" "map unat ys"]
  by (auto dest!: map_injective simp: inj_def word_unat_eq_iff)

section \<open>Words\<close>

lemma unat_push_bit_ucast_byte:
  "n + 8 \<le> 32 \<Longrightarrow> unat (push_bit n (ucast (x :: byte)) :: u32) = unat x * 2 ^ n"
proof -
  assume n: "n + 8 \<le> 32"
  have "unat x * 2 ^ n < 2 ^ 8 * 2 ^ n" by simp
  also have "\<dots> = 2 ^ (n + 8)" by (simp add: power_add)
  also have "\<dots> \<le> 2 ^ 32" using n by (intro power_increasing) simp_all
  finally have "unat x * 2 ^ n < 2 ^ 32" .
  moreover have "unat (ucast x :: u32) = unat x"
    by (simp add: unsigned_ucast_eq take_bit_nat_eq_self less_trans [OF unat_byte_less])
  ultimately show ?thesis
    unfolding unsigned_push_bit_eq by (simp add: push_bit_eq_mult take_bit_nat_eq_self)
qed

section \<open>Nonce counters\<close>

text \<open>
  A loop that counts a nonce up while it is below a maximum wraps at most once, on its first
  pass, when it starts from the largest word.
\<close>

definition passes_left :: "u32 \<Rightarrow> u32 \<Rightarrow> nat" where
  "passes_left max_nonce n = (if n = - 1 then 2 ^ 32 + 1 else unat max_nonce - unat n)"

lemma passes_left_decreases: "n + 1 < max_nonce \<Longrightarrow> passes_left max_nonce (n + 1) < passes_left max_nonce n"
proof (cases "n = - 1")
  case True
  have "unat max_nonce < 4294967297" using unat_u32_less [of max_nonce] by linarith
  with True show ?thesis by (simp add: passes_left_def)
next
  case False
  then have "unat (n + 1) = unat n + 1"
    by (metis add.commute add_eq_0_iff unatSuc Suc_eq_plus1)
  moreover assume "n + 1 < max_nonce"
  moreover have "n + 1 \<noteq> - 1"
  proof
    assume "n + 1 = - 1"
    with \<open>n + 1 < max_nonce\<close> have "- 1 < max_nonce" by (simp only:)
    then show False using unat_u32_less [of max_nonce]
      by (simp add: word_less_nat_alt unsigned_minus_1_eq_mask mask_eq_exp_minus_1)
  qed
  ultimately show ?thesis
    using False by (simp add: passes_left_def word_less_nat_alt)
qed

lemma u32_less_Suc: "(a :: u32) < m \<Longrightarrow> a < a + 1"
proof -
  assume "a < m"
  then have "unat a < unat m" by (simp add: word_less_nat_alt)
  with unat_u32_less [of m] have "unat a + 1 < 4294967296" by linarith
  then have "unat (a + 1) = unat a + 1" by (simp add: unat_word_ariths)
  then show ?thesis by (simp add: word_less_nat_alt)
qed

lemma u32_step_decreases: "(n :: u32) < m \<Longrightarrow> unat m - unat (n + 1) < unat m - unat n"
  using u32_less_Suc [of n m] by (simp add: word_less_nat_alt)

end
