(* ===== verification/Bytes.thy ===== *)
theory Bytes
  imports Prelude
begin

text \<open>
  Byte order, hexadecimal text and variable-length integers: \<open>swab32\<close>, \<open>be32dec\<close>,
  \<open>le32dec\<close>, \<open>be32enc\<close>, \<open>le32enc\<close> of \<open>miner.h\<close> and \<open>memrev\<close>, \<open>bin2hex\<close>,
  \<open>abin2hex\<close>, \<open>hex2bin\<close>, \<open>varint_encode\<close> of \<open>util.c\<close>. The interface
  \<open>word_codec\<close> states what the components that serialise arrays of words rely on.
\<close>

section \<open>Byte order\<close>

definition swab32 :: "u32 \<Rightarrow> u32" where
  "swab32 v = (push_bit 24 v AND 0xff000000) OR (push_bit 8 v AND 0x00ff0000)
     OR (drop_bit 8 v AND 0x0000ff00) OR (drop_bit 24 v AND 0x000000ff)"

text \<open>The decoders read four bytes at the pointer, the first four of the list.\<close>

definition be32dec :: "byte list \<Rightarrow> u32" where
  "be32dec p = ucast (p ! 3) + push_bit 8 (ucast (p ! 2))
     + push_bit 16 (ucast (p ! 1)) + push_bit 24 (ucast (p ! 0))"

definition le32dec :: "byte list \<Rightarrow> u32" where
  "le32dec p = ucast (p ! 0) + push_bit 8 (ucast (p ! 1))
     + push_bit 16 (ucast (p ! 2)) + push_bit 24 (ucast (p ! 3))"

text \<open>The encoders return the four bytes they store, in memory order.\<close>

definition be32enc :: "u32 \<Rightarrow> byte list" where
  "be32enc x = [ucast (drop_bit 24 x AND 0xff), ucast (drop_bit 16 x AND 0xff),
     ucast (drop_bit 8 x AND 0xff), ucast (x AND 0xff)]"

definition le32enc :: "u32 \<Rightarrow> byte list" where
  "le32enc x = [ucast (x AND 0xff), ucast (drop_bit 8 x AND 0xff),
     ucast (drop_bit 16 x AND 0xff), ucast (drop_bit 24 x AND 0xff)]"

lemma length_be32enc [simp]: "length (be32enc x) = 4"
  by (simp add: be32enc_def)

lemma length_le32enc [simp]: "length (le32enc x) = 4"
  by (simp add: le32enc_def)

lemma le32dec_rev: "length p = 4 \<Longrightarrow> le32dec p = be32dec (rev p)"
  by (auto simp: le32dec_def be32dec_def length_Suc_conv numeral_eq_Suc)

lemma le32enc_rev: "le32enc x = rev (be32enc x)"
  by (simp add: le32enc_def be32enc_def)

lemma unat_shifted_byte:
  "unat (ucast (x :: byte) :: u32) = unat x"
  "unat (push_bit 8 (ucast x) :: u32) = unat x * 256"
  "unat (push_bit 16 (ucast x) :: u32) = unat x * 65536"
  "unat (push_bit 24 (ucast x) :: u32) = unat x * 16777216"
  using unat_push_bit_ucast_byte [of 0 x] unat_push_bit_ucast_byte [of 8 x]
    unat_push_bit_ucast_byte [of 16 x] unat_push_bit_ucast_byte [of 24 x]
  by simp_all

lemma unat_be32dec:
  "unat (be32dec [a, b, c, d]) = be_val [a, b, c, d]"
proof -
  have "unat a < 256" "unat b < 256" "unat c < 256" "unat d < 256" by simp_all
  then show ?thesis
    by (simp add: be32dec_def unat_word_ariths unat_shifted_byte digits_val_Cons
        del: unat_byte_less)
qed

lemma unat_drop_bit_u32: "unat (drop_bit n (x :: u32)) = unat x div 2 ^ n"
  unfolding unsigned_drop_bit_eq by (simp add: drop_bit_eq_div take_bit_nat_eq_self)

lemma unat_low_byte: "unat (ucast ((y :: u32) AND 0xff) :: byte) = unat y mod 256"
proof -
  have "y AND 0xff = take_bit 8 y"
    by (simp add: take_bit_eq_mask mask_eq_exp_minus_1)
  then have "unat (ucast (y AND 0xff) :: byte) = take_bit 8 (unat y)"
    by (simp only: unsigned_ucast_eq unsigned_take_bit_eq) simp
  then show ?thesis by (simp add: take_bit_eq_mod)
qed

lemma nat_split_bytes:
  "(n :: nat) < 4294967296 \<Longrightarrow>
   n div 16777216 mod 256 * 16777216 + n div 65536 mod 256 * 65536
     + n div 256 mod 256 * 256 + n mod 256 = n"
proof -
  assume n: "n < 4294967296"
  have d: "n div 65536 = n div 256 div 256" "n div 16777216 = n div 256 div 256 div 256"
    by (simp_all add: div_mult2_eq [symmetric])
  have "n div 256 div 256 div 256 < 256"
    using n by (simp add: div_mult2_eq [symmetric] less_mult_imp_div_less)
  then have "n div 256 div 256 div 256 mod 256 = n div 256 div 256 div 256" by simp
  then show ?thesis
    unfolding d
    using div_mult_mod_eq [of n 256] div_mult_mod_eq [of "n div 256" 256]
      div_mult_mod_eq [of "n div 256 div 256" 256]
    by linarith
qed

lemma be_val_be32enc: "be_val (be32enc x) = unat x"
proof -
  have "be_val (be32enc x) = unat x div 16777216 mod 256 * 16777216
      + unat x div 65536 mod 256 * 65536 + unat x div 256 mod 256 * 256 + unat x mod 256"
    by (simp add: be32enc_def digits_val_Cons unat_low_byte unat_drop_bit_u32)
  also have "\<dots> = unat x" by (rule nat_split_bytes) simp
  finally show ?thesis .
qed

lemma be32dec_be32enc [simp]: "be32dec (be32enc x) = x"
proof -
  obtain a b c d where e: "be32enc x = [a, b, c, d]" by (simp add: be32enc_def)
  have "unat (be32dec (be32enc x)) = unat x"
    using be_val_be32enc [of x] unfolding e unat_be32dec .
  then show ?thesis by (simp add: word_unat_eq_iff)
qed

lemma be32enc_be32dec:
  assumes "length p = 4"
  shows "be32enc (be32dec p) = p"
proof -
  obtain a b c d where p: "p = [a, b, c, d]"
    using assms by (auto simp: length_Suc_conv numeral_eq_Suc)
  show ?thesis
    by (rule be_val_inject) (simp_all add: be_val_be32enc unat_be32dec p)
qed

lemma le32dec_le32enc [simp]: "le32dec (le32enc x) = x"
  by (simp add: le32dec_rev le32enc_rev)

lemma le32enc_le32dec: "length p = 4 \<Longrightarrow> le32enc (le32dec p) = p"
  by (simp add: le32dec_rev le32enc_rev be32enc_be32dec)

lemma less8_cases:
  "(n::nat) < 8 \<Longrightarrow> n = 0 \<or> n = 1 \<or> n = 2 \<or> n = 3 \<or> n = 4 \<or> n = 5 \<or> n = 6 \<or> n = 7"
  by arith

lemma be32enc_swab32: "be32enc (swab32 v) = le32enc v"
proof -
  have "ucast (drop_bit 24 (swab32 v) AND 0xff) = (ucast (v AND 0xff) :: byte)"
    "ucast (drop_bit 16 (swab32 v) AND 0xff) = (ucast (drop_bit 8 v AND 0xff) :: byte)"
    "ucast (drop_bit 8 (swab32 v) AND 0xff) = (ucast (drop_bit 16 v AND 0xff) :: byte)"
    "ucast (swab32 v AND 0xff) = (ucast (drop_bit 24 v AND 0xff) :: byte)"
    by (rule bit_word_eqI; auto simp: swab32_def bit_simps dest!: less8_cases)+
  then show ?thesis by (simp add: be32enc_def le32enc_def)
qed

lemma swab32_eq: "swab32 v = be32dec (le32enc v)"
  by (metis be32dec_be32enc be32enc_swab32)

lemma le32dec_be32enc: "le32dec (be32enc x) = swab32 x"
  by (simp add: le32dec_rev swab32_eq le32enc_rev)

lemma swab32_swab32 [simp]: "swab32 (swab32 v) = v"
  by (simp add: swab32_eq [of "swab32 v"] le32enc_rev be32enc_swab32)

section \<open>Arrays of words in memory\<close>

text \<open>
  \<open>uint32_t\<close> arrays are read and written word by word; a trailing incomplete word is not
  touched.
\<close>

fun words_of :: "(byte list \<Rightarrow> u32) \<Rightarrow> byte list \<Rightarrow> u32 list" where
  "words_of dec (a # b # c # d # bs) = dec [a, b, c, d] # words_of dec bs"
| "words_of dec bs = []"

definition bytes_of :: "(u32 \<Rightarrow> byte list) \<Rightarrow> u32 list \<Rightarrow> byte list" where
  "bytes_of enc ws = concat (map enc ws)"

lemma bytes_of_simps [simp]:
  "bytes_of enc [] = []"
  "bytes_of enc (w # ws) = enc w @ bytes_of enc ws"
  "bytes_of enc (vs @ ws) = bytes_of enc vs @ bytes_of enc ws"
  by (simp_all add: bytes_of_def)

lemma length_words_of [layout_simps]: "length (words_of dec bs) = length bs div 4"
  by (induction dec bs rule: words_of.induct) simp_all

lemma words_of_append: "length xs = 4 * n \<Longrightarrow> words_of dec (xs @ ys) = words_of dec xs @ words_of dec ys"
proof (induction n arbitrary: xs)
  case (Suc n)
  then obtain a b c d zs where "xs = a # b # c # d # zs" and "length zs = 4 * n"
    by (auto simp: length_Suc_conv numeral_eq_Suc)
  with Suc.IH [of zs] show ?case by simp
qed simp

locale word_codec =
  fixes enc :: "u32 \<Rightarrow> byte list" and dec :: "byte list \<Rightarrow> u32"
  assumes enc_length: "length (enc x) = 4"
    and dec_enc: "dec (enc x) = x"
    and enc_dec: "length p = 4 \<Longrightarrow> enc (dec p) = p"
begin

lemma length_bytes_of: "length (bytes_of enc ws) = 4 * length ws"
  by (induction ws) (simp_all add: enc_length)

lemma words_of_enc: "words_of dec (enc x @ bs) = x # words_of dec bs"
proof -
  obtain a b c d where e: "enc x = [a, b, c, d]"
    using enc_length [of x] by (auto simp: length_Suc_conv numeral_eq_Suc)
  have "dec [a, b, c, d] = x" using dec_enc [of x] by (simp add: e)
  then show ?thesis by (simp add: e)
qed

lemma words_of_bytes_of: "words_of dec (bytes_of enc ws) = ws"
  by (induction ws) (simp_all add: words_of_enc)

lemma bytes_of_words_of: "length bs = 4 * n \<Longrightarrow> bytes_of enc (words_of dec bs) = bs"
proof (induction n arbitrary: bs)
  case (Suc n)
  then obtain a b c d zs where "bs = a # b # c # d # zs" and "length zs = 4 * n"
    by (auto simp: length_Suc_conv numeral_eq_Suc)
  with Suc.IH [of zs] show ?case by (simp add: enc_dec)
qed simp

lemma bytes_of_inject: "bytes_of enc vs = bytes_of enc ws \<longleftrightarrow> vs = ws"
  by (metis words_of_bytes_of)

lemma enc_inject: "enc x = enc y \<longleftrightarrow> x = y"
  by (metis dec_enc)

lemma dec_inject: "length p = 4 \<Longrightarrow> length q = 4 \<Longrightarrow> dec p = dec q \<longleftrightarrow> p = q"
  by (metis enc_dec)

end

interpretation be32: word_codec be32enc be32dec
  by unfold_locales (simp_all add: be32enc_be32dec)

interpretation le32: word_codec le32enc le32dec
  by unfold_locales (simp_all add: le32enc_le32dec)

text \<open>Reading words in the opposite byte order swaps each of them.\<close>

lemma words_of_swapped: "words_of le32dec (bytes_of be32enc ws) = map swab32 ws"
proof (induction ws)
  case (Cons w ws)
  have "words_of le32dec (be32enc w @ bs) = swab32 w # words_of le32dec bs" for bs
    using le32.words_of_enc [of "swab32 w" bs]
    by (metis le32enc_le32dec length_be32enc le32dec_be32enc)
  with Cons.IH show ?case by simp
qed simp

lemma be_val_bytes_of [value_simps]:
  "be_val (bytes_of be32enc ws) = digits_val 4294967296 (map unat ws)"
  by (induction ws) (simp_all add: digits_val_Cons digits_val_append be_val_be32enc be32.length_bytes_of power_mult)

lemma bytes_of_rev_words: "length p = 4 * n \<Longrightarrow> bytes_of be32enc (rev (words_of le32dec p)) = rev p"
proof -
  have "bytes_of be32enc (rev ws) = rev (bytes_of le32enc ws)" for ws
    by (induction ws) (simp_all add: le32enc_rev)
  moreover assume "length p = 4 * n"
  ultimately show ?thesis by (simp add: le32.bytes_of_words_of)
qed

end
