(* ===== verification/HexText.thy ===== *)
theory HexText
  imports Bytes
begin

text \<open>
  \<open>memrev\<close>, \<open>bin2hex\<close>, \<open>abin2hex\<close>, \<open>hex2bin\<close> and \<open>varint_encode\<close> of
  \<open>util.c\<close>: reversal in place, hexadecimal text in both directions and Bitcoin's
  variable-length integers. C strings are \<open>string\<close>s without a NUL, a null pointer is
  \<open>None\<close>.
\<close>

section \<open>Reversal in place\<close>

text \<open>
  The two pointers are the indices \<open>i\<close> and \<open>j\<close>; for an empty buffer the source's
  \<open>q = p - 1\<close> is below \<open>p\<close> and the loop does not run, as with \<open>j = 0\<close> here.
\<close>

function memrev_loop :: "byte list \<Rightarrow> nat \<Rightarrow> nat \<Rightarrow> byte list" where
  "memrev_loop p i j = (if i < j then memrev_loop (p[i := p ! j, j := p ! i]) (i + 1) (j - 1) else p)"
  by pat_completeness auto
termination by (relation "measure (\<lambda>(p, i, j). j - i)") auto

definition memrev :: "byte list \<Rightarrow> nat \<Rightarrow> byte list" where
  "memrev p len = memrev_loop p 0 (len - 1)"

declare memrev_loop.simps [simp del]

lemma length_memrev_loop [layout_simps]: "length (memrev_loop p i j) = length p"
proof (induction p i j rule: memrev_loop.induct)
  case (1 p i j)
  then show ?case by (subst memrev_loop.simps) simp
qed

lemma nth_memrev_loop:
  "j < length p \<Longrightarrow> k < length p \<Longrightarrow>
   memrev_loop p i j ! k = (if i \<le> k \<and> k \<le> j then p ! (i + j - k) else p ! k)"
proof (induction p i j rule: memrev_loop.induct)
  case (1 p i j)
  show ?case
  proof (cases "i < j")
    case True
    with 1 have "memrev_loop p i j ! k
        = (let q = p[i := p ! j, j := p ! i] in
           if i + 1 \<le> k \<and> k \<le> j - 1 then q ! (i + 1 + (j - 1) - k) else q ! k)"
      by (subst memrev_loop.simps) (simp add: Let_def)
    with True 1(2,3) show ?thesis
      by (auto simp: Let_def nth_list_update)
  next
    case False
    then show ?thesis by (subst memrev_loop.simps) (auto dest: le_antisym)
  qed
qed

lemma memrev_prefix:
  assumes "len \<le> length p"
  shows "memrev p len = rev (take len p) @ drop len p"
proof (cases "len = 0")
  case True
  then show ?thesis by (simp add: memrev_def memrev_loop.simps)
next
  case False
  with assms have "len - 1 < length p" by simp
  with assms False show ?thesis
    by (intro nth_equalityI)
      (auto simp: memrev_def length_memrev_loop nth_memrev_loop nth_append rev_nth min_def)
qed

section \<open>Hexadecimal text\<close>

definition hexdigit :: "nat \<Rightarrow> char" where
  "hexdigit n = ''0123456789abcdef'' ! n"

text \<open>\<open>sprintf("%02x")\<close> of one byte.\<close>

definition fmt_02x :: "byte \<Rightarrow> string" where
  "fmt_02x b = [hexdigit (unat b div 16), hexdigit (unat b mod 16)]"

definition bin2hex :: "byte list \<Rightarrow> nat \<Rightarrow> string" where
  "bin2hex p len = concat (map (\<lambda>i. fmt_02x (p ! i)) [0..<len])"

definition abin2hex :: "bool \<Rightarrow> byte list \<Rightarrow> nat \<Rightarrow> string option" where
  "abin2hex malloc_ok p len = (if malloc_ok then Some (bin2hex p len) else None)"

text \<open>The three ranges of the \<open>if\<close> chain in \<open>hex2bin\<close>.\<close>

definition hex_nibble :: "char \<Rightarrow> byte option" where
  "hex_nibble ch = (let c = of_char ch :: nat in
     if 48 \<le> c \<and> c \<le> 57 then Some (of_nat (c - 48))
     else if 65 \<le> c \<and> c \<le> 70 then Some (of_nat (10 + (c - 65)))
     else if 97 \<le> c \<and> c \<le> 102 then Some (of_nat (10 + (c - 97)))
     else None)"

fun hex2bin_loop :: "byte list \<Rightarrow> string \<Rightarrow> nat \<Rightarrow> bool \<times> byte list" where
  "hex2bin_loop p [] i = (True, p)"
| "hex2bin_loop p (c # cs) i =
     (case hex_nibble c of
        None \<Rightarrow> (False, p)
      | Some nibble \<Rightarrow>
          hex2bin_loop (p[i div 2 := p ! (i div 2) OR push_bit ((1 - i mod 2) * 4) nibble]) cs (i + 1))"

text \<open>The result and the buffer afterwards; the buffer is only cleared once the lengths fit.\<close>

definition hex2bin :: "byte list \<Rightarrow> string option \<Rightarrow> nat \<Rightarrow> bool \<times> byte list" where
  "hex2bin p hexstr len =
     (case hexstr of
        None \<Rightarrow> (False, p)
      | Some s \<Rightarrow>
          if length s mod 2 \<noteq> 0 then (False, p)
          else if len < length s div 2 then (False, p)
          else hex2bin_loop (memcpy_at p 0 (replicate len 0)) s 0)"

text \<open>What a hexadecimal string denotes, two digits per byte.\<close>

fun unhex :: "string \<Rightarrow> byte list option" where
  "unhex [] = Some []"
| "unhex [c] = None"
| "unhex (c # d # cs) =
     (case (hex_nibble c, hex_nibble d, unhex cs) of
        (Some h, Some l, Some bs) \<Rightarrow> Some ((16 * h + l) # bs)
      | _ \<Rightarrow> None)"

lemma hex_nibble_less: "hex_nibble c = Some n \<Longrightarrow> unat n < 16"
  by (auto simp: hex_nibble_def Let_def unat_of_nat simp del: of_nat_diff of_nat_add split: if_splits)

lemma hex_nibble_hexdigit: "n < 16 \<Longrightarrow> hex_nibble (hexdigit n) = Some (of_nat n)"
proof -
  assume "n < 16"
  then have "n \<in> set [0..<16]" by simp
  moreover have "\<forall>n \<in> set [0..<16]. hex_nibble (hexdigit n) = Some (of_nat n)"
    by (simp add: upt_rec hexdigit_def hex_nibble_def Let_def)
  ultimately show ?thesis by blast
qed

lemma length_unhex: "unhex s = Some bs \<Longrightarrow> length s = 2 * length bs"
  by (induction s arbitrary: bs rule: unhex.induct) (auto split: option.splits)

lemma unhex_append:
  "unhex s = Some bs \<Longrightarrow> unhex (s @ t) = map_option (\<lambda>cs. bs @ cs) (unhex t)"
  by (induction s arbitrary: bs rule: unhex.induct)
    (auto split: option.splits simp: option.map_comp comp_def intro!: option.map_ident_strong [symmetric])

lemma unhex_Some_iff: "(\<exists>bs. unhex s = Some bs) \<longleftrightarrow> even (length s) \<and> (\<forall>c \<in> set s. hex_nibble c \<noteq> None)"
  by (induction s rule: unhex.induct) (auto split: option.splits)

lemma nibbles_join:
  assumes "unat l < 16"
  shows "push_bit 4 h OR l = 16 * h + (l :: byte)"
proof -
  have l: "take_bit 4 l = l"
    using assms by (simp add: word_unat_eq_iff unsigned_take_bit_eq take_bit_nat_eq_self)
  have "push_bit 4 h AND take_bit 4 l = 0"
    by (rule bit_word_eqI) (auto simp: bit_simps)
  then have "push_bit 4 h + l = push_bit 4 h OR l"
    unfolding l by (rule disjunctive_add_eq_or)
  then show ?thesis by (simp add: push_bit_eq_mult mult.commute)
qed

lemma hex2bin_loop_pair:
  "hex2bin_loop (ds @ replicate (Suc k) 0 @ r) (c # d # cs) (2 * length ds) =
     (case (hex_nibble c, hex_nibble d) of
        (Some h, Some l) \<Rightarrow>
          hex2bin_loop ((ds @ [16 * h + l]) @ replicate k 0 @ r) cs (2 * length (ds @ [16 * h + l]))
      | (Some h, None) \<Rightarrow> (False, ds @ [16 * h] @ replicate k 0 @ r)
      | (None, _) \<Rightarrow> (False, ds @ replicate (Suc k) 0 @ r))"
proof -
  have odd: "Suc (length ds * 2) mod 2 = 1" by presburger
  have join: "h * 16 OR l = h * 16 + l" if "hex_nibble d = Some l" for h l
    using nibbles_join [of l h] hex_nibble_less [OF that]
    by (simp add: push_bit_eq_mult mult.commute)
  show ?thesis
    by (auto split: option.splits
        simp: join odd list_update_append nth_append push_bit_eq_mult mult.commute)
qed

lemma hex2bin_loop_Some:
  "\<lbrakk>unhex s = Some bs; length bs \<le> k\<rbrakk> \<Longrightarrow>
   hex2bin_loop (ds @ replicate k 0 @ r) s (2 * length ds)
     = (True, ds @ bs @ replicate (k - length bs) 0 @ r)"
proof (induction s arbitrary: ds bs k rule: unhex.induct)
  case (3 c d cs)
  then obtain h l bs' where n: "hex_nibble c = Some h" "hex_nibble d = Some l"
      "unhex cs = Some bs'" and bs: "bs = (16 * h + l) # bs'"
    by (auto split: option.splits)
  with 3(3) obtain k' where k: "k = Suc k'" and "length bs' \<le> k'"
    by (cases k) auto
  then have "hex2bin_loop ((ds @ [16 * h + l]) @ replicate k' 0 @ r) cs (2 * length (ds @ [16 * h + l]))
      = (True, (ds @ [16 * h + l]) @ bs' @ replicate (k' - length bs') 0 @ r)"
    by (intro 3(1) n) auto
  then show ?case
    unfolding k hex2bin_loop_pair by (simp add: n bs)
qed simp_all

lemma hex2bin_loop_None:
  "\<lbrakk>unhex s = None; even (length s); length s \<le> 2 * k\<rbrakk> \<Longrightarrow>
   fst (hex2bin_loop (ds @ replicate k 0 @ r) s (2 * length ds)) = False"
proof (induction s arbitrary: ds k rule: unhex.induct)
  case (3 c d cs)
  from 3(4) obtain k' where k: "k = Suc k'" and le: "length cs \<le> 2 * k'"
    by (cases k) auto
  have "fst (hex2bin_loop ((ds @ [x]) @ replicate k' 0 @ r) cs (2 * length (ds @ [x]))) = False"
    if "hex_nibble c = Some h" "hex_nibble d = Some l" for x h l
    using 3(2,3) that le by (intro 3(1)) (auto split: option.splits)
  then show ?case
    unfolding k hex2bin_loop_pair by (auto split: option.splits)
qed simp_all

lemma hex2bin_unfold:
  "len \<le> length p \<Longrightarrow> even (length s) \<Longrightarrow> length s div 2 \<le> len \<Longrightarrow>
   hex2bin p (Some s) len = hex2bin_loop ([] @ replicate len 0 @ drop len p) s (2 * length ([] :: byte list))"
  by (simp add: hex2bin_def memcpy_at_def)

text \<open>The hexadecimal text of a buffer reads back as the buffer.\<close>

lemma bin2hex_take: "n \<le> length p \<Longrightarrow> bin2hex p n = concat (map fmt_02x (take n p))"
proof -
  assume "n \<le> length p"
  then have "map (\<lambda>i. fmt_02x (p ! i)) [0..<n] = map fmt_02x (take n p)"
    by (intro nth_equalityI) simp_all
  then show ?thesis by (simp add: bin2hex_def)
qed

lemma length_bin2hex [layout_simps]: "length (bin2hex p n) = 2 * n"
  by (simp add: bin2hex_def length_concat comp_def fmt_02x_def sum_list_triv)

lemma unhex_fmt: "unhex (concat (map fmt_02x bs)) = Some bs"
proof (induction bs)
  case (Cons b bs)
  have "unat b div 16 < 16" by (simp add: less_mult_imp_div_less)
  then have "hex_nibble (hexdigit (unat b div 16)) = Some (of_nat (unat b div 16))"
    "hex_nibble (hexdigit (unat b mod 16)) = Some (of_nat (unat b mod 16))"
    by (simp_all add: hex_nibble_hexdigit)
  moreover have "(16 * of_nat (unat b div 16) + of_nat (unat b mod 16) :: byte) = b"
  proof -
    have "(16 * of_nat (unat b div 16) + of_nat (unat b mod 16) :: byte)
        = of_nat (16 * (unat b div 16) + unat b mod 16)" by (simp only: of_nat_add of_nat_mult of_nat_numeral)
    then show ?thesis by (simp only: mult_div_mod_eq) simp
  qed
  ultimately show ?case
    using Cons.IH by (simp add: fmt_02x_def)
qed simp

section \<open>Variable-length integers\<close>

text \<open>The bytes \<open>n & 0xff\<close>, \<open>n >> 8\<close>, \<dots> stored by the loops, lowest first.\<close>

fun le_bytes :: "nat \<Rightarrow> u64 \<Rightarrow> byte list" where
  "le_bytes 0 n = []"
| "le_bytes (Suc k) n = ucast (n AND 0xff) # le_bytes k (drop_bit 8 n)"

text \<open>The bytes written to \<open>p\<close>; the returned count is their number.\<close>

definition varint_encode :: "u64 \<Rightarrow> byte list" where
  "varint_encode n =
     (if n < 0xfd then [ucast n]
      else if n \<le> 0xffff then 0xfd # [ucast (n AND 0xff), ucast (drop_bit 8 n)]
      else if n \<le> 0xffffffff then 0xfe # le_bytes 4 n
      else 0xff # le_bytes 8 n)"

text \<open>The documented format, read back: a marker byte and a little-endian number.\<close>

definition le_val :: "byte list \<Rightarrow> nat" where
  "le_val bs = be_val (rev bs)"

definition varint_decode :: "byte list \<Rightarrow> (nat \<times> byte list) option" where
  "varint_decode p =
     (case p of
        [] \<Rightarrow> None
      | m # r \<Rightarrow>
          let w = (if m = 0xff then 8 else if m = 0xfe then 4 else if m = 0xfd then 2 else 0) in
          if w = 0 then Some (unat m, r)
          else if length r < w then None
          else Some (le_val (take w r), drop w r))"

lemma length_le_bytes [simp]: "length (le_bytes k n) = k"
  by (induction k arbitrary: n) simp_all

lemma le_val_Cons: "le_val (b # bs) = unat b + 256 * le_val bs"
  by (simp add: le_val_def digits_val_append digits_val_Cons)

lemma le_val_Nil [simp]: "le_val [] = 0"
  by (simp add: le_val_def)

lemma u64_low_mask: "(y :: u64) AND 0xff = take_bit 8 y"
  by (simp add: take_bit_eq_mask mask_eq_exp_minus_1)

lemma unat_u64_low_byte: "unat (ucast ((y :: u64) AND 0xff) :: byte) = unat y mod 256"
proof -
  note u64_low_mask [of y]
  then have "unat (ucast (y AND 0xff) :: byte) = take_bit 8 (unat y)"
    by (simp only: unsigned_ucast_eq unsigned_take_bit_eq) simp
  then show ?thesis by (simp add: take_bit_eq_mod)
qed

lemma unat_drop_bit_u64: "unat (drop_bit n (x :: u64)) = unat x div 2 ^ n"
proof -
  have "unat x < 2 ^ 64" using unsigned_less [of x] by simp
  then show ?thesis
    unfolding unsigned_drop_bit_eq by (simp add: drop_bit_eq_div take_bit_nat_eq_self)
qed

lemma le_val_le_bytes: "le_val (le_bytes k n) = unat n mod 256 ^ k"
proof (induction k arbitrary: n)
  case (Suc k)
  have "le_val (le_bytes (Suc k) n) = unat n mod 256 + 256 * (unat n div 256 mod 256 ^ k)"
    by (simp add: le_val_Cons unat_u64_low_byte Suc.IH unat_drop_bit_u64)
  also have "\<dots> = unat n mod 256 ^ Suc k"
    by (simp add: mod_mult2_eq)
  finally show ?case .
qed simp

lemma ucast_u64_byte_small: "n < 256 \<Longrightarrow> unat (ucast (n :: u64) :: byte) = unat n"
  by (simp add: unsigned_ucast_eq word_less_nat_alt take_bit_nat_eq_self)

lemma varint_decode_short: "b < 0xfd \<Longrightarrow> varint_decode (b # r) = Some (unat b, r)"
  by (auto simp: varint_decode_def Let_def word_less_nat_alt)

lemma varint_decode_long:
  "\<lbrakk>length bs = w; (m, w) \<in> {(0xfd, 2), (0xfe, 4), (0xff, 8)}\<rbrakk> \<Longrightarrow>
   varint_decode (m # bs @ r) = Some (le_val bs, r)"
  by (auto simp: varint_decode_def Let_def)

section \<open>What the components rely on\<close>

lemma hex2bin_iff:
  assumes "len \<le> length p"
  shows "hex2bin p (Some s) len = (True, q) \<longleftrightarrow>
    (\<exists>bs. unhex s = Some bs \<and> length bs \<le> len
        \<and> q = bs @ replicate (len - length bs) 0 @ drop len p)"
proof (cases "even (length s) \<and> length s div 2 \<le> len")
  case True
  show ?thesis
  proof (cases "unhex s")
    case None
    have "fst (hex2bin p (Some s) len) = False"
      unfolding hex2bin_unfold [OF assms conjunct1 [OF True] conjunct2 [OF True]]
      using True by (intro hex2bin_loop_None None) auto
    with None show ?thesis by (cases "hex2bin p (Some s) len") simp
  next
    case (Some bs)
    with True have "length bs \<le> len" by (auto dest: length_unhex)
    then have "hex2bin p (Some s) len = (True, bs @ replicate (len - length bs) 0 @ drop len p)"
      unfolding hex2bin_unfold [OF assms conjunct1 [OF True] conjunct2 [OF True]]
      using hex2bin_loop_Some [OF Some, of len "[]"] by simp
    with Some \<open>length bs \<le> len\<close> show ?thesis by auto
  qed
next
  case False
  then show ?thesis by (auto simp: hex2bin_def dest: length_unhex)
qed

text \<open>\<open>hex2bin\<close> accepts exactly the even-length hexadecimal strings that fit, fills the
  front of the buffer with the bytes they denote and the rest with zeros.\<close>

theorem hex2bin_spec:
  assumes "len \<le> length p"
  shows "hex2bin p (Some s) len = (True, q) \<longleftrightarrow>
    (\<exists>bs. unhex s = Some bs \<and> length bs \<le> len
        \<and> q = bs @ replicate (len - length bs) 0 @ drop len p)"
  using assms by (rule hex2bin_iff)

lemma hex2bin_spec_witness:
  "hex2bin [7, 7, 7] (Some ''A0f'') 3 \<noteq> (True, [0xA0, 0xf0, 0]) \<and>
   hex2bin [7, 7, 7] (Some ''A0ff'') 3 = (True, [0xA0, 0xff, 0])"
  using hex2bin_spec [of 3 "[7, 7, 7]" "''A0f''"] hex2bin_spec [of 3 "[7, 7, 7]" "''A0ff''"]
  by (simp add: hex_nibble_def numeral_eq_Suc)

text \<open>A buffer printed by \<open>bin2hex\<close> is read back unchanged by \<open>hex2bin\<close>.\<close>

theorem hex_roundtrip:
  assumes "length p = length bs"
  shows "hex2bin p (Some (bin2hex bs (length bs))) (length bs) = (True, bs)"
proof -
  have "unhex (bin2hex bs (length bs)) = Some bs"
    by (simp add: bin2hex_take unhex_fmt)
  then have "hex2bin_loop ([] @ replicate (length bs) 0 @ []) (bin2hex bs (length bs)) (2 * length ([] :: byte list))
      = (True, [] @ bs @ replicate 0 0 @ [])"
    using hex2bin_loop_Some [of _ bs "length bs" "[]" "[]"] by simp
  then show ?thesis
    using assms by (subst hex2bin_unfold) (simp_all add: length_bin2hex)
qed

lemma hex_roundtrip_witness: "hex2bin [0, 9] (Some (bin2hex [0xde, 0x0f] 2)) 2 = (True, [0xde, 0x0f])"
  using hex_roundtrip [of "[0, 9]" "[0xde, 0x0f]"] by (simp add: numeral_2_eq_2)

text \<open>Variable-length integers are self-delimiting: whatever follows, decoding gives
  back the number and the rest.\<close>

theorem varint_roundtrip: "varint_decode (varint_encode n @ r) = Some (unat n, r)"
proof -
  have lim: "unat n < 256 ^ 8" using unsigned_less [of n] by simp
  have long: "le_val (le_bytes k n) = unat n" if "unat n < 256 ^ k" for k
    using that by (simp add: le_val_le_bytes)
  consider "n < 0xfd" | "\<not> n < 0xfd" "n \<le> 0xffff" | "\<not> n \<le> 0xffff" "n \<le> 0xffffffff"
    | "\<not> n \<le> 0xffffffff" by linarith
  then show ?thesis
  proof cases
    case 1
    then have "n < 256" by (simp add: word_less_nat_alt)
    then have u: "unat (ucast n :: byte) = unat n" by (rule ucast_u64_byte_small)
    with 1 show ?thesis
      by (simp add: varint_encode_def varint_decode_short word_less_nat_alt)
  next
    case 2
    then have "unat (drop_bit 8 n) < 256"
      by (simp add: word_le_nat_alt unat_drop_bit_u64 less_mult_imp_div_less)
    then have hi: "drop_bit 8 n AND 0xff = drop_bit 8 n"
      unfolding u64_low_mask word_unat_eq_iff unsigned_take_bit_eq
      by (simp add: take_bit_nat_eq_self)
    from 2 have "varint_encode n = 0xfd # le_bytes 2 n"
      by (simp add: varint_encode_def numeral_2_eq_2 hi)
    with 2 show ?thesis
      by (simp add: varint_decode_long [where w = 2] long word_le_nat_alt)
  next
    case 3
    then have "varint_encode n = 0xfe # le_bytes 4 n"
      by (auto simp: varint_encode_def word_le_nat_alt word_less_nat_alt)
    with 3 show ?thesis
      by (simp add: varint_decode_long [where w = 4] long word_le_nat_alt)
  next
    case 4
    then have "varint_encode n = 0xff # le_bytes 8 n"
      by (auto simp: varint_encode_def word_le_nat_alt word_less_nat_alt)
    with lim show ?thesis
      by (simp add: varint_decode_long [where w = 8] long)
  qed
qed

end
