(* ===== verification/Sha256.thy ===== *)
theory Sha256
  imports Bytes
begin

text \<open>
  The portable SHA-256 of \<open>sha2.c\<close>: \<open>sha256_init\<close>, \<open>sha256_transform\<close> with
  its rotating register file, and \<open>sha256d\<close>, the double hash of a byte string with its
  padding loop. A reference definition in the manner of FIPS 180-4 is given first; the code
  is proved equal to it.
\<close>

section \<open>Constants and elementary functions\<close>

definition sha256_h :: "u32 list" where
  "sha256_h = [0x6a09e667, 0xbb67ae85, 0x3c6ef372, 0xa54ff53a,
     0x510e527f, 0x9b05688c, 0x1f83d9ab, 0x5be0cd19]"

text \<open>The table has four constants to a row.\<close>

definition sha256_k :: "u32 list" where
  "sha256_k = concat [
     [0x428a2f98, 0x71374491, 0xb5c0fbcf, 0xe9b5dba5],
     [0x3956c25b, 0x59f111f1, 0x923f82a4, 0xab1c5ed5],
     [0xd807aa98, 0x12835b01, 0x243185be, 0x550c7dc3],
     [0x72be5d74, 0x80deb1fe, 0x9bdc06a7, 0xc19bf174],
     [0xe49b69c1, 0xefbe4786, 0x0fc19dc6, 0x240ca1cc],
     [0x2de92c6f, 0x4a7484aa, 0x5cb0a9dc, 0x76f988da],
     [0x983e5152, 0xa831c66d, 0xb00327c8, 0xbf597fc7],
     [0xc6e00bf3, 0xd5a79147, 0x06ca6351, 0x14292967],
     [0x27b70a85, 0x2e1b2138, 0x4d2c6dfc, 0x53380d13],
     [0x650a7354, 0x766a0abb, 0x81c2c92e, 0x92722c85],
     [0xa2bfe8a1, 0xa81a664b, 0xc24b8b70, 0xc76c51a3],
     [0xd192e819, 0xd6990624, 0xf40e3585, 0x106aa070],
     [0x19a4c116, 0x1e376c08, 0x2748774c, 0x34b0bcb5],
     [0x391c0cb3, 0x4ed8aa4a, 0x5b9cca4f, 0x682e6ff3],
     [0x748f82ee, 0x78a5636f, 0x84c87814, 0x8cc70208],
     [0x90befffa, 0xa4506ceb, 0xbef9a3f7, 0xc67178f2]]"

definition sha_Ch :: "u32 \<Rightarrow> u32 \<Rightarrow> u32 \<Rightarrow> u32" where
  "sha_Ch x y z = (x AND (y XOR z)) XOR z"

definition sha_Maj :: "u32 \<Rightarrow> u32 \<Rightarrow> u32 \<Rightarrow> u32" where
  "sha_Maj x y z = (x AND (y OR z)) OR (y AND z)"

definition sha_ROTR :: "u32 \<Rightarrow> nat \<Rightarrow> u32" where
  "sha_ROTR x n = drop_bit n x OR push_bit (32 - n) x"

definition sha_S0 :: "u32 \<Rightarrow> u32" where
  "sha_S0 x = sha_ROTR x 2 XOR sha_ROTR x 13 XOR sha_ROTR x 22"

definition sha_S1 :: "u32 \<Rightarrow> u32" where
  "sha_S1 x = sha_ROTR x 6 XOR sha_ROTR x 11 XOR sha_ROTR x 25"

definition sha_s0 :: "u32 \<Rightarrow> u32" where
  "sha_s0 x = sha_ROTR x 7 XOR sha_ROTR x 18 XOR drop_bit 3 x"

definition sha_s1 :: "u32 \<Rightarrow> u32" where
  "sha_s1 x = sha_ROTR x 17 XOR sha_ROTR x 19 XOR drop_bit 10 x"

section \<open>The block function\<close>

definition sha256_init :: "u32 list \<Rightarrow> u32 list" where
  "sha256_init state = memcpy_at state 0 sha256_h"

text \<open>The macro \<open>RND\<close>: the registers are named by their index in \<open>S\<close>.\<close>

definition RND :: "u32 list \<Rightarrow> nat \<Rightarrow> nat \<Rightarrow> nat \<Rightarrow> nat \<Rightarrow> nat \<Rightarrow> nat \<Rightarrow> nat \<Rightarrow> nat \<Rightarrow> u32 \<Rightarrow> u32 list" where
  "RND S a b c d e f g h k =
     (let t0 = S ! h + sha_S1 (S ! e) + sha_Ch (S ! e) (S ! f) (S ! g) + k;
          t1 = sha_S0 (S ! a) + sha_Maj (S ! a) (S ! b) (S ! c)
      in S[d := S ! d + t0, h := t0 + t1])"

definition RNDr :: "u32 list \<Rightarrow> u32 list \<Rightarrow> nat \<Rightarrow> u32 list" where
  "RNDr S W i =
     RND S ((64 - i) mod 8) ((65 - i) mod 8) ((66 - i) mod 8) ((67 - i) mod 8)
       ((68 - i) mod 8) ((69 - i) mod 8) ((70 - i) mod 8) ((71 - i) mod 8)
       (W ! i + sha256_k ! i)"

text \<open>The schedule loop \<open>for (; i < n; i += 2)\<close>, two words per iteration.\<close>

definition sched_step :: "u32 list \<Rightarrow> nat \<Rightarrow> u32 list" where
  "sched_step W i =
     (let W' = W[i := sha_s1 (W ! (i - 2)) + W ! (i - 7) + sha_s0 (W ! (i - 15)) + W ! (i - 16)]
      in W'[i + 1 := sha_s1 (W' ! (i - 1)) + W' ! (i - 6) + sha_s0 (W' ! (i - 14)) + W' ! (i - 15)])"

function sched_loop :: "u32 list \<Rightarrow> nat \<Rightarrow> nat \<Rightarrow> u32 list" where
  "sched_loop W i n = (if i < n then sched_loop (sched_step W i) (i + 2) n else W)"
  by pat_completeness auto
termination by (relation "measure (\<lambda>(W, i, n). n - i)") auto

text \<open>
  The rounds \<open>RNDr(S, W, lo)\<close> to \<open>RNDr(S, W, hi - 1)\<close>, written out one by one in
  the source.
\<close>

definition rounds :: "u32 list \<Rightarrow> u32 list \<Rightarrow> nat \<Rightarrow> nat \<Rightarrow> u32 list" where
  "rounds S W lo hi = foldl (\<lambda>S i. RNDr S W i) S [lo..<hi]"

text \<open>
  The local array \<open>W\<close> is uninitialised from index 16 on; the loop writes each of those words
  before it is read, so their first content (zero here) does not matter.
\<close>

definition sha256_transform :: "u32 list \<Rightarrow> u32 list \<Rightarrow> bool \<Rightarrow> u32 list" where
  "sha256_transform state block swap =
     (let W0 = (if swap then map swab32 (take 16 block) else take 16 block) @ replicate 48 0;
          W = sched_loop W0 16 64;
          S = rounds (take 8 state) W 0 64
      in map2 (+) (take 8 state) S @ drop 8 state)"

section \<open>The double hash of a byte string\<close>

definition sha256d_hash1 :: "u32 list" where
  "sha256d_hash1 = [
     0x00000000, 0x00000000, 0x00000000, 0x00000000,
     0x00000000, 0x00000000, 0x00000000, 0x00000000,
     0x80000000, 0x00000000, 0x00000000, 0x00000000,
     0x00000000, 0x00000000, 0x00000000, 0x00000100]"

text \<open>
  One pass of the padding loop: the bytes of \<open>T\<close>, then its words after \<open>be32dec\<close> in
  place and the store of the bit length. \<open>8 * len\<close> is an \<open>int\<close> product.
\<close>

definition sha256d_block :: "byte list \<Rightarrow> int \<Rightarrow> int \<Rightarrow> byte list \<Rightarrow> u32 list" where
  "sha256d_block data len r T =
     (let T0 = (if r < 64 then replicate 64 0 else T);
          n = nat (if r > 64 then 64 else if r < 0 then 0 else r);
          T1 = memcpy_at T0 0 (take n (drop (nat (len - r)) data));
          T2 = (if 0 \<le> r \<and> r < 64 then T1[nat r := 0x80] else T1);
          W = words_of be32dec T2
      in if r < 56 then W[15 := word_of_int (8 * len)] else W)"

function sha256d_loop :: "byte list \<Rightarrow> int \<Rightarrow> int \<Rightarrow> u32 list \<Rightarrow> byte list \<Rightarrow> u32 list" where
  "sha256d_loop data len r S T =
     (if r > -9
      then let W = sha256d_block data len r T
           in sha256d_loop data len (r - 64) (sha256_transform S W False) (bytes_of le32enc W)
      else S)"
  by pat_completeness auto
termination by (relation "measure (\<lambda>(data, len, r, S, T). nat (r + 9))") (auto simp: Let_def)

definition sha256d :: "byte list \<Rightarrow> int \<Rightarrow> byte list" where
  "sha256d data len =
     (let S = sha256d_loop data len len (sha256_init (replicate 16 0)) (replicate 64 0);
          S' = memcpy_at S 8 (drop 8 sha256d_hash1);
          T = sha256_transform (sha256_init (replicate 16 0)) S' False
      in bytes_of be32enc (take 8 T))"

declare sched_loop.simps [simp del] sha256d_loop.simps [simp del]

section \<open>Reference definition\<close>

text \<open>The functions, schedule, round and padding as the standard writes them.\<close>

definition fips_Ch :: "u32 \<Rightarrow> u32 \<Rightarrow> u32 \<Rightarrow> u32" where
  "fips_Ch x y z = (x AND y) XOR (NOT x AND z)"

definition fips_Maj :: "u32 \<Rightarrow> u32 \<Rightarrow> u32 \<Rightarrow> u32" where
  "fips_Maj x y z = (x AND y) XOR (x AND z) XOR (y AND z)"

definition fips_Sum0 :: "u32 \<Rightarrow> u32" where
  "fips_Sum0 x = word_rotr 2 x XOR word_rotr 13 x XOR word_rotr 22 x"

definition fips_Sum1 :: "u32 \<Rightarrow> u32" where
  "fips_Sum1 x = word_rotr 6 x XOR word_rotr 11 x XOR word_rotr 25 x"

definition fips_sigma0 :: "u32 \<Rightarrow> u32" where
  "fips_sigma0 x = word_rotr 7 x XOR word_rotr 18 x XOR drop_bit 3 x"

definition fips_sigma1 :: "u32 \<Rightarrow> u32" where
  "fips_sigma1 x = word_rotr 17 x XOR word_rotr 19 x XOR drop_bit 10 x"

fun fips_W :: "u32 list \<Rightarrow> nat \<Rightarrow> u32" where
  "fips_W M t =
     (if t < 16 then M ! t
      else fips_sigma1 (fips_W M (t - 2)) + fips_W M (t - 7)
         + fips_sigma0 (fips_W M (t - 15)) + fips_W M (t - 16))"

fun fips_round :: "u32 list \<Rightarrow> u32 list \<Rightarrow> nat \<Rightarrow> u32 list" where
  "fips_round M [a, b, c, d, e, f, g, h] t =
     (let T1 = h + fips_Sum1 e + fips_Ch e f g + sha256_k ! t + fips_W M t;
          T2 = fips_Sum0 a + fips_Maj a b c
      in [T1 + T2, a, b, c, d + T1, e, f, g])"
| "fips_round M rs t = rs"

definition fips_compress :: "u32 list \<Rightarrow> u32 list \<Rightarrow> u32 list" where
  "fips_compress H M = map2 (+) H (foldl (fips_round M) H [0..<64])"

fun fips_blocks :: "nat \<Rightarrow> u32 list \<Rightarrow> u32 list \<Rightarrow> u32 list" where
  "fips_blocks 0 H M = H"
| "fips_blocks (Suc n) H M = fips_blocks n (fips_compress H (take 16 M)) (drop 16 M)"

text \<open>A one bit, zeros up to 56 bytes modulo 64, and the bit length in eight bytes.\<close>

definition fips_pad :: "byte list \<Rightarrow> nat \<Rightarrow> byte list" where
  "fips_pad m len = m @ [0x80] @ replicate ((119 - length m mod 64) mod 64) 0
     @ be32enc (of_nat (8 * len div 2 ^ 32)) @ be32enc (of_nat (8 * len))"

definition fips_sha256 :: "byte list \<Rightarrow> byte list" where
  "fips_sha256 m =
     (let M = words_of be32dec (fips_pad m (length m))
      in bytes_of be32enc (fips_blocks (length M div 16) sha256_h M))"

declare fips_W.simps [simp del]

section \<open>The code against the reference\<close>

lemma sha_Ch_fips: "sha_Ch x y z = fips_Ch x y z"
  by (rule bit_word_eqI) (auto simp: sha_Ch_def fips_Ch_def bit_simps)
lemma sha_Maj_fips: "sha_Maj x y z = fips_Maj x y z"
  by (rule bit_word_eqI) (auto simp: sha_Maj_def fips_Maj_def bit_simps)
lemma sha_ROTR_fips:
  assumes "0 < m" "m < 32"
  shows "sha_ROTR x m = word_rotr m x"
proof (rule bit_word_eqI)
  fix n assume "n < LENGTH(32)"
  then have n: "n < 32" by simp
  have "(n + m) mod 32 = (if n + m < 32 then n + m else n + m - 32)"
    using assms n by (simp add: mod_if)
  then show "bit (sha_ROTR x m) n = bit (word_rotr m x) n"
    using n assms bit_imp_le_length [of x "m + n"]
    by (auto simp: sha_ROTR_def bit_simps add.commute)
qed
lemma sha_functions_fips:
  "sha_S0 x = fips_Sum0 x" "sha_S1 x = fips_Sum1 x"
  "sha_s0 x = fips_sigma0 x" "sha_s1 x = fips_sigma1 x"
  by (simp_all add: sha_S0_def sha_S1_def sha_s0_def sha_s1_def sha_ROTR_fips
      fips_Sum0_def fips_Sum1_def fips_sigma0_def fips_sigma1_def)

lemma length_RND [layout_simps]: "length (RND S a b c d e f g h k) = length S"
  by (simp add: RND_def Let_def)
lemma length_RNDr [layout_simps]: "length (RNDr S W i) = length S"
  by (simp add: RNDr_def layout_simps)

definition rnd_t0 :: "u32 \<Rightarrow> u32 \<Rightarrow> u32 \<Rightarrow> u32 \<Rightarrow> u32 \<Rightarrow> u32" where
  "rnd_t0 e f g h k = h + sha_S1 e + sha_Ch e f g + k"

definition rnd_t1 :: "u32 \<Rightarrow> u32 \<Rightarrow> u32 \<Rightarrow> u32" where
  "rnd_t1 a b c = sha_S0 a + sha_Maj a b c"

lemma RND_rotated:
  "RND [x0, x1, x2, x3, x4, x5, x6, x7] 0 1 2 3 4 5 6 7 k
     = [x0, x1, x2, x3 + rnd_t0 x4 x5 x6 x7 k, x4, x5, x6, rnd_t0 x4 x5 x6 x7 k + rnd_t1 x0 x1 x2]"
  "RND [x0, x1, x2, x3, x4, x5, x6, x7] 7 0 1 2 3 4 5 6 k
     = [x0, x1, x2 + rnd_t0 x3 x4 x5 x6 k, x3, x4, x5, rnd_t0 x3 x4 x5 x6 k + rnd_t1 x7 x0 x1, x7]"
  "RND [x0, x1, x2, x3, x4, x5, x6, x7] 6 7 0 1 2 3 4 5 k
     = [x0, x1 + rnd_t0 x2 x3 x4 x5 k, x2, x3, x4, rnd_t0 x2 x3 x4 x5 k + rnd_t1 x6 x7 x0, x6, x7]"
  "RND [x0, x1, x2, x3, x4, x5, x6, x7] 5 6 7 0 1 2 3 4 k
     = [x0 + rnd_t0 x1 x2 x3 x4 k, x1, x2, x3, rnd_t0 x1 x2 x3 x4 k + rnd_t1 x5 x6 x7, x5, x6, x7]"
  "RND [x0, x1, x2, x3, x4, x5, x6, x7] 4 5 6 7 0 1 2 3 k
     = [x0, x1, x2, rnd_t0 x0 x1 x2 x3 k + rnd_t1 x4 x5 x6, x4, x5, x6, x7 + rnd_t0 x0 x1 x2 x3 k]"
  "RND [x0, x1, x2, x3, x4, x5, x6, x7] 3 4 5 6 7 0 1 2 k
     = [x0, x1, rnd_t0 x7 x0 x1 x2 k + rnd_t1 x3 x4 x5, x3, x4, x5, x6 + rnd_t0 x7 x0 x1 x2 k, x7]"
  "RND [x0, x1, x2, x3, x4, x5, x6, x7] 2 3 4 5 6 7 0 1 k
     = [x0, rnd_t0 x6 x7 x0 x1 k + rnd_t1 x2 x3 x4, x2, x3, x4, x5 + rnd_t0 x6 x7 x0 x1 k, x6, x7]"
  "RND [x0, x1, x2, x3, x4, x5, x6, x7] 1 2 3 4 5 6 7 0 k
     = [rnd_t0 x5 x6 x7 x0 k + rnd_t1 x1 x2 x3, x1, x2, x3, x4 + rnd_t0 x5 x6 x7 x0 k, x5, x6, x7]"
  by (simp_all add: RND_def Let_def rnd_t0_def rnd_t1_def)

lemma upt_8: "[0..<8] = [0, 1, 2, 3, 4, 5, 6, 7]"
  by (simp add: upt_rec)

lemma fips_round_rnd:
  "fips_round M [a, b, c, d, e, f, g, h] t =
     (let t0 = rnd_t0 e f g h (fips_W M t + sha256_k ! t) in [t0 + rnd_t1 a b c, a, b, c, d + t0, e, f, g])"
  by (simp add: rnd_t0_def rnd_t1_def sha_functions_fips sha_Ch_fips sha_Maj_fips Let_def add_ac)

definition regs :: "u32 list \<Rightarrow> nat \<Rightarrow> u32 list" where
  "regs S i = map (\<lambda>j. S ! ((64 - i + j) mod 8)) [0..<8]"

lemma regs_RNDr:
  assumes "length S = 8" and "i < 64" and W: "W ! i = fips_W M i"
  shows "regs (RNDr S W i) (Suc i) = fips_round M (regs S i) i"
proof -
  obtain x0 x1 x2 x3 x4 x5 x6 x7 where S: "S = [x0, x1, x2, x3, x4, x5, x6, x7]"
    using assms(1) by (auto simp: length_Suc_conv numeral_eq_Suc)
  define q r where "q = i div 8" and "r = i mod 8"
  have i: "i = 8 * q + r" and q: "q < 8" and r: "r < 8" using assms(2) by (auto simp: q_def r_def)
  have sub: "(c - i) mod 8 = (d - r) mod 8" if "c = 64 + j" "d = 8 + j" for c d j
  proof -
    have "c - i = 8 * (7 - q) + (d - r)" using i q r that by simp
    then show ?thesis by (metis mod_mult_self4)
  qed
  have sub': "(63 - i + j) mod 8 = (7 + j - r) mod 8" for j
  proof -
    have "63 - i + j = 8 * (7 - q) + (7 + j - r)" using i q r by simp
    then show ?thesis by (metis mod_mult_self4)
  qed
  have idx: "(64 - i) mod 8 = (8 - r) mod 8" "(65 - i) mod 8 = (9 - r) mod 8"
    "(66 - i) mod 8 = (10 - r) mod 8" "(67 - i) mod 8 = (11 - r) mod 8"
    "(68 - i) mod 8 = (12 - r) mod 8" "(69 - i) mod 8 = (13 - r) mod 8"
    "(70 - i) mod 8 = (14 - r) mod 8" "(71 - i) mod 8 = (15 - r) mod 8"
    by (rule sub [where j = 0] sub [where j = 1] sub [where j = 2] sub [where j = 3]
        sub [where j = 4] sub [where j = 5] sub [where j = 6] sub [where j = 7]; simp)+
  have R1: "regs T (Suc i) = map (\<lambda>j. T ! ((7 + j - r) mod 8)) [0..<8]" for T
    by (simp add: regs_def sub')
  have R0: "regs T i = map (\<lambda>j. T ! ((8 + j - r) mod 8)) [0..<8]" for T
  proof -
    have "(64 - i + j) mod 8 = (8 + j - r) mod 8" for j
      using assms(2) sub [of "64 + j" j] by simp
    then show ?thesis by (simp add: regs_def)
  qed
  from r have "r = 0 \<or> r = 1 \<or> r = 2 \<or> r = 3 \<or> r = 4 \<or> r = 5 \<or> r = 6 \<or> r = 7" by arith
  then show ?thesis
    unfolding R0 R1 RNDr_def idx W S upt_8
    by (elim disjE; simp add: RND_rotated fips_round_rnd Let_def del: fips_round.simps One_nat_def)
qed

lemma length_sched_step [layout_simps]: "length (sched_step W i) = length W"
  by (simp add: sched_step_def Let_def)

lemma length_sched_loop [layout_simps]: "length (sched_loop W i n) = length W"
proof (induction W i n rule: sched_loop.induct)
  case (1 W i n)
  then show ?case by (subst sched_loop.simps) (simp add: layout_simps)
qed

lemma fips_W_low: "t < 16 \<Longrightarrow> fips_W M t = M ! t"
  by (simp add: fips_W.simps)

lemma fips_W_high:
  "16 \<le> t \<Longrightarrow> fips_W M t = sha_s1 (fips_W M (t - 2)) + fips_W M (t - 7)
     + sha_s0 (fips_W M (t - 15)) + fips_W M (t - 16)"
  by (subst fips_W.simps) (simp add: sha_functions_fips)

lemma sched_step_prefix:
  assumes W: "\<forall>t < i. W ! t = fips_W M t" and i: "16 \<le> i" "i + 1 < length W"
  shows "\<forall>t < i + 2. sched_step W i ! t = fips_W M t"
proof -
  define W' where "W' = W[i := sha_s1 (W ! (i - 2)) + W ! (i - 7) + sha_s0 (W ! (i - 15)) + W ! (i - 16)]"
  have W': "\<forall>t < i + 1. W' ! t = fips_W M t"
    using W i by (auto simp: W'_def nth_list_update less_Suc_eq fips_W_high)
  have len: "length W' = length W" by (simp add: W'_def)
  have step: "sched_step W i
      = W'[i + 1 := sha_s1 (W' ! (i - 1)) + W' ! (i - 6) + sha_s0 (W' ! (i - 14)) + W' ! (i - 15)]"
    by (simp add: sched_step_def W'_def Let_def)
  have "sched_step W i ! (i + 1) = fips_W M (i + 1)"
    using W' i fips_W_high [of "i + 1" M] by (simp add: step len)
  moreover have "\<forall>t < i + 1. sched_step W i ! t = fips_W M t"
    using W' by (simp add: step)
  ultimately show ?thesis by (auto simp: less_Suc_eq)
qed

lemma sched_loop_prefix:
  "\<lbrakk>\<forall>t < i. W ! t = fips_W M t; 16 \<le> i; even i; even n; n \<le> length W\<rbrakk>
   \<Longrightarrow> \<forall>t < n. sched_loop W i n ! t = fips_W M t"
proof (induction W i n rule: sched_loop.induct)
  case (1 W i n)
  show ?case
  proof (cases "i < n")
    case True
    with 1(4,5,6) have "i + 1 < length W" by presburger
    with 1(2,3) have "\<forall>t < i + 2. sched_step W i ! t = fips_W M t"
      by (intro sched_step_prefix)
    with True 1 show ?thesis
      by (subst sched_loop.simps) (simp add: layout_simps)
  next
    case False
    with 1(2) show ?thesis by (subst sched_loop.simps) auto
  qed
qed

lemma length_regs [simp]: "length (regs S i) = 8"
  by (simp add: regs_def)

lemma length_rounds [layout_simps]: "length (rounds S W lo hi) = length S"
proof -
  have "length (foldl (\<lambda>S i. RNDr S W i) S is) = length S" for "is"
    by (induction "is" arbitrary: S) (simp_all add: layout_simps)
  then show ?thesis by (simp add: rounds_def)
qed

lemma rounds_Suc: "lo \<le> hi \<Longrightarrow> rounds S W lo (Suc hi) = RNDr (rounds S W lo hi) W hi"
  by (simp add: rounds_def)

lemma rounds_empty [simp]: "rounds S W i i = S"
  by (simp add: rounds_def)

lemma rounds_split: "lo \<le> mid \<Longrightarrow> mid \<le> hi \<Longrightarrow> rounds S W lo hi = rounds (rounds S W lo mid) W mid hi"
proof -
  assume "lo \<le> mid" "mid \<le> hi"
  then have "[lo..<hi] = [lo..<mid] @ [mid..<hi]"
    by (metis le_add_diff_inverse upt_add_eq_append)
  then show ?thesis by (simp add: rounds_def)
qed

lemma regs_rounds:
  assumes "length S = 8" and "\<forall>t < hi. lo \<le> t \<longrightarrow> W ! t = fips_W M t" and "lo \<le> hi" "hi \<le> 64"
  shows "regs (rounds S W lo hi) hi = foldl (fips_round M) (regs S lo) [lo..<hi]"
  using assms(3,2,4)
proof (induction hi rule: dec_induct)
  case (step n)
  then show ?case
    using assms(1) regs_RNDr [of "rounds S W lo n" n W M]
    by (simp add: rounds_Suc layout_simps)
qed (simp add: rounds_def)

lemma regs_whole: "length S = 8 \<Longrightarrow> regs S 0 = S \<and> regs S 64 = S"
proof -
  assume "length S = 8"
  then obtain x0 x1 x2 x3 x4 x5 x6 x7 where "S = [x0, x1, x2, x3, x4, x5, x6, x7]"
    by (auto simp: length_Suc_conv numeral_eq_Suc)
  then show ?thesis by (simp add: regs_def upt_8)
qed

lemma sha256_transform_blocks:
  assumes "8 \<le> length state" and "16 \<le> length block"
  shows "sha256_transform state block False
    = fips_compress (take 8 state) (take 16 block) @ drop 8 state"
proof -
  define W where "W = sched_loop (take 16 block @ replicate 48 0) 16 64"
  have "\<forall>t < 64. W ! t = fips_W (take 16 block) t"
    unfolding W_def
    by (rule sched_loop_prefix) (use assms in \<open>auto simp: nth_append fips_W_low\<close>)
  then have "regs (rounds (take 8 state) W 0 64) 64
      = foldl (fips_round (take 16 block)) (regs (take 8 state) 0) [0..<64]"
    using assms by (intro regs_rounds) auto
  then have "rounds (take 8 state) W 0 64 = foldl (fips_round (take 16 block)) (take 8 state) [0..<64]"
    using assms by (simp add: regs_whole layout_simps)
  then show ?thesis
    by (simp add: sha256_transform_def Let_def W_def fips_compress_def)
qed


section \<open>Padding\<close>

lemma words_of_len_store:
  assumes "length front = 56"
  shows "(words_of be32dec (front @ replicate 8 0))[15 := x]
    = words_of be32dec (front @ be32enc 0 @ be32enc x)"
proof -
  have z: "words_of be32dec (replicate 8 0) = [0, 0]"
    by (simp add: numeral_eq_Suc be32dec_def)
  have "words_of be32dec (be32enc 0 @ be32enc x @ []) = [0, x]"
    unfolding be32.words_of_enc by simp
  then show ?thesis
    using assms by (simp add: words_of_append [where n = 14] z list_update_append layout_simps)
qed

lemma fips_pad_chunk:
  "length x = 64 \<Longrightarrow> fips_pad (x @ rest) len = x @ fips_pad rest len"
  by (simp add: fips_pad_def)

lemma length_fips_pad: "64 dvd length (fips_pad m len)"
proof -
  have "(length m + (9 + (119 - length m mod 64) mod 64)) mod 64 = 0"
  proof -
    define q r where "q = length m div 64" and "r = length m mod 64"
    have m: "length m = 64 * q + r" and r: "r < 64" by (simp_all add: q_def r_def)
    show ?thesis
    proof (cases "r < 56")
      case True
      then have "(119 - r) mod 64 = 55 - r" by (simp add: mod_if)
      with True show ?thesis unfolding r_def [symmetric] by (simp add: m)
    next
      case False
      with r have "(119 - r) mod 64 = 119 - r" by simp
      moreover have "64 * q + r + 9 + (119 - r) = 64 * (q + 2)" using r by simp
      ultimately show ?thesis unfolding r_def [symmetric] by (metis m add.assoc mod_mult_self1_is_0)
    qed
  qed
  then show ?thesis by (simp add: fips_pad_def mod_eq_0_iff_dvd)
qed

lemma fips_pad_short:
  assumes "length rest < 56" and "8 * n < 2 ^ 32"
  shows "fips_pad rest n = (rest @ 0x80 # replicate (55 - length rest) 0) @ be32enc 0 @ be32enc (of_nat (8 * n))"
proof -
  have "(119 - length rest) mod 64 = 55 - length rest" using assms(1) by (simp add: mod_if)
  then show ?thesis using assms by (simp add: fips_pad_def)
qed

lemma fips_pad_long:
  assumes "56 \<le> length rest" "length rest < 64" and "8 * n < 2 ^ 32"
  shows "fips_pad rest n = (rest @ 0x80 # replicate (63 - length rest) 0)
     @ replicate 56 0 @ be32enc 0 @ be32enc (of_nat (8 * n))"
proof -
  have "(119 - length rest) mod 64 = (63 - length rest) + 56" using assms(1,2) by simp
  then have "replicate ((119 - length rest mod 64) mod 64) (0 :: byte)
      = replicate (63 - length rest) 0 @ replicate 56 0"
    using assms(2) by (simp only: replicate_add mod_less)
  then show ?thesis using assms(3) by (simp add: fips_pad_def)
qed

lemma block_full:
  assumes "64 \<le> k" "k \<le> n" "n \<le> length data" "length T = 64"
  shows "sha256d_block data (int n) (int k) T = words_of be32dec (take 64 (drop (n - k) data))"
  using assms by (auto simp: sha256d_block_def Let_def layout_simps nat_diff_distrib of_nat_diff [symmetric] simp del: of_nat_diff)

lemma block_tail:
  assumes "k < 64" "k \<le> n" "n \<le> length data"
  shows "sha256d_block data (int n) (int k) T =
    (let W = words_of be32dec (take k (drop (n - k) data) @ 0x80 # replicate (63 - k) 0)
     in if k < 56 then W[15 := of_nat (8 * n)] else W)"
proof -
  have "memcpy_at (replicate 64 0) 0 (take k (drop (n - k) data))
      = take k (drop (n - k) data) @ replicate (64 - k) 0"
    using assms by (simp add: memcpy_at_def)
  moreover have "(take k (drop (n - k) data) @ replicate (64 - k) (0 :: byte))[k := 0x80]
      = take k (drop (n - k) data) @ 0x80 # replicate (63 - k) 0"
  proof -
    have "64 - k = Suc (63 - k)" using assms by simp
    then show ?thesis using assms by (simp add: list_update_append)
  qed
  moreover have "nat (int n - int k) = n - k" by simp
  ultimately show ?thesis
    using assms by (simp add: sha256d_block_def Let_def)
qed

lemma block_after:
  assumes "r < 0"
  shows "sha256d_block data (int n) r T = (words_of be32dec (replicate 64 0))[15 := of_nat (8 * n)]"
  using assms by (simp add: sha256d_block_def Let_def memcpy_at_def)

lemma fips_blocks_chunk:
  assumes "length x = 64" and "64 dvd length y"
  shows "fips_blocks (length (x @ y) div 64) H (words_of be32dec (x @ y))
    = fips_blocks (length y div 64) (fips_compress H (words_of be32dec x)) (words_of be32dec y)"
proof -
  have "length (x @ y) div 64 = Suc (length y div 64)" using assms by simp
  moreover have "words_of be32dec (x @ y) = words_of be32dec x @ words_of be32dec y"
    using assms by (simp add: words_of_append [where n = 16])
  moreover have "length (words_of be32dec x) = 16" using assms by (simp add: layout_simps)
  ultimately show ?thesis by simp
qed

lemma length_fips_round [simp]: "length (fips_round M rs t) = length rs"
  by (induction M rs t rule: fips_round.induct) (simp_all add: Let_def)

lemma length_fips_compress [layout_simps]: "length (fips_compress H M) = length H"
proof -
  have "length (foldl (fips_round M) H ts) = length H" for ts
    by (induction ts arbitrary: H) simp_all
  then show ?thesis by (simp add: fips_compress_def)
qed

lemma transform_block:
  assumes "8 \<le> length S" "length W = 16"
  shows "sha256_transform S W False = fips_compress (take 8 S) W @ drop 8 S"
  using assms by (simp add: sha256_transform_blocks)

lemma sha256d_loop_step:
  "r > -9 \<Longrightarrow> sha256d_loop data len r S T =
     sha256d_loop data len (r - 64) (sha256_transform S (sha256d_block data len r T) False)
       (bytes_of le32enc (sha256d_block data len r T))"
  by (subst sha256d_loop.simps) (simp add: Let_def)

lemma sha256d_loop_stop: "r \<le> -9 \<Longrightarrow> sha256d_loop data len r S T = S"
  by (subst sha256d_loop.simps) simp

lemma sha256d_loop_tail:
  assumes k: "k < 64" "k \<le> n" "n \<le> length data" and S: "8 \<le> length S" and n: "n < 2 ^ 28"
  defines "P \<equiv> fips_pad (take k (drop (n - k) data)) n"
  shows "sha256d_loop data (int n) (int k) S T
    = fips_blocks (length P div 64) (take 8 S) (words_of be32dec P) @ drop 8 S"
proof -
  define rest where "rest = take k (drop (n - k) data)"
  have rest: "length rest = k" using k by (simp add: rest_def)
  have n8: "8 * n < 2 ^ 32" using n by simp
  define B where "B = rest @ 0x80 # replicate (63 - k) (0 :: byte)"
  have B: "length B = 64" using k rest by (simp add: B_def)
  show ?thesis
  proof (cases "k < 56")
    case True
    have "B = (rest @ 0x80 # replicate (55 - k) 0) @ replicate 8 0"
      using True by (simp add: B_def replicate_add [symmetric])
    then have "(words_of be32dec B)[15 := of_nat (8 * n)] = words_of be32dec P"
      using True rest n8
      by (simp only: words_of_len_store P_def rest_def [symmetric] fips_pad_short)
        (subst words_of_len_store, simp_all)
    moreover have "sha256d_block data (int n) (int k) T = (words_of be32dec B)[15 := of_nat (8 * n)]"
      using True k by (simp add: block_tail Let_def B_def flip: rest_def)
    ultimately have "sha256d_block data (int n) (int k) T = words_of be32dec P" by simp
    moreover have "length P = 64"
      using True rest n8 by (simp add: P_def fips_pad_short flip: rest_def)
    ultimately show ?thesis
      using True S by (simp add: sha256d_loop_step sha256d_loop_stop transform_block layout_simps
          fips_blocks_chunk [where y = "[]", simplified])
  next
    case False
    define Q where "Q = (replicate 56 0) @ be32enc 0 @ be32enc (of_nat (8 * n))"
    have P: "P = B @ Q"
      using False k rest n8 by (simp add: P_def B_def Q_def fips_pad_long flip: rest_def)
    have b1: "sha256d_block data (int n) (int k) T = words_of be32dec B"
      using False k by (simp add: block_tail B_def flip: rest_def)
    have "replicate 64 0 = replicate 56 (0 :: byte) @ replicate 8 0"
      by (simp add: replicate_add [symmetric])
    then have b2: "sha256d_block data (int n) (int k - 64) T' = words_of be32dec Q" for T'
      using k by (simp add: block_after words_of_len_store Q_def)
    have "length Q = 64" by (simp add: Q_def)
    then have fin: "fips_blocks (length Q div 64) H (words_of be32dec Q) = fips_compress H (words_of be32dec Q)" for H
      by (simp add: layout_simps)
    have again: "sha256_transform (fips_compress (take 8 S) V @ drop 8 S) (words_of be32dec Q) False
        = fips_compress (fips_compress (take 8 S) V) (words_of be32dec Q) @ drop 8 S" for V
      using S \<open>length Q = 64\<close> by (simp add: transform_block layout_simps)
    show ?thesis
      unfolding P using False k B S \<open>length Q = 64\<close>
      by (simp add: sha256d_loop_step sha256d_loop_stop b1 b2 transform_block layout_simps
          fips_blocks_chunk fin again del: length_append)
  qed
qed

lemma sha256d_loop_eq:
  assumes "k \<le> n" "n \<le> length data" and "8 \<le> length S" "length T = 64" and n: "n < 2 ^ 28"
  defines "P \<equiv> fips_pad (take k (drop (n - k) data)) n"
  shows "sha256d_loop data (int n) (int k) S T
    = fips_blocks (length P div 64) (take 8 S) (words_of be32dec P) @ drop 8 S"
  using assms(1,3,4) unfolding P_def
proof (induction k arbitrary: S T rule: less_induct)
  case (less k)
  show ?case
  proof (cases "k < 64")
    case True
    with less assms(2) n show ?thesis by (intro sha256d_loop_tail)
  next
    case False
    define x where "x = take 64 (drop (n - k) data)"
    define y where "y = take (k - 64) (drop (n - (k - 64)) data)"
    have split: "take k (drop (n - k) data) = x @ y"
    proof -
      have "take k (drop (n - k) data) = take (64 + (k - 64)) (drop (n - k) data)"
        using False by simp
      also have "\<dots> = x @ take (k - 64) (drop 64 (drop (n - k) data))"
        by (simp only: take_add x_def)
      also have "drop 64 (drop (n - k) data) = drop (n - (k - 64)) data"
      proof -
        have "n - (k - 64) = 64 + (n - k)" using False less.prems(1) by simp
        then show ?thesis by (simp add: drop_drop)
      qed
      finally show ?thesis by (simp add: y_def)
    qed
    have x: "length x = 64"
      using False less.prems(1) assms(2) by (simp add: x_def)
    have W: "sha256d_block data (int n) (int k) T = words_of be32dec x"
      using False less.prems assms(2) by (simp add: block_full x_def)
    define S' where "S' = fips_compress (take 8 S) (words_of be32dec x) @ drop 8 S"
    have S': "sha256_transform S (words_of be32dec x) False = S'"
      using less.prems x by (simp add: transform_block S'_def layout_simps)
    have len: "length (fips_compress (take 8 S) (words_of be32dec x)) = 8"
      using less.prems by (simp add: layout_simps)
    have "sha256d_loop data (int n) (int k) S T
        = sha256d_loop data (int n) (int (k - 64)) S' (bytes_of le32enc (words_of be32dec x))"
      using False by (simp add: sha256d_loop_step W S')
    also have "\<dots> = fips_blocks (length (fips_pad y n) div 64) (take 8 S') (words_of be32dec (fips_pad y n)) @ drop 8 S'"
      unfolding y_def using False less.prems len x
      by (intro less.IH) (simp_all add: S'_def layout_simps le32.length_bytes_of)
    also have "\<dots> = fips_blocks (length (x @ fips_pad y n) div 64) (take 8 S) (words_of be32dec (x @ fips_pad y n)) @ drop 8 S"
      unfolding fips_blocks_chunk [OF x length_fips_pad] using len by (simp add: S'_def)
    finally show ?thesis
      unfolding split fips_pad_chunk [OF x] .
  qed
qed

lemma sha256_h_length [simp]: "length sha256_h = 8"
  by (simp add: sha256_h_def)

lemma length_fips_blocks: "length (fips_blocks n H M) = length H"
  by (induction n arbitrary: H M) (simp_all add: layout_simps)

lemma length_fips_sha256 [layout_simps]: "length (fips_sha256 m) = 32"
  by (simp add: fips_sha256_def Let_def be32.length_bytes_of length_fips_blocks)

lemma fips_sha256_digest:
  assumes "length D = 8"
  shows "fips_sha256 (bytes_of be32enc D) = bytes_of be32enc (fips_compress sha256_h (D @ drop 8 sha256d_hash1))"
proof -
  have l: "length (bytes_of be32enc D) = 32" using assms by (simp add: be32.length_bytes_of)
  have "0x80 # replicate 23 0 @ be32enc 0 @ be32enc 256 = bytes_of be32enc (drop 8 sha256d_hash1)"
    by code_simp
  then have z: "words_of be32dec (0x80 # replicate 23 0 @ be32enc 0 @ be32enc 256) = drop 8 sha256d_hash1"
    by (simp only: be32.words_of_bytes_of)
  have "fips_pad (bytes_of be32enc D) 32 = bytes_of be32enc D @ 0x80 # replicate 23 0 @ be32enc 0 @ be32enc 256"
    by (simp add: fips_pad_def l)
  then have "words_of be32dec (fips_pad (bytes_of be32enc D) 32) = D @ drop 8 sha256d_hash1"
    using l by (simp add: words_of_append [where n = 8] be32.words_of_bytes_of z)
  then show ?thesis
    using assms by (simp add: fips_sha256_def Let_def l sha256d_hash1_def)
qed

lemma sha256d_fips:
  assumes "n \<le> length data" and "n < 2 ^ 28"
  shows "sha256d data (int n) = fips_sha256 (fips_sha256 (take n data))"
proof -
  define P where "P = fips_pad (take n data) n"
  define D where "D = fips_blocks (length P div 64) sha256_h (words_of be32dec P)"
  have D: "length D = 8" by (simp add: D_def length_fips_blocks)
  have i: "sha256_init (replicate 16 0) = sha256_h @ replicate 8 0"
    by (simp add: sha256_init_def memcpy_at_def sha256_h_def)
  have len: "length P div 64 = length (words_of be32dec P) div 16"
    by (simp add: layout_simps div_mult2_eq [symmetric])
  have "sha256d_loop data (int n) (int n) (sha256_init (replicate 16 0)) (replicate 64 0) = D @ replicate 8 0"
    using assms by (subst sha256d_loop_eq) (simp_all add: i P_def D_def)
  moreover have "memcpy_at (D @ replicate 8 0) 8 (drop 8 sha256d_hash1) = D @ drop 8 sha256d_hash1"
    using D by (simp add: memcpy_at_def sha256d_hash1_def)
  moreover have "sha256_transform (sha256_init (replicate 16 0)) (D @ drop 8 sha256d_hash1) False
      = fips_compress sha256_h (D @ drop 8 sha256d_hash1) @ replicate 8 0"
    using D by (subst transform_block) (simp_all add: i sha256d_hash1_def)
  ultimately have "sha256d data (int n) = fips_sha256 (bytes_of be32enc D)"
    by (simp add: sha256d_def Let_def fips_sha256_digest D layout_simps)
  also have "bytes_of be32enc D = fips_sha256 (take n data)"
    using assms(1) by (simp add: fips_sha256_def Let_def D_def P_def len [unfolded P_def])
  finally show ?thesis .
qed

text \<open>C15: \<open>sha256d\<close> is SHA-256 of SHA-256 of the first \<open>len\<close> bytes, for every length
  whose bit count fits the code's \<open>int\<close>.\<close>

theorem sha256d_correct:
  assumes "n \<le> length data" and "n < 2 ^ 28"
  shows "sha256d data (int n) = fips_sha256 (fips_sha256 (take n data))"
  using assms by (rule sha256d_fips)

lemma sha256d_correct_witness: "sha256d [0x61, 0x62, 0x63, 0x64] 3 = fips_sha256 (fips_sha256 [0x61, 0x62, 0x63])"
  using sha256d_correct [of 3 "[0x61, 0x62, 0x63, 0x64]"] by simp

end
