(* ===== verification/Target.thy ===== *)
theory Target
  imports Prelude
begin

text \<open>
  Comparison of a 256-bit hash with its target (\<open>fulltest\<close>) and the subtraction of time
  stamps (\<open>timeval_subtract\<close>) of \<open>util.c\<close>. A hash and a target are eight 32-bit
  words, least significant first.
\<close>

section \<open>The 256-bit comparison\<close>

fun fulltest_from :: "u32 list \<Rightarrow> u32 list \<Rightarrow> nat \<Rightarrow> bool" where
  "fulltest_from hash target 0 = True"
| "fulltest_from hash target (Suc i) =
     (if hash ! i > target ! i then False
      else if hash ! i < target ! i then True
      else fulltest_from hash target i)"

text \<open>The loop runs from word 7 down; the rest of the function only writes debug output.\<close>

definition fulltest :: "u32 list \<Rightarrow> u32 list \<Rightarrow> bool" where
  "fulltest hash target = fulltest_from hash target 8"

definition words_val :: "u32 list \<Rightarrow> nat" where
  "words_val ws = digits_val (2 ^ 32) (map unat (rev ws))"

lemma words_val_snoc: "words_val (ws @ [w]) = unat w * 2 ^ (32 * length ws) + words_val ws"
  by (simp add: words_val_def digits_val_Cons power_mult)

lemma words_val_less: "words_val ws < 2 ^ (32 * length ws)"
  using digits_val_less [of "map unat (rev ws)" "2 ^ 32"]
  by (simp add: words_val_def power_mult)

lemma words_val_Nil [simp]: "words_val [] = 0"
  by (simp add: words_val_def)

lemma lead_digit_less:
  "\<lbrakk>(a :: nat) < b; x < m\<rbrakk> \<Longrightarrow> a * m + x < b * m + y"
proof -
  assume ab: "a < b" and x: "x < m"
  have "a * m + x < Suc a * m" using x by simp
  also have "\<dots> \<le> b * m" using ab by (intro mult_le_mono1) simp
  finally show ?thesis by simp
qed

lemma fulltest_from_val:
  "i \<le> length hash \<Longrightarrow> i \<le> length target \<Longrightarrow>
   fulltest_from hash target i \<longleftrightarrow> words_val (take i hash) \<le> words_val (take i target)"
proof (induction i)
  case (Suc i)
  define m :: nat where "m = 2 ^ (32 * i)"
  have h: "words_val (take (Suc i) hash) = unat (hash ! i) * m + words_val (take i hash)"
    and t: "words_val (take (Suc i) target) = unat (target ! i) * m + words_val (take i target)"
    using Suc.prems by (simp_all add: take_Suc_conv_app_nth words_val_snoc m_def)
  have "words_val (take i hash) < m" "words_val (take i target) < m"
    using words_val_less [of "take i hash"] words_val_less [of "take i target"] Suc.prems
    by (simp_all add: m_def min_def)
  then show ?case
    unfolding h t using Suc
    by (auto simp: word_less_nat_alt word_unat_eq_iff not_less not_le
        dest: lead_digit_less [of _ _ "words_val (take i hash)" m "words_val (take i target)"]
          lead_digit_less [of _ _ "words_val (take i target)" m "words_val (take i hash)"])
qed simp

lemma fulltest_val:
  assumes "length hash = 8" and "length target = 8"
  shows "fulltest hash target \<longleftrightarrow> words_val hash \<le> words_val target"
  using assms fulltest_from_val [of 8 hash target] by (simp add: fulltest_def)

text \<open>\<open>fulltest\<close> compares the two 256-bit numbers.\<close>

theorem fulltest_correct:
  assumes "length hash = 8" and "length target = 8"
  shows "fulltest hash target \<longleftrightarrow> words_val hash \<le> words_val target"
  using assms by (rule fulltest_val)

lemma fulltest_correct_witness:
  "fulltest [9, 0, 0, 0, 0, 0, 0, 1] [0, 1, 0, 0, 0, 0, 0, 1] \<longleftrightarrow>
   words_val [9, 0, 0, 0, 0, 0, 0, 1] \<le> words_val [0, 1, 0, 0, 0, 0, 0, 1]"
  using fulltest_correct [of "[9, 0, 0, 0, 0, 0, 0, 1]" "[0, 1, 0, 0, 0, 0, 0, 1]"] by simp

section \<open>Time stamps\<close>

record timeval =
  tv_sec :: int
  tv_usec :: int

text \<open>
  The function returns its result, the stored difference and \<open>*y\<close>, which it changes. Both
  dividends are positive where a division is reached.
\<close>

definition timeval_subtract :: "timeval \<Rightarrow> timeval \<Rightarrow> bool \<times> timeval \<times> timeval" where
  "timeval_subtract x y =
     (let y1 = (if tv_usec x < tv_usec y
                then (let nsec = (tv_usec y - tv_usec x) div 1000000 + 1
                      in y\<lparr>tv_usec := tv_usec y - 1000000 * nsec, tv_sec := tv_sec y + nsec\<rparr>)
                else y);
          y2 = (if tv_usec x - tv_usec y1 > 1000000
                then (let nsec = (tv_usec x - tv_usec y1) div 1000000
                      in y1\<lparr>tv_usec := tv_usec y1 + 1000000 * nsec, tv_sec := tv_sec y1 - nsec\<rparr>)
                else y1)
      in (tv_sec x < tv_sec y2,
          \<lparr>tv_sec = tv_sec x - tv_sec y2, tv_usec = tv_usec x - tv_usec y2\<rparr>, y2))"

definition usecs :: "timeval \<Rightarrow> int" where
  "usecs t = tv_sec t * 1000000 + tv_usec t"

text \<open>For normalised time stamps the stored difference is exact and normalised, and the
  result flag says whether it is negative.\<close>

theorem timeval_subtract_correct:
  assumes "0 \<le> tv_usec x" "tv_usec x < 1000000" "0 \<le> tv_usec y" "tv_usec y < 1000000"
    and "timeval_subtract x y = (neg, d, y')"
  shows "usecs d = usecs x - usecs y \<and> 0 \<le> tv_usec d \<and> tv_usec d < 1000000
    \<and> (neg \<longleftrightarrow> usecs x < usecs y) \<and> usecs y' = usecs y"
proof -
  have "(tv_usec y - tv_usec x) div 1000000 = 0" if "tv_usec x < tv_usec y"
    using assms that by (intro div_pos_pos_trivial) simp_all
  then show ?thesis
    using assms by (auto simp: timeval_subtract_def usecs_def Let_def split: if_splits)
qed

lemma timeval_subtract_correct_witness:
  "usecs \<lparr>tv_sec = 1, tv_usec = 999998\<rparr> = usecs \<lparr>tv_sec = 5, tv_usec = 3\<rparr> - usecs \<lparr>tv_sec = 3, tv_usec = 5\<rparr>"
proof -
  have "timeval_subtract \<lparr>tv_sec = 5, tv_usec = 3\<rparr> \<lparr>tv_sec = 3, tv_usec = 5\<rparr>
    = (False, \<lparr>tv_sec = 1, tv_usec = 999998\<rparr>, \<lparr>tv_sec = 4, tv_usec = - 999995\<rparr>)"
    by (simp add: timeval_subtract_def)
  from timeval_subtract_correct [OF _ _ _ _ this] show ?thesis by simp
qed

end
