(* ===== verification/Sha256Scan.thy ===== *)
theory Sha256Scan
  imports Sha256 Target
begin

text \<open>
  The nonce scanner of \<open>sha2.c\<close>: \<open>sha256d_80_swap\<close>, \<open>sha256d_preextend\<close>,
  \<open>sha256d_prehash\<close>, the shortened double hash \<open>sha256d_ms\<close> and the loop
  \<open>scanhash_sha256d\<close> (the portable path, without the assembler's 4-way and 8-way
  variants). The scanner is proved equal to a loop that hashes every header in full.
\<close>

section \<open>Straight-line assignments\<close>

text \<open>A block of assignments to array elements, in the order of the source.\<close>

definition assign_all :: "u32 list \<Rightarrow> (nat \<times> (u32 list \<Rightarrow> u32)) list \<Rightarrow> u32 list" where
  "assign_all W as = foldl (\<lambda>W (k, f). W[k := f W]) W as"

definition reads_upto :: "nat \<Rightarrow> (u32 list \<Rightarrow> u32) \<Rightarrow> bool" where
  "reads_upto j f \<longleftrightarrow> (\<forall>X Y. (\<forall>t \<le> j. X ! t = Y ! t) \<longrightarrow> f X = f Y)"

lemma assign_all_simps [simp]:
  "assign_all W [] = W"
  "assign_all W ((k, f) # as) = assign_all (W[k := f W]) as"
  by (simp_all add: assign_all_def)

lemma length_assign_all [layout_simps]: "length (assign_all W as) = length W"
  by (induction as arbitrary: W) (auto simp: assign_all_def split: prod.splits)

lemma assign_all_other: "t \<notin> fst ` set as \<Longrightarrow> assign_all W as ! t = W ! t"
proof (induction as arbitrary: W)
  case (Cons a as)
  then show ?case by (cases a) simp
qed simp

text \<open>
  When the targets are consecutive and no right-hand side looks past its target, each
  element ends with its right-hand side over the final array and its own first content.
\<close>

lemma assign_all_final:
  "\<lbrakk>map fst as = [k..<k + length as]; k + length as \<le> length W;
    \<forall>(j, f) \<in> set as. reads_upto j f; (j, f) \<in> set as\<rbrakk>
   \<Longrightarrow> assign_all W as ! j = f ((assign_all W as)[j := W ! j])"
proof (induction as arbitrary: W k)
  case (Cons a as)
  have up: "[k..<k + length (a # as)] = k # [Suc k..<Suc k + length as]"
    by (simp add: upt_conv_Cons del: upt_Suc)
  obtain f0 where a: "a = (k, f0)"
    using Cons.prems(1) unfolding up by (cases a) simp
  define V where "V = W[k := f0 W]"
  have tail: "map fst as = [Suc k..<Suc k + length as]"
    using Cons.prems(1) unfolding up by simp
  then have idx: "fst ` set as = {Suc k..<Suc k + length as}"
    by (metis list.set_map set_upt)
  have final: "assign_all W (a # as) = assign_all V as"
    by (simp add: a V_def)
  show ?case
  proof (cases "(j, f) = a")
    case True
    have low: "assign_all V as ! t = V ! t" if "t \<le> k" for t
      using idx that by (intro assign_all_other) auto
    have "f0 W = f0 ((assign_all V as)[k := W ! k])"
      using Cons.prems(2,3) low
      by (auto simp: a reads_upto_def nth_list_update layout_simps V_def intro!: allE [of _ W])
    then show ?thesis
      using True Cons.prems(2) low [of k] by (simp add: final a V_def)
  next
    case False
    then have jf: "(j, f) \<in> set as" using Cons.prems(4) by auto
    then have "j \<in> fst ` set as" by force
    then have "j \<noteq> k" using idx by auto
    then have "V ! j = W ! j" by (simp add: V_def)
    moreover have "assign_all V as ! j = f ((assign_all V as)[j := V ! j])"
      using Cons.prems(2,3) tail jf by (intro Cons.IH [of "Suc k"]) (auto simp: V_def)
    ultimately show ?thesis by (simp add: final)
  qed
qed simp

section \<open>The double hash of a header\<close>

definition sha256d_80_swap :: "u32 list \<Rightarrow> u32 list \<Rightarrow> u32 list" where
  "sha256d_80_swap hash data =
     (let S = sha256_init (replicate 16 0);
          S = sha256_transform S data False;
          S = sha256_transform S (drop 16 data) False;
          S = memcpy_at S 8 (drop 8 sha256d_hash1);
          hash = sha256_init hash;
          hash = sha256_transform hash S False
      in map swab32 hash)"

definition preextend_assigns :: "(nat \<times> (u32 list \<Rightarrow> u32)) list" where
  "preextend_assigns =
     [(16, \<lambda>W. sha_s1 (W ! 14) + W ! 9 + sha_s0 (W ! 1) + W ! 0),
      (17, \<lambda>W. sha_s1 (W ! 15) + W ! 10 + sha_s0 (W ! 2) + W ! 1),
      (18, \<lambda>W. sha_s1 (W ! 16) + W ! 11 + W ! 2),
      (19, \<lambda>W. sha_s1 (W ! 17) + W ! 12 + sha_s0 (W ! 4)),
      (20, \<lambda>W. W ! 13 + sha_s0 (W ! 5) + W ! 4),
      (21, \<lambda>W. W ! 14 + sha_s0 (W ! 6) + W ! 5),
      (22, \<lambda>W. W ! 15 + sha_s0 (W ! 7) + W ! 6),
      (23, \<lambda>W. W ! 16 + sha_s0 (W ! 8) + W ! 7),
      (24, \<lambda>W. W ! 17 + sha_s0 (W ! 9) + W ! 8),
      (25, \<lambda>W. sha_s0 (W ! 10) + W ! 9),
      (26, \<lambda>W. sha_s0 (W ! 11) + W ! 10),
      (27, \<lambda>W. sha_s0 (W ! 12) + W ! 11),
      (28, \<lambda>W. sha_s0 (W ! 13) + W ! 12),
      (29, \<lambda>W. sha_s0 (W ! 14) + W ! 13),
      (30, \<lambda>W. sha_s0 (W ! 15) + W ! 14),
      (31, \<lambda>W. sha_s0 (W ! 16) + W ! 15)]"

definition sha256d_preextend :: "u32 list \<Rightarrow> u32 list" where
  "sha256d_preextend W = assign_all W preextend_assigns"

definition sha256d_prehash :: "u32 list \<Rightarrow> u32 list \<Rightarrow> u32 list" where
  "sha256d_prehash S W = rounds S W 0 3"

text \<open>The assignments of \<open>sha256d_ms\<close> to \<open>W[18]\<close> to \<open>W[31]\<close>.\<close>

definition ms_extend :: "(nat \<times> (u32 list \<Rightarrow> u32)) list" where
  "ms_extend =
     [(18, \<lambda>W. W ! 18 + sha_s0 (W ! 3)),
      (19, \<lambda>W. W ! 19 + W ! 3),
      (20, \<lambda>W. W ! 20 + sha_s1 (W ! 18)),
      (21, \<lambda>W. sha_s1 (W ! 19)),
      (22, \<lambda>W. W ! 22 + sha_s1 (W ! 20)),
      (23, \<lambda>W. W ! 23 + sha_s1 (W ! 21)),
      (24, \<lambda>W. W ! 24 + sha_s1 (W ! 22)),
      (25, \<lambda>W. sha_s1 (W ! 23) + W ! 18),
      (26, \<lambda>W. sha_s1 (W ! 24) + W ! 19),
      (27, \<lambda>W. sha_s1 (W ! 25) + W ! 20),
      (28, \<lambda>W. sha_s1 (W ! 26) + W ! 21),
      (29, \<lambda>W. sha_s1 (W ! 27) + W ! 22),
      (30, \<lambda>W. W ! 30 + (sha_s1 (W ! 28) + W ! 23)),
      (31, \<lambda>W. W ! 31 + (sha_s1 (W ! 29) + W ! 24))]"

text \<open>The words that \<open>sha256d_ms\<close> saves and restores.\<close>

definition ms_saved :: "nat list" where
  "ms_saved = [18, 19, 20, 22, 23, 24, 30, 31]"

definition copy_words :: "nat list \<Rightarrow> u32 list \<Rightarrow> u32 list \<Rightarrow> u32 list" where
  "copy_words ks dst src = foldl (\<lambda>D k. D[k := src ! k]) dst ks"

text \<open>The schedule of the second hash, whose last eight message words are constants.\<close>

definition ms_second :: "(nat \<times> (u32 list \<Rightarrow> u32)) list" where
  "ms_second = (let c = sha256d_hash1 in
     [(16, \<lambda>S. sha_s1 (c ! 14) + c ! 9 + sha_s0 (S ! 1) + S ! 0),
      (17, \<lambda>S. sha_s1 (c ! 15) + c ! 10 + sha_s0 (S ! 2) + S ! 1),
      (18, \<lambda>S. sha_s1 (S ! 16) + c ! 11 + sha_s0 (S ! 3) + S ! 2),
      (19, \<lambda>S. sha_s1 (S ! 17) + c ! 12 + sha_s0 (S ! 4) + S ! 3),
      (20, \<lambda>S. sha_s1 (S ! 18) + c ! 13 + sha_s0 (S ! 5) + S ! 4),
      (21, \<lambda>S. sha_s1 (S ! 19) + c ! 14 + sha_s0 (S ! 6) + S ! 5),
      (22, \<lambda>S. sha_s1 (S ! 20) + c ! 15 + sha_s0 (S ! 7) + S ! 6),
      (23, \<lambda>S. sha_s1 (S ! 21) + S ! 16 + sha_s0 (c ! 8) + S ! 7),
      (24, \<lambda>S. sha_s1 (S ! 22) + S ! 17 + sha_s0 (c ! 9) + c ! 8),
      (25, \<lambda>S. sha_s1 (S ! 23) + S ! 18 + sha_s0 (c ! 10) + c ! 9),
      (26, \<lambda>S. sha_s1 (S ! 24) + S ! 19 + sha_s0 (c ! 11) + c ! 10),
      (27, \<lambda>S. sha_s1 (S ! 25) + S ! 20 + sha_s0 (c ! 12) + c ! 11),
      (28, \<lambda>S. sha_s1 (S ! 26) + S ! 21 + sha_s0 (c ! 13) + c ! 12),
      (29, \<lambda>S. sha_s1 (S ! 27) + S ! 22 + sha_s0 (c ! 14) + c ! 13),
      (30, \<lambda>S. sha_s1 (S ! 28) + S ! 23 + sha_s0 (c ! 15) + c ! 14),
      (31, \<lambda>S. sha_s1 (S ! 29) + S ! 24 + sha_s0 (S ! 16) + c ! 15)])"

text \<open>The last four rounds, of which only the registers that reach \<open>hash[7]\<close> are kept.\<close>

definition ms_last :: "u32 list \<Rightarrow> u32 list \<Rightarrow> u32 list" where
  "ms_last hash S =
     (let h2 = hash[2 := hash ! 2 + (hash ! 6 + sha_S1 (hash ! 3) + sha_Ch (hash ! 3) (hash ! 4) (hash ! 5)
                 + S ! 57 + sha256_k ! 57)];
          h1 = h2[1 := h2 ! 1 + (h2 ! 5 + sha_S1 (h2 ! 2) + sha_Ch (h2 ! 2) (h2 ! 3) (h2 ! 4)
                 + S ! 58 + sha256_k ! 58)];
          h0 = h1[0 := h1 ! 0 + (h1 ! 4 + sha_S1 (h1 ! 1) + sha_Ch (h1 ! 1) (h1 ! 2) (h1 ! 3)
                 + S ! 59 + sha256_k ! 59)]
      in h0[7 := h0 ! 7 + (h0 ! 3 + sha_S1 (h0 ! 0) + sha_Ch (h0 ! 0) (h0 ! 1) (h0 ! 2)
                 + S ! 60 + sha256_k ! 60 + sha256_h ! 7)])"

text \<open>The hash array and the message array after the call.\<close>

definition sha256d_ms :: "u32 list \<Rightarrow> u32 list \<Rightarrow> u32 list \<Rightarrow> u32 list \<Rightarrow> u32 list \<times> u32 list" where
  "sha256d_ms hash W midstate prehash =
     (let S = copy_words ms_saved (replicate 64 0) W;
          W = assign_all W ms_extend;
          W = sched_loop W 32 64;
          S = memcpy_at S 0 (take 8 prehash);
          S = rounds S W 3 64;
          S = map2 (+) (take 8 S) (take 8 midstate) @ drop 8 S;
          W = copy_words ms_saved W S;
          S = memcpy_at S 8 (drop 8 sha256d_hash1);
          S = assign_all S ms_second;
          S = sched_loop S 32 60;
          S = S[60 := sha_s1 (S ! 58) + S ! 53 + sha_s0 (S ! 45) + S ! 44];
          hash = sha256_init hash;
          hash = rounds hash S 0 57
      in (ms_last hash S, W))"

section \<open>The scan loop\<close>

text \<open>
  \<open>restart i\<close> is what the \<open>i\<close>th read of the volatile flag
  \<open>work_restart[thr_id].restart\<close> returns. The result is the return value with the header
  words and \<open>*hashes_done\<close>, whose unsigned 32-bit difference is widened to a long.
\<close>

function scan_loop :: "u32 list \<Rightarrow> u32 \<Rightarrow> (nat \<Rightarrow> bool) \<Rightarrow> u32 list \<Rightarrow> u32 list \<Rightarrow> u32 \<Rightarrow>
    u32 \<Rightarrow> nat \<Rightarrow> u32 list \<Rightarrow> u32 list \<Rightarrow> u32 list \<Rightarrow> bool \<times> u32 list \<times> u64" where
  "scan_loop ptarget max_nonce restart midstate prehash first_nonce n polls data pdata hash =
     (let n = n + 1;
          data = data[3 := n];
          (hash, data) = sha256d_ms hash data midstate prehash;
          hit = (swab32 (hash ! 7) \<le> ptarget ! 7);
          pdata = (if hit then pdata[19 := data ! 3] else pdata);
          hash = (if hit then sha256d_80_swap hash pdata else hash)
      in if hit \<and> fulltest hash ptarget
         then (True, pdata, ucast (n - first_nonce + 1))
         else if n < max_nonce \<and> \<not> restart polls
         then scan_loop ptarget max_nonce restart midstate prehash first_nonce n (polls + 1) data pdata hash
         else (False, pdata[19 := n], ucast (n - first_nonce + 1)))"
  by pat_completeness auto


termination scan_loop
  by (relation "measure (\<lambda>(ptarget, max_nonce, restart, midstate, prehash, first_nonce, n, x). passes_left max_nonce n)")
    (auto intro: passes_left_decreases)

definition scanhash_sha256d :: "(nat \<Rightarrow> bool) \<Rightarrow> u32 list \<Rightarrow> u32 list \<Rightarrow> u32 \<Rightarrow> bool \<times> u32 list \<times> u64" where
  "scanhash_sha256d restart pdata ptarget max_nonce =
     (let data = sha256d_preextend (memcpy_at (replicate 64 0) 0 (take 16 (drop 16 pdata)));
          midstate = sha256_init (replicate 8 0);
          midstate = sha256_transform midstate pdata False;
          prehash = sha256d_prehash midstate (drop 16 pdata)
      in scan_loop ptarget max_nonce restart midstate prehash (pdata ! 19) (pdata ! 19 - 1) 0
           data pdata (replicate 8 0))"

declare scan_loop.simps [simp del]

section \<open>The shortened hash computes the last word of the full hash\<close>

lemma assigns_final:
  assumes "map fst as = [k..<k + length as]" "k + length as \<le> length W"
    and "\<forall>(j, f) \<in> set as. reads_upto j f"
  shows "\<forall>(j, f) \<in> set as. assign_all W as ! j = f ((assign_all W as)[j := W ! j])"
  using assms assign_all_final [OF assms] by auto

lemma preextend_words:
  assumes "length W = 64"
  defines "E \<equiv> sha256d_preextend W"
  shows "length E = 64" "\<And>t. t < 16 \<Longrightarrow> E ! t = W ! t"
    and "E ! 16 = sha_s1 (E ! 14) + E ! 9 + sha_s0 (E ! 1) + E ! 0"
    "E ! 17 = sha_s1 (E ! 15) + E ! 10 + sha_s0 (E ! 2) + E ! 1"
    "E ! 18 = sha_s1 (E ! 16) + E ! 11 + E ! 2"
    "E ! 19 = sha_s1 (E ! 17) + E ! 12 + sha_s0 (E ! 4)"
    "E ! 20 = E ! 13 + sha_s0 (E ! 5) + E ! 4"
    "E ! 22 = E ! 15 + sha_s0 (E ! 7) + E ! 6"
    "E ! 23 = E ! 16 + sha_s0 (E ! 8) + E ! 7"
    "E ! 24 = E ! 17 + sha_s0 (E ! 9) + E ! 8"
    "E ! 30 = sha_s0 (E ! 15) + E ! 14"
    "E ! 31 = sha_s0 (E ! 16) + E ! 15"
proof -
  show "length E = 64" using assms by (simp add: E_def sha256d_preextend_def layout_simps)
  show "E ! t = W ! t" if "t < 16" for t
    unfolding E_def sha256d_preextend_def preextend_assigns_def
    using that by (intro assign_all_other) auto
  have "\<forall>(j, f) \<in> set preextend_assigns. E ! j = f (E[j := W ! j])"
    unfolding E_def sha256d_preextend_def
    by (rule assigns_final [where k = 16])
      (simp_all add: preextend_assigns_def reads_upto_def upt_rec assms(1))
  then show "E ! 16 = sha_s1 (E ! 14) + E ! 9 + sha_s0 (E ! 1) + E ! 0"
    "E ! 17 = sha_s1 (E ! 15) + E ! 10 + sha_s0 (E ! 2) + E ! 1"
    "E ! 18 = sha_s1 (E ! 16) + E ! 11 + E ! 2"
    "E ! 19 = sha_s1 (E ! 17) + E ! 12 + sha_s0 (E ! 4)"
    "E ! 20 = E ! 13 + sha_s0 (E ! 5) + E ! 4"
    "E ! 22 = E ! 15 + sha_s0 (E ! 7) + E ! 6"
    "E ! 23 = E ! 16 + sha_s0 (E ! 8) + E ! 7"
    "E ! 24 = E ! 17 + sha_s0 (E ! 9) + E ! 8"
    "E ! 30 = sha_s0 (E ! 15) + E ! 14"
    "E ! 31 = sha_s0 (E ! 16) + E ! 15"
    by (simp_all add: preextend_assigns_def)
qed

text \<open>What one call of \<open>sha256d_ms\<close> needs of the message array, and leaves in it.\<close>

definition ms_ready :: "u32 list \<Rightarrow> bool" where
  "ms_ready E \<longleftrightarrow> length E = 64
     \<and> E ! 16 = sha_s1 (E ! 14) + E ! 9 + sha_s0 (E ! 1) + E ! 0
     \<and> E ! 17 = sha_s1 (E ! 15) + E ! 10 + sha_s0 (E ! 2) + E ! 1
     \<and> E ! 18 = sha_s1 (E ! 16) + E ! 11 + E ! 2
     \<and> E ! 19 = sha_s1 (E ! 17) + E ! 12 + sha_s0 (E ! 4)
     \<and> E ! 20 = E ! 13 + sha_s0 (E ! 5) + E ! 4
     \<and> E ! 22 = E ! 15 + sha_s0 (E ! 7) + E ! 6
     \<and> E ! 23 = E ! 16 + sha_s0 (E ! 8) + E ! 7
     \<and> E ! 24 = E ! 17 + sha_s0 (E ! 9) + E ! 8
     \<and> E ! 30 = sha_s0 (E ! 15) + E ! 14
     \<and> E ! 31 = sha_s0 (E ! 16) + E ! 15"

text \<open>The padding words of an 80-byte header in its second block.\<close>

definition header_tail :: "u32 list \<Rightarrow> bool" where
  "header_tail E \<longleftrightarrow> E ! 4 = 0x80000000 \<and> (\<forall>t \<in> {5..14}. E ! t = 0) \<and> E ! 15 = 0x280"

lemma sha_s0_0 [simp]: "sha_s0 0 = 0"
  by (simp add: sha_s0_def sha_ROTR_def)

lemma ms_extend_words:
  assumes "length W = 64"
  defines "V \<equiv> assign_all W ms_extend"
  shows "length V = 64" and "\<And>t. t < 18 \<or> 32 \<le> t \<Longrightarrow> V ! t = W ! t"
    and "\<forall>(j, f) \<in> set ms_extend. V ! j = f (V[j := W ! j])"
proof -
  show "length V = 64" using assms by (simp add: V_def layout_simps)
  show "V ! t = W ! t" if "t < 18 \<or> 32 \<le> t" for t
    unfolding V_def ms_extend_def using that by (intro assign_all_other) auto
  show "\<forall>(j, f) \<in> set ms_extend. V ! j = f (V[j := W ! j])"
    unfolding V_def
    by (rule assigns_final [where k = 18])
      (simp_all add: ms_extend_def reads_upto_def upt_rec assms(1))
qed

lemma below_32_cases:
  "(\<And>t. t < 18 \<Longrightarrow> P t) \<Longrightarrow> P 18 \<Longrightarrow> P 19 \<Longrightarrow> P 20 \<Longrightarrow> P 21 \<Longrightarrow> P 22 \<Longrightarrow> P 23 \<Longrightarrow> P 24 \<Longrightarrow> P 25
   \<Longrightarrow> P 26 \<Longrightarrow> P 27 \<Longrightarrow> P 28 \<Longrightarrow> P 29 \<Longrightarrow> P 30 \<Longrightarrow> P (31 :: nat) \<Longrightarrow> \<forall>t < 32. P t"
proof (intro allI impI)
  fix t :: nat
  assume "\<And>t. t < 18 \<Longrightarrow> P t" "P 18" "P 19" "P 20" "P 21" "P 22" "P 23" "P 24" "P 25"
    "P 26" "P 27" "P 28" "P 29" "P 30" "P 31" "t < 32"
  moreover have "t < 18 \<or> t \<in> set [18, 19, 20, 21, 22, 23, 24, 25, 26, 27, 28, 29, 30, 31]"
    using \<open>t < 32\<close> by (simp; presburger)
  ultimately show "P t" by auto
qed

lemma ms_extend_schedule:
  assumes "ms_ready W" "header_tail W"
  shows "\<forall>t < 32. assign_all W ms_extend ! t = fips_W (take 16 W) t"
proof -
  define V where "V = assign_all W ms_extend"
  define M where "M = take 16 W"
  have len: "length W = 64" using assms(1) by (simp add: ms_ready_def)
  note low = ms_extend_words(2) [OF len, folded V_def]
  have eqs: "\<forall>(j, f) \<in> set ms_extend. V ! j = f (V[j := W ! j])"
    using ms_extend_words(3) [OF len, folded V_def] .
  have z: "W ! t = 0" if "t \<in> {5..14}" for t
    using assms(2) that by (simp add: header_tail_def)
  have M: "fips_W M t = W ! t" if "t < 16" for t
    using that len by (simp add: M_def fips_W_low)
  have F16: "fips_W M 16 = W ! 16" "fips_W M 17 = W ! 17"
    using assms(1) by (simp_all add: fips_W_high M ms_ready_def)
  have Veq: "V ! 18 = W ! 18 + sha_s0 (W ! 3)"
    "V ! 19 = W ! 19 + W ! 3"
    "V ! 20 = W ! 20 + sha_s1 (V ! 18)"
    "V ! 21 = sha_s1 (V ! 19)"
    "V ! 22 = W ! 22 + sha_s1 (V ! 20)"
    "V ! 23 = W ! 23 + sha_s1 (V ! 21)"
    "V ! 24 = W ! 24 + sha_s1 (V ! 22)"
    "V ! 25 = sha_s1 (V ! 23) + V ! 18"
    "V ! 26 = sha_s1 (V ! 24) + V ! 19"
    "V ! 27 = sha_s1 (V ! 25) + V ! 20"
    "V ! 28 = sha_s1 (V ! 26) + V ! 21"
    "V ! 29 = sha_s1 (V ! 27) + V ! 22"
    "V ! 30 = W ! 30 + (sha_s1 (V ! 28) + V ! 23)"
    "V ! 31 = W ! 31 + (sha_s1 (V ! 29) + V ! 24)"
    using eqs low ms_extend_words(1) [OF len, folded V_def] by (simp_all add: ms_extend_def)
  note ready = assms(1) [unfolded ms_ready_def]
  have F18: "fips_W M 18 = V ! 18"
    using ready by (simp add: fips_W_high M F16 z  Veq(1) add_ac del: One_nat_def)
  have F19: "fips_W M 19 = V ! 19"
    using ready by (simp add: fips_W_high M F16 z F18 Veq(2) add_ac del: One_nat_def)
  have F20: "fips_W M 20 = V ! 20"
    using ready by (simp add: fips_W_high M F16 z F18 F19 Veq(3) add_ac del: One_nat_def)
  have F21: "fips_W M 21 = V ! 21"
    using ready by (simp add: fips_W_high M F16 z F18 F19 F20 Veq(4) add_ac del: One_nat_def)
  have F22: "fips_W M 22 = V ! 22"
    using ready by (simp add: fips_W_high M F16 z F18 F19 F20 F21 Veq(5) add_ac del: One_nat_def)
  have F23: "fips_W M 23 = V ! 23"
    using ready by (simp add: fips_W_high M F16 z F18 F19 F20 F21 F22 Veq(6) add_ac del: One_nat_def)
  have F24: "fips_W M 24 = V ! 24"
    using ready by (simp add: fips_W_high M F16 z F18 F19 F20 F21 F22 F23 Veq(7) add_ac del: One_nat_def)
  have F25: "fips_W M 25 = V ! 25"
    using ready by (simp add: fips_W_high M F16 z F18 F19 F20 F21 F22 F23 F24 Veq(8) add_ac del: One_nat_def)
  have F26: "fips_W M 26 = V ! 26"
    using ready by (simp add: fips_W_high M F16 z F18 F19 F20 F21 F22 F23 F24 F25 Veq(9) add_ac del: One_nat_def)
  have F27: "fips_W M 27 = V ! 27"
    using ready by (simp add: fips_W_high M F16 z F18 F19 F20 F21 F22 F23 F24 F25 F26 Veq(10) add_ac del: One_nat_def)
  have F28: "fips_W M 28 = V ! 28"
    using ready by (simp add: fips_W_high M F16 z F18 F19 F20 F21 F22 F23 F24 F25 F26 F27 Veq(11) add_ac del: One_nat_def)
  have F29: "fips_W M 29 = V ! 29"
    using ready by (simp add: fips_W_high M F16 z F18 F19 F20 F21 F22 F23 F24 F25 F26 F27 F28 Veq(12) add_ac del: One_nat_def)
  have F30: "fips_W M 30 = V ! 30"
    using ready by (simp add: fips_W_high M F16 z F18 F19 F20 F21 F22 F23 F24 F25 F26 F27 F28 F29 Veq(13) add_ac del: One_nat_def)
  have F31: "fips_W M 31 = V ! 31"
    using ready by (simp add: fips_W_high M F16 z F18 F19 F20 F21 F22 F23 F24 F25 F26 F27 F28 F29 F30 Veq(14) add_ac del: One_nat_def)
  have "\<forall>t < 32. V ! t = fips_W M t"
  proof (rule below_32_cases)
    show "V ! t = fips_W M t" if "t < 18" for t
    proof -
      from that have "t < 16 \<or> t = 16 \<or> t = 17" by arith
      then show ?thesis using low [of t] M [of t] F16 by auto
    qed
  qed (simp_all add: F18 F19 F20 F21 F22 F23 F24 F25 F26 F27 F28 F29 F30 F31)
  then show ?thesis by (simp add: V_def M_def)
qed

lemma RNDr_append: "length A = 8 \<Longrightarrow> RNDr (A @ B) W i = RNDr A W i @ B"
proof -
  assume "length A = 8"
  then have "n mod 8 < length A" for n by simp
  then show ?thesis
    by (simp add: RNDr_def RND_def Let_def nth_append list_update_append)
qed

lemma rounds_append: "length A = 8 \<Longrightarrow> rounds (A @ B) W lo hi = rounds A W lo hi @ B"
proof -
  have "length A = 8 \<Longrightarrow> foldl (\<lambda>S i. RNDr S W i) (A @ B) is = foldl (\<lambda>S i. RNDr S W i) A is @ B" for "is"
    by (induction "is" arbitrary: A) (simp_all add: RNDr_append layout_simps)
  then show "length A = 8 \<Longrightarrow> ?thesis" by (simp add: rounds_def)
qed

lemma rounds_cong:
  "(\<And>t. lo \<le> t \<Longrightarrow> t < hi \<Longrightarrow> W ! t = V ! t) \<Longrightarrow> rounds S W lo hi = rounds S V lo hi"
proof -
  assume eq: "\<And>t. lo \<le> t \<Longrightarrow> t < hi \<Longrightarrow> W ! t = V ! t"
  have "\<forall>t \<in> set is. W ! t = V ! t \<Longrightarrow> foldl (\<lambda>S i. RNDr S W i) S is = foldl (\<lambda>S i. RNDr S V i) S is" for "is" S
    by (induction "is" arbitrary: S) (simp_all add: RNDr_def)
  with eq show ?thesis by (simp add: rounds_def)
qed

lemma rounds_fips:
  assumes "length S = 8" and "\<forall>t < 64. W ! t = fips_W M t"
  shows "map2 (+) S (rounds S W 0 64) = fips_compress S M"
  using assms regs_rounds [of S 64 0 W M] by (simp add: regs_whole layout_simps fips_compress_def)

lemma ms_second_words:
  assumes len: "length S = 64" and c: "\<forall>j \<in> {8..<16}. S ! j = sha256d_hash1 ! j"
  shows "\<forall>t < 32. assign_all S ms_second ! t = fips_W (take 16 S) t"
proof -
  define V where "V = assign_all S ms_second"
  define M where "M = take 16 S"
  have low: "V ! t = S ! t" if "t < 16" for t
    unfolding V_def ms_second_def Let_def using that by (intro assign_all_other) auto
  have eqs: "\<forall>(j, f) \<in> set ms_second. V ! j = f (V[j := S ! j])"
    unfolding V_def
    by (rule assigns_final [where k = 16])
      (simp_all add: ms_second_def Let_def reads_upto_def upt_rec len)
  have lenV: "length V = 64" by (simp add: V_def layout_simps len)
  have c': "sha256d_hash1 ! 8 = S ! 8" "sha256d_hash1 ! 9 = S ! 9" "sha256d_hash1 ! 10 = S ! 10"
    "sha256d_hash1 ! 11 = S ! 11" "sha256d_hash1 ! 12 = S ! 12" "sha256d_hash1 ! 13 = S ! 13"
    "sha256d_hash1 ! 14 = S ! 14" "sha256d_hash1 ! 15 = S ! 15"
    using c by simp_all
  have M: "fips_W M t = S ! t" if "t < 16" for t
    using that len by (simp add: M_def fips_W_low)
  have Veq: "V ! 16 = sha_s1 (S ! 14) + S ! 9 + sha_s0 (S ! 1) + S ! 0"
    "V ! 17 = sha_s1 (S ! 15) + S ! 10 + sha_s0 (S ! 2) + S ! 1"
    "V ! 18 = sha_s1 (V ! 16) + S ! 11 + sha_s0 (S ! 3) + S ! 2"
    "V ! 19 = sha_s1 (V ! 17) + S ! 12 + sha_s0 (S ! 4) + S ! 3"
    "V ! 20 = sha_s1 (V ! 18) + S ! 13 + sha_s0 (S ! 5) + S ! 4"
    "V ! 21 = sha_s1 (V ! 19) + S ! 14 + sha_s0 (S ! 6) + S ! 5"
    "V ! 22 = sha_s1 (V ! 20) + S ! 15 + sha_s0 (S ! 7) + S ! 6"
    "V ! 23 = sha_s1 (V ! 21) + V ! 16 + sha_s0 (S ! 8) + S ! 7"
    "V ! 24 = sha_s1 (V ! 22) + V ! 17 + sha_s0 (S ! 9) + S ! 8"
    "V ! 25 = sha_s1 (V ! 23) + V ! 18 + sha_s0 (S ! 10) + S ! 9"
    "V ! 26 = sha_s1 (V ! 24) + V ! 19 + sha_s0 (S ! 11) + S ! 10"
    "V ! 27 = sha_s1 (V ! 25) + V ! 20 + sha_s0 (S ! 12) + S ! 11"
    "V ! 28 = sha_s1 (V ! 26) + V ! 21 + sha_s0 (S ! 13) + S ! 12"
    "V ! 29 = sha_s1 (V ! 27) + V ! 22 + sha_s0 (S ! 14) + S ! 13"
    "V ! 30 = sha_s1 (V ! 28) + V ! 23 + sha_s0 (S ! 15) + S ! 14"
    "V ! 31 = sha_s1 (V ! 29) + V ! 24 + sha_s0 (V ! 16) + S ! 15"
    using eqs low lenV by (simp_all add: ms_second_def Let_def c')
  have F16: "fips_W M 16 = V ! 16"
    by (simp add: fips_W_high M  Veq(1))
  have F17: "fips_W M 17 = V ! 17"
    by (simp add: fips_W_high M F16 Veq(2))
  have F18: "fips_W M 18 = V ! 18"
    by (simp add: fips_W_high M F16 F17 Veq(3))
  have F19: "fips_W M 19 = V ! 19"
    by (simp add: fips_W_high M F16 F17 F18 Veq(4))
  have F20: "fips_W M 20 = V ! 20"
    by (simp add: fips_W_high M F16 F17 F18 F19 Veq(5))
  have F21: "fips_W M 21 = V ! 21"
    by (simp add: fips_W_high M F16 F17 F18 F19 F20 Veq(6))
  have F22: "fips_W M 22 = V ! 22"
    by (simp add: fips_W_high M F16 F17 F18 F19 F20 F21 Veq(7))
  have F23: "fips_W M 23 = V ! 23"
    by (simp add: fips_W_high M F16 F17 F18 F19 F20 F21 F22 Veq(8))
  have F24: "fips_W M 24 = V ! 24"
    by (simp add: fips_W_high M F16 F17 F18 F19 F20 F21 F22 F23 Veq(9))
  have F25: "fips_W M 25 = V ! 25"
    by (simp add: fips_W_high M F16 F17 F18 F19 F20 F21 F22 F23 F24 Veq(10))
  have F26: "fips_W M 26 = V ! 26"
    by (simp add: fips_W_high M F16 F17 F18 F19 F20 F21 F22 F23 F24 F25 Veq(11))
  have F27: "fips_W M 27 = V ! 27"
    by (simp add: fips_W_high M F16 F17 F18 F19 F20 F21 F22 F23 F24 F25 F26 Veq(12))
  have F28: "fips_W M 28 = V ! 28"
    by (simp add: fips_W_high M F16 F17 F18 F19 F20 F21 F22 F23 F24 F25 F26 F27 Veq(13))
  have F29: "fips_W M 29 = V ! 29"
    by (simp add: fips_W_high M F16 F17 F18 F19 F20 F21 F22 F23 F24 F25 F26 F27 F28 Veq(14))
  have F30: "fips_W M 30 = V ! 30"
    by (simp add: fips_W_high M F16 F17 F18 F19 F20 F21 F22 F23 F24 F25 F26 F27 F28 F29 Veq(15))
  have F31: "fips_W M 31 = V ! 31"
    by (simp add: fips_W_high M F16 F17 F18 F19 F20 F21 F22 F23 F24 F25 F26 F27 F28 F29 F30 Veq(16))
  have "\<forall>t < 32. V ! t = fips_W M t"
  proof (rule below_32_cases)
    show "V ! t = fips_W M t" if "t < 18" for t
    proof -
      from that have "t < 16 \<or> t = 16 \<or> t = 17" by arith
      then show ?thesis using low [of t] M [of t] F16 F17 by auto
    qed
  qed (simp_all add: F18 F19 F20 F21 F22 F23 F24 F25 F26 F27 F28 F29 F30 F31)
  then show ?thesis by (simp add: V_def M_def)
qed

text \<open>Word 7 is final after round 60, and the four shortened rounds compute it.\<close>

lemma ms_last_word:
  assumes "length H = 8" "H ! 7 = sha256_h ! 7" and S: "\<forall>t \<in> {57..60}. S ! t = W ! t"
  shows "ms_last (rounds H W 0 57) S ! 7 = H ! 7 + rounds H W 0 64 ! 7"
proof -
  define R where "R = rounds H W 0 57"
  have "length R = 8" using assms(1) by (simp add: R_def layout_simps)
  then obtain x0 x1 x2 x3 x4 x5 x6 x7 where R: "R = [x0, x1, x2, x3, x4, x5, x6, x7]"
    by (auto simp: length_Suc_conv numeral_eq_Suc)
  have keep: "RNDr S' V 61 ! 7 = S' ! 7" "RNDr S' V 62 ! 7 = S' ! 7" "RNDr S' V 63 ! 7 = S' ! 7" for S' V
    by (simp_all add: RNDr_def RND_def Let_def)
  have "[0..<64] = [0..<57] @ [57, 58, 59, 60, 61, 62, 63]"
    by (simp add: upt_rec)
  then have "rounds H W 0 64 = RNDr (RNDr (RNDr (RNDr (RNDr (RNDr (RNDr R W 57) W 58) W 59) W 60) W 61) W 62) W 63"
    by (simp add: rounds_def R_def)
  then have "rounds H W 0 64 ! 7 = RNDr (RNDr (RNDr (RNDr R W 57) W 58) W 59) W 60 ! 7"
    by (simp only: keep)
  moreover have "\<dots> = x7 + rnd_t0 y0 y1 y2 x3 (W ! 60 + sha256_k ! 60)"
    if "y2 = x2 + rnd_t0 x3 x4 x5 x6 (W ! 57 + sha256_k ! 57)"
      "y1 = x1 + rnd_t0 y2 x3 x4 x5 (W ! 58 + sha256_k ! 58)"
      "y0 = x0 + rnd_t0 y1 y2 x3 x4 (W ! 59 + sha256_k ! 59)" for y0 y1 y2
    by (simp add: R RNDr_def RND_rotated that del: One_nat_def)
  moreover have "ms_last R S ! 7 = x7 + rnd_t0 y0 y1 y2 x3 (W ! 60 + sha256_k ! 60) + sha256_h ! 7"
    if "y2 = x2 + rnd_t0 x3 x4 x5 x6 (W ! 57 + sha256_k ! 57)"
      "y1 = x1 + rnd_t0 y2 x3 x4 x5 (W ! 58 + sha256_k ! 58)"
      "y0 = x0 + rnd_t0 y1 y2 x3 x4 (W ! 59 + sha256_k ! 59)" for y0 y1 y2
    using S by (simp add: R ms_last_def Let_def rnd_t0_def that add_ac)
  ultimately show ?thesis
    unfolding R_def [symmetric] by (simp add: assms(2) add_ac)
qed

lemma length_copy_words [layout_simps]: "length (copy_words ks D S) = length D"
  by (induction ks arbitrary: D) (simp_all add: copy_words_def)

lemma copy_words_nth:
  "t < length D \<Longrightarrow> copy_words ks D S ! t = (if t \<in> set ks then S ! t else D ! t)"
proof (induction ks arbitrary: D)
  case (Cons k ks)
  have "copy_words (k # ks) D S = copy_words ks (D[k := S ! k]) S"
    by (simp add: copy_words_def)
  with Cons show ?case by (auto simp: nth_list_update)
qed (simp add: copy_words_def)

lemma length_map2 [simp]: "length (map2 f xs ys) = min (length xs) (length ys)"
  by simp

text \<open>The first part of \<open>sha256d_ms\<close>: the digest of the header, for a given midstate.\<close>

lemma ms_first_digest:
  assumes W: "ms_ready W" "header_tail W" and "length mid = 8"
    and pre: "prehash = rounds mid X 0 3" and X: "\<forall>t < 3. X ! t = W ! t"
  shows "map2 (+) (rounds prehash (sched_loop (assign_all W ms_extend) 32 64) 3 64) mid
    = fips_compress mid (take 16 W)"
proof -
  define V where "V = sched_loop (assign_all W ms_extend) 32 64"
  have len: "length W = 64" using W(1) by (simp add: ms_ready_def)
  have V: "\<forall>t < 64. V ! t = fips_W (take 16 W) t"
    unfolding V_def using len
    by (intro sched_loop_prefix ms_extend_schedule W) (simp_all add: layout_simps)
  have "V ! t = X ! t" if "t < 3" for t
    using that V X len by (simp add: fips_W_low)
  then have "prehash = rounds mid V 0 3"
    unfolding pre by (intro rounds_cong) simp
  then have "rounds prehash V 3 64 = rounds mid V 0 64"
    using rounds_split [of 0 3 64 mid V] by simp
  moreover have "map2 (+) mid (rounds mid V 0 64) = fips_compress mid (take 16 W)"
    using assms(3) V by (rule rounds_fips)
  moreover have "map2 (+) xs ys = map2 (+) ys (xs :: u32 list)" for xs ys
    by (subst zip_commute) (simp add: comp_def case_prod_unfold add.commute)
  ultimately show ?thesis by (simp add: V_def)
qed

text \<open>The second part: word 7 of the hash of the digest.\<close>

lemma ms_second_hash:
  assumes "length D = 8" "length tail = 56" "length hash = 8"
  defines "S0 \<equiv> memcpy_at (D @ tail) 8 (drop 8 sha256d_hash1)"
  defines "S1 \<equiv> sched_loop (assign_all S0 ms_second) 32 60"
  defines "S2 \<equiv> S1[60 := sha_s1 (S1 ! 58) + S1 ! 53 + sha_s0 (S1 ! 45) + S1 ! 44]"
  shows "ms_last (rounds (sha256_init hash) S2 0 57) S2 ! 7
    = fips_compress sha256_h (D @ drop 8 sha256d_hash1) ! 7"
proof -
  have h1: "length sha256d_hash1 = 16" by (simp add: sha256d_hash1_def)
  have S0: "S0 = (D @ drop 8 sha256d_hash1) @ drop 8 tail"
    using assms(1,2) h1 by (simp add: S0_def memcpy_at_def)
  then have len: "length S0 = 64" and M: "take 16 S0 = D @ drop 8 sha256d_hash1"
    using assms(1,2) h1 by simp_all
  define M where "M = D @ drop 8 sha256d_hash1"
  have "\<forall>t < 32. assign_all S0 ms_second ! t = fips_W M t"
    unfolding M_def M [symmetric]
    by (rule ms_second_words [OF len]) (use assms(1) h1 in \<open>auto simp: S0 nth_append\<close>)
  then have p: "\<forall>t < 60. S1 ! t = fips_W M t"
    unfolding S1_def using len by (intro sched_loop_prefix) (simp_all add: layout_simps)
  have "length S1 = 64" by (simp add: S1_def layout_simps len)
  then have S2: "\<forall>t < 61. S2 ! t = fips_W M t"
    using p by (auto simp: S2_def nth_list_update fips_W_high [of 60] less_Suc_eq)
  define Wf where "Wf = map (fips_W M) [0..<64]"
  have Wf: "\<forall>t < 64. Wf ! t = fips_W M t" by (simp add: Wf_def)
  have init: "sha256_init hash = sha256_h"
    using assms(3) by (simp add: sha256_init_def layout_simps)
  have "rounds sha256_h S2 0 57 = rounds sha256_h Wf 0 57"
    using S2 Wf by (intro rounds_cong) simp
  then have "ms_last (rounds (sha256_init hash) S2 0 57) S2 ! 7 = sha256_h ! 7 + rounds sha256_h Wf 0 64 ! 7"
    unfolding init using S2 Wf by (simp add: ms_last_word)
  also have "\<dots> = map2 (+) sha256_h (rounds sha256_h Wf 0 64) ! 7"
    by (simp add: layout_simps)
  also have "\<dots> = fips_compress sha256_h M ! 7"
    by (simp only: rounds_fips [OF sha256_h_length Wf])
  finally show ?thesis by (simp add: M_def)
qed

lemma sha256d_ms_word7:
  assumes "ms_ready W" "header_tail W" and "length mid = 8" "length hash = 8"
    and "prehash = rounds mid X 0 3" and "\<forall>t < 3. X ! t = W ! t"
  shows "fst (sha256d_ms hash W mid prehash) ! 7
    = fips_compress sha256_h (fips_compress mid (take 16 W) @ drop 8 sha256d_hash1) ! 7"
proof -
  define V where "V = sched_loop (assign_all W ms_extend) 32 64"
  define S where "S = copy_words ms_saved (replicate 64 0) W"
  have pre: "length prehash = 8" using assms by (simp add: layout_simps)
  have S: "length S = 64" by (simp add: S_def layout_simps)
  have "memcpy_at S 0 prehash = prehash @ drop 8 S"
    using pre by (simp add: memcpy_at_def)
  then have R: "rounds (memcpy_at S 0 prehash) V 3 64 = rounds prehash V 3 64 @ drop 8 S"
    using pre by (simp add: rounds_append)
  have D: "map2 (+) (rounds prehash V 3 64) mid = fips_compress mid (take 16 W)"
    unfolding V_def using assms by (intro ms_first_digest)
  have "length (fips_compress mid (take 16 W)) = 8" "length (drop 8 S) = 56"
    using assms(3) S by (simp_all add: layout_simps)
  from ms_second_hash [OF this assms(4)] show ?thesis
    using pre assms(3) D
    by (simp add: sha256d_ms_def Let_def R layout_simps flip: V_def S_def)
qed

lemma sched_loop_low: "t < i \<Longrightarrow> sched_loop W i n ! t = W ! t"
proof (induction W i n rule: sched_loop.induct)
  case (1 W i n)
  then show ?case by (subst sched_loop.simps) (simp add: sched_step_def Let_def)
qed

lemma sha256d_ms_keeps:
  fixes hash :: "u32 list"
  assumes "ms_ready W" and "length mid = 8" "length prehash = 8"
  defines "W' \<equiv> snd (sha256d_ms hash W mid prehash)"
  shows "length W' = 64" and "t < 18 \<or> t \<in> set ms_saved \<Longrightarrow> W' ! t = W ! t"
proof -
  define V where "V = sched_loop (assign_all W ms_extend) 32 64"
  define S where "S = copy_words ms_saved (replicate 64 0) W"
  have len: "length W = 64" using assms(1) by (simp add: ms_ready_def)
  have S: "length S = 64" by (simp add: S_def layout_simps)
  have V: "length V = 64" by (simp add: V_def layout_simps len)
  have Vlow: "V ! t = W ! t" if "t < 18" for t
    using that len by (simp add: V_def sched_loop_low ms_extend_words)
  have "memcpy_at S 0 prehash = prehash @ drop 8 S"
    using assms(3) by (simp add: memcpy_at_def)
  then have R: "rounds (memcpy_at S 0 prehash) V 3 64 = rounds prehash V 3 64 @ drop 8 S"
    using assms(3) by (simp add: rounds_append)
  define Sx where "Sx = map2 (+) (rounds prehash V 3 64) mid @ drop 8 S"
  have W': "W' = copy_words ms_saved V Sx"
    using assms(2,3) by (simp add: W'_def sha256d_ms_def Let_def R layout_simps Sx_def flip: V_def S_def)
  then show "length W' = 64" by (simp add: layout_simps V)
  have Sx: "Sx ! t = W ! t" if "t \<in> set ms_saved" for t
  proof -
    from that have t: "8 \<le> t" "t < 64" by (auto simp: ms_saved_def)
    then have "Sx ! t = drop 8 S ! (t - 8)"
      using assms(2,3) by (simp add: Sx_def nth_append layout_simps)
    also have "\<dots> = S ! t" using t S by simp
    also have "\<dots> = W ! t" using that t by (simp add: S_def copy_words_nth)
    finally show ?thesis .
  qed
  show "W' ! t = W ! t" if "t < 18 \<or> t \<in> set ms_saved"
  proof -
    have "t < 64" using that by (auto simp: ms_saved_def)
    then show ?thesis using that V by (auto simp: W' copy_words_nth Sx Vlow)
  qed
qed

lemma sha256d_ms_ready:
  assumes "ms_ready W" and "length mid = 8" "length prehash = 8"
  shows "ms_ready (snd (sha256d_ms hash W mid prehash))"
proof -
  define W' where "W' = snd (sha256d_ms hash W mid prehash)"
  have keep: "length W' = 64" "W' ! t = W ! t" if "t < 18 \<or> t \<in> set ms_saved" for t
    using sha256d_ms_keeps [OF assms] that by (simp_all add: W'_def)
  have "length W' = 64" using sha256d_ms_keeps(1) [OF assms] by (simp add: W'_def)
  moreover have "W' ! t = W ! t" if "t \<in> {0..<18} \<union> {18, 19, 20, 22, 23, 24, 30, 31}" for t
    using that by (intro keep) (auto simp: ms_saved_def)
  ultimately show ?thesis
    using assms(1) unfolding W'_def [symmetric] by (simp add: ms_ready_def)
qed

lemma ms_ready_nonce: "ms_ready W \<Longrightarrow> ms_ready (W[3 := n])"
  by (simp add: ms_ready_def)

lemma header_tail_cong: "header_tail W \<Longrightarrow> \<forall>t \<in> {4..15}. W' ! t = W ! t \<Longrightarrow> header_tail W'"
  by (simp add: header_tail_def)

section \<open>The scanner against a loop of full hashes\<close>

text \<open>The same loop without the fast path: every nonce is tried with \<open>sha256d_80_swap\<close>.\<close>

function scan_ref :: "u32 list \<Rightarrow> u32 \<Rightarrow> (nat \<Rightarrow> bool) \<Rightarrow> u32 \<Rightarrow> u32 \<Rightarrow> nat \<Rightarrow> u32 list \<Rightarrow> bool \<times> u32 list \<times> u64" where
  "scan_ref ptarget max_nonce restart first_nonce n polls pdata =
     (let n = n + 1; pdata = pdata[19 := n]
      in if fulltest (sha256d_80_swap (replicate 8 0) pdata) ptarget
         then (True, pdata, ucast (n - first_nonce + 1))
         else if n < max_nonce \<and> \<not> restart polls
         then scan_ref ptarget max_nonce restart first_nonce n (polls + 1) pdata
         else (False, pdata, ucast (n - first_nonce + 1)))"
  by pat_completeness auto
termination
  by (relation "measure (\<lambda>(ptarget, max_nonce, restart, first_nonce, n, x). passes_left max_nonce n)")
    (auto intro: passes_left_decreases)

declare scan_ref.simps [simp del]

lemma fulltest_top: "fulltest h t \<Longrightarrow> h ! 7 \<le> t ! 7"
  by (simp add: fulltest_def numeral_eq_Suc split: if_splits)


lemma sha256d_80_swap_word7:
  assumes "length hash = 8" "length pdata = 32"
  shows "sha256d_80_swap hash pdata
    = map swab32 (fips_compress sha256_h (fips_compress (fips_compress sha256_h (take 16 pdata))
        (drop 16 pdata) @ drop 8 sha256d_hash1))"
proof -
  have i: "sha256_init (replicate 16 0) = sha256_h @ replicate 8 0" "sha256_init hash = sha256_h"
    using assms(1) by (simp_all add: sha256_init_def memcpy_at_def sha256_h_def)
  have h1: "length sha256d_hash1 = 16" by (simp add: sha256d_hash1_def)
  have m: "memcpy_at (D @ replicate 8 0) 8 (drop 8 sha256d_hash1) = D @ drop 8 sha256d_hash1"
    if "length D = 8" for D :: "u32 list"
    using that h1 by (simp add: memcpy_at_def)
  show ?thesis
    using assms h1
    by (simp add: sha256d_80_swap_def Let_def i sha256_transform_blocks layout_simps m)
qed

text \<open>The header as the scanner gets it: 32 words with the padding of an 80-byte message.\<close>

definition padded_header :: "u32 list \<Rightarrow> bool" where
  "padded_header pdata \<longleftrightarrow> length pdata = 32 \<and> header_tail (drop 16 pdata)"

lemma length_ms_last: "length (ms_last hash S) = length hash"
  by (simp add: ms_last_def Let_def)

lemma length_ms_hash: "length hash = 8 \<Longrightarrow> length (fst (sha256d_ms hash W mid prehash)) = 8"
  unfolding sha256d_ms_def Let_def fst_conv length_ms_last length_rounds
  by (simp add: sha256_init_def layout_simps)

lemma length_80_swap: "length hash = 8 \<Longrightarrow> length pdata = 32 \<Longrightarrow> length (sha256d_80_swap hash pdata) = 8"
  by (simp add: sha256d_80_swap_word7 layout_simps)

lemma scan_ref_last_word: "scan_ref ptarget max_nonce restart first_nonce n polls (pdata[19 := x])
    = scan_ref ptarget max_nonce restart first_nonce n polls pdata"
  by (subst (1 2) scan_ref.simps) simp

text \<open>What the message array, the midstate and the prehash keep during the scan.\<close>

definition scan_inv :: "u32 list \<Rightarrow> u32 list \<Rightarrow> u32 list \<Rightarrow> u32 list \<Rightarrow> bool" where
  "scan_inv data pdata mid prehash \<longleftrightarrow> padded_header pdata \<and> ms_ready data
     \<and> (\<forall>t < 16. t \<noteq> 3 \<longrightarrow> data ! t = pdata ! (16 + t))
     \<and> mid = fips_compress sha256_h (take 16 pdata)
     \<and> prehash = rounds mid (drop 16 pdata) 0 3"

lemma padded_header_nonce: "padded_header pdata \<Longrightarrow> padded_header (pdata[19 := x])"
  by (auto simp: padded_header_def drop_update_swap intro!: header_tail_cong [of "drop 16 pdata"])

lemma scan_inv_nonce: "scan_inv data pdata mid prehash \<Longrightarrow> scan_inv data (pdata[19 := x]) mid prehash"
proof -
  assume inv: "scan_inv data pdata mid prehash"
  then have "rounds mid (drop 16 pdata) 0 3 = rounds mid (drop 16 (pdata[19 := x])) 0 3"
    by (intro rounds_cong) (simp add: scan_inv_def padded_header_def)
  with inv show ?thesis
    by (simp add: scan_inv_def padded_header_nonce)
qed

lemma scan_inv_lens:
  "scan_inv data pdata mid prehash \<Longrightarrow> length data = 64 \<and> length pdata = 32 \<and> length mid = 8 \<and> length prehash = 8"
  by (simp add: scan_inv_def padded_header_def ms_ready_def layout_simps)

lemma scan_inv_step:
  assumes inv: "scan_inv data pdata mid prehash"
  shows "scan_inv (snd (sha256d_ms hash (data[3 := n]) mid prehash)) pdata mid prehash"
proof -
  have ready: "ms_ready (data[3 := n])" using inv by (simp add: scan_inv_def ms_ready_nonce)
  note lens = scan_inv_lens [OF inv]
  have "snd (sha256d_ms hash (data[3 := n]) mid prehash) ! t = data[3 := n] ! t" if "t < 18" for t
    using sha256d_ms_keeps(2) [OF ready, of mid prehash t hash] lens that by simp
  then show ?thesis
    using inv sha256d_ms_ready [OF ready, of mid prehash hash] lens by (simp add: scan_inv_def)
qed

lemma scan_fast_word7:
  assumes inv: "scan_inv data pdata mid prehash" and "length hash = 8" "length hash' = 8"
  shows "swab32 (fst (sha256d_ms hash (data[3 := n]) mid prehash) ! 7)
    = sha256d_80_swap hash' (pdata[19 := n]) ! 7"
proof -
  define d where "d = data[3 := n]"
  define q where "q = pdata[19 := n]"
  note lens = scan_inv_lens [OF inv]
  have low: "d ! t = q ! (16 + t)" if "t < 16" for t
    using inv that lens by (auto simp: d_def q_def nth_list_update scan_inv_def)
  have q: "padded_header q" "take 16 q = take 16 pdata" "length q = 32"
    using inv lens by (simp_all add: q_def padded_header_nonce scan_inv_def)
  have "header_tail (drop 16 q)" using q(1) by (simp add: padded_header_def)
  moreover have "\<forall>t \<in> {4..15}. d ! t = drop 16 q ! t"
    using low q(3) by simp
  ultimately have tail: "header_tail d" by (rule header_tail_cong)
  have ready: "ms_ready d" using inv by (simp add: d_def scan_inv_def ms_ready_nonce)
  have blk: "take 16 d = drop 16 q"
    using low lens q(3) by (intro nth_equalityI) (simp_all add: d_def)
  have "\<forall>t < 3. drop 16 pdata ! t = d ! t"
    using inv lens by (simp add: d_def scan_inv_def)
  then have "fst (sha256d_ms hash d mid prehash) ! 7
      = fips_compress sha256_h (fips_compress mid (drop 16 q) @ drop 8 sha256d_hash1) ! 7"
    unfolding blk [symmetric] using inv lens assms(2)
    by (intro sha256d_ms_word7 [OF ready tail, where X = "drop 16 pdata"]) (simp_all add: scan_inv_def)
  then have "swab32 (fst (sha256d_ms hash d mid prehash) ! 7) = sha256d_80_swap hash' q ! 7"
    using assms(3) q inv by (simp add: sha256d_80_swap_word7 scan_inv_def layout_simps)
  then show ?thesis by (simp add: d_def q_def)
qed

lemma scan_loop_ref:
  assumes "scan_inv data pdata mid prehash" "length hash = 8"
  shows "scan_loop ptarget max_nonce restart mid prehash first_nonce n polls data pdata hash
    = scan_ref ptarget max_nonce restart first_nonce n polls pdata"
  using assms
proof (induction n arbitrary: polls data pdata hash rule: measure_induct_rule [where f = "passes_left max_nonce"])
  case (less n)
  define q where "q = pdata[19 := n + 1]"
  obtain h d' where ms: "sha256d_ms hash (data[3 := n + 1]) mid prehash = (h, d')" by (metis surj_pair)
  note lens = scan_inv_lens [OF less.prems(1)]
  have h: "length h = 8" using length_ms_hash [OF less.prems(2)] ms by (metis fst_conv)
  define full where "full = sha256d_80_swap (replicate 8 0) q"
  have full_any: "sha256d_80_swap hash' q = full" if "length hash' = 8" for hash'
    using that lens by (simp add: full_def sha256d_80_swap_word7 q_def)
  have word7: "swab32 (h ! 7) = full ! 7"
    using scan_fast_word7 [OF less.prems, of "replicate 8 0" "n + 1"] ms by (simp add: full_def q_def)
  have d3: "d' ! 3 = n + 1"
    using sha256d_ms_keeps(2) [of "data[3 := n + 1]" mid prehash 3 hash] less.prems(1) lens ms
    by (simp add: scan_inv_def ms_ready_nonce)
  have inv: "scan_inv d' pdata mid prehash"
    using scan_inv_step [OF less.prems(1), of hash "n + 1"] ms by simp
  define hit where "hit \<longleftrightarrow> swab32 (h ! 7) \<le> ptarget ! 7"
  define p' where "p' = (if hit then q else pdata)"
  define hash' where "hash' = (if hit then full else h)"
  have inv': "scan_inv d' p' mid prehash" using inv by (simp add: p'_def q_def scan_inv_nonce)
  have hash': "length hash' = 8"
    using h lens by (simp add: hash'_def full_def length_80_swap q_def)
  have hit_iff: "hit \<and> fulltest hash' ptarget \<longleftrightarrow> fulltest full ptarget"
    using fulltest_top [of full ptarget] word7 by (auto simp: hit_def hash'_def)
  have p'_set: "p'[19 := n + 1] = q" by (simp add: p'_def q_def)
  have "scan_loop ptarget max_nonce restart mid prehash first_nonce n polls data pdata hash
    = (if hit \<and> fulltest hash' ptarget then (True, q, ucast (n + 1 - first_nonce + 1))
       else if n + 1 < max_nonce \<and> \<not> restart polls
       then scan_loop ptarget max_nonce restart mid prehash first_nonce (n + 1) (polls + 1) d' p' hash'
       else (False, q, ucast (n + 1 - first_nonce + 1)))"
    by (subst scan_loop.simps)
      (simp add: Let_def ms d3 full_any [OF h] p'_set flip: hit_def q_def, simp add: hash'_def p'_def q_def)
  also have "\<dots> = scan_ref ptarget max_nonce restart first_nonce n polls pdata"
  proof -
    have "scan_loop ptarget max_nonce restart mid prehash first_nonce (n + 1) (polls + 1) d' p' hash'
        = scan_ref ptarget max_nonce restart first_nonce (n + 1) (polls + 1) q" if "n + 1 < max_nonce"
      using less.IH [OF passes_left_decreases [OF that] inv' hash']
        scan_ref_last_word [of ptarget max_nonce restart first_nonce "n + 1" "polls + 1" pdata "n + 1"]
      by (simp add: p'_def q_def)
    then show ?thesis
      by (subst scan_ref.simps) (auto simp: Let_def hit_iff full_def q_def)
  qed
  finally show ?case .
qed

lemma header_block_bytes:
  assumes "padded_header pdata"
  shows "words_of be32dec (fips_pad (bytes_of be32enc (take 20 pdata)) 80) = pdata"
proof -
  have len: "length pdata = 32" and tail: "header_tail (drop 16 pdata)"
    using assms by (simp_all add: padded_header_def)
  have l: "length (bytes_of be32enc (take 20 pdata)) = 4 * 20"
    using len by (simp add: be32.length_bytes_of)
  have "drop 20 pdata = 0x80000000 # replicate 10 0 @ [0x280]"
  proof (rule nth_equalityI)
    show "length (drop 20 pdata) = length (0x80000000 # replicate 10 0 @ [0x280 :: u32])" using len by simp
    fix i assume "i < length (drop 20 pdata)"
    then have i: "i < 12" using len by simp
    have d: "pdata ! (16 + t) = drop 16 pdata ! t" for t using len by simp
    have "drop 20 pdata ! i = drop 16 pdata ! (4 + i)" using len by (simp add: add.commute)
    moreover from i have "i = 0 \<or> i = 11 \<or> (1 \<le> i \<and> i \<le> 10)" by arith
    ultimately show "drop 20 pdata ! i = (0x80000000 # replicate 10 0 @ [0x280]) ! i"
      using tail by (auto simp: header_tail_def nth_append nth_Cons')
  qed
  moreover have "0x80 # replicate 39 0 @ be32enc 0 @ be32enc 640
      = bytes_of be32enc (0x80000000 # replicate 10 0 @ [0x280])"
    by code_simp
  ultimately have "words_of be32dec (0x80 # replicate 39 0 @ be32enc 0 @ be32enc 640) = drop 20 pdata"
    by (simp only: be32.words_of_bytes_of)
  moreover have "fips_pad (bytes_of be32enc (take 20 pdata)) 80
      = bytes_of be32enc (take 20 pdata) @ 0x80 # replicate 39 0 @ be32enc 0 @ be32enc 640"
    by (simp add: fips_pad_def l)
  ultimately show ?thesis
    by (simp add: words_of_append [OF l] be32.words_of_bytes_of)
qed

lemma sha256d_80_swap_fips:
  assumes "padded_header pdata" "length hash = 8"
  shows "sha256d_80_swap hash pdata
    = words_of le32dec (fips_sha256 (fips_sha256 (bytes_of be32enc (take 20 pdata))))"
proof -
  have len: "length pdata = 32" using assms(1) by (simp add: padded_header_def)
  define D where "D = fips_compress (fips_compress sha256_h (take 16 pdata)) (drop 16 pdata)"
  have D: "length D = 8" by (simp add: D_def layout_simps)
  have "fips_blocks 2 sha256_h pdata = D"
    using len by (simp add: D_def numeral_2_eq_2)
  then have "fips_sha256 (bytes_of be32enc (take 20 pdata)) = bytes_of be32enc D"
    using len header_block_bytes [OF assms(1)]
    by (simp add: fips_sha256_def Let_def be32.length_bytes_of)
  then show ?thesis
    using len assms(2) D
    by (simp add: sha256d_80_swap_word7 fips_sha256_digest words_of_swapped D_def)
qed

text \<open>A nonce is good when the double hash of the 80-byte header is at most the target.\<close>

definition good_nonce :: "u32 list \<Rightarrow> u32 list \<Rightarrow> u32 \<Rightarrow> bool" where
  "good_nonce ptarget pdata x \<longleftrightarrow>
     words_val (words_of le32dec (fips_sha256 (fips_sha256 (bytes_of be32enc (take 20 (pdata[19 := x]))))))
       \<le> words_val ptarget"

lemma fulltest_good_nonce:
  "padded_header pdata \<Longrightarrow> length ptarget = 8 \<Longrightarrow>
   fulltest (sha256d_80_swap (replicate 8 0) (pdata[19 := x])) ptarget \<longleftrightarrow> good_nonce ptarget pdata x"
  by (simp add: sha256d_80_swap_fips padded_header_nonce good_nonce_def fulltest_val layout_simps)

definition scan_outcome :: "u32 list \<Rightarrow> u32 list \<Rightarrow> u32 \<Rightarrow> u32 \<Rightarrow> u32 \<Rightarrow> bool \<times> u32 list \<times> u64 \<Rightarrow> bool" where
  "scan_outcome ptarget pdata first_nonce a max_nonce r \<longleftrightarrow>
     (\<exists>x. a \<le> x \<and> x \<le> max_nonce \<and> (\<forall>y. a \<le> y \<and> y < x \<longrightarrow> \<not> good_nonce ptarget pdata y)
        \<and> (good_nonce ptarget pdata x \<or> x = max_nonce)
        \<and> r = (good_nonce ptarget pdata x, pdata[19 := x], ucast (x - first_nonce + 1)))"

lemma scan_ref_outcome:
  assumes "padded_header pdata" "length ptarget = 8" "\<forall>i. \<not> restart i"
  shows "n + 1 \<le> max_nonce \<Longrightarrow>
    scan_outcome ptarget pdata first_nonce (n + 1) max_nonce
      (scan_ref ptarget max_nonce restart first_nonce n polls pdata)"
proof (induction n arbitrary: polls rule: measure_induct_rule [where f = "passes_left max_nonce"])
  case (less n)
  let ?a = "n + 1"
  note good = fulltest_good_nonce [OF assms(1,2)]
  show ?case
  proof (cases "good_nonce ptarget pdata ?a \<or> \<not> ?a < max_nonce")
    case True
    then have "scan_ref ptarget max_nonce restart first_nonce n polls pdata
        = (good_nonce ptarget pdata ?a, pdata[19 := ?a], ucast (?a - first_nonce + 1))"
      by (subst scan_ref.simps) (auto simp: Let_def good)
    then show ?thesis
      using True less.prems unfolding scan_outcome_def by (intro exI [of _ ?a]) auto
  next
    case False
    then have lt: "?a < max_nonce" by simp
    have step: "?a + 1 \<le> max_nonce" using lt by (rule inc_le)
    have le: "?a < ?a + 1" using lt by (rule u32_less_Suc)
    have "scan_ref ptarget max_nonce restart first_nonce n polls pdata
        = scan_ref ptarget max_nonce restart first_nonce ?a (polls + 1) pdata"
      using False assms(3) scan_ref_last_word
      by (subst scan_ref.simps) (simp add: Let_def good)
    moreover obtain x where x: "?a + 1 \<le> x" "x \<le> max_nonce"
        "\<forall>y. ?a + 1 \<le> y \<and> y < x \<longrightarrow> \<not> good_nonce ptarget pdata y"
        "good_nonce ptarget pdata x \<or> x = max_nonce"
        "scan_ref ptarget max_nonce restart first_nonce ?a (polls + 1) pdata
          = (good_nonce ptarget pdata x, pdata[19 := x], ucast (x - first_nonce + 1))"
      using less.IH [OF passes_left_decreases [OF lt] step, of "polls + 1"] unfolding scan_outcome_def by auto
    moreover have "\<not> good_nonce ptarget pdata y" if "?a \<le> y" "y < x" for y
    proof (cases "y = ?a")
      case False
      with that(1) have "?a + 1 \<le> y" by (intro inc_le) simp
      with x(3) that(2) show ?thesis by simp
    qed (use \<open>\<not> (good_nonce ptarget pdata ?a \<or> \<not> ?a < max_nonce)\<close> in simp)
    ultimately show ?thesis
      using le unfolding scan_outcome_def by (intro exI [of _ x]) auto
  qed
qed

lemma scanhash_sha256d_scan_ref:
  assumes "padded_header pdata"
  shows "scanhash_sha256d restart pdata ptarget max_nonce
    = scan_ref ptarget max_nonce restart (pdata ! 19) (pdata ! 19 - 1) 0 pdata"
proof -
  define W where "W = memcpy_at (replicate 64 0) 0 (take 16 (drop 16 pdata))"
  have len: "length pdata = 32" using assms by (simp add: padded_header_def)
  have W: "length W = 64" "\<And>t. t < 16 \<Longrightarrow> W ! t = pdata ! (16 + t)"
    using len by (simp_all add: W_def memcpy_at_def nth_append)
  have mid: "sha256_transform (sha256_init (replicate 8 0)) pdata False = fips_compress sha256_h (take 16 pdata)"
    using len by (simp add: sha256_init_def memcpy_at_def sha256_transform_blocks)
  have "scan_inv (sha256d_preextend W) pdata (fips_compress sha256_h (take 16 pdata))
      (sha256d_prehash (fips_compress sha256_h (take 16 pdata)) (drop 16 pdata))"
    unfolding scan_inv_def ms_ready_def sha256d_prehash_def
    using preextend_words [OF W(1)] W(2) assms by simp
  then show ?thesis
    by (simp add: scanhash_sha256d_def Let_def mid scan_loop_ref flip: W_def)
qed

lemma padded_sample: "padded_header (replicate 20 7 @ [0x80000000] @ replicate 10 0 @ [0x280])"
proof -
  have "{5..14} = {5, 6, 7, 8, 9, 10, 11, 12, 13, 14 :: nat}"
    by (auto simp: atLeastAtMost_iff; presburger)
  then show ?thesis
    by (simp add: padded_header_def header_tail_def nth_append)
qed

text \<open>The optimised scanner computes exactly what the loop that hashes every header in full
  computes: the midstate, the pre-extended schedule, the shortened second hash and the test of the
  last word alone change neither the nonce found nor the header words nor the count of hashes,
  whatever the restart flag does.\<close>

theorem scanhash_sha256d_ref:
  assumes "padded_header pdata"
  shows "scanhash_sha256d restart pdata ptarget max_nonce
    = scan_ref ptarget max_nonce restart (pdata ! 19) (pdata ! 19 - 1) 0 pdata"
  using assms by (rule scanhash_sha256d_scan_ref)

lemma scanhash_sha256d_ref_witness:
  "scanhash_sha256d (\<lambda>i. 3 \<le> i) (replicate 20 7 @ [0x80000000] @ replicate 10 0 @ [0x280]) (replicate 8 9) 20
    = scan_ref (replicate 8 9) 20 (\<lambda>i. 3 \<le> i) 7 6 0 (replicate 20 7 @ [0x80000000] @ replicate 10 0 @ [0x280])"
  using scanhash_sha256d_ref [of "replicate 20 7 @ [0x80000000] @ replicate 10 0 @ [0x280]"
      "\<lambda>i. 3 \<le> i" "replicate 8 9" 20]
  using padded_sample by (simp add: nth_append)

text \<open>Without a restart, a scan from \<open>pdata[19]\<close> to \<open>max_nonce\<close> returns the first nonce of that
  range for which the double SHA-256 of the 80-byte header is at most the target, or, when there is
  none, reports failure with \<open>max_nonce\<close> in \<open>pdata[19]\<close>.\<close>

theorem scanhash_sha256d_finds_first:
  assumes "padded_header pdata" "length ptarget = 8" "\<forall>i. \<not> restart i" "pdata ! 19 \<le> max_nonce"
  shows "\<exists>x. pdata ! 19 \<le> x \<and> x \<le> max_nonce
    \<and> (\<forall>y. pdata ! 19 \<le> y \<and> y < x \<longrightarrow> \<not> good_nonce ptarget pdata y)
    \<and> (good_nonce ptarget pdata x \<or> x = max_nonce)
    \<and> scanhash_sha256d restart pdata ptarget max_nonce
      = (good_nonce ptarget pdata x, pdata[19 := x], ucast (x - pdata ! 19 + 1))"
  using scan_ref_outcome [OF assms(1,2,3), of "pdata ! 19 - 1" max_nonce "pdata ! 19" 0] assms(4)
  unfolding scanhash_sha256d_scan_ref [OF assms(1)] scan_outcome_def by simp

lemma scanhash_sha256d_finds_first_witness:
  "\<exists>x. 7 \<le> x \<and> x \<le> 9
    \<and> (\<forall>y. 7 \<le> y \<and> y < x \<longrightarrow>
        \<not> good_nonce (replicate 8 9) (replicate 20 7 @ [0x80000000] @ replicate 10 0 @ [0x280]) y)
    \<and> (good_nonce (replicate 8 9) (replicate 20 7 @ [0x80000000] @ replicate 10 0 @ [0x280]) x \<or> x = 9)
    \<and> scanhash_sha256d (\<lambda>i. False) (replicate 20 7 @ [0x80000000] @ replicate 10 0 @ [0x280]) (replicate 8 9) 9
      = (good_nonce (replicate 8 9) (replicate 20 7 @ [0x80000000] @ replicate 10 0 @ [0x280]) x,
         (replicate 20 7 @ [0x80000000] @ replicate 10 0 @ [0x280])[19 := x], ucast (x - 7 + 1))"
proof -
  define P :: "u32 list" where "P = replicate 20 7 @ [0x80000000] @ replicate 10 0 @ [0x280]"
  have P: "padded_header P" "P ! 19 = 7"
    using padded_sample by (simp_all add: P_def nth_append)
  show ?thesis
    using scanhash_sha256d_finds_first [of P "replicate 8 9" "\<lambda>i. False" 9] P
    unfolding P_def by simp
qed

end
