(* ===== verification/Sha256Ways.thy ===== *)
theory Sha256Ways
  imports Sha256Scan
begin

text \<open>
  The scanners of \<open>sha2.c\<close> for \<open>sha256d_ms_4way\<close> and \<open>sha256d_ms_8way\<close>, which hash four and eight nonces at once, and the
  choice between the three scanners. The two functions differ in the number of lanes only, which is \<open>w\<close> here. The routines are
  assembly: they are the argument \<open>ms\<close>, of which the theorems assume that it does in each lane what \<open>sha256d_ms\<close> does.
\<close>

section \<open>Lanes\<close>

text \<open>Word \<open>t\<close> of lane \<open>i\<close> is word \<open>w * t + i\<close> of the array. The loop that spreads the first \<open>k\<close> words over the lanes runs downwards in place.\<close>

definition copy_lanes :: "nat \<Rightarrow> nat \<Rightarrow> u32 list \<Rightarrow> u32 list" where
  "copy_lanes w i xs = foldl (\<lambda>xs j. xs[i * w + j := xs ! i]) xs [0..<w]"

fun spread_lanes :: "nat \<Rightarrow> nat \<Rightarrow> u32 list \<Rightarrow> u32 list" where
  "spread_lanes w 0 xs = xs"
| "spread_lanes w (Suc i) xs = spread_lanes w i (copy_lanes w i xs)"

definition lane :: "nat \<Rightarrow> nat \<Rightarrow> u32 list \<Rightarrow> u32 list" where
  "lane w i xs = map (\<lambda>t. xs ! (w * t + i)) [0..<length xs div w]"

section \<open>The scanners\<close>

type_synonym ways_routine = "u32 list \<Rightarrow> u32 list \<Rightarrow> u32 list \<Rightarrow> u32 list \<Rightarrow> u32 list \<times> u32 list"

definition next_nonces :: "nat \<Rightarrow> u32 list \<Rightarrow> u32 \<Rightarrow> u32 list \<times> u32" where
  "next_nonces w data n = foldl (\<lambda>(data, n) i. (data[w * 3 + i := n + 1], n + 1)) (data, n) [0..<w]"

text \<open>The inner loop over the hashes of a call: whether one passes, and the header and the hash array.\<close>

fun try_lanes :: "nat \<Rightarrow> u32 list \<Rightarrow> u32 list \<Rightarrow> nat list \<Rightarrow> u32 list \<Rightarrow> u32 list \<Rightarrow> bool \<times> u32 list \<times> u32 list" where
  "try_lanes w ptarget data [] pdata hash = (False, pdata, hash)"
| "try_lanes w ptarget data (i # lanes) pdata hash =
     (if swab32 (hash ! (w * 7 + i)) \<le> ptarget ! 7
      then (let pdata = pdata[19 := data ! (w * 3 + i)];
                hash = sha256d_80_swap (take 8 hash) pdata @ drop 8 hash
            in if fulltest hash ptarget then (True, pdata, hash) else try_lanes w ptarget data lanes pdata hash)
      else try_lanes w ptarget data lanes pdata hash)"

text \<open>
  The outer loop compares the nonce with its bound after every call only, so that it may pass over a bound at the end of the
  range and not end: then the result is \<open>None\<close>.
\<close>

partial_function (option) ways_loop :: "nat \<Rightarrow> ways_routine \<Rightarrow> u32 list \<Rightarrow> u32 \<Rightarrow> (nat \<Rightarrow> bool) \<Rightarrow> u32 list \<Rightarrow> u32 list \<Rightarrow>
    u32 \<Rightarrow> u32 \<Rightarrow> nat \<Rightarrow> u32 list \<Rightarrow> u32 list \<Rightarrow> u32 list \<Rightarrow> (bool \<times> u32 list \<times> u64) option" where
  "ways_loop w ms ptarget max_nonce restart midstate prehash first_nonce n polls data pdata hash =
     (case next_nonces w data n of (data, n) \<Rightarrow>
      case ms hash data midstate prehash of (hash, data) \<Rightarrow>
      case try_lanes w ptarget data [0..<w] pdata hash of (found, pdata, hash) \<Rightarrow>
        if found then Some (True, pdata, ucast (n - first_nonce + 1))
        else if n < max_nonce \<and> \<not> restart polls
        then ways_loop w ms ptarget max_nonce restart midstate prehash first_nonce n (polls + 1) data pdata hash
        else Some (False, pdata[19 := n], ucast (n - first_nonce + 1)))"

definition scanhash_ways :: "nat \<Rightarrow> ways_routine \<Rightarrow> (nat \<Rightarrow> bool) \<Rightarrow> u32 list \<Rightarrow> u32 list \<Rightarrow> u32 \<Rightarrow>
    (bool \<times> u32 list \<times> u64) option" where
  "scanhash_ways w ms restart pdata ptarget max_nonce =
     (let data = sha256d_preextend (memcpy_at (replicate (w * 64) 0) 0 (take 16 (drop 16 pdata)));
          data = spread_lanes w 32 data;
          midstate = sha256_transform (sha256_init (replicate 8 0)) pdata False;
          prehash = sha256d_prehash midstate (drop 16 pdata);
          midstate = spread_lanes w 8 (midstate @ replicate ((w - 1) * 8) 0);
          prehash = spread_lanes w 8 (prehash @ replicate ((w - 1) * 8) 0)
      in ways_loop w ms ptarget max_nonce restart midstate prehash (pdata ! 19) (pdata ! 19 - 1) 0
           data pdata (replicate (w * 8) 0))"

definition scanhash_sha256d_4way :: "ways_routine \<Rightarrow> (nat \<Rightarrow> bool) \<Rightarrow> u32 list \<Rightarrow> u32 list \<Rightarrow> u32 \<Rightarrow>
    (bool \<times> u32 list \<times> u64) option" where
  "scanhash_sha256d_4way = scanhash_ways 4"

definition scanhash_sha256d_8way :: "ways_routine \<Rightarrow> (nat \<Rightarrow> bool) \<Rightarrow> u32 list \<Rightarrow> u32 list \<Rightarrow> u32 \<Rightarrow>
    (bool \<times> u32 list \<times> u64) option" where
  "scanhash_sha256d_8way = scanhash_ways 8"

text \<open>\<open>scanhash_sha256d\<close> as it is compiled with both routines: \<open>use_8way\<close> and \<open>use_4way\<close> are what the processor supports.\<close>

definition scanhash_sha256d_any :: "bool \<Rightarrow> bool \<Rightarrow> ways_routine \<Rightarrow> ways_routine \<Rightarrow> (nat \<Rightarrow> bool) \<Rightarrow> u32 list \<Rightarrow> u32 list \<Rightarrow>
    u32 \<Rightarrow> (bool \<times> u32 list \<times> u64) option" where
  "scanhash_sha256d_any use_8way use_4way ms8 ms4 restart pdata ptarget max_nonce =
     (if use_8way then scanhash_sha256d_8way ms8 restart pdata ptarget max_nonce
      else if use_4way then scanhash_sha256d_4way ms4 restart pdata ptarget max_nonce
      else Some (scanhash_sha256d restart pdata ptarget max_nonce))"

section \<open>The spread arrays\<close>

lemma lane_nth: "0 < w \<Longrightarrow> length xs = w * k \<Longrightarrow> t < k \<Longrightarrow> lane w i xs ! t = xs ! (w * t + i)"
  by (simp add: lane_def)

lemma length_lane: "0 < w \<Longrightarrow> length xs = w * k \<Longrightarrow> length (lane w i xs) = k"
  by (simp add: lane_def)

lemma copy_lanes_upto:
  assumes "0 < w" "i * w + w \<le> length xs"
  shows "m \<le> w \<Longrightarrow> (let ys = foldl (\<lambda>xs j. xs[i * w + j := xs ! i]) xs [0..<m] in
    length ys = length xs \<and> (\<forall>j < m. ys ! (i * w + j) = xs ! i) \<and> (\<forall>p. p < i * w \<or> i * w + m \<le> p \<longrightarrow> ys ! p = xs ! p))"
proof (induction m)
  case (Suc m)
  define ys where "ys = foldl (\<lambda>xs j. xs[i * w + j := xs ! i]) xs [0..<m]"
  have ys: "length ys = length xs" "\<forall>j < m. ys ! (i * w + j) = xs ! i" "\<forall>p. p < i * w \<or> i * w + m \<le> p \<longrightarrow> ys ! p = xs ! p"
    using Suc unfolding ys_def Let_def by simp_all
  have "ys ! i = xs ! i"
  proof (cases "i = 0")
    case True
    show ?thesis
    proof (cases "m = 0")
      case False
      then show ?thesis using ys(2) True by (metis add_0 mult_0 gr0I)
    qed (simp add: ys_def)
  next
    case False
    show ?thesis
    proof (cases "w = 1")
      case True
      then show ?thesis using Suc.prems by (simp add: ys_def)
    next
      case False
      then have "2 \<le> w" using assms(1) by simp
      then have "i * 2 \<le> i * w" by simp
      then have "i < i * w" using \<open>i \<noteq> 0\<close> by linarith
      then show ?thesis using ys(3) by simp
    qed
  qed
  then have last: "foldl (\<lambda>xs j. xs[i * w + j := xs ! i]) xs [0..<Suc m] = ys[i * w + m := xs ! i]"
    by (simp add: ys_def)
  have "i * w + m < length ys" using ys(1) Suc.prems assms(2) by linarith
  then have "ys[i * w + m := xs ! i] ! (i * w + j) = xs ! i" if "j < Suc m" for j
    using ys(2) that by (auto simp: nth_list_update less_Suc_eq)
  moreover have "ys[i * w + m := xs ! i] ! p = xs ! p" if "p < i * w \<or> i * w + Suc m \<le> p" for p
    using ys(3) that by (auto simp: nth_list_update)
  ultimately show ?case unfolding last Let_def using ys(1) by simp
qed simp

lemma copy_lanes:
  assumes "0 < w" "i * w + w \<le> length xs"
  shows "length (copy_lanes w i xs) = length xs" "j < w \<Longrightarrow> copy_lanes w i xs ! (i * w + j) = xs ! i"
    "p < i * w \<or> i * w + w \<le> p \<Longrightarrow> copy_lanes w i xs ! p = xs ! p"
proof -
  note u = copy_lanes_upto [OF assms, of w, folded copy_lanes_def, unfolded Let_def]
  show "length (copy_lanes w i xs) = length xs" using u by blast
  show "copy_lanes w i xs ! (i * w + j) = xs ! i" if "j < w" using u that by blast
  show "copy_lanes w i xs ! p = xs ! p" if "p < i * w \<or> i * w + w \<le> p" using u that by blast
qed

lemma spread_lanes:
  assumes "0 < w"
  shows "k * w \<le> length xs \<Longrightarrow> length (spread_lanes w k xs) = length xs
    \<and> (\<forall>i < k. \<forall>j < w. spread_lanes w k xs ! (i * w + j) = xs ! i) \<and> (\<forall>p \<ge> k * w. spread_lanes w k xs ! p = xs ! p)"
proof (induction k arbitrary: xs)
  case (Suc k)
  define ys where "ys = copy_lanes w k xs"
  have kw: "k * w + w \<le> length xs" using Suc.prems by simp
  note ys = copy_lanes [OF assms kw, folded ys_def]
  have "k * w \<le> length ys" using kw ys(1) by simp
  note IH = Suc.IH [OF this]
  have low: "ys ! i = xs ! i" if "i < k" for i
  proof -
    have "k * 1 \<le> k * w" using assms by (intro mult_le_mono) auto
    then have "i < k * w" using that by linarith
    then show ?thesis using ys(3) by blast
  qed
  show ?case
  proof (intro conjI allI impI)
    show "length (spread_lanes w (Suc k) xs) = length xs" using IH ys(1) by (simp add: ys_def)
    show "spread_lanes w (Suc k) xs ! (i * w + j) = xs ! i" if "i < Suc k" "j < w" for i j
    proof (cases "i = k")
      case True
      then have "spread_lanes w k ys ! (i * w + j) = ys ! (i * w + j)" using IH by simp
      then show ?thesis using ys(2) that(2) True by (simp flip: ys_def)
    next
      case False
      then show ?thesis using IH that low by (simp flip: ys_def)
    qed
    show "spread_lanes w (Suc k) xs ! p = xs ! p" if "Suc k * w \<le> p" for p
      using IH ys(3) that by (simp flip: ys_def)
  qed
qed simp

lemma lane_spread:
  assumes "0 < w" "j < w" "length xs = w * m" "k \<le> m" "t < k"
  shows "lane w j (spread_lanes w k xs) ! t = xs ! t"
proof -
  have "k * w \<le> length xs" using assms(3,4) by (simp add: mult.commute [of w])
  then have s: "length (spread_lanes w k xs) = w * m" "spread_lanes w k xs ! (t * w + j) = xs ! t"
    using spread_lanes [OF assms(1)] assms by simp_all
  have "t < m" using assms(4,5) by simp
  from lane_nth [OF assms(1) s(1) this] show ?thesis using s(2) by (simp add: mult.commute)
qed

section \<open>One call\<close>

text \<open>What the routines are for: on prepared data, each lane has the last word of its hash and keeps the words of \<open>data\<close> that \<open>sha256d_ms\<close> keeps.\<close>

definition does_lanes :: "nat \<Rightarrow> ways_routine \<Rightarrow> bool" where
  "does_lanes w ms \<longleftrightarrow>
     (\<forall>hash data midstate prehash. length hash = w * 8 \<and> length data = w * 64 \<and> length midstate = w * 8 \<and> length prehash = w * 8
        \<and> (\<forall>i < w. ms_ready (lane w i data)) \<longrightarrow>
        length (fst (ms hash data midstate prehash)) = w * 8 \<and> length (snd (ms hash data midstate prehash)) = w * 64
        \<and> (\<forall>i < w. lane w i (fst (ms hash data midstate prehash)) ! 7
              = fst (sha256d_ms (lane w i hash) (lane w i data) (lane w i midstate) (lane w i prehash)) ! 7
           \<and> (\<forall>t. t < 18 \<or> t \<in> set ms_saved \<longrightarrow> lane w i (snd (ms hash data midstate prehash)) ! t = lane w i data ! t)))"

definition ways_inv :: "nat \<Rightarrow> u32 list \<Rightarrow> u32 list \<Rightarrow> u32 list \<Rightarrow> u32 list \<Rightarrow> bool" where
  "ways_inv w data pdata midstate prehash \<longleftrightarrow> length data = w * 64 \<and> length midstate = w * 8 \<and> length prehash = w * 8
     \<and> (\<forall>i < w. scan_inv (lane w i data) pdata (lane w i midstate) (lane w i prehash))"

lemma next_nonces_upto:
  "w * 3 + m \<le> length data \<Longrightarrow> (case foldl (\<lambda>(data, n) i. (data[w * 3 + i := n + 1], n + 1)) (data, n) [0..<m] of (d, n') \<Rightarrow>
     n' = n + of_nat m \<and> length d = length data
     \<and> (\<forall>p. d ! p = (if w * 3 \<le> p \<and> p < w * 3 + m then n + 1 + of_nat (p - w * 3) else data ! p)))"
proof (induction m)
  case (Suc m)
  then show ?case by (auto simp: nth_list_update less_Suc_eq ac_simps split: prod.splits)
qed auto

lemma lane_index:
  assumes "i < w" "t \<noteq> 3"
  shows "\<not> (w * 3 \<le> w * t + i \<and> w * t + i < w * 3 + (w :: nat))"
proof (cases "t < 3")
  case True
  then have "w * (t + 1) \<le> w * 3" by (intro mult_le_mono) auto
  then have "w * t + w \<le> w * 3" by simp
  then show ?thesis using assms(1) by linarith
next
  case False
  then have "w * 4 \<le> w * t" using assms(2) by (intro mult_le_mono) auto
  then show ?thesis using assms(1) by linarith
qed

lemma next_nonces:
  assumes "length data = w * 64" "next_nonces w data n = (d, n')"
  shows "n' = n + of_nat w" "length d = w * 64" "\<And>i. i < w \<Longrightarrow> d ! (w * 3 + i) = n + 1 + of_nat i"
    "\<And>i. i < w \<Longrightarrow> lane w i d = (lane w i data)[3 := n + 1 + of_nat i]"
proof -
  have r: "w * 3 + w \<le> length data" using assms(1) by simp
  note u = next_nonces_upto [OF r, of n, folded next_nonces_def, unfolded assms(2) prod.case]
  show "n' = n + of_nat w" "length d = w * 64" using u assms(1) by simp_all
  have at: "d ! p = (if w * 3 \<le> p \<and> p < w * 3 + w then n + 1 + of_nat (p - w * 3) else data ! p)" for p
    using u by blast
  show "d ! (w * 3 + i) = n + 1 + of_nat i" if "i < w" for i using at [of "w * 3 + i"] that by simp
  show "lane w i d = (lane w i data)[3 := n + 1 + of_nat i]" if i: "i < w" for i
  proof (rule nth_equalityI)
    have w: "0 < w" using i by simp
    show "length (lane w i d) = length ((lane w i data)[3 := n + 1 + of_nat i])"
      using u assms(1) by (simp add: lane_def)
    fix t assume "t < length (lane w i d)"
    then have t: "t < 64" using w u assms(1) by (simp add: lane_def)
    have l: "lane w i d ! t = d ! (w * t + i)" "lane w i data ! t = data ! (w * t + i)"
      using lane_nth [OF w _ t] u assms(1) by simp_all
    show "lane w i d ! t = (lane w i data)[3 := n + 1 + of_nat i] ! t"
    proof (cases "t = 3")
      case True
      then show ?thesis using l(1) at [of "w * 3 + i"] i length_lane [OF w assms(1), of i] by simp
    next
      case False
      have "d ! (w * t + i) = data ! (w * t + i)"
        using at [of "w * t + i"] lane_index [OF i False] by presburger
      then show ?thesis using l False by simp
    qed
  qed
qed

lemma scan_inv_keeps:
  assumes inv: "scan_inv data pdata mid prehash" and "length data' = 64"
    and keep: "\<And>t. t < 18 \<or> t \<in> set ms_saved \<Longrightarrow> data' ! t = data[3 := n] ! t"
  shows "scan_inv data' pdata mid prehash"
proof -
  have ready: "ms_ready (data[3 := n])" using inv by (simp add: scan_inv_def ms_ready_nonce)
  have "data' ! t = data[3 := n] ! t" if "t \<in> {0..<18} \<union> {18, 19, 20, 22, 23, 24, 30, 31}" for t
    using that by (intro keep) (auto simp: ms_saved_def)
  then have "ms_ready data'" using ready assms(2) by (simp add: ms_ready_def)
  then show ?thesis using inv keep by (simp add: scan_inv_def)
qed

text \<open>The full hash of the header with a nonce.\<close>

definition full_hash :: "u32 list \<Rightarrow> u32 \<Rightarrow> u32 list" where
  "full_hash pdata x = sha256d_80_swap (replicate 8 0) (pdata[19 := x])"

lemma one_call:
  assumes ms: "does_lanes w ms" and inv: "ways_inv w data pdata mid pre" and h: "length hash = w * 8"
    and nn: "next_nonces w data n = (d, n')" and c: "ms hash d mid pre = (h', d')" and w: "0 < w"
  shows "ways_inv w d' pdata mid pre" "length h' = w * 8"
    "\<And>i. i < w \<Longrightarrow> swab32 (h' ! (w * 7 + i)) = full_hash pdata (n + 1 + of_nat i) ! 7"
    "\<And>i. i < w \<Longrightarrow> d' ! (w * 3 + i) = n + 1 + of_nat i"
proof -
  have lens: "length data = w * 64" "length mid = w * 8" "length pre = w * 8" using inv by (simp_all add: ways_inv_def)
  note nn' = next_nonces [OF lens(1) nn]
  have si: "scan_inv (lane w i data) pdata (lane w i mid) (lane w i pre)" if "i < w" for i
    using inv that by (simp add: ways_inv_def)
  have "\<forall>i < w. ms_ready (lane w i d)" using si nn'(4) by (simp add: scan_inv_def ms_ready_nonce)
  with ms have r: "length h' = w * 8" "length d' = w * 64"
    "\<And>i. i < w \<Longrightarrow> lane w i h' ! 7 = fst (sha256d_ms (lane w i hash) (lane w i d) (lane w i mid) (lane w i pre)) ! 7"
    "\<And>i t. i < w \<Longrightarrow> t < 18 \<or> t \<in> set ms_saved \<Longrightarrow> lane w i d' ! t = lane w i d ! t"
    using h lens nn'(2) c unfolding does_lanes_def by (metis fst_conv snd_conv)+
  show "length h' = w * 8" by (rule r(1))
  have l64: "length (lane w i d') = 64" for i by (rule length_lane [OF w r(2)])
  have "scan_inv (lane w i d') pdata (lane w i mid) (lane w i pre)" if i: "i < w" for i
    using scan_inv_keeps [OF si [OF i] l64, of i "n + 1 + of_nat i"] r(4) [OF i] nn'(4) [OF i] by simp
  then show "ways_inv w d' pdata mid pre" using lens r(2) by (simp add: ways_inv_def)
  fix i assume i: "i < w"
  have "lane w i h' ! 7 = h' ! (w * 7 + i)" by (rule lane_nth [OF w r(1)]) simp
  moreover have "swab32 (fst (sha256d_ms (lane w i hash) ((lane w i data)[3 := n + 1 + of_nat i]) (lane w i mid) (lane w i pre)) ! 7)
      = full_hash pdata (n + 1 + of_nat i) ! 7"
    unfolding full_hash_def using length_lane [OF w h] by (intro scan_fast_word7 [OF si [OF i]]) simp_all
  ultimately show "swab32 (h' ! (w * 7 + i)) = full_hash pdata (n + 1 + of_nat i) ! 7"
    using r(3) [OF i] nn'(4) [OF i] by simp
  have "lane w i d' ! 3 = d' ! (w * 3 + i)" "lane w i d ! 3 = d ! (w * 3 + i)"
    using lane_nth [OF w r(2), of 3 i] lane_nth [OF w nn'(2), of 3 i] by simp_all
  then show "d' ! (w * 3 + i) = n + 1 + of_nat i" using r(4) [OF i, of 3] nn'(3) [OF i] by simp
qed

section \<open>The loops\<close>

lemma fulltest_front: "length xs = 8 \<Longrightarrow> fulltest (xs @ ys) t = fulltest xs t"
proof -
  assume l: "length xs = 8"
  have "n \<le> 8 \<Longrightarrow> fulltest_from (xs @ ys) t n = fulltest_from xs t n" for n
    using l by (induction n) (auto simp: nth_append)
  then show ?thesis by (simp add: fulltest_def)
qed

text \<open>The inner loop stops at the first lane whose full hash passes.\<close>

lemma try_lanes_first:
  assumes "2 \<le> w" "length p = 32" "p[19 := 0] = pdata[19 := 0]" "length hash = w * 8" "set lanes \<subseteq> {0..<w}"
    and "\<And>i. i < w \<Longrightarrow> swab32 (hash ! (w * 7 + i)) = full_hash pdata (x i) ! 7"
    and "\<And>i. i < w \<Longrightarrow> data ! (w * 3 + i) = x i"
  shows "case find (\<lambda>i. fulltest (full_hash pdata (x i)) ptarget) lanes of
      Some i \<Rightarrow> \<exists>h. try_lanes w ptarget data lanes p hash = (True, pdata[19 := x i], h)
    | None \<Rightarrow> \<exists>q h. try_lanes w ptarget data lanes p hash = (False, q, h) \<and> q[19 := 0] = pdata[19 := 0] \<and> length h = w * 8"
  using assms
proof (induction lanes arbitrary: p hash)
  case (Cons i lanes)
  have i: "i < w" using Cons.prems(5) by simp
  have p: "p[19 := v] = pdata[19 := v]" for v using Cons.prems(3) by (metis list_update_overwrite)
  have lp: "length pdata = 32" using Cons.prems(2,3) by (metis length_list_update)
  define full where "full = full_hash pdata (x i)"
  have full: "length full = 8" using lp by (simp add: full_def full_hash_def length_80_swap)
  have same: "sha256d_80_swap (take 8 hash) (p[19 := x i]) = full"
    using Cons.prems(1,4) lp by (simp add: full_def full_hash_def sha256d_80_swap_word7 p)
  note test = fulltest_front [OF full]
  have w7: "swab32 (hash ! (w * 7 + i)) = full ! 7" using Cons.prems(6) [OF i] by (simp add: full_def)
  show ?case
  proof (cases "full ! 7 \<le> ptarget ! 7")
    case True
    define hash' where "hash' = full @ drop 8 hash"
    have tr: "try_lanes w ptarget data (i # lanes) p hash =
        (if fulltest full ptarget then (True, pdata[19 := x i], hash') else try_lanes w ptarget data lanes (pdata[19 := x i]) hash')"
      using True w7 Cons.prems(7) [OF i] same by (simp add: Let_def test hash'_def) (simp add: p)
    have l: "length hash' = w * 8" using Cons.prems(1,4) full by (simp add: hash'_def)
    have keep: "hash' ! (w * 7 + j) = hash ! (w * 7 + j)" for j
    proof -
      have "8 \<le> w * 7 + j" using Cons.prems(1) by linarith
      then show ?thesis using full Cons.prems(1,4) by (simp add: hash'_def nth_append)
    qed
    have "case find (\<lambda>i. fulltest (full_hash pdata (x i)) ptarget) lanes of
        Some j \<Rightarrow> \<exists>h. try_lanes w ptarget data lanes (pdata[19 := x i]) hash' = (True, pdata[19 := x j], h)
      | None \<Rightarrow> \<exists>q h. try_lanes w ptarget data lanes (pdata[19 := x i]) hash' = (False, q, h) \<and> q[19 := 0] = pdata[19 := 0] \<and> length h = w * 8"
      using Cons.prems lp l keep by (intro Cons.IH) simp_all
    then show ?thesis unfolding tr by (simp flip: full_def)
  next
    case False
    then have nf: "\<not> fulltest full ptarget" using fulltest_top by blast
    have "case find (\<lambda>i. fulltest (full_hash pdata (x i)) ptarget) lanes of
        Some j \<Rightarrow> \<exists>h. try_lanes w ptarget data lanes p hash = (True, pdata[19 := x j], h)
      | None \<Rightarrow> \<exists>q h. try_lanes w ptarget data lanes p hash = (False, q, h) \<and> q[19 := 0] = pdata[19 := 0] \<and> length h = w * 8"
      using Cons.prems by (intro Cons.IH) simp_all
    moreover have "try_lanes w ptarget data (i # lanes) p hash = try_lanes w ptarget data lanes p hash" using False by (simp add: w7)
    moreover have "find (\<lambda>i. fulltest (full_hash pdata (x i)) ptarget) (i # lanes) = find (\<lambda>i. fulltest (full_hash pdata (x i)) ptarget) lanes"
      using nf by (simp add: full_def)
    ultimately show ?thesis by (simp only:)
  qed
qed simp

lemma find_lanes: "(case find P [0..<w] of Some i \<Rightarrow> i < w \<and> P i \<and> (\<forall>j < i. \<not> P j) | None \<Rightarrow> \<forall>i < w. \<not> P i)"
proof (cases "find P [0..<w]")
  case None
  then have "\<forall>i < w. \<not> P i" by (simp add: find_None_iff)
  then show ?thesis using None by simp
next
  case (Some i)
  then have "i < w \<and> P i \<and> (\<forall>j < i. \<not> P j)" by (auto simp: find_Some_iff)
  then show ?thesis using Some by simp
qed

text \<open>The last nonce tried when the calls go on until one ends at \<open>m\<close> or behind it.\<close>

definition ways_last :: "nat \<Rightarrow> nat \<Rightarrow> nat \<Rightarrow> nat" where
  "ways_last w a m = a + w * ((m - a) div w + 1) - 1"

lemma ways_last_step: "0 < w \<Longrightarrow> a + w \<le> m \<Longrightarrow> ways_last w (a + w) m = ways_last w a m"
proof -
  assume a: "0 < w" "a + w \<le> m"
  then have "m - a = m - (a + w) + w" by simp
  then have "(m - a) div w = (m - (a + w)) div w + 1" using a(1) by (metis div_add_self2 neq0_conv)
  then show ?thesis by (simp add: ways_last_def algebra_simps)
qed

definition ways_outcome :: "nat \<Rightarrow> u32 list \<Rightarrow> u32 list \<Rightarrow> nat \<Rightarrow> nat \<Rightarrow> nat \<Rightarrow> (bool \<times> u32 list \<times> u64) option \<Rightarrow> bool" where
  "ways_outcome w ptarget pdata f a m r \<longleftrightarrow>
     (\<exists>x. a \<le> x \<and> x \<le> ways_last w a m \<and> (\<forall>y. a \<le> y \<and> y < x \<longrightarrow> \<not> good_nonce ptarget pdata (of_nat y))
        \<and> (good_nonce ptarget pdata (of_nat x) \<or> x = ways_last w a m)
        \<and> r = Some (good_nonce ptarget pdata (of_nat x), pdata[19 := of_nat x], of_nat (w * ((x - f) div w + 1))))"

lemma ways_outcome_step:
  assumes "0 < w" "a + w \<le> m" "\<And>i. i < w \<Longrightarrow> \<not> good_nonce ptarget pdata (of_nat (a + i))"
    and "ways_outcome w ptarget pdata f (a + w) m r"
  shows "ways_outcome w ptarget pdata f a m r"
proof -
  obtain x where x: "a + w \<le> x" "x \<le> ways_last w a m" "\<And>y. a + w \<le> y \<Longrightarrow> y < x \<Longrightarrow> \<not> good_nonce ptarget pdata (of_nat y)"
    "good_nonce ptarget pdata (of_nat x) \<or> x = ways_last w a m"
    "r = Some (good_nonce ptarget pdata (of_nat x), pdata[19 := of_nat x], of_nat (w * ((x - f) div w + 1)))"
    using assms(4) unfolding ways_outcome_def ways_last_step [OF assms(1,2)] by blast
  have "\<not> good_nonce ptarget pdata (of_nat y)" if "a \<le> y" "y < x" for y
  proof (cases "a + w \<le> y")
    case False
    then have "y - a < w" "y = a + (y - a)" using that(1) by simp_all
    then show ?thesis using assms(3) by metis
  qed (use x(3) that(2) in blast)
  then show ?thesis unfolding ways_outcome_def using x by (intro exI [of _ x]) auto
qed


lemma word_of_nat_unat_self: "of_nat (unat (x :: u32)) = x" by simp

lemma nonce_before: "(of_nat a - 1 :: u32) + 1 + of_nat i = of_nat (a + i)" by simp

lemma ways_loop_outcome:
  assumes w: "2 \<le> w" and ms: "does_lanes w ms" and tl: "length ptarget = 8" and nr: "\<forall>i. \<not> restart i"
    and head: "padded_header pdata" and f: "f = unat first_nonce" and bound: "unat max_nonce + w < 2 ^ 32"
  shows "a = f + w * b \<Longrightarrow> a \<le> unat max_nonce \<Longrightarrow> ways_inv w data pdata mid pre \<Longrightarrow> p[19 := 0] = pdata[19 := 0] \<Longrightarrow>
    length hash = w * 8 \<Longrightarrow>
    ways_outcome w ptarget pdata f a (unat max_nonce)
      (ways_loop w ms ptarget max_nonce restart mid pre first_nonce (of_nat a - 1) polls data p hash)"
proof (induction "unat max_nonce - a" arbitrary: a b polls data p hash rule: less_induct)
  case less
  have w0: "0 < w" using w by simp
  obtain d n' where nn: "next_nonces w data (of_nat a - 1) = (d, n')" by (metis surj_pair)
  obtain h' d' where c: "ms hash d mid pre = (h', d')" by (metis surj_pair)
  note call = one_call [OF ms less.prems(3,5) nn c w0]
  have len: "length pdata = 32" using head by (simp add: padded_header_def)
  have lp: "length p = 32" using less.prems(4) len by (metis length_list_update)
  have n': "n' = of_nat (a + w) - 1" using next_nonces(1) [OF _ nn] less.prems(3) by (simp add: ways_inv_def)
  have un': "unat n' = a + w - 1"
  proof -
    have "n' = of_nat (a + w - 1)" using n' w0 by (simp add: of_nat_diff)
    then show ?thesis using less.prems(2) bound by (simp add: unat_of_nat)
  qed
  have good: "fulltest (full_hash pdata (of_nat (a + i))) ptarget \<longleftrightarrow> good_nonce ptarget pdata (of_nat (a + i))" for i
    unfolding full_hash_def by (rule fulltest_good_nonce [OF head tl])
  have hashes: "ucast (n' - first_nonce + 1) = (of_nat (w * (b + 1)) :: u64)"
  proof -
    have "n' - first_nonce + 1 = (of_nat (w * (b + 1)) :: u32)"
      unfolding n' less.prems(1) f by (simp add: algebra_simps)
    moreover have "w * (b + 1) < 2 ^ 32" using less.prems(1,2) bound by simp
    ultimately show ?thesis by (simp only: unsigned_of_nat) (simp add: take_bit_nat_eq_self del: of_nat_mult)
  qed
  have last: "ways_last w a (unat max_nonce) = a + w - 1" if "unat max_nonce < a + w"
    using that less.prems(2) by (simp add: ways_last_def div_if)
  have within: "a + w - 1 \<le> ways_last w a (unat max_nonce)" by (simp add: ways_last_def)
  have loop: "ways_loop w ms ptarget max_nonce restart mid pre first_nonce (of_nat a - 1) polls data p hash =
      (case try_lanes w ptarget d' [0..<w] p h' of (found, p, h) \<Rightarrow>
        if found then Some (True, p, ucast (n' - first_nonce + 1))
        else if n' < max_nonce then ways_loop w ms ptarget max_nonce restart mid pre first_nonce n' (polls + 1) d' p h
        else Some (False, p[19 := n'], ucast (n' - first_nonce + 1)))"
    by (subst ways_loop.simps) (simp add: nn c nr split: prod.splits)
  note tries = try_lanes_first [OF w lp less.prems(4) call(2) _ call(3,4), of "[0..<w]" ptarget, unfolded nonce_before good, simplified]
  show ?case
  proof (cases "find (\<lambda>i. good_nonce ptarget pdata (of_nat (a + i))) [0..<w]")
    case (Some i)
    then have i: "i < w" "good_nonce ptarget pdata (of_nat (a + i))" "\<And>j. j < i \<Longrightarrow> \<not> good_nonce ptarget pdata (of_nat (a + j))"
      using find_lanes [where w = w and P = "\<lambda>i. good_nonce ptarget pdata (of_nat (a + i))"] by simp_all
    obtain h where "try_lanes w ptarget d' [0..<w] p h' = (True, pdata[19 := of_nat (a + i)], h)"
      using tries Some by auto
    then have r: "ways_loop w ms ptarget max_nonce restart mid pre first_nonce (of_nat a - 1) polls data p hash =
        Some (True, pdata[19 := of_nat (a + i)], of_nat (w * (b + 1)))"
      using loop hashes by simp
    have "(a + i - f) div w = b" using less.prems(1) i(1) by simp
    moreover have "\<not> good_nonce ptarget pdata (of_nat y)" if "a \<le> y" "y < a + i" for y
      using i(3) [of "y - a"] that by simp
    moreover have "a + i \<le> ways_last w a (unat max_nonce)" using i(1) within by linarith
    ultimately show ?thesis unfolding r ways_outcome_def using i(2) by (intro exI [of _ "a + i"]) auto
  next
    case None
    then have none: "\<And>i. i < w \<Longrightarrow> \<not> good_nonce ptarget pdata (of_nat (a + i))"
      using find_lanes [where w = w and P = "\<lambda>i. good_nonce ptarget pdata (of_nat (a + i))"] by simp
    obtain q h where t: "try_lanes w ptarget d' [0..<w] p h' = (False, q, h)" "q[19 := 0] = pdata[19 := 0]" "length h = w * 8"
      using tries None by auto
    show ?thesis
    proof (cases "n' < max_nonce")
      case True
      then have le: "a + w \<le> unat max_nonce" using un' w0 by (simp add: word_less_nat_alt)
      have "ways_outcome w ptarget pdata f (a + w) (unat max_nonce)
          (ways_loop w ms ptarget max_nonce restart mid pre first_nonce (of_nat (a + w) - 1) (polls + 1) d' q h)"
        using le w0 less.prems(1,2) by (intro less.hyps [where b = "b + 1"] call(1) t(2,3)) simp_all
      then show ?thesis unfolding loop t(1) using True n' ways_outcome_step [OF w0 le none] by simp
    next
      case False
      then have gt: "unat max_nonce < a + w" using un' w0 by (simp add: word_less_nat_alt)
      have "q[19 := n'] = pdata[19 := n']" using t(2) by (metis list_update_overwrite)
      moreover have "n' = of_nat (a + w - 1)" using un' by (metis word_of_nat_unat_self)
      ultimately have r: "ways_loop w ms ptarget max_nonce restart mid pre first_nonce (of_nat a - 1) polls data p hash =
          Some (False, pdata[19 := of_nat (a + w - 1)], of_nat (w * (b + 1)))"
        unfolding loop t(1) using False hashes by simp
      have "a + w - 1 = a + (w - 1)" "w - 1 < w" using w0 by simp_all
      then have ng: "\<not> good_nonce ptarget pdata (of_nat (a + w - 1))" using none by metis
      have "\<not> good_nonce ptarget pdata (of_nat y)" if "a \<le> y" "y < a + w - 1" for y
        using none [of "y - a"] that by simp
      moreover have e: "a + w - 1 - f = w - 1 + w * b" using less.prems(1) w0 by simp
      have "(w - 1) div w = 0" using w0 by simp
      then have "(a + w - 1 - f) div w = b" unfolding e using w0 by (simp only: div_mult_self2)
      ultimately show ?thesis unfolding r ways_outcome_def last [OF gt] using ng w0 by (intro exI [of _ "a + w - 1"]) auto
    qed
  qed
qed

section \<open>The arrays at the start\<close>

lemma assign_all_append:
  "\<forall>(j, g) \<in> set as. j < length A \<and> reads_upto j g \<Longrightarrow> assign_all (A @ B) as = assign_all A as @ B"
proof (induction as arbitrary: A)
  case (Cons a as)
  obtain k g where a: "a = (k, g)" by (cases a)
  have k: "k < length A" "reads_upto k g" using Cons.prems by (simp_all add: a)
  have "g (A @ B) = g A" using k unfolding reads_upto_def by (metis nth_append le_less_trans)
  then have "(A @ B)[k := g (A @ B)] = A[k := g A] @ B" using k(1) by (simp add: list_update_append)
  then show ?case using Cons by (simp add: a)
qed simp

lemma preextend_reads: "\<forall>(j, g) \<in> set preextend_assigns. j < 64 \<and> reads_upto j g"
  by (simp add: preextend_assigns_def reads_upto_def)

lemma lane_spread_all:
  assumes "1 \<le> w" "j < w" "length xs = 8"
  shows "lane w j (spread_lanes w 8 (xs @ replicate ((w - 1) * 8) 0)) = xs"
proof -
  have w: "0 < w" "w * 8 = 8 + (w - 1) * 8" using assms(1) by (simp_all add: algebra_simps)
  then have l: "length (xs @ replicate ((w - 1) * 8) (0 :: u32)) = w * 8" using assms(3) by simp
  then have "length (spread_lanes w 8 (xs @ replicate ((w - 1) * 8) 0)) = w * 8"
    using spread_lanes [OF w(1), of 8 "xs @ replicate ((w - 1) * 8) 0"] by simp
  from length_lane [OF w(1) this] show ?thesis
    using lane_spread [OF w(1) assms(2) l, of 8] assms(3) by (intro nth_equalityI) (simp_all add: nth_append)
qed

lemma scanhash_ways_outcome:
  assumes w: "2 \<le> w" and ms: "does_lanes w ms" and tl: "length ptarget = 8" and nr: "\<forall>i. \<not> restart i"
    and head: "padded_header pdata" and le: "pdata ! 19 \<le> max_nonce" and bound: "unat max_nonce + w < 2 ^ 32"
  shows "ways_outcome w ptarget pdata (unat (pdata ! 19)) (unat (pdata ! 19)) (unat max_nonce)
    (scanhash_ways w ms restart pdata ptarget max_nonce)"
proof -
  have w0: "0 < w" "1 \<le> w" using w by simp_all
  have len: "length pdata = 32" using head by (simp add: padded_header_def)
  define W where "W = memcpy_at (replicate 64 0) 0 (take 16 (drop 16 pdata))"
  have W: "length W = 64" "\<And>t. t < 16 \<Longrightarrow> W ! t = pdata ! (16 + t)"
    using len by (simp_all add: W_def memcpy_at_def nth_append)
  have w64: "w * 64 = 64 + (w - 1) * 64" using w0 by (simp add: algebra_simps)
  have "memcpy_at (replicate (w * 64) 0) 0 (take 16 (drop 16 pdata)) = W @ replicate ((w - 1) * 64) 0"
    unfolding w64 replicate_add W_def memcpy_at_def using len by simp
  then have data: "sha256d_preextend (memcpy_at (replicate (w * 64) 0) 0 (take 16 (drop 16 pdata)))
      = sha256d_preextend W @ replicate ((w - 1) * 64) 0"
    unfolding sha256d_preextend_def using preextend_reads W(1) by (simp add: assign_all_append)
  define D where "D = spread_lanes w 32 (sha256d_preextend W @ replicate ((w - 1) * 64) 0)"
  note E = preextend_words [OF W(1)]
  have lD: "length (sha256d_preextend W @ replicate ((w - 1) * 64) 0) = w * 64" using E(1) w64 by simp
  have D: "length D = w * 64" using spread_lanes [OF w0(1), of 32 "sha256d_preextend W @ replicate ((w - 1) * 64) 0"] lD
    by (simp add: D_def)
  define M where "M = fips_compress sha256_h (take 16 pdata)"
  define P where "P = sha256d_prehash M (drop 16 pdata)"
  have mid: "sha256_transform (sha256_init (replicate 8 0)) pdata False = M"
    using len by (simp add: M_def sha256_init_def memcpy_at_def sha256_transform_blocks)
  have lM: "length M = 8" by (simp add: M_def layout_simps)
  have lP: "length P = 8" using lM by (simp add: P_def sha256d_prehash_def layout_simps)
  have "scan_inv (lane w i D) pdata M P" if i: "i < w" for i
  proof -
    have "lane w i D ! t = sha256d_preextend W ! t" if "t < 32" for t
      using lane_spread [OF w0(1) i lD _ that] E(1) that by (simp add: D_def nth_append)
    then show ?thesis
      unfolding scan_inv_def ms_ready_def P_def sha256d_prehash_def M_def
      using E W(2) head length_lane [OF w0(1) D] by simp
  qed
  moreover have "length (spread_lanes w 8 (xs @ replicate ((w - 1) * 8) 0)) = w * 8" if "length xs = 8" for xs :: "u32 list"
  proof -
    have "length (xs @ replicate ((w - 1) * 8) (0 :: u32)) = w * 8" using that w0(2) by (simp add: algebra_simps)
    then show ?thesis using spread_lanes [OF w0(1), of 8 "xs @ replicate ((w - 1) * 8) 0"] by simp
  qed
  ultimately have inv: "ways_inv w D pdata (spread_lanes w 8 (M @ replicate ((w - 1) * 8) 0)) (spread_lanes w 8 (P @ replicate ((w - 1) * 8) 0))"
    unfolding ways_inv_def using D lM lP lane_spread_all [OF w0(2)] by simp
  have "ways_outcome w ptarget pdata (unat (pdata ! 19)) (unat (pdata ! 19)) (unat max_nonce)
      (ways_loop w ms ptarget max_nonce restart (spread_lanes w 8 (M @ replicate ((w - 1) * 8) 0))
        (spread_lanes w 8 (P @ replicate ((w - 1) * 8) 0)) (pdata ! 19) (of_nat (unat (pdata ! 19)) - 1) 0 D pdata (replicate (w * 8) 0))"
    using ways_loop_outcome [OF w ms tl nr head refl bound _ _ inv, where a = "unat (pdata ! 19)" and b = 0 and p = pdata
        and hash = "replicate (w * 8) 0" and polls = 0] le
    by (simp add: word_le_nat_alt)
  then show ?thesis by (simp only: scanhash_ways_def Let_def data mid D_def [symmetric] P_def [symmetric] word_of_nat_unat_self)
qed


section \<open>What the scanners find\<close>

text \<open>A routine that runs \<open>sha256d_ms\<close> lane by lane.\<close>

definition interleave :: "nat \<Rightarrow> nat \<Rightarrow> (nat \<Rightarrow> u32 list) \<Rightarrow> u32 list" where
  "interleave w k g = map (\<lambda>p. g (p mod w) ! (p div w)) [0..<w * k]"

lemma length_interleave [simp]: "length (interleave w k g) = w * k"
  by (simp add: interleave_def)

definition lane_by_lane :: "nat \<Rightarrow> ways_routine" where
  "lane_by_lane w hash data midstate prehash =
     (let g = (\<lambda>i. sha256d_ms (lane w i hash) (lane w i data) (lane w i midstate) (lane w i prehash))
      in (interleave w 8 (\<lambda>i. fst (g i)), interleave w 64 (\<lambda>i. snd (g i))))"

lemma lane_interleave: "i < w \<Longrightarrow> t < k \<Longrightarrow> lane w i (interleave w k g) ! t = g i ! t"
proof -
  assume a: "i < w" "t < k"
  have l: "length (interleave w k g) = w * k" by (simp add: interleave_def)
  have "w * (t + 1) \<le> w * k" using a(2) by (intro mult_le_mono) auto
  then have "w * t + i < w * k" using a(1) by (simp add: algebra_simps)
  then show ?thesis using a lane_nth [OF _ l a(2), of i] by (simp add: interleave_def)
qed

lemma lane_by_lane: "0 < w \<Longrightarrow> does_lanes w (lane_by_lane w)"
proof -
  assume w: "0 < w"
  have "lane w i (interleave w 64 g) ! t = lane w i data ! t"
    if "i < w" "t < 18 \<or> t \<in> set ms_saved" "g i ! t = lane w i data ! t" for i g t data
    using lane_interleave [OF that(1), of t 64 g] that(2,3) by (auto simp: ms_saved_def)
  then show ?thesis
    unfolding does_lanes_def lane_by_lane_def Let_def
    using w by (auto simp: lane_interleave sha256d_ms_keeps length_lane)
qed

lemma scan_ref_outcome_nat:
  assumes "padded_header pdata" "length ptarget = 8" "\<forall>i. \<not> restart i" "pdata ! 19 \<le> max_nonce" "unat max_nonce + 8 < 2 ^ 32"
  shows "ways_outcome 1 ptarget pdata (unat (pdata ! 19)) (unat (pdata ! 19)) (unat max_nonce)
    (Some (scanhash_sha256d restart pdata ptarget max_nonce))"
proof -
  obtain x where x: "pdata ! 19 \<le> x" "x \<le> max_nonce" "\<And>y. pdata ! 19 \<le> y \<Longrightarrow> y < x \<Longrightarrow> \<not> good_nonce ptarget pdata y"
    "good_nonce ptarget pdata x \<or> x = max_nonce"
    "scanhash_sha256d restart pdata ptarget max_nonce = (good_nonce ptarget pdata x, pdata[19 := x], ucast (x - pdata ! 19 + 1))"
    using scan_ref_outcome [OF assms(1,2,3), of "pdata ! 19 - 1" max_nonce "pdata ! 19" 0] assms(4)
    unfolding scanhash_sha256d_scan_ref [OF assms(1)] scan_outcome_def by auto
  have lu: "unat (pdata ! 19) \<le> unat max_nonce" using assms(4) by (simp add: word_le_nat_alt)
  then have last: "ways_last 1 (unat (pdata ! 19)) (unat max_nonce) = unat max_nonce" by (simp add: ways_last_def)
  have ux: "unat (pdata ! 19) \<le> unat x" "unat x \<le> unat max_nonce" using x(1,2) by (simp_all add: word_le_nat_alt)
  have y: "\<not> good_nonce ptarget pdata (of_nat y)" if "unat (pdata ! 19) \<le> y" "y < unat x" for y
  proof -
    have "y < 4294967296" using that(2) unat_u32_less by (rule less_trans)
    then have "unat (of_nat y :: u32) = y" by (simp add: unat_of_nat)
    then show ?thesis using x(3) [of "of_nat y"] that by (simp add: word_le_nat_alt word_less_nat_alt)
  qed
  have e: "x - pdata ! 19 + 1 = of_nat (unat x - unat (pdata ! 19) + 1)" using ux(1) by (simp add: of_nat_diff)
  have "unat x - unat (pdata ! 19) + 1 < 2 ^ 32" using ux(2) assms(5) by simp
  then have "ucast (x - pdata ! 19 + 1) = (of_nat (unat x - unat (pdata ! 19) + 1) :: u64)"
    unfolding e by (simp only: unsigned_of_nat) (simp add: take_bit_nat_eq_self del: of_nat_add)
  then show ?thesis unfolding ways_outcome_def last x(5) using ux x(4) y by (intro exI [of _ "unat x"]) auto
qed




end
