(* ===== verification/RandomxScan.thy ===== *)
theory RandomxScan
  imports Bytes Target
begin

text \<open>
  The RandomX nonce scanners of \<open>randomx-miner.c\<close>: \<open>scanhash_randomx\<close> and its pipelined form
  \<open>scanhash_randomx_batch\<close>. The RandomX library is a git submodule, so its virtual machine and
  the four functions that are called are a parameter of the model. The host is little-endian.
\<close>

section \<open>The library the scanners call\<close>

text \<open>
  \<open>calculate_hash\<close>, \<open>hash_first\<close> and \<open>hash_next\<close> change the virtual machine;
  \<open>commitment input hash\<close> is the contents of the buffer that
  \<open>randomx_calculate_commitment\<close> fills.
\<close>

record 'vm randomx_api =
  calculate_hash :: "'vm \<Rightarrow> byte list \<Rightarrow> 'vm \<times> byte list"
  hash_first :: "'vm \<Rightarrow> byte list \<Rightarrow> 'vm"
  hash_next :: "'vm \<Rightarrow> byte list \<Rightarrow> 'vm \<times> byte list"
  commitment :: "byte list \<Rightarrow> byte list \<Rightarrow> byte list"

text \<open>
  What the documentation of the library promises: \<open>calculate_hash\<close> computes a function of its
  input, \<open>hash_next\<close> returns that function of the input given before and remembers the new one,
  and a hash and a commitment are 32 bytes long.
\<close>

definition hash_contract :: "'vm randomx_api \<Rightarrow> (byte list \<Rightarrow> byte list) \<Rightarrow> bool" where
  "hash_contract rx H \<longleftrightarrow> (\<forall>vm x. snd (calculate_hash rx vm x) = H x)
     \<and> (\<forall>x. length (H x) = 32) \<and> (\<forall>x h. length (commitment rx x h) = 32)"

definition batch_contract :: "'vm randomx_api \<Rightarrow> (byte list \<Rightarrow> byte list) \<Rightarrow> ('vm \<Rightarrow> byte list \<Rightarrow> bool) \<Rightarrow> bool" where
  "batch_contract rx H pending \<longleftrightarrow> (\<forall>vm x. pending (hash_first rx vm x) x)
     \<and> (\<forall>vm x y. pending vm x \<longrightarrow> snd (hash_next rx vm y) = H x \<and> pending (fst (hash_next rx vm y)) y)"

section \<open>The scanners\<close>

text \<open>The 112-byte header: 20 words in network order, the RandomX hash field left zero.\<close>

definition rx_block_header :: "u32 list \<Rightarrow> byte list" where
  "rx_block_header pdata = bytes_of be32enc (take 20 pdata) @ replicate 32 0"

definition rx_set_nonce :: "byte list \<Rightarrow> u32 \<Rightarrow> byte list" where
  "rx_set_nonce hdr n = memcpy_at hdr 76 (le32enc n)"

text \<open>The test of the commitment: first its top word alone, then all of it.\<close>

definition rx_accepts :: "byte list \<Rightarrow> u32 list \<Rightarrow> bool" where
  "rx_accepts cm ptarget \<longleftrightarrow>
     words_of le32dec cm ! 7 < ptarget ! 7 \<and> fulltest (words_of le32dec cm) ptarget"

text \<open>The big-endian store of the nonce into the word \<open>pdata[19]\<close> of a little-endian host.\<close>

definition rx_store_nonce :: "u32 list \<Rightarrow> u32 \<Rightarrow> u32 list" where
  "rx_store_nonce pdata n = pdata[19 := le32dec (be32enc n)]"

record rx_result =
  rx_found :: bool
  rx_pdata :: "u32 list"
  rx_hashes_done :: u64
  rx_out_hash :: "byte list"

text \<open>
  \<open>restart i\<close> is what the \<open>i\<close>th read of the volatile restart flag returns; \<open>out\<close> is the
  buffer \<open>out_rx_hash\<close>.
\<close>

function rx_loop :: "'vm randomx_api \<Rightarrow> (nat \<Rightarrow> bool) \<Rightarrow> u32 list \<Rightarrow> u32 list \<Rightarrow> u32 \<Rightarrow> byte list \<Rightarrow>
    byte list \<Rightarrow> 'vm \<Rightarrow> nat \<Rightarrow> u32 \<Rightarrow> 'vm \<times> rx_result" where
  "rx_loop rx restart pdata ptarget max_nonce out hdr vm polls n =
     (let hdr = rx_set_nonce hdr n;
          (vm, rx_hash) = calculate_hash rx vm hdr;
          rx_cm = commitment rx hdr rx_hash
      in if rx_accepts rx_cm ptarget
         then (vm, \<lparr>rx_found = True, rx_pdata = rx_store_nonce pdata n,
                    rx_hashes_done = ucast (n - pdata ! 19 + 1), rx_out_hash = memcpy_at out 0 rx_hash\<rparr>)
         else (let n = n + 1
               in if n < max_nonce \<and> \<not> restart polls
                  then rx_loop rx restart pdata ptarget max_nonce out hdr vm (polls + 1) n
                  else (vm, \<lparr>rx_found = False, rx_pdata = pdata[19 := n],
                             rx_hashes_done = ucast (n - pdata ! 19), rx_out_hash = out\<rparr>)))"
  by pat_completeness auto
termination
  by (relation "measure (\<lambda>(rx, restart, pdata, ptarget, max_nonce, out, hdr, vm, polls, n). passes_left max_nonce n)")
    (auto intro: passes_left_decreases)

definition scanhash_randomx :: "'vm randomx_api \<Rightarrow> (nat \<Rightarrow> bool) \<Rightarrow> u32 list \<Rightarrow> u32 list \<Rightarrow> u32 \<Rightarrow> 'vm \<Rightarrow>
    byte list \<Rightarrow> 'vm \<times> rx_result" where
  "scanhash_randomx rx restart pdata ptarget max_nonce vm out =
     rx_loop rx restart pdata ptarget max_nonce out (rx_block_header pdata) vm 0 (pdata ! 19)"

function rx_batch_loop :: "'vm randomx_api \<Rightarrow> (nat \<Rightarrow> bool) \<Rightarrow> u32 list \<Rightarrow> u32 list \<Rightarrow> u32 \<Rightarrow> byte list \<Rightarrow>
    byte list \<Rightarrow> 'vm \<Rightarrow> nat \<Rightarrow> u32 \<Rightarrow> 'vm \<times> rx_result" where
  "rx_batch_loop rx restart pdata ptarget max_nonce out hdr vm polls n =
     (if n < max_nonce \<and> \<not> restart polls
      then (let hdr = rx_set_nonce hdr (n + 1);
                (vm, rx_hash) = hash_next rx vm hdr;
                hdr = rx_set_nonce hdr n;
                rx_cm = commitment rx hdr rx_hash
            in if rx_accepts rx_cm ptarget
               then (vm, \<lparr>rx_found = True, rx_pdata = rx_store_nonce pdata n,
                          rx_hashes_done = ucast (n - pdata ! 19 + 1), rx_out_hash = memcpy_at out 0 rx_hash\<rparr>)
               else rx_batch_loop rx restart pdata ptarget max_nonce out hdr vm (polls + 1) (n + 1))
      else (vm, \<lparr>rx_found = False, rx_pdata = pdata[19 := n],
                 rx_hashes_done = ucast (n - pdata ! 19), rx_out_hash = out\<rparr>))"
  by pat_completeness auto
termination
  by (relation "measure (\<lambda>(rx, restart, pdata, ptarget, max_nonce, out, hdr, vm, polls, n). unat max_nonce - unat n)")
    (auto intro: u32_step_decreases)

definition scanhash_randomx_batch :: "'vm randomx_api \<Rightarrow> (nat \<Rightarrow> bool) \<Rightarrow> u32 list \<Rightarrow> u32 list \<Rightarrow> u32 \<Rightarrow> 'vm \<Rightarrow>
    byte list \<Rightarrow> 'vm \<times> rx_result" where
  "scanhash_randomx_batch rx restart pdata ptarget max_nonce vm out =
     (let n = pdata ! 19;
          hdr = rx_set_nonce (rx_block_header pdata) n;
          vm = hash_first rx vm hdr
      in rx_batch_loop rx restart pdata ptarget max_nonce out hdr vm 0 n)"

declare rx_loop.simps [simp del] rx_batch_loop.simps [simp del]

section \<open>What a scan finds\<close>

definition rx_header_at :: "u32 list \<Rightarrow> u32 \<Rightarrow> byte list" where
  "rx_header_at pdata n = rx_set_nonce (rx_block_header pdata) n"

definition rx_good :: "'vm randomx_api \<Rightarrow> (byte list \<Rightarrow> byte list) \<Rightarrow> u32 list \<Rightarrow> u32 list \<Rightarrow> u32 \<Rightarrow> bool" where
  "rx_good rx H pdata ptarget n \<longleftrightarrow>
     rx_accepts (commitment rx (rx_header_at pdata n) (H (rx_header_at pdata n))) ptarget"

lemma length_rx_block_header: "20 \<le> length pdata \<Longrightarrow> length (rx_block_header pdata) = 112"
  by (simp add: rx_block_header_def be32.length_bytes_of)

lemma length_rx_set_nonce: "80 \<le> length hdr \<Longrightarrow> length (rx_set_nonce hdr n) = length hdr"
  by (simp add: rx_set_nonce_def memcpy_at_def)

lemma rx_set_nonce_again [simp]:
  "80 \<le> length hdr \<Longrightarrow> rx_set_nonce (rx_set_nonce hdr m) n = rx_set_nonce hdr n"
  by (simp add: rx_set_nonce_def memcpy_at_def)

lemma rx_header_at_words:
  assumes "20 \<le> length pdata"
  shows "rx_header_at pdata n = bytes_of be32enc (take 19 pdata) @ le32enc n @ replicate 32 0"
proof -
  have "take 20 pdata = take 19 pdata @ [pdata ! 19]"
    using assms take_Suc_conv_app_nth [of 19 pdata] by simp
  then show ?thesis
    using assms by (simp add: rx_header_at_def rx_set_nonce_def rx_block_header_def memcpy_at_def be32.length_bytes_of)
qed

text \<open>The outcome of a scan whose first candidate is \<open>a\<close>, when the restart flag stays down.\<close>

definition rx_outcome :: "'vm randomx_api \<Rightarrow> (byte list \<Rightarrow> byte list) \<Rightarrow> u32 list \<Rightarrow> u32 list \<Rightarrow> u32 \<Rightarrow>
    byte list \<Rightarrow> u32 \<Rightarrow> rx_result \<Rightarrow> bool" where
  "rx_outcome rx H pdata ptarget max_nonce out a r \<longleftrightarrow>
     (\<exists>x. a \<le> x \<and> x < max_nonce \<and> rx_good rx H pdata ptarget x
        \<and> (\<forall>y. a \<le> y \<and> y < x \<longrightarrow> \<not> rx_good rx H pdata ptarget y)
        \<and> r = \<lparr>rx_found = True, rx_pdata = pdata[19 := swab32 x], rx_hashes_done = ucast (x - pdata ! 19 + 1),
               rx_out_hash = memcpy_at out 0 (H (rx_header_at pdata x))\<rparr>)
     \<or> (\<forall>y. a \<le> y \<and> y < max_nonce \<longrightarrow> \<not> rx_good rx H pdata ptarget y)
        \<and> r = \<lparr>rx_found = False, rx_pdata = pdata[19 := max_nonce], rx_hashes_done = ucast (max_nonce - pdata ! 19),
               rx_out_hash = out\<rparr>"

lemma u32_range_step: "(a :: u32) < m \<Longrightarrow> (a + 1 \<le> y \<and> y < k \<longleftrightarrow> a \<le> y \<and> y < k \<and> y \<noteq> a)"
proof -
  assume "a < m"
  then have "unat (a + 1) = unat a + 1"
    using u32_less_Suc [of a m] by (metis Suc_eq_plus1 add.commute unatSuc word_not_simps(1) word_gt_0)
  then show ?thesis by (auto simp: word_less_nat_alt word_le_nat_alt word_unat_eq_iff)
qed

lemma rx_outcome_step:
  assumes "a < max_nonce" "\<not> rx_good rx H pdata ptarget a"
    and "rx_outcome rx H pdata ptarget max_nonce out (a + 1) r"
  shows "rx_outcome rx H pdata ptarget max_nonce out a r"
proof -
  have "a \<le> x" if "a + 1 \<le> x" for x
    using that u32_less_Suc [OF assms(1)] by auto
  then show ?thesis
    using assms(2,3) unfolding rx_outcome_def u32_range_step [OF assms(1)] by metis
qed

lemma rx_loop_outcome:
  assumes H: "hash_contract rx H" and r: "\<forall>i. \<not> restart i" and len: "20 \<le> length pdata"
  shows "\<lbrakk>n < max_nonce; length hdr = 112; \<forall>m. rx_set_nonce hdr m = rx_header_at pdata m\<rbrakk> \<Longrightarrow>
    rx_outcome rx H pdata ptarget max_nonce out n
      (snd (rx_loop rx restart pdata ptarget max_nonce out hdr vm polls n))"
proof (induction n arbitrary: hdr vm polls rule: measure_induct_rule [where f = "passes_left max_nonce"])
  case (less n)
  obtain vm' where c: "calculate_hash rx vm (rx_header_at pdata n) = (vm', H (rx_header_at pdata n))"
    using H by (metis hash_contract_def prod.collapse)
  note acc = rx_good_def [of rx H pdata ptarget n, symmetric]
  note unfolded = rx_loop.simps [of rx restart pdata ptarget max_nonce out hdr vm polls n]
  note range = u32_range_step [OF less.prems(1)]
  show ?case
  proof (cases "rx_good rx H pdata ptarget n")
    case True
    then show ?thesis
      using less.prems unfolding rx_outcome_def
      by (intro disjI1 exI [of _ n]) (auto simp: unfolded Let_def c acc rx_store_nonce_def le32dec_be32enc)
  next
    case False
    show ?thesis
    proof (cases "n + 1 < max_nonce")
      case True
      have "rx_outcome rx H pdata ptarget max_nonce out (n + 1)
          (snd (rx_loop rx restart pdata ptarget max_nonce out (rx_header_at pdata n) vm' (polls + 1) (n + 1)))"
        using less.prems len
        by (intro less.IH passes_left_decreases True)
          (simp_all add: rx_header_at_def length_rx_set_nonce length_rx_block_header)
      then have "rx_outcome rx H pdata ptarget max_nonce out n
          (snd (rx_loop rx restart pdata ptarget max_nonce out (rx_header_at pdata n) vm' (polls + 1) (n + 1)))"
        by (rule rx_outcome_step [OF less.prems(1) False])
      moreover have "\<not> restart polls" using r by simp
      ultimately show ?thesis
        using less.prems(3) False True by (simp add: unfolded Let_def c acc)
    next
      case stop: False
      then have "max_nonce = n + 1" using inc_le [OF less.prems(1)] by simp
      then have "\<not> rx_good rx H pdata ptarget y" if "n \<le> y" "y < max_nonce" for y
        using that False range [of y max_nonce] by (cases "y = n") (auto simp: not_le [symmetric])
      moreover have "snd (rx_loop rx restart pdata ptarget max_nonce out hdr vm polls n)
          = \<lparr>rx_found = False, rx_pdata = pdata[19 := n + 1],
             rx_hashes_done = ucast (n + 1 - pdata ! 19), rx_out_hash = out\<rparr>"
        using less.prems(3) False stop by (auto simp: unfolded Let_def c acc)
      ultimately show ?thesis
        using \<open>max_nonce = n + 1\<close> unfolding rx_outcome_def by simp
    qed
  qed
qed


section \<open>The pipelined scan\<close>

lemma rx_batch_loop_eq:
  assumes H: "hash_contract rx H" and B: "batch_contract rx H pending" and len: "20 \<le> length pdata"
  shows "\<lbrakk>n < max_nonce; \<not> case_nat False restart polls; length hdr = 112; length hdr' = 112;
      \<forall>m. rx_set_nonce hdr m = rx_header_at pdata m; \<forall>m. rx_set_nonce hdr' m = rx_header_at pdata m;
      pending vm (rx_header_at pdata n)\<rbrakk> \<Longrightarrow>
    snd (rx_batch_loop rx (case_nat False restart) pdata ptarget max_nonce out hdr vm polls n)
    = snd (rx_loop rx restart pdata ptarget max_nonce out hdr' vm' polls n)"
proof (induction n arbitrary: hdr hdr' vm vm' polls rule: measure_induct_rule [where f = "\<lambda>n. unat max_nonce - unat n"])
  case (less n)
  have two: "rx_set_nonce (rx_header_at pdata k) m = rx_header_at pdata m" "length (rx_header_at pdata m) = 112" for k m
    using len by (simp_all add: rx_header_at_def length_rx_set_nonce length_rx_block_header)
  obtain v' where c: "calculate_hash rx vm' (rx_header_at pdata n) = (v', H (rx_header_at pdata n))"
    using H by (metis hash_contract_def prod.collapse)
  obtain v where d: "hash_next rx vm (rx_header_at pdata (n + 1)) = (v, H (rx_header_at pdata n))"
    and p: "pending v (rx_header_at pdata (n + 1))"
    using B less.prems(7) unfolding batch_contract_def by (metis prod.collapse)
  note unfolded = rx_loop.simps [of rx restart pdata ptarget max_nonce out hdr' vm' polls n]
    rx_batch_loop.simps [of rx "case_nat False restart" pdata ptarget max_nonce out hdr vm polls n]
  show ?case
  proof (cases "n + 1 < max_nonce \<and> \<not> restart polls")
    case True
    have "snd (rx_batch_loop rx (case_nat False restart) pdata ptarget max_nonce out (rx_header_at pdata n) v (polls + 1) (n + 1))
      = snd (rx_loop rx restart pdata ptarget max_nonce out (rx_header_at pdata n) v' (polls + 1) (n + 1))"
      using True p by (intro less.IH u32_step_decreases less.prems(1)) (simp_all add: two)
    then show ?thesis
      using less.prems True by (simp add: unfolded Let_def c d two)
  next
    case False
    then have "snd (rx_batch_loop rx (case_nat False restart) pdata ptarget max_nonce out (rx_header_at pdata n) v (polls + 1) (n + 1))
      = \<lparr>rx_found = False, rx_pdata = pdata[19 := n + 1], rx_hashes_done = ucast (n + 1 - pdata ! 19), rx_out_hash = out\<rparr>"
      by (subst rx_batch_loop.simps) auto
    then show ?thesis
      using less.prems False by (auto simp: unfolded Let_def c d two)
  qed
qed

lemma scanhash_randomx_batch_eq:
  assumes "hash_contract rx H" "batch_contract rx H pending" "20 \<le> length pdata" "pdata ! 19 < max_nonce"
  shows "snd (scanhash_randomx_batch rx (case_nat False restart) pdata ptarget max_nonce vm out)
    = snd (scanhash_randomx rx restart pdata ptarget max_nonce vm' out)"
  unfolding scanhash_randomx_batch_def scanhash_randomx_def Let_def
  using assms
  by (intro rx_batch_loop_eq [OF assms(1-3)])
    (simp_all add: rx_header_at_def length_rx_set_nonce length_rx_block_header batch_contract_def)

section \<open>What is reported can be submitted\<close>

text \<open>A result is submittable when the header rebuilt from the reported words, as the submission
  does it, hashes to the reported hash and commits to at most the target.\<close>

definition rx_submittable :: "'vm randomx_api \<Rightarrow> (byte list \<Rightarrow> byte list) \<Rightarrow> u32 list \<Rightarrow> rx_result \<Rightarrow> bool" where
  "rx_submittable rx H ptarget r \<longleftrightarrow>
     (let hdr = rx_block_header (rx_pdata r)
      in rx_out_hash r = H hdr
         \<and> words_val (words_of le32dec (commitment rx hdr (rx_out_hash r))) \<le> words_val ptarget)"

lemma rx_stored_header:
  assumes "20 \<le> length pdata"
  shows "rx_block_header (pdata[19 := swab32 n]) = rx_header_at pdata n"
proof -
  have "take 20 (pdata[19 := swab32 n]) = take 19 pdata @ [swab32 n]"
    using assms take_Suc_conv_app_nth [of 19 "pdata[19 := swab32 n]"] by simp
  then show ?thesis
    using assms by (simp add: rx_header_at_words rx_block_header_def be32enc_swab32)
qed

lemma rx_found_submittable:
  assumes "hash_contract rx H" "20 \<le> length pdata" "length ptarget = 8" "length out = 32"
    and "rx_accepts (commitment rx (rx_header_at pdata n) (H (rx_header_at pdata n))) ptarget"
    and "rx_pdata r = pdata[19 := swab32 n]" "rx_out_hash r = memcpy_at out 0 (H (rx_header_at pdata n))"
  shows "rx_submittable rx H ptarget r"
proof -
  have "memcpy_at out 0 (H (rx_header_at pdata n)) = H (rx_header_at pdata n)"
    using assms(1,4) by (simp add: memcpy_at_def hash_contract_def)
  moreover have "length (words_of le32dec (commitment rx x h)) = 8" for x h
    using assms(1) by (simp add: hash_contract_def layout_simps)
  ultimately show ?thesis
    using assms
    by (simp add: rx_submittable_def Let_def rx_stored_header rx_accepts_def fulltest_val)
qed

lemma rx_loop_submittable:
  assumes H: "hash_contract rx H" and len: "20 \<le> length pdata" "length ptarget = 8" "length out = 32"
  shows "\<lbrakk>\<forall>m. rx_set_nonce hdr m = rx_header_at pdata m;
      rx_found (snd (rx_loop rx restart pdata ptarget max_nonce out hdr vm polls n))\<rbrakk> \<Longrightarrow>
    rx_submittable rx H ptarget (snd (rx_loop rx restart pdata ptarget max_nonce out hdr vm polls n))"
proof (induction n arbitrary: hdr vm polls rule: measure_induct_rule [where f = "passes_left max_nonce"])
  case (less n)
  obtain vm' where c: "calculate_hash rx vm (rx_header_at pdata n) = (vm', H (rx_header_at pdata n))"
    using H by (metis hash_contract_def prod.collapse)
  note unfolded = rx_loop.simps [of rx restart pdata ptarget max_nonce out hdr vm polls n]
  have two: "rx_set_nonce (rx_header_at pdata n) m = rx_header_at pdata m" for m
    using len by (simp add: rx_header_at_def length_rx_block_header)
  show ?case
  proof (cases "rx_accepts (commitment rx (rx_header_at pdata n) (H (rx_header_at pdata n))) ptarget")
    case True
    then show ?thesis
      using less.prems(1)
      by (intro rx_found_submittable [OF H len True])
        (simp_all add: unfolded Let_def c rx_store_nonce_def le32dec_be32enc)
  next
    case False
    show ?thesis
    proof (cases "n + 1 < max_nonce \<and> \<not> restart polls")
      case True
      then have "passes_left max_nonce (n + 1) < passes_left max_nonce n"
        by (intro passes_left_decreases) simp
      from less.IH [OF this, of "rx_header_at pdata n" vm' "polls + 1"] show ?thesis
        using less.prems False True by (simp add: unfolded Let_def c two)
    qed (use less.prems False in \<open>auto simp: unfolded Let_def c\<close>)
  qed
qed

lemma rx_accepts_zero: "ptarget ! 7 = 0 \<Longrightarrow> \<not> rx_accepts cm ptarget"
  by (simp add: rx_accepts_def)

lemma rx_loop_zero:
  "ptarget ! 7 = 0 \<Longrightarrow> \<not> rx_found (snd (rx_loop rx restart pdata ptarget max_nonce out hdr vm polls n))"
proof (induction n arbitrary: hdr vm polls rule: measure_induct_rule [where f = "passes_left max_nonce"])
  case (less n)
  then show ?case
    by (subst rx_loop.simps)
      (simp add: Let_def rx_accepts_zero passes_left_decreases split: prod.split)
qed

lemma rx_batch_loop_zero:
  "ptarget ! 7 = 0 \<Longrightarrow> \<not> rx_found (snd (rx_batch_loop rx restart pdata ptarget max_nonce out hdr vm polls n))"
proof (induction n arbitrary: hdr vm polls rule: measure_induct_rule [where f = "\<lambda>n. unat max_nonce - unat n"])
  case (less n)
  then show ?case
    by (subst rx_batch_loop.simps)
      (simp add: Let_def rx_accepts_zero u32_step_decreases split: prod.split)
qed


text \<open>While the restart flag stays down, \<open>scanhash_randomx\<close> returns the first nonce from
  \<open>pdata[19]\<close> up to but excluding \<open>max_nonce\<close> whose commitment passes the test, stored with its
  bytes swapped, with the hash and the number of nonces tried; when there is none it stores
  \<open>max_nonce\<close>, which it has not hashed.\<close>

theorem scanhash_randomx_finds_first:
  assumes "hash_contract rx H" "\<forall>i. \<not> restart i" "20 \<le> length pdata" "pdata ! 19 < max_nonce"
  shows "rx_outcome rx H pdata ptarget max_nonce out (pdata ! 19)
    (snd (scanhash_randomx rx restart pdata ptarget max_nonce vm out))"
  unfolding scanhash_randomx_def
  by (intro rx_loop_outcome assms allI) (simp_all add: rx_header_at_def assms length_rx_block_header)


text \<open>C2: whatever the restart flag does, the words and the hash that \<open>scanhash_randomx\<close> reports
  with a find make a header whose RandomX hash is the reported one and whose commitment is at most
  the target, so the submission sends the header that was hashed.\<close>

theorem scanhash_randomx_submittable:
  assumes "hash_contract rx H" "20 \<le> length pdata" "length ptarget = 8" "length out = 32"
    and "rx_found (snd (scanhash_randomx rx restart pdata ptarget max_nonce vm out))"
  shows "rx_submittable rx H ptarget (snd (scanhash_randomx rx restart pdata ptarget max_nonce vm out))"
  using assms(5) unfolding scanhash_randomx_def
  by (intro rx_loop_submittable [OF assms(1-4)]) (simp_all add: rx_header_at_def)

text \<open>Neither scanner ever reports a nonce when the top word of the target is zero, although a
  commitment can then still be below the target: the top words are compared with \<open><\<close>.\<close>

theorem scanhash_randomx_zero_top:
  assumes "ptarget ! 7 = 0"
  shows "\<not> rx_found (snd (scanhash_randomx rx restart pdata ptarget max_nonce vm out))
    \<and> \<not> rx_found (snd (scanhash_randomx_batch rx restart pdata ptarget max_nonce vm out))"
  using assms
  by (simp add: scanhash_randomx_def scanhash_randomx_batch_def Let_def rx_loop_zero rx_batch_loop_zero)

subsection \<open>Instances\<close>

text \<open>A library whose hash is a slice of the input and whose commitment is the hash.\<close>

definition slice_hash :: "byte list \<Rightarrow> byte list" where
  "slice_hash x = take 32 (drop 76 x @ replicate 32 0)"

definition slice_api :: "byte list randomx_api" where
  "slice_api = \<lparr>calculate_hash = (\<lambda>vm x. (vm, slice_hash x)), hash_first = (\<lambda>vm x. x),
     hash_next = (\<lambda>vm x. (x, slice_hash vm)), commitment = (\<lambda>x h. take 32 (h @ replicate 32 0))\<rparr>"

lemma slice_contract: "hash_contract slice_api slice_hash" "batch_contract slice_api slice_hash (=)"
  by (auto simp: hash_contract_def batch_contract_def slice_api_def slice_hash_def min_def)

lemma scanhash_randomx_finds_first_witness:
  "rx_outcome slice_api slice_hash (replicate 20 3) (replicate 8 1) 9 (replicate 32 0) 3
    (snd (scanhash_randomx slice_api (\<lambda>i. False) (replicate 20 3) (replicate 8 1) 9 [] (replicate 32 0)))"
  using scanhash_randomx_finds_first [OF slice_contract(1), of "\<lambda>i. False" "replicate 20 3" 9 "replicate 8 1"
      "replicate 32 0" "[]"]
  by simp


lemma scanhash_randomx_submittable_witness:
  "rx_submittable slice_api slice_hash (replicate 8 1)
    (snd (scanhash_randomx slice_api (\<lambda>i. False) (replicate 20 3) (replicate 8 1) 9 [] (replicate 32 0)))"
  by (rule scanhash_randomx_submittable [OF slice_contract(1)]) (simp, simp, simp, code_simp)

lemma scanhash_randomx_zero_top_witness:
  "\<not> rx_found (snd (scanhash_randomx slice_api (\<lambda>i. False) (replicate 20 3) [0, 0, 0, 0, 0, 0, 5, 0] 9 [] []))
   \<and> \<not> rx_found (snd (scanhash_randomx_batch slice_api (\<lambda>i. False) (replicate 20 3) [0, 0, 0, 0, 0, 0, 5, 0] 9 [] []))
   \<and> fulltest (replicate 8 0) [0, 0, 0, 0, 0, 0, 5, 0]"
  using scanhash_randomx_zero_top [of "[0, 0, 0, 0, 0, 0, 5, 0]" slice_api "\<lambda>i. False" "replicate 20 3" 9 "[]" "[]"]
  by (simp add: fulltest_def numeral_eq_Suc)

end
