(* ===== verification/Base58.thy ===== *)
theory Base58
  imports Bytes Sha256
begin

text \<open>
  Base58 decoding (\<open>b58dec\<close>) and the address check (\<open>b58check\<close>) of \<open>util.c\<close>. A C string
  is the list of its characters without the final NUL.
\<close>

section \<open>Decoding\<close>

definition b58digits :: string where
  "b58digits = ''123456789ABCDEFGHJKLMNPQRSTUVWXYZabcdefghijkmnopqrstuvwxyz''"

text \<open>The search for a digit, from position \<open>c\<close> on.\<close>

fun b58_digit_from :: "string \<Rightarrow> char \<Rightarrow> u32 \<Rightarrow> u32 option" where
  "b58_digit_from [] ch c = None"
| "b58_digit_from (d # ds) ch c = (if d = ch then Some c else b58_digit_from ds ch (c + 1))"

text \<open>One step of the long multiplication, from word \<open>j - 1\<close> down to word 0.\<close>

fun b58_mul :: "u32 list \<Rightarrow> nat \<Rightarrow> u32 \<Rightarrow> u32 list \<times> u32" where
  "b58_mul outi 0 c = (outi, c)"
| "b58_mul outi (Suc j) c =
     (let t = (ucast (outi ! j) :: u64) * 58 + ucast c
      in b58_mul (outi[j := ucast (t AND 0xffffffff)]) j (ucast (drop_bit 32 t)))"

fun b58_loop :: "u32 \<Rightarrow> u32 list \<Rightarrow> string \<Rightarrow> u32 list option" where
  "b58_loop remmask outi [] = Some outi"
| "b58_loop remmask outi (ch # b58) =
     (case b58_digit_from b58digits ch 0 of
        None \<Rightarrow> None
      | Some c \<Rightarrow>
          (case b58_mul outi (length outi) c of (outi, c) \<Rightarrow>
             if c \<noteq> 0 \<or> outi ! 0 AND remmask \<noteq> 0 then None else b58_loop remmask outi b58))"

definition b58dec :: "nat \<Rightarrow> string \<Rightarrow> byte list option" where
  "b58dec binsz b58 =
     (let outisz = (binsz + 3) div 4;
          rem = binsz mod 4;
          remmask = push_bit (8 * rem) 0xffffffff
      in case b58_loop remmask (replicate outisz 0) b58 of
           None \<Rightarrow> None
         | Some outi \<Rightarrow>
             Some ((if rem = 3 then [ucast (drop_bit 16 (outi ! 0) AND 0xff)] else [])
                   @ (if 2 \<le> rem then [ucast (drop_bit 8 (outi ! 0) AND 0xff)] else [])
                   @ (if 1 \<le> rem then [ucast (outi ! 0 AND 0xff)] else [])
                   @ bytes_of be32enc (drop (if 1 \<le> rem then 1 else 0) outi)))"

section \<open>The address check\<close>

text \<open>
  The scan for matching zeros: the index where it stops, or \<open>None\<close> for a read past the end of
  \<open>bin\<close>. The terminating NUL of the text stops it.
\<close>

function b58_zeros :: "byte list \<Rightarrow> string \<Rightarrow> nat \<Rightarrow> nat option" where
  "b58_zeros bin b58 i =
     (if length bin \<le> i then None
      else if bin ! i = 0 \<and> i < length b58 \<and> b58 ! i = CHR ''1'' then b58_zeros bin b58 (i + 1)
      else Some i)"
  by pat_completeness auto
termination by (relation "measure (\<lambda>(bin, b58, i). length bin - i)") auto

text \<open>
  The code reads \<open>b58[i]\<close> where the scan stopped; at the end of the text that is the NUL.
\<close>

definition b58check :: "byte list \<Rightarrow> nat \<Rightarrow> string \<Rightarrow> int option" where
  "b58check bin binsz b58 =
     (let buf = sha256d bin (int binsz - 4)
      in if take 4 (drop (binsz - 4) bin) \<noteq> take 4 buf then Some (- 1)
         else (case b58_zeros bin b58 0 of
                 None \<Rightarrow> None
               | Some i \<Rightarrow>
                   if bin ! i = 0 \<or> (i < length b58 \<and> b58 ! i = CHR ''1'') then Some (- 3)
                   else Some (int (unat (bin ! 0)))))"

declare b58_zeros.simps [simp del]

section \<open>The long multiplication\<close>

abbreviation be_words_val :: "u32 list \<Rightarrow> nat" where
  "be_words_val ws \<equiv> digits_val 4294967296 (map unat ws)"

lemma be_words_val_less: "be_words_val ws < 4294967296 ^ length ws"
  using digits_val_less [of "map unat ws" 4294967296] by simp

lemma unat_u32_wide: "unat (ucast (x :: u32) :: u64) = unat x"
proof -
  have "unat x < 2 ^ 64" using unat_u32_less [of x] by (simp del: unat_u32_less)
  then show ?thesis unfolding unsigned_ucast_eq by (simp add: take_bit_nat_eq_self)
qed

lemma unat_mul58:
  fixes w c :: u32
  defines "t \<equiv> (ucast w :: u64) * 58 + ucast c"
  shows "unat (ucast (t AND 0xffffffff) :: u32) = (unat w * 58 + unat c) mod 4294967296"
    and "unat (ucast (drop_bit 32 t) :: u32) = (unat w * 58 + unat c) div 4294967296"
proof -
  have w: "unat w < 4294967296" "unat c < 4294967296" by simp_all
  have t: "unat t = unat w * 58 + unat c"
    using w by (simp add: t_def unat_word_ariths unat_u32_wide del: unat_u32_less)
  have low: "t AND 0xffffffff = take_bit 32 t"
    by (simp add: take_bit_eq_mask mask_eq_exp_minus_1)
  show "unat (ucast (t AND 0xffffffff) :: u32) = (unat w * 58 + unat c) mod 4294967296"
    unfolding low unsigned_ucast_eq unsigned_take_bit_eq t by (simp add: take_bit_eq_mod)
  have "take_bit 64 (unat w * 58 + unat c) = unat w * 58 + unat c"
    using w by (intro take_bit_nat_eq_self) (simp del: unat_u32_less)
  then have "unat (drop_bit 32 t) = (unat w * 58 + unat c) div 4294967296"
    unfolding unsigned_drop_bit_eq by (simp add: t drop_bit_eq_div)
  moreover have "(unat w * 58 + unat c) div 4294967296 < 4294967296"
    using w by (simp add: div_less_iff_less_mult del: unat_u32_less)
  ultimately show "unat (ucast (drop_bit 32 t) :: u32) = (unat w * 58 + unat c) div 4294967296"
    by (simp add: unsigned_ucast_eq take_bit_nat_eq_self)
qed

lemma b58_mul_val:
  "\<lbrakk>b58_mul outi j c = (outi', c'); j \<le> length outi\<rbrakk> \<Longrightarrow>
   length outi' = length outi \<and> drop j outi' = drop j outi \<and>
   unat c' * 4294967296 ^ j + be_words_val (take j outi') = be_words_val (take j outi) * 58 + unat c"
proof (induction j arbitrary: outi c)
  case (Suc j)
  define t where "t = (ucast (outi ! j) :: u64) * 58 + ucast c"
  define w where "w = (ucast (t AND 0xffffffff) :: u32)"
  define d where "d = (ucast (drop_bit 32 t) :: u32)"
  define V where "V = outi[j := w]"
  have wd: "unat w + 4294967296 * unat d = unat (outi ! j) * 58 + unat c"
    using unat_mul58 [of "outi ! j" c] by (simp add: w_def d_def t_def)
  have "b58_mul V j d = (outi', c')" and j: "j < length outi"
    using Suc.prems by (simp_all add: t_def w_def d_def V_def Let_def)
  then have IH: "length outi' = length V" "drop j outi' = drop j V"
    "unat c' * 4294967296 ^ j + be_words_val (take j outi') = be_words_val (take j V) * 58 + unat d"
    using Suc.IH [of V d] by (simp_all add: V_def)
  have len: "length V = length outi" "V ! j = w" using j by (simp_all add: V_def)
  have oj: "outi' ! j = w"
    using IH(1,2) len j by (metis Cons_nth_drop_Suc list.inject)
  have "drop (Suc j) outi' = drop (Suc j) outi"
    using arg_cong [OF IH(2), of "drop 1"] by (simp add: V_def)
  moreover have "be_words_val (take (Suc j) outi') = be_words_val (take j outi') * 4294967296 + unat w"
    using j IH(1) len oj by (simp add: take_Suc_conv_app_nth value_simps)
  moreover have "be_words_val (take (Suc j) outi) = be_words_val (take j V) * 4294967296 + unat (outi ! j)"
    using j by (simp add: take_Suc_conv_app_nth value_simps V_def)
  ultimately show ?case
    using IH len wd by (simp add: algebra_simps)
qed simp

lemma and_high_mask: "k < 32 \<Longrightarrow> (x :: u32) AND push_bit k 0xffffffff = 0 \<longleftrightarrow> unat x < 2 ^ k"
proof -
  assume k: "k < 32"
  have "(0xffffffff :: u32) = - 1" by simp
  then have "x AND push_bit k 0xffffffff = 0 \<longleftrightarrow> take_bit k x = x"
    by (auto simp: bit_eq_iff bit_simps not_less)
  also have "\<dots> \<longleftrightarrow> unat x < 2 ^ k"
    using k by (simp add: word_unat_eq_iff unsigned_take_bit_eq take_bit_nat_eq_self_iff)
  finally show ?thesis .
qed


section \<open>What decoding computes\<close>

text \<open>The value of a text: the position of each character among the digits, in base 58.\<close>

definition b58_digit :: "char \<Rightarrow> nat option" where
  "b58_digit ch = map_option unat (b58_digit_from b58digits ch 0)"

definition b58_valid :: "string \<Rightarrow> bool" where
  "b58_valid s \<longleftrightarrow> (\<forall>ch \<in> set s. b58_digit ch \<noteq> None)"

definition b58_value :: "string \<Rightarrow> nat" where
  "b58_value s = digits_val 58 (map (\<lambda>ch. the (b58_digit ch)) s)"

lemma b58_digit_bound:
  assumes "b58_digit_from ds ch c = Some d" "unat c + length ds < 4294967296"
  shows "unat c \<le> unat d \<and> unat d < unat c + length ds \<and> ch = ds ! (unat d - unat c)"
  using assms
proof (induction ds arbitrary: c)
  case (Cons e ds)
  then have c1: "unat (c + 1) = unat c + 1" by (simp add: unat_word_ariths)
  show ?case
  proof (cases "e = ch")
    case False
    with Cons.prems have "b58_digit_from ds ch (c + 1) = Some d" by simp
    from Cons.IH [OF this] Cons.prems c1 show ?thesis by (auto simp: nth_Cons')
  qed (use Cons.prems in auto)
qed simp

lemma length_b58digits: "length b58digits = 58"
  by (simp add: b58digits_def)

lemma b58_digit_Some:
  assumes "b58_digit ch = Some k"
  shows "k < 58" "ch = b58digits ! k"
  using assms b58_digit_bound [of b58digits ch 0]
  by (auto simp: b58_digit_def length_b58digits)

lemma b58_value_Cons:
  "b58_value (ch # s) = the (b58_digit ch) * 58 ^ length s + b58_value s"
  by (simp add: b58_value_def value_simps)

lemma grows_58: "(l :: nat) \<le> x \<Longrightarrow> l \<le> x * 58 ^ k + y"
proof -
  assume "l \<le> x"
  also have "x * 1 \<le> x * 58 ^ k" by (rule mult_le_mono2) simp
  finally show ?thesis by simp
qed

lemma b58_loop_spec:
  assumes "r < 4" "0 < r" "outi \<noteq> []"
    and "be_words_val outi < 256 ^ (4 * (length outi - 1) + r)"
  defines "lim \<equiv> 256 ^ (4 * (length outi - 1) + r)"
  shows "case b58_loop (push_bit (8 * r) 0xffffffff) outi s of
      None \<Rightarrow> \<not> (b58_valid s \<and> be_words_val outi * 58 ^ length s + b58_value s < lim)
    | Some o' \<Rightarrow> length o' = length outi \<and> b58_valid s \<and> be_words_val o' < lim
        \<and> be_words_val o' = be_words_val outi * 58 ^ length s + b58_value s"
  using assms(3,4) unfolding lim_def
proof (induction s arbitrary: outi)
  case Nil
  then show ?case by (simp add: b58_valid_def b58_value_def)
next
  case (Cons ch s)
  define L :: nat where "L = 256 ^ (4 * (length outi - 1) + r)"
  show ?case
  proof (cases "b58_digit_from b58digits ch 0")
    case None
    then show ?thesis by (simp add: b58_valid_def b58_digit_def)
  next
    case (Some c)
    obtain o1 c1 where m: "b58_mul outi (length outi) c = (o1, c1)" by (metis surj_pair)
    define n where "n = length outi"
    have n: "0 < n" using Cons.prems(1) by (simp add: n_def)
    have d: "b58_digit ch = Some (unat c)" using Some by (simp add: b58_digit_def)
    have len: "length o1 = n" using b58_mul_val [OF m] by (simp add: n_def)
    then have val: "unat c1 * 4294967296 ^ n + be_words_val o1 = be_words_val outi * 58 + unat c"
      using b58_mul_val [OF m order_refl, THEN conjunct2, THEN conjunct2] by (simp add: n_def)
    obtain w ws where o1: "o1 = w # ws" and ws: "length ws = n - 1"
      using len n by (cases o1) auto
    have lim: "L = 4294967296 ^ (n - 1) * 256 ^ r"
      by (simp add: L_def n_def power_add power_mult)
    have "unat w < 2 ^ (8 * r) \<longleftrightarrow> be_words_val o1 < L"
    proof -
      have v: "be_words_val o1 = unat w * 4294967296 ^ (n - 1) + be_words_val ws"
        by (simp add: o1 value_simps ws)
      have "be_words_val ws < 4294967296 ^ (n - 1)"
        using be_words_val_less [of ws] by (simp add: ws)
      then have "be_words_val o1 div 4294967296 ^ (n - 1) = unat w" by (simp add: v)
      moreover have "be_words_val o1 < L \<longleftrightarrow> be_words_val o1 div 4294967296 ^ (n - 1) < 256 ^ r"
        by (simp add: lim div_less_iff_less_mult mult.commute)
      ultimately show ?thesis by (simp add: power_mult)
    qed
    moreover have "c1 = 0 \<longleftrightarrow> be_words_val outi * 58 + unat c < 4294967296 ^ n"
    proof
      assume "c1 = 0"
      then show "be_words_val outi * 58 + unat c < 4294967296 ^ n"
        using val be_words_val_less [of o1] by (simp add: len)
    next
      assume "be_words_val outi * 58 + unat c < 4294967296 ^ n"
      then have "unat c1 * 4294967296 ^ n < 1 * 4294967296 ^ n" using val by linarith
      then have "unat c1 = 0" by (metis mult_less_cancel2 less_one)
      then show "c1 = 0" by (simp add: word_unat_eq_iff)
    qed
    moreover have "L \<le> 4294967296 ^ n"
    proof -
      have "(256 :: nat) ^ r \<le> 256 ^ 4" using assms(1) by (intro power_increasing) auto
      then have "L \<le> 4294967296 ^ (n - 1) * 4294967296" by (simp add: lim)
      also have "\<dots> = 4294967296 ^ n" using n by (metis power_minus_mult)
      finally show ?thesis .
    qed
    ultimately have fits: "\<not> (c1 \<noteq> 0 \<or> o1 ! 0 AND push_bit (8 * r) 0xffffffff \<noteq> 0)
        \<longleftrightarrow> be_words_val outi * 58 + unat c < L"
      using val assms(1) by (auto simp: and_high_mask o1)
    have total: "be_words_val outi * 58 ^ length (ch # s) + b58_value (ch # s)
        = (be_words_val outi * 58 + unat c) * 58 ^ length s + b58_value s"
      by (simp add: b58_value_Cons d algebra_simps)
    show ?thesis
    proof (cases "be_words_val outi * 58 + unat c < L")
      case True
      then have "c1 = 0" using fits by auto
      with val have v1: "be_words_val o1 = be_words_val outi * 58 + unat c" by simp
      have "o1 \<noteq> []" "be_words_val o1 < 256 ^ (4 * (length o1 - 1) + r)"
        using True v1 len by (simp_all add: o1 L_def n_def)
      from Cons.IH [OF this] show ?thesis
        using True fits v1 total len d
        by (simp add: m Some b58_valid_def n_def split: option.splits)
    next
      case False
      then have "\<not> (be_words_val outi * 58 + unat c) * 58 ^ length s + b58_value s < L"
        using grows_58 by (simp only: not_less)
      then have "\<not> be_words_val outi * 58 ^ length (ch # s) + b58_value (ch # s) < L"
        unfolding total .
      moreover have "b58_loop (push_bit (8 * r) 0xffffffff) outi (ch # s) = None"
        using False fits by (simp add: m Some)
      ultimately show ?thesis
        unfolding L_def by (simp only: option.case simp_thms)
    qed
  qed
qed


section \<open>The decoder against its specification\<close>

lemma b58_lead_bytes:
  assumes "0 < r" "r < 4" "unat (w :: u32) < 256 ^ r"
  defines "lead \<equiv> (if r = 3 then [ucast (drop_bit 16 w AND 0xff)] else [])
      @ (if 2 \<le> r then [ucast (drop_bit 8 w AND 0xff)] else [])
      @ (if 1 \<le> r then [ucast (w AND 0xff) :: byte] else [])"
  shows "be_val lead = unat w \<and> length lead = r"
proof -
  have two: "n div 256 mod 256 * 256 + n mod 256 = n" if "n < 65536" for n :: nat
  proof -
    have "n div 256 mod 256 = n div 256" using that by (intro mod_less) (simp add: div_less_iff_less_mult)
    then show ?thesis using div_mult_mod_eq [of n 256] by simp
  qed
  have three: "n div 65536 mod 256 * 65536 + n div 256 mod 256 * 256 + n mod 256 = n" if "n < 16777216" for n :: nat
  proof -
    have "n div 65536 = n div 256 div 256" by (simp add: div_mult2_eq [symmetric])
    moreover have "n div 256 div 256 mod 256 * 256 + n div 256 mod 256 = n div 256"
      using that by (intro two) (simp add: div_less_iff_less_mult)
    ultimately show ?thesis using div_mult_mod_eq [of n 256] by (simp only:)
  qed
  consider "r = 1" | "r = 2" | "r = 3" using assms(1,2) by linarith
  then show ?thesis
    using assms(3) two [of "unat w"] three [of "unat w"]
    by cases (simp_all add: lead_def value_simps unat_low_byte unat_drop_bit_u32 algebra_simps)
qed

lemma b58dec_val:
  assumes "0 < binsz mod 4"
  shows "case b58dec binsz s of
      None \<Rightarrow> \<not> (b58_valid s \<and> b58_value s < 256 ^ binsz)
    | Some bin \<Rightarrow> b58_valid s \<and> length bin = binsz \<and> be_val bin = b58_value s"
proof -
  define r n where "r = binsz mod 4" and "n = (binsz + 3) div 4"
  have r: "0 < r" "r < 4" using assms by (simp_all add: r_def)
  have n: "0 < n" "binsz = 4 * (n - 1) + r" using assms by (auto simp: n_def r_def) presburger+
  have z: "digits_val 4294967296 (replicate n 0) = 0"
    by (induction n) (simp_all add: value_simps)
  have spec: "case b58_loop (push_bit (8 * r) 0xffffffff) (replicate n 0) s of
      None \<Rightarrow> \<not> (b58_valid s \<and> b58_value s < 256 ^ binsz)
    | Some o' \<Rightarrow> length o' = n \<and> b58_valid s \<and> be_words_val o' < 256 ^ binsz \<and> be_words_val o' = b58_value s"
    using n(1)
    by (intro b58_loop_spec [OF r(2,1), of "replicate n 0" s,
          unfolded length_replicate n(2) [symmetric] map_replicate unsigned_0 z mult_0 add_0]) simp_all
  show ?thesis
  proof (cases "b58_loop (push_bit (8 * r) 0xffffffff) (replicate n 0) s")
    case None
    then show ?thesis
      using spec by (simp add: b58dec_def Let_def flip: r_def n_def)
  next
    case (Some o')
    then have o': "length o' = n" "b58_valid s" "be_words_val o' < 256 ^ binsz" "be_words_val o' = b58_value s"
      using spec by simp_all
    obtain w ws where o1: "o' = w # ws" and ws: "length ws = n - 1"
      using o'(1) n(1) by (cases o') auto
    have v: "be_words_val o' = unat w * 256 ^ (4 * (n - 1)) + be_words_val ws"
      by (simp add: o1 value_simps ws power_mult)
    have "unat w * 256 ^ (4 * (n - 1)) \<le> be_words_val o'" by (simp add: v)
    also have "\<dots> < 256 ^ r * 256 ^ (4 * (n - 1))"
      using o'(3) unfolding n(2) by (simp only: power_add mult.commute)
    finally have w: "unat w < 256 ^ r" by (metis mult_less_cancel2)
    define lead where "lead = (if r = 3 then [ucast (drop_bit 16 w AND 0xff)] else [])
      @ (if 2 \<le> r then [ucast (drop_bit 8 w AND 0xff)] else [])
      @ (if 1 \<le> r then [ucast (w AND 0xff) :: byte] else [])"
    have lead: "be_val lead = unat w" "length lead = r"
      using b58_lead_bytes [OF r w] by (simp_all add: lead_def)
    have "b58dec binsz s = Some (lead @ bytes_of be32enc ws)"
      using Some r(1) by (simp add: b58dec_def Let_def o1 lead_def flip: r_def n_def)
    moreover have "be_val (lead @ bytes_of be32enc ws) = be_words_val o'"
      using lead ws by (simp add: value_simps be_val_bytes_of be32.length_bytes_of v)
    ultimately show ?thesis
      using o' lead ws n by (simp add: be32.length_bytes_of)
  qed
qed


section \<open>Accepted addresses\<close>

lemma b58_zeros_stop:
  assumes "j < length bin" "bin ! j \<noteq> 0" "i \<le> j"
  shows "\<exists>k. b58_zeros bin b58 i = Some k \<and> i \<le> k \<and> k \<le> j
    \<and> (\<forall>m. i \<le> m \<and> m < k \<longrightarrow> bin ! m = 0 \<and> m < length b58 \<and> b58 ! m = CHR ''1'')
    \<and> \<not> (bin ! k = 0 \<and> k < length b58 \<and> b58 ! k = CHR ''1'')"
  using assms(3)
proof (induction "j - i" arbitrary: i)
  case 0
  then have "i = j" by simp
  then show ?case using assms by (subst b58_zeros.simps) auto
next
  case (Suc d)
  then have ij: "i < j" by simp
  show ?case
  proof (cases "bin ! i = 0 \<and> i < length b58 \<and> b58 ! i = CHR ''1''")
    case True
    obtain k where k: "b58_zeros bin b58 (i + 1) = Some k" "i + 1 \<le> k" "k \<le> j"
      "\<forall>m. i + 1 \<le> m \<and> m < k \<longrightarrow> bin ! m = 0 \<and> m < length b58 \<and> b58 ! m = CHR ''1''"
      "\<not> (bin ! k = 0 \<and> k < length b58 \<and> b58 ! k = CHR ''1'')"
    proof -
      have "d = j - (i + 1)" "i + 1 \<le> j" using Suc.hyps(2) ij by simp_all
      from Suc.hyps(1) [OF this] that show ?thesis by blast
    qed
    have "b58_zeros bin b58 i = Some k"
      using True k(1) assms(1) ij by (subst b58_zeros.simps) simp
    moreover have "bin ! m = 0 \<and> m < length b58 \<and> b58 ! m = CHR ''1''" if "i \<le> m" "m < k" for m
      using that k(4) True by (cases "m = i") auto
    ultimately show ?thesis using k by (intro exI [of _ k]) auto
  next
    case False
    then have "b58_zeros bin b58 i = Some i"
      using assms(1) ij by (subst b58_zeros.simps) auto
    then show ?thesis using False ij by (intro exI [of _ i]) auto
  qed
qed

lemma b58check_spec:
  assumes "length bin = n" "4 < n" "n < 2 ^ 28" "\<exists>j < n. bin ! j \<noteq> 0"
  shows "b58check bin n s = Some
    (if drop (n - 4) bin \<noteq> take 4 (fips_sha256 (fips_sha256 (take (n - 4) bin))) then - 1
     else if lead_count (\<lambda>b. b = 0) bin \<noteq> lead_count (\<lambda>c. c = CHR ''1'') s then - 3
     else int (unat (bin ! 0)))"
proof -
  have sum: "sha256d bin (int n - 4) = fips_sha256 (fips_sha256 (take (n - 4) bin))"
    using sha256d_fips [of "n - 4" bin] assms by (simp add: of_nat_diff)
  obtain j where j: "j < n" "bin ! j \<noteq> 0" using assms(4) by auto
  obtain k where k: "b58_zeros bin s 0 = Some k" "k \<le> j"
    "\<forall>m. m < k \<longrightarrow> bin ! m = 0 \<and> m < length s \<and> s ! m = CHR ''1''"
    "\<not> (bin ! k = 0 \<and> k < length s \<and> s ! k = CHR ''1'')"
    using b58_zeros_stop [of j bin 0 s] j assms(1) by auto
  have kn: "k < length bin" using j k(2) assms(1) by simp
  have ks: "k \<le> length s" using k(3) by (metis not_le less_irrefl)
  have "lead_count (\<lambda>b. b = 0) bin = lead_count (\<lambda>c. c = CHR ''1'') s
      \<longleftrightarrow> bin ! k \<noteq> 0 \<and> \<not> (k < length s \<and> s ! k = CHR ''1'')"
  proof (cases "bin ! k = 0")
    case True
    then have "lead_count (\<lambda>c. c = CHR ''1'') s = k"
      using k ks by (intro takeWhile_stops) auto
    moreover have "lead_count (\<lambda>b. b = 0) bin \<noteq> k"
    proof
      assume "lead_count (\<lambda>b. b = 0) bin = k"
      then show False
        using True kn nth_length_takeWhile [of "\<lambda>b. b = 0" bin] by (simp add: lead_count_def)
    qed
    ultimately show ?thesis using True by simp
  next
    case False
    then have z: "lead_count (\<lambda>b. b = 0) bin = k"
      using k kn by (intro takeWhile_stops) auto
    show ?thesis
    proof (cases "k < length s \<and> s ! k = CHR ''1''")
      case True
      have "lead_count (\<lambda>c. c = CHR ''1'') s \<noteq> k"
        using True nth_length_takeWhile [of "\<lambda>c. c = CHR ''1''" s] by (auto simp: lead_count_def)
      then show ?thesis using True z by auto
    next
      case stop: False
      then have "lead_count (\<lambda>c. c = CHR ''1'') s = k"
        using k ks by (intro takeWhile_stops) auto
      then show ?thesis using stop False z by simp
    qed
  qed
  then show ?thesis
    using k(1) assms(1,2) by (auto simp: b58check_def Let_def sum)
qed

lemma b58check_accepted:
  assumes "b58check bin n s = Some v" "0 \<le> v" "length bin = n" "4 < n" "n < 2 ^ 28"
  shows "(\<exists>j < n. bin ! j \<noteq> 0) \<and> lead_count (\<lambda>b. b = 0) bin = lead_count (\<lambda>c. c = CHR ''1'') s"
proof -
  have stop: "b58_zeros bin s i = Some k \<Longrightarrow> k < length bin" for i k
  proof (induction bin s i rule: b58_zeros.induct)
    case (1 bin s i)
    then show ?case by (subst (asm) b58_zeros.simps) (auto split: if_splits)
  qed
  have nz: "\<exists>j < n. bin ! j \<noteq> 0"
    using assms(1-3) stop [of 0]
    by (auto simp: b58check_def Let_def split: if_splits option.splits)
  show ?thesis
    using b58check_spec [OF assms(3,4,5) nz, of s] nz assms(1,2) by (auto split: if_splits)
qed

section \<open>A byte string has one accepted text\<close>

lemma b58_one: "b58_digit ch = Some 0 \<longleftrightarrow> ch = CHR ''1''"
proof
  assume "b58_digit ch = Some 0"
  then have "ch = b58digits ! 0" by (rule b58_digit_Some)
  then show "ch = CHR ''1''" by (simp add: b58digits_def)
next
  assume "ch = CHR ''1''"
  then show "b58_digit ch = Some 0" by (simp add: b58digits_def b58_digit_def)
qed

lemma b58_value_split:
  assumes "b58_valid s" "b58_value s \<noteq> 0"
  obtains t where "s = replicate (lead_count (\<lambda>c. c = CHR ''1'') s) (CHR ''1'') @ t"
    and "b58_valid t" "b58_value t = b58_value s"
    and "58 ^ (length t - 1) \<le> b58_value t" "b58_value t < 58 ^ length t"
proof -
  define k where "k = lead_count (\<lambda>c. c = CHR ''1'') s"
  define t where "t = dropWhile (\<lambda>c. c = CHR ''1'') s"
  have "takeWhile (\<lambda>c. c = CHR ''1'') s = replicate k (CHR ''1'')"
    unfolding k_def lead_count_def
    using set_takeWhileD [where P = "\<lambda>c. c = CHR ''1''" and xs = s]
    by (intro replicate_length_same [symmetric]) blast
  then have s: "s = replicate k (CHR ''1'') @ t"
    using takeWhile_dropWhile_id [of "\<lambda>c. c = CHR ''1''" s] by (simp add: t_def)
  have t: "b58_valid t"
    using assms(1) set_dropWhileD [of _ "\<lambda>c. c = CHR ''1''" s] by (auto simp: b58_valid_def t_def)
  have v: "b58_value t = b58_value s"
  proof -
    have "b58_value (replicate k (CHR ''1'') @ t) = b58_value t"
      using b58_one [of "CHR ''1''"] by (induction k) (simp_all add: b58_value_Cons)
    then show ?thesis using s by metis
  qed
  obtain ch u where tu: "t = ch # u"
    using v assms(2) by (cases t) (simp_all add: b58_value_def)
  have "ch \<noteq> CHR ''1''" using hd_dropWhile [of "\<lambda>c. c = CHR ''1''" s] tu by (simp flip: t_def)
  then obtain d where d: "b58_digit ch = Some d" "0 < d"
    using t b58_one [of ch] by (cases "b58_digit ch") (auto simp: tu b58_valid_def)
  then have "58 ^ length u \<le> d * 58 ^ length u" by simp
  then have "58 ^ (length t - 1) \<le> b58_value t"
    by (simp add: tu b58_value_Cons d trans_le_add1)
  moreover have "b58_value t < 58 ^ length t"
    using digits_val_less [of "map (\<lambda>ch. the (b58_digit ch)) t" 58] t b58_digit_Some(1)
    by (auto simp: b58_value_def b58_valid_def)
  ultimately show ?thesis
    by (rule that [OF s [unfolded k_def] t v])
qed

lemma b58_value_inject:
  assumes "b58_valid s" "b58_valid t" "length s = length t" "b58_value s = b58_value t"
  shows "s = t"
proof -
  have "map (\<lambda>ch. the (b58_digit ch)) s = map (\<lambda>ch. the (b58_digit ch)) t"
    using assms b58_digit_Some(1)
    by (intro digits_val_inject [where b = 58]) (auto simp: b58_value_def b58_valid_def)
  moreover have "inj_on (\<lambda>ch. the (b58_digit ch)) (set s \<union> set t)"
    using assms(1,2) b58_digit_Some(2) unfolding b58_valid_def inj_on_def by (metis UnE option.collapse)
  ultimately show ?thesis by (metis map_inj_on)
qed

lemma power_58_range:
  fixes v :: nat
  assumes "58 ^ (m - 1) \<le> v" "v < 58 ^ m" "58 ^ (n - 1) \<le> v" "v < 58 ^ n"
  shows "m = n"
proof (rule ccontr)
  assume "m \<noteq> n"
  then consider "m \<le> n - 1" | "n \<le> m - 1" by linarith
  then show False
  proof cases
    case 1
    then have "(58 :: nat) ^ m \<le> 58 ^ (n - 1)" by (intro power_increasing) simp_all
    with assms show False by linarith
  next
    case 2
    then have "(58 :: nat) ^ n \<le> 58 ^ (m - 1)" by (intro power_increasing) simp_all
    with assms show False by linarith
  qed
qed

lemma b58_text_unique:
  assumes s: "b58dec n s = Some bin" "b58check bin n s = Some v" "0 \<le> v"
    and t: "b58dec n t = Some bin" "b58check bin n t = Some w" "0 \<le> w"
    and n: "0 < n mod 4" "4 < n" "n < 2 ^ 28"
  shows "s = t"
proof -
  have S: "b58_valid s" "length bin = n" "be_val bin = b58_value s"
    using b58dec_val [OF n(1), of s] s(1) by simp_all
  have T: "b58_valid t" "be_val bin = b58_value t"
    using b58dec_val [OF n(1), of t] t(1) by simp_all
  have accS: "\<exists>j < n. bin ! j \<noteq> 0" "lead_count (\<lambda>b. b = 0) bin = lead_count (\<lambda>c. c = CHR ''1'') s"
    and accT: "lead_count (\<lambda>b. b = 0) bin = lead_count (\<lambda>c. c = CHR ''1'') t"
    using b58check_accepted [OF s(2,3) S(2) n(2,3)] b58check_accepted [OF t(2,3) S(2) n(2,3)] by simp_all
  have "be_val bin \<noteq> 0"
  proof
    assume "be_val bin = 0"
    moreover have "be_val (replicate n (0 :: byte)) = 0" by (induction n) (simp_all add: value_simps)
    ultimately have "bin = replicate n 0" using S(2) by (intro be_val_inject) simp_all
    with accS(1) show False by auto
  qed
  then have nz: "b58_value s \<noteq> 0" "b58_value t \<noteq> 0" using S T by simp_all
  obtain s' where s': "s = replicate (lead_count (\<lambda>c. c = CHR ''1'') s) (CHR ''1'') @ s'"
    "b58_valid s'" "b58_value s' = b58_value s" "58 ^ (length s' - 1) \<le> b58_value s'" "b58_value s' < 58 ^ length s'"
    using b58_value_split [OF S(1) nz(1)] by metis
  obtain t' where t': "t = replicate (lead_count (\<lambda>c. c = CHR ''1'') t) (CHR ''1'') @ t'"
    "b58_valid t'" "b58_value t' = b58_value t" "58 ^ (length t' - 1) \<le> b58_value t'" "b58_value t' < 58 ^ length t'"
    using b58_value_split [OF T(1) nz(2)] by metis
  have v: "b58_value s' = b58_value t'" using s'(3) t'(3) S(3) T(2) by simp
  then have "length s' = length t'"
    using s'(4,5) t'(4,5) by (intro power_58_range [where v = "b58_value t'"]) simp_all
  then have "s' = t'" using v s'(2) t'(2) by (intro b58_value_inject)
  then show ?thesis using s'(1) t'(1) accS(2) accT by metis
qed


section \<open>Properties\<close>

text \<open>\<open>b58dec\<close> into \<open>n\<close> bytes succeeds exactly when every character is a base-58 digit and the
  number fits, and then writes that number in big-endian order, padded to \<open>n\<close> bytes (for sizes that
  are no multiple of four; the address code uses 25).\<close>

theorem b58dec_correct:
  assumes "0 < n mod 4"
  shows "(b58dec n s = Some bin \<longleftrightarrow> b58_valid s \<and> length bin = n \<and> be_val bin = b58_value s)
    \<and> (b58dec n s = None \<longleftrightarrow> \<not> b58_valid s \<or> 256 ^ n \<le> b58_value s)"
proof (cases "b58dec n s")
  case None
  then have "\<not> (b58_valid s \<and> b58_value s < 256 ^ n)" using b58dec_val [OF assms, of s] by simp
  then show ?thesis using None be_val_less [of bin] by auto
next
  case (Some o')
  then have "b58_valid s \<and> length o' = n \<and> be_val o' = b58_value s" using b58dec_val [OF assms, of s] by simp
  then show ?thesis using Some be_val_less [of o'] be_val_inject [of bin o'] by auto
qed

lemma b58dec_correct_witness:
  "(b58dec 25 ''21'' = Some (replicate 24 0 @ [58]) \<longleftrightarrow>
      b58_valid ''21'' \<and> length (replicate 24 0 @ [58 :: byte]) = 25 \<and> be_val (replicate 24 0 @ [58]) = b58_value ''21'')
   \<and> (b58dec 25 ''21'' = None \<longleftrightarrow> \<not> b58_valid ''21'' \<or> 256 ^ 25 \<le> b58_value ''21'')"
  by (rule b58dec_correct) simp

text \<open>On a decoded address with a non-zero byte, \<open>b58check\<close> never reads past the buffer; it
  returns -1 unless the last four bytes are the first four of the double SHA-256 of the others, then
  -3 unless the text has as many leading \<open>1\<close>s as the buffer has leading zero bytes, and else the
  version byte.\<close>

theorem b58check_correct:
  assumes "length bin = n" "4 < n" "n < 2 ^ 28" "\<exists>j < n. bin ! j \<noteq> 0"
  shows "b58check bin n s = Some
    (if drop (n - 4) bin \<noteq> take 4 (fips_sha256 (fips_sha256 (take (n - 4) bin))) then - 1
     else if lead_count (\<lambda>b. b = 0) bin \<noteq> lead_count (\<lambda>c. c = CHR ''1'') s then - 3
     else int (unat (bin ! 0)))"
  using assms by (rule b58check_spec)

lemma b58check_correct_witness:
  "b58check (replicate 24 0 @ [58]) 25 ''21'' = Some
    (if drop 21 (replicate 24 0 @ [58]) \<noteq> take 4 (fips_sha256 (fips_sha256 (take 21 (replicate 24 0 @ [58])))) then - 1
     else if lead_count (\<lambda>b. b = 0) (replicate 24 0 @ [58 :: byte]) \<noteq> lead_count (\<lambda>c. c = CHR ''1'') ''21'' then - 3
     else int (unat ((replicate 24 0 @ [58 :: byte]) ! 0)))"
proof -
  have "\<exists>j < 25. (replicate 24 0 @ [58 :: byte]) ! j \<noteq> 0" by (rule exI [of _ 24]) (simp add: nth_append)
  then show ?thesis
    using b58check_correct [of "replicate 24 0 @ [58]" 25 "''21''"] by (simp del: replicate_Suc)
qed

text \<open>An address has one text: two different texts are never both accepted by \<open>b58dec\<close> and
  \<open>b58check\<close> with the same bytes.\<close>

theorem b58_address_unique:
  assumes "s \<noteq> t" "0 < n mod 4" "4 < n" "n < 2 ^ 28"
  shows "\<not> (\<exists>v w. b58dec n s = Some bin \<and> b58check bin n s = Some v \<and> 0 \<le> v
    \<and> b58dec n t = Some bin \<and> b58check bin n t = Some w \<and> 0 \<le> w)"
  using b58_text_unique [OF _ _ _ _ _ _ assms(2-4), of s bin _ t] assms(1) by blast

lemma b58_address_unique_witness:
  "\<not> (\<exists>v w. b58dec 25 ''21'' = Some (replicate 24 0 @ [58]) \<and> b58check (replicate 24 0 @ [58]) 25 ''21'' = Some v \<and> 0 \<le> v
    \<and> b58dec 25 ''121'' = Some (replicate 24 0 @ [58]) \<and> b58check (replicate 24 0 @ [58]) 25 ''121'' = Some w \<and> 0 \<le> w)"
  by (rule b58_address_unique) simp_all

end
