(* ===== verification/Bech32.thy ===== *)
theory Bech32
  imports Prelude
begin

text \<open>
  Bech32 decoding of \<open>util.c\<close>: the checksum step, \<open>bech32_decode\<close>, \<open>convert_bits\<close> and
  \<open>segwit_addr_decode\<close>. A C string is the list of its characters without the final NUL;
  \<open>char\<close> is signed, so characters from 128 on are negative.
\<close>

section \<open>Checksum and character set\<close>

text \<open>The constants are \<open>unsigned long\<close>, so the sum is formed with 64 bits and returned as 32.\<close>

definition polymod_mask :: "byte \<Rightarrow> nat \<Rightarrow> u64 \<Rightarrow> u64" where
  "polymod_mask b i k = (- ucast (drop_bit i b AND 1)) AND k"

definition bech32_polymod_step :: "u32 \<Rightarrow> u32" where
  "bech32_polymod_step pre =
     (let b = ucast (drop_bit 25 pre) :: byte
      in ucast (ucast (push_bit 5 (pre AND 0x1FFFFFF)) XOR
           polymod_mask b 0 0x3b6a57b2 XOR
           polymod_mask b 1 0x26508e6d XOR
           polymod_mask b 2 0x1ea119fa XOR
           polymod_mask b 3 0x3d4233dd XOR
           polymod_mask b 4 0x2a1462b3))"

definition bech32_charset_rev :: "int list" where
  "bech32_charset_rev =
     [-1, -1, -1, -1, -1, -1, -1, -1, -1, -1, -1, -1, -1, -1, -1, -1,
      -1, -1, -1, -1, -1, -1, -1, -1, -1, -1, -1, -1, -1, -1, -1, -1,
      -1, -1, -1, -1, -1, -1, -1, -1, -1, -1, -1, -1, -1, -1, -1, -1,
      15, -1, 10, 17, 21, 20, 26, 30,  7,  5, -1, -1, -1, -1, -1, -1,
      -1, 29, -1, 24, 13, 25,  9,  8, 23, -1, 18, 22, 31, 27, 19, -1,
       1,  0,  3, 16, 11, 28, 12, 14,  6,  4,  2, -1, -1, -1, -1, -1,
      -1, 29, -1, 24, 13, 25,  9,  8, 23, -1, 18, 22, 31, 27, 19, -1,
       1,  0,  3, 16, 11, 28, 12, 14,  6,  4,  2, -1, -1, -1, -1, -1]"

text \<open>A character as the signed \<open>char\<close> promoted to \<open>int\<close>.\<close>

definition char_int :: "char \<Rightarrow> int" where
  "char_int c = (let k = of_char c :: int in if k < 128 then k else k - 256)"

definition is_lower :: "char \<Rightarrow> bool" where
  "is_lower c \<longleftrightarrow> 97 \<le> char_int c \<and> char_int c \<le> 122"

definition is_upper :: "char \<Rightarrow> bool" where
  "is_upper c \<longleftrightarrow> 65 \<le> char_int c \<and> char_int c \<le> 90"

section \<open>Decoding\<close>

text \<open>The number of characters after the last \<open>1\<close>: the first loop of \<open>bech32_decode\<close>.\<close>

function bech32_data_len :: "string \<Rightarrow> nat \<Rightarrow> nat" where
  "bech32_data_len input n =
     (if n < length input \<and> input ! (length input - 1 - n) \<noteq> CHR ''1''
      then bech32_data_len input (n + 1) else n)"
  by pat_completeness auto
termination by (relation "measure (\<lambda>(input, n). length input - n)") auto

declare bech32_data_len.simps [simp del]

record bech32_state =
  b_chk :: u32
  b_lower :: bool
  b_upper :: bool

text \<open>The loop over the human-readable part: the state and the characters stored in \<open>hrp\<close>.\<close>

fun bech32_hrp_loop :: "bech32_state \<Rightarrow> string \<Rightarrow> (bech32_state \<times> int list) option" where
  "bech32_hrp_loop st [] = Some (st, [])"
| "bech32_hrp_loop st (c # cs) =
     (let ch = char_int c
      in if ch < 33 \<or> ch > 126 then None
         else (let st = (if is_lower c then st\<lparr>b_lower := True\<rparr>
                         else if is_upper c then st\<lparr>b_upper := True\<rparr> else st);
                   ch = (if is_upper c then ch - 65 + 97 else ch);
                   st = st\<lparr>b_chk := bech32_polymod_step (b_chk st) XOR drop_bit 5 (of_int ch)\<rparr>
               in map_option (\<lambda>(st, hrp). (st, ch # hrp)) (bech32_hrp_loop st cs)))"

fun bech32_hrp_low :: "u32 \<Rightarrow> string \<Rightarrow> u32" where
  "bech32_hrp_low chk [] = chk"
| "bech32_hrp_low chk (c # cs) =
     bech32_hrp_low (bech32_polymod_step chk XOR (of_int (char_int c) AND 0x1f)) cs"

definition bech32_char_value :: "char \<Rightarrow> int" where
  "bech32_char_value c = (if char_int c < 0 then - 1 else bech32_charset_rev ! nat (char_int c))"

text \<open>The loop over the data part: the state and the values of all its characters.\<close>

fun bech32_data_loop :: "bech32_state \<Rightarrow> string \<Rightarrow> (bech32_state \<times> byte list) option" where
  "bech32_data_loop st [] = Some (st, [])"
| "bech32_data_loop st (c # cs) =
     (let v = bech32_char_value c;
          st = (if is_lower c then st\<lparr>b_lower := True\<rparr> else st);
          st = (if is_upper c then st\<lparr>b_upper := True\<rparr> else st)
      in if v = - 1 then None
         else map_option (\<lambda>(st, vs). (st, of_int v # vs))
           (bech32_data_loop (st\<lparr>b_chk := bech32_polymod_step (b_chk st) XOR of_int v\<rparr>) cs))"

text \<open>
  The values of the last six characters, the checksum, are not stored. \<open>input[i] & 0x1f\<close> in the
  second pass reads the characters as they were given, upper case included.
\<close>

definition bech32_decode :: "string \<Rightarrow> (int list \<times> byte list) option" where
  "bech32_decode input =
     (if length input < 8 \<or> length input > 90 then None
      else (let data_len = bech32_data_len input 0
            in if 1 + data_len \<ge> length input \<or> data_len < 6 then None
               else (let hrp_len = length input - (1 + data_len);
                         hrp = take hrp_len input
                     in case bech32_hrp_loop \<lparr>b_chk = 1, b_lower = False, b_upper = False\<rparr> hrp of
                          None \<Rightarrow> None
                        | Some (st, hrp_out) \<Rightarrow>
                            (let chk = bech32_hrp_low (bech32_polymod_step (b_chk st)) hrp
                             in case bech32_data_loop (st\<lparr>b_chk := chk\<rparr>) (drop (hrp_len + 1) input) of
                                  None \<Rightarrow> None
                                | Some (st, vs) \<Rightarrow>
                                    if b_lower st \<and> b_upper st then None
                                    else if b_chk st = 1 then Some (hrp_out, take (data_len - 6) vs)
                                    else None))))"

section \<open>Regrouping bits\<close>

fun convert_bits_out :: "u32 \<Rightarrow> nat \<Rightarrow> nat \<Rightarrow> nat \<times> byte list" where
  "convert_bits_out val bits outbits =
     (if 0 < outbits \<and> outbits \<le> bits
      then (let bits = bits - outbits;
                (rest, out) = convert_bits_out val bits outbits
            in (rest, ucast (drop_bit bits val AND (push_bit outbits 1 - 1)) # out))
      else (bits, []))"

declare convert_bits_out.simps [simp del]

fun convert_bits_loop :: "u32 \<Rightarrow> nat \<Rightarrow> nat \<Rightarrow> byte list \<Rightarrow> nat \<Rightarrow> u32 \<times> nat \<times> byte list" where
  "convert_bits_loop val bits outbits [] inbits = (val, bits, [])"
| "convert_bits_loop val bits outbits (b # bs) inbits =
     (let val = push_bit inbits val OR ucast b;
          (bits, out) = convert_bits_out val (bits + inbits) outbits;
          (val, bits, more) = convert_bits_loop val bits outbits bs inbits
      in (val, bits, out @ more))"

text \<open>The result flag and the bytes appended to \<open>out\<close>.\<close>

definition convert_bits :: "nat \<Rightarrow> byte list \<Rightarrow> nat \<Rightarrow> bool \<Rightarrow> bool \<times> byte list" where
  "convert_bits outbits inp inbits pad =
     (let maxv = push_bit outbits 1 - 1;
          (val, bits, out) = convert_bits_loop 0 0 outbits inp inbits
      in if pad
         then (True, if bits \<noteq> 0 then out @ [ucast (push_bit (outbits - bits) val AND maxv)] else out)
         else if push_bit (outbits - bits) val AND maxv \<noteq> 0 \<or> inbits \<le> bits then (False, out)
         else (True, out))"

definition segwit_addr_decode :: "string \<Rightarrow> (byte \<times> byte list) option" where
  "segwit_addr_decode addr =
     (case bech32_decode addr of
        None \<Rightarrow> None
      | Some (hrp, data) \<Rightarrow>
          if data = [] \<or> length data > 65 then None
          else if data ! 0 > 16 then None
          else (case convert_bits 8 (drop 1 data) 5 False of (ok, witdata) \<Rightarrow>
             if \<not> ok then None
             else if length witdata < 2 \<or> length witdata > 40 then None
             else if data ! 0 = 0 \<and> length witdata \<noteq> 20 \<and> length witdata \<noteq> 32 then None
             else Some (data ! 0, witdata)))"

definition bech32_to_script :: "byte list \<Rightarrow> nat \<Rightarrow> string \<Rightarrow> nat \<times> byte list" where
  "bech32_to_script out outsz addr =
     (case segwit_addr_decode addr of
        None \<Rightarrow> (0, out)
      | Some (witver, witprog) \<Rightarrow>
          if outsz < length witprog + 2 then (0, out)
          else (length witprog + 2,
                memcpy_at (out[0 := (if witver \<noteq> 0 then 0x50 + witver else 0), 1 := of_nat (length witprog)])
                  2 witprog))"

section \<open>The checksum is linear and loses nothing\<close>

lemma polymod_mask_eq: "polymod_mask b i k = (if bit b i then k else 0)"
proof -
  have "drop_bit i b AND 1 = of_bool (bit b i)"
    by (simp add: and_one_eq bit_iff_odd_drop_bit odd_iff_mod_2_eq_one)
  then show ?thesis by (simp add: polymod_mask_def)
qed

lemma polymod_step_eq:
  "bech32_polymod_step x = push_bit 5 (x AND 0x1FFFFFF)
     XOR (if bit x 25 then 0x3b6a57b2 else 0) XOR (if bit x 26 then 0x26508e6d else 0)
     XOR (if bit x 27 then 0x1ea119fa else 0) XOR (if bit x 28 then 0x3d4233dd else 0)
     XOR (if bit x 29 then 0x2a1462b3 else 0)"
proof -
  define b :: byte where "b = ucast (drop_bit 25 x)"
  have b: "bit b 0 = bit x 25" "bit b 1 = bit x 26" "bit b 2 = bit x 27" "bit b 3 = bit x 28" "bit b 4 = bit x 29"
    by (simp_all add: b_def bit_simps)
  have down: "(ucast (p XOR q) :: u32) = ucast p XOR ucast q" for p q :: u64
    by (rule unsigned_xor_eq)
  have narrow: "(ucast (ucast w :: u64) :: u32) = w" for w :: u32
    by (rule bit_word_eqI) (simp add: bit_simps)
  show ?thesis
    unfolding bech32_polymod_step_def Let_def b_def [symmetric] polymod_mask_eq b down narrow
    by (simp add: if_distrib cong: if_cong)
qed

lemma if_xor: "(if p \<noteq> q then k else 0) = (if p then k else 0) XOR (if q then k else (0 :: u32))"
  by simp

lemma polymod_step_xor:
  "bech32_polymod_step (x XOR y) = bech32_polymod_step x XOR bech32_polymod_step y"
proof -
  have "push_bit 5 ((x XOR y) AND 0x1FFFFFF) = push_bit 5 (x AND 0x1FFFFFF) XOR push_bit 5 (y AND 0x1FFFFFF)"
    by (rule bit_word_eqI) (auto simp: bit_simps)
  moreover have "bit (x XOR y) n \<longleftrightarrow> bit x n \<noteq> bit y n" for n by (simp add: bit_simps)
  ultimately show ?thesis
    unfolding polymod_step_eq by (simp only: if_xor xor.assoc xor.commute xor.left_commute)
qed

text \<open>The checksum register has 30 bits.\<close>

definition bits30 :: "u32 \<Rightarrow> bool" where
  "bits30 x \<longleftrightarrow> \<not> bit x 30 \<and> \<not> bit x 31"

lemma bits30_xor: "bits30 x \<Longrightarrow> bits30 y \<Longrightarrow> bits30 (x XOR y)"
  by (simp add: bits30_def bit_simps)

lemma polymod_step_bits30: "bits30 (bech32_polymod_step x)"
  by (simp add: polymod_step_eq bits30_def bit_simps)


lemma polymod_step_top:
  assumes "bech32_polymod_step x = 0"
  shows "\<not> bit x 25 \<and> \<not> bit x 26 \<and> \<not> bit x 27 \<and> \<not> bit x 28 \<and> \<not> bit x 29"
proof -
  have "\<not> bit (bech32_polymod_step x) 0" "\<not> bit (bech32_polymod_step x) 1" "\<not> bit (bech32_polymod_step x) 2"
    "\<not> bit (bech32_polymod_step x) 3" "\<not> bit (bech32_polymod_step x) 4"
    by (simp_all add: assms)
  then show ?thesis
    unfolding polymod_step_eq
    by (cases "bit x 25"; cases "bit x 26"; cases "bit x 27"; cases "bit x 28"; cases "bit x 29"; simp add: bit_simps)
qed

lemma polymod_step_zero:
  assumes "bits30 x" "bech32_polymod_step x = 0"
  shows "x = 0"
proof (rule bit_word_eqI)
  fix n assume n: "n < LENGTH(32)"
  have top: "\<not> bit x 25" "\<not> bit x 26" "\<not> bit x 27" "\<not> bit x 28" "\<not> bit x 29" "\<not> bit x 30" "\<not> bit x 31"
    using polymod_step_top [OF assms(2)] assms(1) by (simp_all add: bits30_def)
  then have low: "push_bit 5 (x AND 0x1FFFFFF) = 0" using assms(2) by (simp add: polymod_step_eq)
  have mask: "(0x1FFFFFF :: u32) = mask 25" by (simp add: mask_eq_exp_minus_1)
  show "bit x n = bit 0 n"
  proof (cases "n < 25")
    case True
    have "bit (push_bit 5 (x AND 0x1FFFFFF)) (n + 5) = bit x n"
      unfolding mask using True by (simp add: bit_simps)
    then show ?thesis using low by simp
  next
    case False
    then have "n = 25 \<or> n = 26 \<or> n = 27 \<or> n = 28 \<or> n = 29 \<or> n = 30 \<or> n = 31" using n by auto
    then show ?thesis using top by auto
  qed
qed

text \<open>The checksum register after a sequence of 5-bit symbols.\<close>

definition polymod :: "u32 \<Rightarrow> u32 list \<Rightarrow> u32" where
  "polymod chk vs = foldl (\<lambda>c v. bech32_polymod_step c XOR v) chk vs"

lemma polymod_simps [simp]:
  "polymod chk [] = chk" "polymod chk (v # vs) = polymod (bech32_polymod_step chk XOR v) vs"
  by (simp_all add: polymod_def)

lemma polymod_append: "polymod chk (us @ vs) = polymod (polymod chk us) vs"
  by (simp add: polymod_def)

lemma xor_cancel: "(c :: u32) XOR e = c \<longleftrightarrow> e = 0" "c XOR e = 0 \<longleftrightarrow> c = e"
proof -
  have cc: "c XOR (c XOR e) = e" by (simp flip: xor.assoc)
  show "c XOR e = c \<longleftrightarrow> e = 0" using cc by (metis xor.right_neutral xor_self_eq)
  show "c XOR e = 0 \<longleftrightarrow> c = e" using cc by (metis xor.right_neutral xor_self_eq)
qed

lemma polymod_difference:
  "\<lbrakk>bits30 e; e \<noteq> 0\<rbrakk> \<Longrightarrow> polymod (c XOR e) vs \<noteq> polymod c vs"
proof (induction vs arbitrary: c e)
  case Nil
  then show ?case by (simp add: xor_cancel)
next
  case (Cons v vs)
  have "bech32_polymod_step (c XOR e) XOR v
      = (bech32_polymod_step c XOR v) XOR bech32_polymod_step e"
    by (simp add: polymod_step_xor xor.assoc xor.commute xor.left_commute)
  moreover have "bech32_polymod_step e \<noteq> 0" using polymod_step_zero Cons.prems by blast
  ultimately show ?case
    using Cons.IH [OF polymod_step_bits30, of e "bech32_polymod_step c XOR v"] by simp
qed

lemma polymod_substitution:
  assumes "bits30 v" "bits30 w" "v \<noteq> w"
  shows "polymod chk (us @ v # vs) \<noteq> polymod chk (us @ w # vs)"
proof -
  have "bech32_polymod_step (polymod chk us) XOR v
      = (bech32_polymod_step (polymod chk us) XOR w) XOR (w XOR v)"
    by (simp add: xor.assoc xor.left_commute)
  moreover have "w XOR v \<noteq> 0" using assms(3) by (simp add: xor_cancel)
  ultimately show ?thesis
    using polymod_difference [OF bits30_xor [OF assms(2,1)]] by (simp add: polymod_append)
qed

section \<open>The passes over the text\<close>

lemma length_charset: "length bech32_charset_rev = 128"
  by (simp add: bech32_charset_rev_def)

lemma charset_range: "v \<in> set bech32_charset_rev \<Longrightarrow> - 1 \<le> v \<and> v < 32"
  by (auto simp: bech32_charset_rev_def)

lemma char_int_less: "char_int c < 128"
proof -
  have "(of_char c :: int) < 256" using pos_mod_bound [of 256 "of_char c :: int"] by simp
  then show ?thesis by (simp add: char_int_def Let_def)
qed

lemma char_value_range: "- 1 \<le> bech32_char_value c \<and> bech32_char_value c < 32"
proof (cases "char_int c < 0")
  case False
  then have "nat (char_int c) < length bech32_charset_rev"
    using char_int_less [of c] by (simp add: length_charset)
  then show ?thesis using charset_range [OF nth_mem] False by (simp add: bech32_char_value_def)
qed (simp add: bech32_char_value_def)

lemma data_loop_values:
  "bech32_data_loop st cs = Some (st', vs) \<Longrightarrow>
   (\<forall>c \<in> set cs. bech32_char_value c \<noteq> - 1) \<and> vs = map (\<lambda>c. of_int (bech32_char_value c)) cs
   \<and> b_chk st' = polymod (b_chk st) (map (\<lambda>c. of_int (bech32_char_value c)) cs)
   \<and> (b_lower st' \<longleftrightarrow> b_lower st \<or> (\<exists>c \<in> set cs. is_lower c))
   \<and> (b_upper st' \<longleftrightarrow> b_upper st \<or> (\<exists>c \<in> set cs. is_upper c))"
proof (induction cs arbitrary: st vs)
  case (Cons c cs)
  define st1 where "st1 = (if is_lower c then st\<lparr>b_lower := True\<rparr> else st)"
  define st2 where "st2 = (if is_upper c then st1\<lparr>b_upper := True\<rparr> else st1)"
  define st3 where "st3 = st2\<lparr>b_chk := bech32_polymod_step (b_chk st2) XOR of_int (bech32_char_value c)\<rparr>"
  have f: "b_chk st2 = b_chk st" "b_lower st3 = (b_lower st \<or> is_lower c)" "b_upper st3 = (b_upper st \<or> is_upper c)"
    by (simp_all add: st1_def st2_def st3_def)
  obtain vs' where "bech32_char_value c \<noteq> - 1" "bech32_data_loop st3 cs = Some (st', vs')"
    "vs = of_int (bech32_char_value c) # vs'"
    using Cons.prems by (auto simp: Let_def simp flip: st1_def st2_def st3_def split: if_splits)
  then show ?case
    using Cons.IH [of st3 vs'] f by (auto simp: st3_def)
qed simp

lemma hrp_loop_values:
  "bech32_hrp_loop st cs = Some (st', hrp) \<Longrightarrow>
   (\<forall>c \<in> set cs. 33 \<le> char_int c \<and> char_int c \<le> 126) \<and> length hrp = length cs
   \<and> (\<forall>ch \<in> set hrp. 33 \<le> ch \<and> ch \<le> 126 \<and> \<not> (65 \<le> ch \<and> ch \<le> 90))
   \<and> (b_lower st' \<longleftrightarrow> b_lower st \<or> (\<exists>c \<in> set cs. is_lower c))
   \<and> (b_upper st' \<longleftrightarrow> b_upper st \<or> (\<exists>c \<in> set cs. is_upper c))"
proof (induction cs arbitrary: st hrp)
  case (Cons c cs)
  define st1 where "st1 = (if is_lower c then st\<lparr>b_lower := True\<rparr>
    else if is_upper c then st\<lparr>b_upper := True\<rparr> else st)"
  define ch where "ch = (if is_upper c then char_int c - 65 + 97 else char_int c)"
  define st2 where "st2 = st1\<lparr>b_chk := bech32_polymod_step (b_chk st1) XOR drop_bit 5 (of_int ch)\<rparr>"
  have f: "b_lower st2 = (b_lower st \<or> is_lower c)" "b_upper st2 = (b_upper st \<or> is_upper c)"
    by (auto simp: st1_def st2_def is_lower_def is_upper_def)
  obtain hrp' where c: "33 \<le> char_int c" "char_int c \<le> 126" "bech32_hrp_loop st2 cs = Some (st', hrp')" "hrp = ch # hrp'"
    using Cons.prems by (auto simp: Let_def simp flip: st1_def st2_def ch_def split: if_splits)
  have "33 \<le> ch \<and> ch \<le> 126 \<and> \<not> (65 \<le> ch \<and> ch \<le> 90)"
    using c(1,2) by (auto simp: ch_def is_upper_def)
  then show ?case
    using Cons.IH [OF c(3)] c f by auto
qed simp

lemma data_len_count:
  "n \<le> length s \<Longrightarrow> bech32_data_len s n = n + lead_count (\<lambda>c. c \<noteq> CHR ''1'') (drop n (rev s))"
proof (induction "length s - n" arbitrary: n)
  case 0
  then show ?case by (subst bech32_data_len.simps) (simp add: lead_count_def)
next
  case (Suc d)
  then have n: "n < length s" by simp
  have d: "drop n (rev s) = s ! (length s - 1 - n) # drop (n + 1) (rev s)"
    using n by (simp add: Cons_nth_drop_Suc [symmetric] rev_nth)
  have "d = length s - (n + 1)" "n + 1 \<le> length s" using Suc.hyps(2) n by simp_all
  from Suc.hyps(1) [OF this] show ?case
    using n by (subst bech32_data_len.simps) (simp add: d lead_count_def)
qed

lemma bech32_data_len_eq: "bech32_data_len s 0 = lead_count (\<lambda>c. c \<noteq> CHR ''1'') (rev s)"
  using data_len_count [of 0 s] by simp

text \<open>The checksum register when the data part begins.\<close>

definition bech32_hrp_chk :: "string \<Rightarrow> u32 option" where
  "bech32_hrp_chk hrp =
     map_option (\<lambda>(st, _). bech32_hrp_low (bech32_polymod_step (b_chk st)) hrp)
       (bech32_hrp_loop \<lparr>b_chk = 1, b_lower = False, b_upper = False\<rparr> hrp)"

definition bech32_symbols :: "string \<Rightarrow> u32 list" where
  "bech32_symbols cs = map (\<lambda>c. of_int (bech32_char_value c)) cs"

lemma bech32_decode_parts:
  assumes "bech32_decode s = Some (hrp, data)"
  defines "dl \<equiv> bech32_data_len s 0"
  defines "hl \<equiv> length s - (1 + dl)"
  shows "length s \<le> 90" "6 \<le> dl" "1 + dl < length s"
    and "\<forall>c \<in> set (drop (hl + 1) s). bech32_char_value c \<noteq> - 1"
    and "\<exists>chk. bech32_hrp_chk (take hl s) = Some chk \<and> polymod chk (bech32_symbols (drop (hl + 1) s)) = 1"
    and "data = take (dl - 6) (map (\<lambda>c. of_int (bech32_char_value c)) (drop (hl + 1) s))"
    and "length hrp = hl" "\<forall>ch \<in> set hrp. 33 \<le> ch \<and> ch \<le> 126 \<and> \<not> (65 \<le> ch \<and> ch \<le> 90)"
    and "\<not> ((\<exists>c \<in> set (take hl s) \<union> set (drop (hl + 1) s). is_lower c)
           \<and> (\<exists>c \<in> set (take hl s) \<union> set (drop (hl + 1) s). is_upper c))"
proof -
  note D = assms(1) [unfolded bech32_decode_def, folded dl_def]
  show b: "length s \<le> 90" "6 \<le> dl" "1 + dl < length s"
    using D by (simp_all add: Let_def split: if_splits)
  have hl': "length s - Suc dl = hl" by (simp add: hl_def)
  obtain st1 h1 st2 vs where h: "bech32_hrp_loop \<lparr>b_chk = 1, b_lower = False, b_upper = False\<rparr> (take hl s) = Some (st1, h1)"
    and d: "bech32_data_loop (st1\<lparr>b_chk := bech32_hrp_low (bech32_polymod_step (b_chk st1)) (take hl s)\<rparr>)
        (drop (hl + 1) s) = Some (st2, vs)"
    and ok: "\<not> (b_lower st2 \<and> b_upper st2)" "b_chk st2 = 1" "hrp = h1" "data = take (dl - 6) vs"
    using D by (auto simp: Let_def hl' split: if_splits option.splits)
  note v = data_loop_values [OF d] and w = hrp_loop_values [OF h]
  show "\<forall>c \<in> set (drop (hl + 1) s). bech32_char_value c \<noteq> - 1" using v by blast
  show "\<exists>chk. bech32_hrp_chk (take hl s) = Some chk \<and> polymod chk (bech32_symbols (drop (hl + 1) s)) = 1"
    using v ok(2) h by (simp add: bech32_hrp_chk_def bech32_symbols_def)
  show "data = take (dl - 6) (map (\<lambda>c. of_int (bech32_char_value c)) (drop (hl + 1) s))"
    using v ok(4) by blast
  show "length hrp = hl" using w ok(3) by (simp add: hl_def)
  show "\<forall>ch \<in> set hrp. 33 \<le> ch \<and> ch \<le> 126 \<and> \<not> (65 \<le> ch \<and> ch \<le> 90)" using w ok(3) by blast
  show "\<not> ((\<exists>c \<in> set (take hl s) \<union> set (drop (hl + 1) s). is_lower c)
           \<and> (\<exists>c \<in> set (take hl s) \<union> set (drop (hl + 1) s). is_upper c))"
    using v w ok(1) by simp blast
qed

lemma symbol_bits:
  assumes "0 \<le> v" "v < 32"
  shows "bits30 (of_int v)" and "unat (of_int v :: u32) = nat v" and "unat (of_int v :: byte) = nat v"
proof -
  obtain k where k: "v = int k" "k < 32" using assms by (metis int_nat_eq nat_less_iff of_nat_numeral zero_le_imp_eq_int of_nat_less_iff)
  show u: "unat (of_int v :: u32) = nat v" "unat (of_int v :: byte) = nat v"
    using k by (simp_all add: unsigned_of_nat take_bit_nat_eq_self)
  have b: "bit (of_int v :: u32) n \<longleftrightarrow> bit (nat v) n" for n
    by (simp only: bit_unsigned_iff possible_bit_nat simp_thms flip: u(1))
  have "\<not> bit (nat v) 30" "\<not> bit (nat v) 31" using k by (simp_all add: bit_iff_odd)
  then show "bits30 (of_int v)" by (simp only: bits30_def b simp_thms)
qed

text \<open>One wrong symbol is always found: it changes the register, and a change never vanishes.\<close>

lemma bech32_single_symbol:
  assumes "bech32_decode s = Some r" "i < length s" "length s - bech32_data_len s 0 \<le> i"
    and "c \<noteq> CHR ''1''" "bech32_char_value c \<noteq> bech32_char_value (s ! i)"
  shows "bech32_decode (s[i := c]) = None"
proof (rule ccontr)
  define t where "t = s[i := c]"
  define dl where "dl = bech32_data_len s 0"
  define hl where "hl = length s - (1 + dl)"
  obtain h d where S: "bech32_decode s = Some (h, d)" using assms(1) by (cases r) simp
  assume "bech32_decode (s[i := c]) \<noteq> None"
  then obtain h' d' where T: "bech32_decode t = Some (h', d')" unfolding t_def by auto
  note S = bech32_decode_parts [OF S, folded dl_def, folded hl_def]
  have i: "hl + 1 \<le> i" using assms(3) S(3) by (simp add: hl_def dl_def)
  have dlt: "bech32_data_len t 0 = dl"
  proof -
    define P where "P = (\<lambda>c. c \<noteq> CHR ''1'')"
    have rt: "rev t = (rev s)[length s - 1 - i := c]"
      using assms(2) by (simp add: t_def rev_update)
    have dlP: "dl = length (takeWhile P (rev s))"
      by (simp add: dl_def bech32_data_len_eq lead_count_def P_def)
    then have "dl \<le> length s" using length_takeWhile_le [of P "rev s"] by simp
    moreover have "\<forall>m < dl. P (rev s ! m)"
      unfolding dlP by (metis nth_mem set_takeWhileD takeWhile_nth)
    moreover have "dl < length s \<Longrightarrow> \<not> P (rev s ! dl)"
      unfolding dlP using nth_length_takeWhile [of P "rev s"] by simp
    moreover have "length s - 1 - i < dl" using assms(2) i S(3) by (simp add: hl_def)
    ultimately have "lead_count P (rev t) = dl"
      using assms(4) unfolding rt by (intro takeWhile_stops) (auto simp: nth_list_update P_def)
    then show ?thesis by (simp add: bech32_data_len_eq P_def)
  qed
  have len: "length t = length s" by (simp add: t_def)
  note T = bech32_decode_parts [OF T, unfolded dlt len, folded hl_def]
  have th: "take hl t = take hl s" using i by (simp add: t_def)
  have td: "drop (hl + 1) t = (drop (hl + 1) s)[i - (hl + 1) := c]"
    using i by (simp add: t_def drop_update_swap)
  define k where "k = i - (hl + 1)"
  define D where "D = drop (hl + 1) s"
  have kD: "k < length D" "D ! k = s ! i" using i assms(2) by (simp_all add: k_def D_def)
  define us vs where "us = take k D" and "vs = drop (Suc k) D"
  have D: "D = us @ s ! i # vs" using kD unfolding us_def vs_def by (metis id_take_nth_drop)
  have D': "D[k := c] = us @ c # vs" unfolding us_def vs_def using kD(1) by (rule upd_conv_take_nth_drop)
  have "s ! i \<in> set D" using kD by (metis nth_mem)
  then have v: "bech32_char_value (s ! i) \<noteq> - 1" using S(4) by (simp add: D_def)
  have "c \<in> set (drop (hl + 1) t)"
    unfolding td k_def [symmetric] D_def [symmetric] D' by simp
  then have w: "bech32_char_value c \<noteq> - 1" using T(4) by blast
  have r: "0 \<le> bech32_char_value (s ! i)" "bech32_char_value (s ! i) < 32"
    "0 \<le> bech32_char_value c" "bech32_char_value c < 32"
    using v w char_value_range [of "s ! i"] char_value_range [of c] by linarith+
  then have ne: "(of_int (bech32_char_value (s ! i)) :: u32) \<noteq> of_int (bech32_char_value c)"
    using assms(5) symbol_bits(2) by (metis eq_nat_nat_iff)
  obtain chk where chk: "polymod chk (bech32_symbols D) = 1" "polymod chk (bech32_symbols (D[k := c])) = 1"
    using S(5) T(5) unfolding th td D_def [symmetric] k_def [symmetric] by auto
  have "polymod chk (bech32_symbols D) \<noteq> polymod chk (bech32_symbols (D[k := c]))"
    unfolding D' unfolding D bech32_symbols_def map_append list.map
    by (rule polymod_substitution [OF symbol_bits(1) [OF r(1,2)] symbol_bits(1) [OF r(3,4)] ne])
  with chk show False by simp
qed

section \<open>Regrouping five bits into eight\<close>

lemma drop_byte: "unat (ucast (drop_bit n (v :: u32) AND 255) :: byte) = unat v div 2 ^ n mod 256"
proof -
  have "(255 :: u32) = mask 8" by (simp add: mask_eq_exp_minus_1)
  then have "drop_bit n v AND 255 = take_bit 8 (drop_bit n v)"
    by (simp add: take_bit_eq_mask)
  then show ?thesis
    by (simp only: unsigned_ucast_eq unsigned_take_bit_eq unsigned_drop_bit_eq)
      (simp add: take_bit_eq_mod drop_bit_eq_div)
qed

lemma shift_in_symbol:
  fixes v :: u32
  assumes "unat (b :: byte) < 32" "bits < 8"
  defines "w \<equiv> push_bit 5 v OR (ucast b :: u32)"
  shows "unat w mod 2 ^ (bits + 5) = unat v mod 2 ^ bits * 32 + unat b"
proof -
  have ub: "unat (ucast b :: u32) = unat b"
    using assms(1) by (simp add: unsigned_ucast_eq take_bit_nat_eq_self)
  have "unat w = unat (push_bit 5 v) OR unat b"
    by (simp add: w_def unsigned_or_eq ub)
  then have "unat w mod 2 ^ (bits + 5) = take_bit (bits + 5) (unat (push_bit 5 v)) OR take_bit (bits + 5) (unat b)"
    by (simp add: take_bit_or flip: take_bit_eq_mod)
  also have "take_bit (bits + 5) (unat (push_bit 5 v)) = push_bit 5 (take_bit bits (unat v))"
  proof -
    have "unat (push_bit 5 v) = take_bit 32 (push_bit 5 (unat v))"
      unfolding unsigned_push_bit_eq by simp
    then have "take_bit (bits + 5) (unat (push_bit 5 v)) = take_bit (bits + 5) (push_bit 5 (unat v))"
      using assms(2) by simp
    then show ?thesis by (simp add: push_bit_take_bit add.commute)
  qed
  also have "take_bit (bits + 5) (unat b) = unat b"
  proof (rule take_bit_nat_eq_self)
    have "(2 :: nat) ^ 5 \<le> 2 ^ (bits + 5)" by (rule power_increasing) simp_all
    then show "unat b < 2 ^ (bits + 5)" using assms(1) by simp
  qed
  also have "push_bit 5 (take_bit bits (unat v)) OR unat b = push_bit 5 (take_bit bits (unat v)) + unat b"
  proof (rule disjunctive_add_eq_or [symmetric])
    have "unat b = take_bit 5 (unat b)" using assms(1) by (simp add: take_bit_nat_eq_self)
    then have lt: "bit (unat b) n \<Longrightarrow> n < 5" for n by (metis bit_take_bit_iff)
    show "push_bit 5 (take_bit bits (unat v)) AND unat b = 0"
    proof (rule bit_eqI)
      fix n
      show "bit (push_bit 5 (take_bit bits (unat v)) AND unat b) n = bit 0 n"
        using lt [of n] unfolding bit_and_iff by (cases "n < 5") (auto simp: bit_push_bit_iff)
    qed
  qed
  finally show ?thesis by (simp add: push_bit_eq_mult take_bit_eq_mod)
qed

lemma convert_bits_out_8:
  assumes "bits < 13"
  shows "convert_bits_out v bits 8 =
    (if 8 \<le> bits then (bits - 8, [ucast (drop_bit (bits - 8) v AND (push_bit 8 1 - 1))]) else (bits, []))"
proof -
  have "\<not> 8 \<le> bits - 8" using assms by simp
  then show ?thesis by (simp add: convert_bits_out.simps [of v bits 8] convert_bits_out.simps [of v "bits - 8" 8] Let_def)
qed

lemma convert_bits_loop_val:
  "\<lbrakk>convert_bits_loop v bits 8 inp 5 = (v', bits', out); bits < 8; \<forall>b \<in> set inp. unat b < 32\<rbrakk> \<Longrightarrow>
   bits' < 8 \<and> bits + 5 * length inp = 8 * length out + bits' \<and>
   unat v mod 2 ^ bits * 32 ^ length inp + digits_val 32 (map unat inp) = be_val out * 2 ^ bits' + unat v' mod 2 ^ bits'"
proof (induction inp arbitrary: v bits out)
  case Nil
  then show ?case by simp
next
  case (Cons b inp)
  define w where "w = push_bit 5 v OR (ucast b :: u32)"
  have b: "unat b < 32" using Cons.prems by simp
  obtain k o1 where k: "convert_bits_out w (bits + 5) 8 = (k, o1)" by (metis surj_pair)
  obtain o2 where rec: "convert_bits_loop w k 8 inp 5 = (v', bits', o2)" and out: "out = o1 @ o2"
    using Cons.prems(1) k by (auto simp: Let_def simp flip: w_def split: prod.splits)
  have W: "unat w mod 2 ^ (bits + 5) = unat v mod 2 ^ bits * 32 + unat b"
    unfolding w_def by (rule shift_in_symbol [OF b Cons.prems(2)])
  have step: "k < 8 \<and> bits + 5 = 8 * length o1 + k \<and>
      unat v mod 2 ^ bits * 32 + unat b = be_val o1 * 2 ^ k + unat w mod 2 ^ k"
  proof (cases "8 \<le> bits + 5")
    case True
    then have o1: "k = bits - 3" "o1 = [ucast (drop_bit (bits - 3) w AND (push_bit 8 1 - 1))]"
      using k convert_bits_out_8 [of "bits + 5" w] Cons.prems(2) by auto
    have n: "bits + 5 = k + 8" using True o1(1) by simp
    have "unat w mod 2 ^ (k + 8) = unat w div 2 ^ k mod 256 * 2 ^ k + unat w mod 2 ^ k"
      using mod_mult2_eq [of "unat w" "2 ^ k" 256] by (simp add: power_add mult.commute)
    then show ?thesis
      using o1 n Cons.prems(2) W [unfolded n] by (simp add: drop_byte value_simps)
  next
    case False
    then show ?thesis
      using k convert_bits_out_8 [of "bits + 5" w] W by simp
  qed
  have IH: "bits' < 8 \<and> k + 5 * length inp = 8 * length o2 + bits' \<and>
      unat w mod 2 ^ k * 32 ^ length inp + digits_val 32 (map unat inp) = be_val o2 * 2 ^ bits' + unat v' mod 2 ^ bits'"
    using Cons.IH [OF rec] step Cons.prems(3) by simp
  have pw: "(2 :: nat) ^ k * 32 ^ length inp = 256 ^ length o2 * 2 ^ bits'"
  proof -
    have "(2 :: nat) ^ k * 32 ^ length inp = 2 ^ (k + 5 * length inp)" by (simp add: power_add power_mult)
    also have "\<dots> = 2 ^ (8 * length o2 + bits')" using IH by simp
    also have "\<dots> = 256 ^ length o2 * 2 ^ bits'" by (simp add: power_add power_mult)
    finally show ?thesis .
  qed
  have "unat v mod 2 ^ bits * 32 ^ length (b # inp) + digits_val 32 (map unat (b # inp))
      = (unat v mod 2 ^ bits * 32 + unat b) * 32 ^ length inp + digits_val 32 (map unat inp)"
    by (simp add: value_simps algebra_simps)
  also have "\<dots> = be_val o1 * (2 ^ k * 32 ^ length inp)
      + (unat w mod 2 ^ k * 32 ^ length inp + digits_val 32 (map unat inp))"
    using step by (simp add: algebra_simps)
  also have "\<dots> = be_val out * 2 ^ bits' + unat v' mod 2 ^ bits'"
    using IH unfolding pw by (simp add: out value_simps algebra_simps)
  finally show ?case using IH step by (simp add: out)
qed

lemma last_bits:
  assumes "bits < 8"
  shows "push_bit (8 - bits) (v :: u32) AND (push_bit 8 1 - 1) = 0 \<longleftrightarrow> unat v mod 2 ^ bits = 0"
proof -
  have m: "(push_bit 8 1 - 1 :: u32) = mask 8" by (simp add: mask_eq_exp_minus_1)
  have "push_bit (8 - bits) v AND (push_bit 8 1 - 1) = push_bit (8 - bits) (take_bit bits v)"
    unfolding m by (rule bit_word_eqI) (use assms in \<open>auto simp: bit_simps\<close>)
  moreover have "push_bit (8 - bits) (take_bit bits v) = 0 \<longleftrightarrow> take_bit bits v = 0"
  proof
    assume a: "push_bit (8 - bits) (take_bit bits v) = 0"
    show "take_bit bits v = 0"
    proof (rule bit_word_eqI)
      fix n assume "n < LENGTH(32)"
      have "\<not> bit (push_bit (8 - bits) (take_bit bits v)) (n + (8 - bits))" using a by simp
      then show "bit (take_bit bits v) n = bit 0 n"
        using assms by (auto simp: bit_simps)
    qed
  qed simp
  moreover have "take_bit bits v = 0 \<longleftrightarrow> unat v mod 2 ^ bits = 0"
    by (simp only: word_unat_eq_iff unsigned_take_bit_eq unsigned_0) (simp only: take_bit_eq_mod)
  ultimately show ?thesis by simp
qed

lemma convert_bits_val:
  assumes "convert_bits 8 inp 5 False = (ok, out)" "\<forall>b \<in> set inp. unat b < 32"
  defines "n \<equiv> 5 * length inp" and "V \<equiv> digits_val 32 (map unat inp)"
  shows "length out = n div 8 \<and> be_val out = V div 2 ^ (n mod 8)
    \<and> (ok \<longleftrightarrow> V mod 2 ^ (n mod 8) = 0 \<and> n mod 8 < 5)"
proof -
  obtain v bits o1 where l: "convert_bits_loop 0 0 8 inp 5 = (v, bits, o1)" by (metis prod_cases3)
  have L: "bits < 8" "n = 8 * length o1 + bits" "V = be_val o1 * 2 ^ bits + unat v mod 2 ^ bits"
    using convert_bits_loop_val [OF l _ assms(2)] by (simp_all add: n_def V_def)
  then have "n mod 8 = bits" "n div 8 = length o1" by simp_all
  moreover have "out = o1" "ok \<longleftrightarrow> \<not> (push_bit (8 - bits) v AND (push_bit 8 1 - 1) \<noteq> 0 \<or> 5 \<le> bits)"
    using assms(1) by (auto simp: convert_bits_def Let_def l split: if_splits)
  ultimately show ?thesis
    using L last_bits [OF L(1), of v] by (auto simp: not_le)
qed


section \<open>Properties\<close>

lemma bech32_decode_limits:
  assumes "bech32_decode s = Some (hrp, data)"
  shows "1 \<le> length hrp \<and> length hrp \<le> 83 \<and> length data \<le> 82 \<and> length data = bech32_data_len s 0 - 6
    \<and> (\<forall>ch \<in> set hrp. 33 \<le> ch \<and> ch \<le> 126 \<and> \<not> (65 \<le> ch \<and> ch \<le> 90))
    \<and> (\<forall>b \<in> set data. unat b < 32)"
proof -
  define dl where "dl = bech32_data_len s 0"
  define hl where "hl = length s - (1 + dl)"
  note S = bech32_decode_parts [OF assms, folded dl_def, folded hl_def]
  have hl: "length s = hl + 1 + dl" using S(3) by (simp add: hl_def)
  then have len: "length data = dl - 6" by (simp add: S(6))
  have "unat b < 32" if "b \<in> set data" for b
  proof -
    have "b \<in> set (map (\<lambda>c. of_int (bech32_char_value c)) (drop (hl + 1) s))"
      using that unfolding S(6) by (rule in_set_takeD)
    then obtain c where c: "c \<in> set (drop (hl + 1) s)" "b = of_int (bech32_char_value c)" by auto
    then have r: "0 \<le> bech32_char_value c" "bech32_char_value c < 32"
      using S(4) char_value_range [of c] by force+
    then have "unat b = nat (bech32_char_value c)" by (simp only: c(2) symbol_bits(3))
    then show ?thesis using r by simp
  qed
  then show ?thesis using S hl len by (simp add: dl_def)
qed

text \<open>What \<open>bech32_decode\<close> stores fits the 84-byte buffers of its caller, the NUL of the
  human-readable part included; the part is printable and lower case, and every data symbol has
  five bits.\<close>

theorem bech32_decode_bounds:
  assumes "bech32_decode s = Some (hrp, data)"
  shows "1 \<le> length hrp \<and> length hrp \<le> 83 \<and> length data \<le> 82 \<and> length data = bech32_data_len s 0 - 6
    \<and> (\<forall>ch \<in> set hrp. 33 \<le> ch \<and> ch \<le> 126 \<and> \<not> (65 \<le> ch \<and> ch \<le> 90))
    \<and> (\<forall>b \<in> set data. unat b < 32)"
  using assms by (rule bech32_decode_limits)

definition bech32_sample :: string where
  "bech32_sample = ''BC1QW508D6QEJXTDG4Y5R3ZARVARY0C5XW7KV8F3T4''"

lemma bech32_sample_decodes:
  "bech32_decode bech32_sample = Some ([98, 99],
     [0, 14, 20, 15, 7, 13, 26, 0, 25, 18, 6, 11, 13, 8, 21, 4, 20, 3, 17, 2, 29, 3, 12, 29, 3, 4, 15, 24, 20, 6, 14, 30, 22])"
  by code_simp

lemma bech32_decode_bounds_witness:
  "bech32_data_len bech32_sample 0 = 39"
  using bech32_decode_bounds [OF bech32_sample_decodes] by simp

text \<open>C13: the checksum finds every single wrong symbol: replacing one character of the data part of
  an accepted text by one of another value (other than the separator) makes \<open>bech32_decode\<close>
  reject it.\<close>

theorem bech32_single_error:
  assumes "bech32_decode s = Some r" "i < length s" "length s - bech32_data_len s 0 \<le> i"
    and "c \<noteq> CHR ''1''" "bech32_char_value c \<noteq> bech32_char_value (s ! i)"
  shows "bech32_decode (s[i := c]) = None"
  using assms by (rule bech32_single_symbol)

lemma bech32_single_error_witness:
  "bech32_decode (bech32_sample[40 := CHR ''X'']) = None"
  by (rule bech32_single_error [OF bech32_sample_decodes]; code_simp)

text \<open>\<open>convert_bits\<close> from five to eight bits writes the whole bytes of the input read as one
  bit string, and succeeds exactly when fewer than five bits are left over and all of them are
  zero.\<close>

theorem convert_bits_regroups:
  assumes "\<forall>b \<in> set inp. unat b < 32"
  shows "case convert_bits 8 inp 5 False of (ok, out) \<Rightarrow>
    length out = 5 * length inp div 8
    \<and> be_val out = digits_val 32 (map unat inp) div 2 ^ (5 * length inp mod 8)
    \<and> (ok \<longleftrightarrow> digits_val 32 (map unat inp) mod 2 ^ (5 * length inp mod 8) = 0 \<and> 5 * length inp mod 8 < 5)"
  using convert_bits_val assms by (auto split: prod.split)

lemma convert_bits_regroups_witness:
  "case convert_bits 8 [31, 28] 5 False of (ok, out) \<Rightarrow> length out = 1 \<and> be_val out = 255 \<and> ok"
  using convert_bits_regroups [of "[31, 28]"] by (auto simp: digits_val_def split: prod.splits)

lemma convert_bits_length: "\<forall>b \<in> set inp. unat b < 32 \<Longrightarrow>
    length (snd (convert_bits 8 inp 5 False)) = 5 * length inp div 8"
  using convert_bits_val [of inp] by (cases "convert_bits 8 inp 5 False") simp

end
