(* ===== verification/Address.thy ===== *)
theory Address
  imports Base58 Bech32
begin

text \<open>
  \<open>address_to_script\<close> of \<open>util.c\<close>: the output script that pays a base-58 or a bech32 address.
\<close>

text \<open>
  The returned length and the buffer \<open>out\<close> of at least \<open>outsz\<close> bytes; \<open>None\<close> is a read past
  the decoded address.
\<close>

definition address_to_script :: "byte list \<Rightarrow> nat \<Rightarrow> string \<Rightarrow> (nat \<times> byte list) option" where
  "address_to_script out outsz addr =
     (case b58dec 25 addr of
        None \<Rightarrow> Some (bech32_to_script out outsz addr)
      | Some addrbin \<Rightarrow>
          (case b58check addrbin 25 addr of
             None \<Rightarrow> None
           | Some addrver \<Rightarrow>
               if addrver < 0 then Some (0, out)
               else if addrver = 5 \<or> addrver = 196
               then (if outsz < 23 then Some (23, out)
                     else Some (23, (memcpy_at (out[0 := 0xa9, 1 := 0x14]) 2 (take 20 (drop 1 addrbin)))[22 := 0x87]))
               else (if outsz < 25 then Some (25, out)
                     else Some (25, (memcpy_at (out[0 := 0x76, 1 := 0xa9, 2 := 0x14]) 3 (take 20 (drop 1 addrbin)))
                            [23 := 0x88, 24 := 0xac]))))"

section \<open>The script of an address\<close>

datatype address_kind =
    Pay_script_hash "byte list"
  | Pay_pubkey_hash "byte list"
  | Pay_witness byte "byte list"

fun kind_script :: "address_kind \<Rightarrow> byte list" where
  "kind_script (Pay_script_hash h) = [0xa9, 0x14] @ h @ [0x87]"
| "kind_script (Pay_pubkey_hash h) = [0x76, 0xa9, 0x14] @ h @ [0x88, 0xac]"
| "kind_script (Pay_witness v prog) = (if v \<noteq> 0 then 0x50 + v else 0) # of_nat (length prog) # prog"

text \<open>What an address denotes: 25 bytes with a valid checksum, or else a segregated-witness address.\<close>

definition address_kind_of :: "string \<Rightarrow> address_kind option" where
  "address_kind_of addr =
     (case b58dec 25 addr of
        Some bin \<Rightarrow>
          (if drop 21 bin = take 4 (fips_sha256 (fips_sha256 (take 21 bin)))
              \<and> lead_count (\<lambda>b. b = 0) bin = lead_count (\<lambda>c. c = CHR ''1'') addr
           then Some (if bin ! 0 = 5 \<or> bin ! 0 = 196 then Pay_script_hash (take 20 (drop 1 bin))
                      else Pay_pubkey_hash (take 20 (drop 1 bin)))
           else None)
      | None \<Rightarrow> map_option (\<lambda>(v, prog). Pay_witness v prog) (segwit_addr_decode addr))"

lemma segwit_limits:
  assumes "segwit_addr_decode addr = Some (v, prog)"
  shows "2 \<le> length prog \<and> length prog \<le> 40 \<and> v \<le> 16 \<and> (v = 0 \<longrightarrow> length prog = 20 \<or> length prog = 32)"
  using assms by (auto simp: segwit_addr_decode_def split: option.splits prod.splits if_splits)

lemma length_kind_script:
  "address_kind_of addr = Some k \<Longrightarrow> length (kind_script k) \<in> {23, 25} \<or>
     (\<exists>v prog. k = Pay_witness v prog \<and> length (kind_script k) = length prog + 2 \<and> length prog \<in> {2..40})"
  using b58dec_val [of 25 addr]
  by (auto simp: address_kind_of_def split: option.splits if_splits dest: segwit_limits)

lemma p2sh_writes:
  assumes "23 \<le> length out" "length h = 20"
  shows "(memcpy_at (out[0 := a, 1 := b]) 2 h)[22 := c] = memcpy_at out 0 ([a, b] @ h @ [c])"
  using assms
  by (intro nth_equalityI) (auto simp: layout_simps nth_memcpy_at nth_list_update nth_append nth_Cons'
      numeral_2_eq_2 numeral_3_eq_3)

lemma p2pkh_writes:
  assumes "25 \<le> length out" "length h = 20"
  shows "(memcpy_at (out[0 := a, 1 := b, 2 := c]) 3 h)[23 := d, 24 := e] = memcpy_at out 0 ([a, b, c] @ h @ [d, e])"
  using assms
  by (intro nth_equalityI) (auto simp: layout_simps nth_memcpy_at nth_list_update nth_append nth_Cons'
      numeral_2_eq_2 numeral_3_eq_3)

lemma witness_writes:
  assumes "length h + 2 \<le> length out"
  shows "memcpy_at (out[0 := a, 1 := b]) 2 h = memcpy_at out 0 (a # b # h)"
  using assms
  by (intro nth_equalityI) (auto simp: layout_simps nth_memcpy_at nth_list_update nth_Cons' numeral_2_eq_2)

lemma b58_value_zero: "b58_valid s \<Longrightarrow> b58_value s = 0 \<Longrightarrow> \<forall>c \<in> set s. c = CHR ''1''"
proof (induction s)
  case (Cons c s)
  have z: "the (b58_digit c) = 0" "b58_value s = 0" using Cons.prems(2) by (simp_all add: b58_value_Cons)
  have v: "b58_digit c \<noteq> None" "b58_valid s" using Cons.prems(1) by (simp_all add: b58_valid_def)
  then have "b58_digit c = Some 0" using z(1) by (metis option.collapse)
  then have "c = CHR ''1''" by (simp only: b58_one)
  then show ?case using Cons.IH [OF v(2) z(2)] by simp
qed simp

lemma decoded_nonzero:
  assumes "b58dec 25 addr = Some bin" "\<exists>c \<in> set addr. c \<noteq> CHR ''1''"
  shows "length bin = 25 \<and> (\<exists>j < 25. bin ! j \<noteq> 0)"
proof -
  have v: "b58_valid addr" "length bin = 25" "be_val bin = b58_value addr"
    using b58dec_val [of 25 addr] assms(1) by simp_all
  have "be_val bin \<noteq> 0" using b58_value_zero [OF v(1)] assms(2) v(3) by auto
  moreover have "digits_val 256 (replicate n 0) = 0" for n by (induction n) (simp_all add: value_simps)
  ultimately have "bin \<noteq> replicate 25 0" by auto
  then have "\<not> (\<forall>j < 25. bin ! j = 0)" using v(2) nth_equalityI [of bin "replicate 25 0"] by auto
  then show ?thesis using v(2) by simp
qed


section \<open>Properties\<close>

lemma address_to_script_spec:
  assumes "outsz \<le> length out" "\<exists>c \<in> set addr. c \<noteq> CHR ''1''"
  shows "address_to_script out outsz addr = Some
    (case address_kind_of addr of
       None \<Rightarrow> (0, out)
     | Some k \<Rightarrow>
         if length (kind_script k) \<le> outsz then (length (kind_script k), memcpy_at out 0 (kind_script k))
         else (if b58dec 25 addr = None then 0 else length (kind_script k), out))"
proof (cases "b58dec 25 addr")
  case None
  then show ?thesis
    using assms(1)
    by (auto simp: address_to_script_def address_kind_of_def bech32_to_script_def witness_writes [simplified]
        split: option.splits prod.splits)
next
  case (Some bin)
  have bin: "length bin = 25" "\<exists>j < 25. bin ! j \<noteq> 0" using decoded_nonzero [OF Some assms(2)] by simp_all
  have h: "length (take 20 (drop 1 bin)) = 20" using bin(1) by simp
  have ver: "(int (unat (bin ! 0)) = 5 \<longleftrightarrow> bin ! 0 = 5)" "(int (unat (bin ! 0)) = 196 \<longleftrightarrow> bin ! 0 = 196)"
    by (simp_all add: word_uint_eq_iff)
  note check = b58check_spec [OF bin(1) _ _ bin(2), of addr]
  show ?thesis
    using assms(1) check h ver
      p2sh_writes [of out "take 20 (drop 1 bin)"] p2pkh_writes [of out "take 20 (drop 1 bin)"]
    by (auto simp: address_to_script_def address_kind_of_def Some)
qed

text \<open>C12: \<open>address_to_script\<close> writes the script of the address at the start of a buffer that has
  room for it and returns its length; a text that is no address writes nothing and returns 0; when
  the buffer is too small nothing is written and the length (0 for bech32) tells so. Excepted are
  texts of \<open>1\<close>s only.\<close>

theorem address_to_script_correct:
  assumes "outsz \<le> length out" "\<exists>c \<in> set addr. c \<noteq> CHR ''1''"
  shows "address_to_script out outsz addr = Some
    (case address_kind_of addr of
       None \<Rightarrow> (0, out)
     | Some k \<Rightarrow>
         if length (kind_script k) \<le> outsz then (length (kind_script k), memcpy_at out 0 (kind_script k))
         else (if b58dec 25 addr = None then 0 else length (kind_script k), out))"
  using assms by (rule address_to_script_spec)

lemma address_to_script_correct_witness:
  "address_to_script (replicate 42 0) 42 ''BC1QW508D6QEJXTDG4Y5R3ZARVARY0C5XW7KV8F3T4'' = Some
    (22, [0, 20, 117, 30, 118, 232, 25, 145, 150, 212, 84, 148, 28, 69, 209, 179, 163, 35, 241, 67, 59, 214]
         @ replicate 20 0)"
proof -
  have "address_kind_of ''BC1QW508D6QEJXTDG4Y5R3ZARVARY0C5XW7KV8F3T4'' = Some (Pay_witness 0
      [117, 30, 118, 232, 25, 145, 150, 212, 84, 148, 28, 69, 209, 179, 163, 35, 241, 67, 59, 214])"
    by code_simp
  then show ?thesis
    using address_to_script_correct [of 42 "replicate 42 0" "''BC1QW508D6QEJXTDG4Y5R3ZARVARY0C5XW7KV8F3T4''"]
    by (simp add: memcpy_at_def)
qed

text \<open>The 42-byte script buffer of the options is large enough for every address: the result is
  never longer, and exactly when it is 0 no script was written.\<close>

theorem address_to_script_42:
  assumes "length out = 42" "address_to_script out 42 addr = Some (rv, out')" "\<exists>c \<in> set addr. c \<noteq> CHR ''1''"
  shows "(rv = 0 \<and> address_kind_of addr = None \<and> out' = out)
    \<or> (4 \<le> rv \<and> rv \<le> 42 \<and> length out' = 42
        \<and> (\<exists>k. address_kind_of addr = Some k \<and> take rv out' = kind_script k \<and> drop rv out' = drop rv out))"
proof (cases "address_kind_of addr")
  case None
  then show ?thesis using assms address_to_script_spec [of 42 out addr] by simp
next
  case (Some k)
  have len: "4 \<le> length (kind_script k)" "length (kind_script k) \<le> 42"
    using length_kind_script [OF Some] by auto
  then have "rv = length (kind_script k)" "out' = memcpy_at out 0 (kind_script k)"
    using assms address_to_script_spec [of 42 out addr] Some by simp_all
  then show ?thesis using Some len assms(1) by (simp add: memcpy_at_def)
qed

lemma address_to_script_42_witness:
  "take 22 ([0, 20, 117, 30, 118, 232, 25, 145, 150, 212, 84, 148, 28, 69, 209, 179, 163, 35, 241, 67, 59, 214]
         @ replicate 20 0) = kind_script (the (address_kind_of ''BC1QW508D6QEJXTDG4Y5R3ZARVARY0C5XW7KV8F3T4''))"
proof -
  have "address_to_script (replicate 42 0) 42 ''BC1QW508D6QEJXTDG4Y5R3ZARVARY0C5XW7KV8F3T4'' = Some
    (22, [0, 20, 117, 30, 118, 232, 25, 145, 150, 212, 84, 148, 28, 69, 209, 179, 163, 35, 241, 67, 59, 214]
         @ replicate 20 0)"
    by code_simp
  from address_to_script_42 [OF _ this] show ?thesis by auto
qed

end
