(* ===== verification/ListHeads.thy ===== *)
theory ListHeads
  imports Main
begin

text \<open>
  The intrusive doubly linked lists of \<open>elist.h\<close>, on an explicit store: the two pointers of
  every \<open>struct list_head\<close>, by address. Address 0 is the null pointer. Each operation is shown
  to change a cyclic list the way its comment says, in terms of the sequence of its nodes.
\<close>

section \<open>The operations\<close>

type_synonym addr = nat

record list_heap =
  nxt :: "addr \<Rightarrow> addr"
  prv :: "addr \<Rightarrow> addr"

definition set_next :: "addr \<Rightarrow> addr \<Rightarrow> list_heap \<Rightarrow> list_heap" where
  "set_next p v h = h\<lparr>nxt := (nxt h)(p := v)\<rparr>"

definition set_prev :: "addr \<Rightarrow> addr \<Rightarrow> list_heap \<Rightarrow> list_heap" where
  "set_prev p v h = h\<lparr>prv := (prv h)(p := v)\<rparr>"

definition INIT_LIST_HEAD :: "addr \<Rightarrow> list_heap \<Rightarrow> list_heap" where
  "INIT_LIST_HEAD ptr h = set_prev ptr ptr (set_next ptr ptr h)"

definition list_add_between :: "addr \<Rightarrow> addr \<Rightarrow> addr \<Rightarrow> list_heap \<Rightarrow> list_heap" where
  "list_add_between new prev nex h =
     (let h = set_prev nex new h;
          h = set_next new nex h;
          h = set_prev new prev h
      in set_next prev new h)"

definition list_add :: "addr \<Rightarrow> addr \<Rightarrow> list_heap \<Rightarrow> list_heap" where
  "list_add new head h = list_add_between new head (nxt h head) h"

definition list_add_tail :: "addr \<Rightarrow> addr \<Rightarrow> list_heap \<Rightarrow> list_heap" where
  "list_add_tail new head h = list_add_between new (prv h head) head h"

definition list_del_between :: "addr \<Rightarrow> addr \<Rightarrow> list_heap \<Rightarrow> list_heap" where
  "list_del_between prev nex h = set_next prev nex (set_prev nex prev h)"

definition list_del :: "addr \<Rightarrow> list_heap \<Rightarrow> list_heap" where
  "list_del entry h =
     (let h = list_del_between (prv h entry) (nxt h entry) h;
          h = set_next entry 0 h
      in set_prev entry 0 h)"

definition list_del_init :: "addr \<Rightarrow> list_heap \<Rightarrow> list_heap" where
  "list_del_init entry h = INIT_LIST_HEAD entry (list_del_between (prv h entry) (nxt h entry) h)"

definition list_move :: "addr \<Rightarrow> addr \<Rightarrow> list_heap \<Rightarrow> list_heap" where
  "list_move entry head h = list_add entry head (list_del_between (prv h entry) (nxt h entry) h)"

definition list_move_tail :: "addr \<Rightarrow> addr \<Rightarrow> list_heap \<Rightarrow> list_heap" where
  "list_move_tail entry head h = list_add_tail entry head (list_del_between (prv h entry) (nxt h entry) h)"

definition list_empty :: "addr \<Rightarrow> list_heap \<Rightarrow> bool" where
  "list_empty head h \<longleftrightarrow> nxt h head = head"

definition list_splice_into :: "addr \<Rightarrow> addr \<Rightarrow> list_heap \<Rightarrow> list_heap" where
  "list_splice_into lst head h =
     (let first = nxt h lst;
          last = prv h lst;
          at = nxt h head;
          h = set_prev first head h;
          h = set_next head first h;
          h = set_next last at h
      in set_prev at last h)"

definition list_splice :: "addr \<Rightarrow> addr \<Rightarrow> list_heap \<Rightarrow> list_heap" where
  "list_splice lst head h = (if list_empty lst h then h else list_splice_into lst head h)"

definition list_splice_init :: "addr \<Rightarrow> addr \<Rightarrow> list_heap \<Rightarrow> list_heap" where
  "list_splice_init lst head h =
     (if list_empty lst h then h else INIT_LIST_HEAD lst (list_splice_into lst head h))"

section \<open>The sequence of nodes\<close>

text \<open>Consecutive nodes point to each other.\<close>

fun chain :: "list_heap \<Rightarrow> addr list \<Rightarrow> bool" where
  "chain h (x # y # zs) \<longleftrightarrow> nxt h x = y \<and> prv h y = x \<and> chain h (y # zs)"
| "chain h _ \<longleftrightarrow> True"

text \<open>The cyclic list of \<open>head\<close> whose entries are \<open>xs\<close>, in order.\<close>

definition is_list :: "list_heap \<Rightarrow> addr \<Rightarrow> addr list \<Rightarrow> bool" where
  "is_list h head xs \<longleftrightarrow> chain h (head # xs @ [head]) \<and> distinct (head # xs) \<and> 0 \<notin> set (head # xs)"

lemma heap_simps [simp]:
  "nxt (set_next p v h) = (nxt h)(p := v)" "prv (set_next p v h) = prv h"
  "nxt (set_prev p v h) = nxt h" "prv (set_prev p v h) = (prv h)(p := v)"
  by (simp_all add: set_next_def set_prev_def)

lemma chain_append: "chain h (us @ v # vs) \<longleftrightarrow> chain h (us @ [v]) \<and> chain h (v # vs)"
proof (induction us)
  case (Cons u us)
  then show ?case by (cases us) auto
qed simp

lemma chain_frame:
  "\<lbrakk>\<forall>p \<in> set (butlast zs). nxt h' p = nxt h p; \<forall>p \<in> set (tl zs). prv h' p = prv h p\<rbrakk>
   \<Longrightarrow> chain h' zs = chain h zs"
  by (induction h zs rule: chain.induct) auto

lemma chain_butlast: "chain h (us @ [v]) \<Longrightarrow> chain h us"
proof (induction us)
  case (Cons u us)
  then show ?case by (cases us) auto
qed simp

lemma chain_tl: "chain h (v # vs) \<Longrightarrow> chain h vs"
  by (cases vs) auto

lemma chain_ends:
  "chain h (us @ x # vs) \<Longrightarrow> (us \<noteq> [] \<longrightarrow> prv h x = last us) \<and> (vs \<noteq> [] \<longrightarrow> nxt h x = hd vs)"
proof (induction us)
  case Nil
  then show ?case by (cases vs) auto
next
  case (Cons u us)
  then show ?case by (cases us) auto
qed

lemma butlast_subset: "set (butlast zs) \<subseteq> set zs"
  by (auto dest: in_set_butlastD)

lemma last_distinct: "distinct zs \<Longrightarrow> zs \<noteq> [] \<Longrightarrow> last zs \<notin> set (butlast zs)"
  by (cases zs rule: rev_cases) auto

lemma last_outside: "distinct (a # xs @ ys) \<Longrightarrow> last (a # xs) \<notin> set ys"
  by (cases xs rule: rev_cases) auto

text \<open>Joining two chains: what \<open>__list_del\<close> does, and each half of \<open>__list_add\<close>.\<close>

lemma chain_join:
  assumes "chain h us" "chain h vs" "us \<noteq> []" "vs \<noteq> []"
    and "last us \<notin> set (butlast us)" "last us \<notin> set (butlast vs)"
    and "hd vs \<notin> set (tl us)" "hd vs \<notin> set (tl vs)"
  shows "chain (list_del_between (last us) (hd vs) h) (us @ vs)"
proof -
  define h' where "h' = list_del_between (last us) (hd vs) h"
  have "chain h' us = chain h us" "chain h' vs = chain h vs"
    unfolding h'_def list_del_between_def using assms(5-8) by (auto intro!: chain_frame)
  moreover have "nxt h' (last us) = hd vs" "prv h' (hd vs) = last us"
    by (simp_all add: h'_def list_del_between_def)
  ultimately have "chain h' us" "chain h' vs" "chain h' [last us, hd vs]" using assms(1,2) by simp_all
  moreover obtain u us' where "us = us' @ [u]" using assms(3) by (metis append_butlast_last_id)
  moreover obtain v vs' where "vs = v # vs'" using assms(4) by (cases vs) auto
  ultimately have "chain h' (us @ vs)"
    using chain_append [of h' "us' @ [u]" v vs'] chain_append [of h' us' u "[v]"] by simp
  then show ?thesis by (simp add: h'_def)
qed

lemma list_add_between_join:
  "list_add_between new prev nex h = list_del_between prev new (list_del_between new nex h)"
  by (simp add: list_add_between_def list_del_between_def Let_def)

lemma list_splice_into_join:
  "list_splice_into lst head h = list_del_between (prv h lst) (nxt h head) (list_del_between head (nxt h lst) h)"
  by (simp add: list_splice_into_def list_del_between_def Let_def set_next_def set_prev_def)

section \<open>The operations on sequences\<close>

lemma is_list_split:
  assumes "is_list h head (xs @ ys)"
  shows "chain h (head # xs)" "chain h (ys @ [head])"
    and "nxt h (last (head # xs)) = hd (ys @ [head])" "prv h (hd (ys @ [head])) = last (head # xs)"
proof -
  define zs where "zs = ys @ [head]"
  obtain z zs' where z: "zs = z # zs'" by (cases zs) (simp_all add: zs_def)
  have c: "chain h ((head # xs) @ z # zs')" using assms by (simp add: is_list_def zs_def flip: z)
  then have d: "chain h ((head # xs) @ [z])" "chain h (z # zs')"
    using chain_append [of h "head # xs" z zs'] by blast+
  then show "chain h (head # xs)" using chain_butlast by blast
  show "chain h (ys @ [head])" using d(2) z by (simp add: zs_def)
  obtain us u where u: "head # xs = us @ [u]" by (metis append_butlast_last_id list.distinct(1))
  have "chain h (us @ u # [z])" using d(1) u by simp
  then have "nxt h u = z \<and> prv h z = u" using chain_append [of h us u "[z]"] by simp
  moreover have "last (head # xs) = u" "hd (ys @ [head]) = z" using z by (simp_all only: u last_snoc zs_def list.sel)
  ultimately show "nxt h (last (head # xs)) = hd (ys @ [head])" "prv h (hd (ys @ [head])) = last (head # xs)"
    by (simp_all only:)
qed

lemma add_between:
  assumes L: "is_list h head (xs @ ys)" and new: "new \<notin> set (head # xs @ ys)" "new \<noteq> 0"
  shows "is_list (list_add_between new (last (head # xs)) (hd (ys @ [head])) h) head (xs @ new # ys)"
proof -
  define nex where "nex = hd (ys @ [head])"
  define h1 where "h1 = list_del_between new nex h"
  note split = is_list_split [OF L]
  have dist: "distinct (head # xs @ ys)" using L by (simp add: is_list_def)
  have nex: "nex \<in> set (ys @ [head])" "nex \<notin> set xs" "nex \<notin> set (tl (ys @ [head]))"
    using dist by (cases ys; auto simp: nex_def)+
  have "chain h1 ([new] @ ys @ [head])"
    using chain_join [of h "[new]" "ys @ [head]"] split(2) new nex(3)
    by (simp add: h1_def nex_def)
  then have right: "chain h1 (new # ys @ [head])" by simp
  have left: "chain h1 (head # xs)"
  proof -
    have "chain h1 (head # xs) = chain h (head # xs)"
      unfolding h1_def list_del_between_def using new nex(2) butlast_subset [of "head # xs"]
      by (intro chain_frame) (auto simp del: butlast.simps)
    then show ?thesis using split(1) by simp
  qed
  have "last (head # xs) \<notin> set (butlast (head # xs))"
    using dist by (intro last_distinct) auto
  moreover have "last (head # xs) \<notin> set (butlast (new # ys @ [head]))"
    using new dist last_outside [of head xs "new # ys"] by (auto simp: butlast_append)
  ultimately have "chain (list_del_between (last (head # xs)) new h1) ((head # xs) @ new # ys @ [head])"
    using chain_join [OF left right] new by simp
  then show ?thesis
    using L new by (auto simp: is_list_def list_add_between_join h1_def nex_def)
qed


lemma del_between:
  assumes L: "is_list h head (xs @ x # ys)"
  shows "is_list (list_del_between (prv h x) (nxt h x) h) head (xs @ ys)"
    and "prv h x = last (head # xs)" "nxt h x = hd (ys @ [head])"
proof -
  have dist: "distinct (head # xs @ x # ys)" using L by (simp add: is_list_def)
  show p: "prv h x = last (head # xs)" using is_list_split(4) [OF L] by simp
  have L': "is_list h head ((xs @ [x]) @ ys)" using L by simp
  show n: "nxt h x = hd (ys @ [head])" using is_list_split(3) [OF L'] by simp
  have "hd (ys @ [head]) \<notin> set (tl (head # xs))" "hd (ys @ [head]) \<notin> set (tl (ys @ [head]))"
    using dist by (cases ys; auto)+
  moreover have "last (head # xs) \<notin> set (butlast (head # xs))"
    using dist by (intro last_distinct) auto
  moreover have "last (head # xs) \<notin> set (butlast (ys @ [head]))"
    using last_outside [of head xs ys] dist by (simp add: butlast_append)
  ultimately have "chain (list_del_between (last (head # xs)) (hd (ys @ [head])) h) ((head # xs) @ ys @ [head])"
    using is_list_split(1) [OF L] is_list_split(2) [OF L'] by (intro chain_join) simp_all
  then show "is_list (list_del_between (prv h x) (nxt h x) h) head (xs @ ys)"
    using L unfolding p n by (auto simp: is_list_def)
qed

lemma is_list_empty: "is_list h head xs \<Longrightarrow> list_empty head h \<longleftrightarrow> xs = []"
  using is_list_split(3) [of h head "[]" xs] by (cases xs) (auto simp: list_empty_def is_list_def)

lemma is_list_hd: "is_list h head (x # xs) \<Longrightarrow> nxt h head = x"
  using is_list_split(3) [of h head "[]" "x # xs"] by simp

lemma is_list_frame:
  "\<lbrakk>is_list h head xs; \<forall>p \<in> set (head # xs). nxt h' p = nxt h p \<and> prv h' p = prv h p\<rbrakk> \<Longrightarrow> is_list h' head xs"
proof -
  assume "is_list h head xs" "\<forall>p \<in> set (head # xs). nxt h' p = nxt h p \<and> prv h' p = prv h p"
  then have "chain h' (head # xs @ [head]) = chain h (head # xs @ [head])"
    using butlast_subset [of "xs @ [head]"] by (intro chain_frame) auto
  with \<open>is_list h head xs\<close> show ?thesis by (simp add: is_list_def)
qed

lemma init_list: "head \<noteq> 0 \<Longrightarrow> is_list (INIT_LIST_HEAD head h) head []"
  by (simp add: INIT_LIST_HEAD_def is_list_def)

lemma add_front:
  "\<lbrakk>is_list h head xs; new \<notin> set (head # xs); new \<noteq> 0\<rbrakk> \<Longrightarrow> is_list (list_add new head h) head (new # xs)"
  using add_between [of h head "[]" xs new] is_list_split(3) [of h head "[]" xs] by (simp add: list_add_def)

lemma add_back:
  "\<lbrakk>is_list h head xs; new \<notin> set (head # xs); new \<noteq> 0\<rbrakk> \<Longrightarrow> is_list (list_add_tail new head h) head (xs @ [new])"
  using add_between [of h head xs "[]" new] is_list_split(4) [of h head xs "[]"] by (simp add: list_add_tail_def)

lemma delete_entry:
  assumes L: "is_list h head (xs @ x # ys)"
  shows "is_list (list_del x h) head (xs @ ys)" "nxt (list_del x h) x = 0" "prv (list_del x h) x = 0"
proof -
  show "nxt (list_del x h) x = 0" "prv (list_del x h) x = 0" by (simp_all add: list_del_def Let_def)
  have "x \<notin> set (head # xs @ ys)" using L by (auto simp: is_list_def)
  then show "is_list (list_del x h) head (xs @ ys)"
    by (intro is_list_frame [OF del_between(1) [OF L]]) (auto simp: list_del_def Let_def)
qed

lemma delete_init:
  assumes L: "is_list h head (xs @ x # ys)"
  shows "is_list (list_del_init x h) head (xs @ ys)" "is_list (list_del_init x h) x []"
proof -
  have x: "x \<notin> set (head # xs @ ys)" "x \<noteq> 0" using L by (auto simp: is_list_def)
  then show "is_list (list_del_init x h) head (xs @ ys)"
    by (intro is_list_frame [OF del_between(1) [OF L]]) (auto simp: list_del_init_def INIT_LIST_HEAD_def)
  show "is_list (list_del_init x h) x []" using x(2) by (simp add: list_del_init_def init_list)
qed

lemma move_front:
  "is_list h head (xs @ x # ys) \<Longrightarrow> is_list (list_move x head h) head (x # xs @ ys)"
  unfolding list_move_def by (rule add_front [OF del_between(1)]) (auto simp: is_list_def)

lemma move_back:
  "is_list h head (xs @ x # ys) \<Longrightarrow> is_list (list_move_tail x head h) head (xs @ ys @ [x])"
  using add_back [OF del_between(1), of h head xs x ys x] by (auto simp: list_move_tail_def is_list_def)

lemma splice_into:
  assumes A: "is_list h lst (x # xs)" and B: "is_list h head ys"
    and D: "set (lst # x # xs) \<inter> set (head # ys) = {}"
  shows "is_list (list_splice_into lst head h) head (x # xs @ ys)"
proof -
  define h1 where "h1 = list_del_between head x h"
  define l where "l = last (x # xs)"
  have n: "nxt h lst = x" using is_list_hd [OF A] .
  have l: "prv h lst = l" using is_list_split(4) [of h lst "x # xs" "[]"] A by (simp add: l_def)
  have at: "nxt h head = hd (ys @ [head])" using is_list_split(3) [of h head "[]" ys] B by simp
  have dA: "distinct (x # xs)" "distinct (head # ys)" using A B by (auto simp: is_list_def)
  have lx: "l \<in> set (x # xs)" unfolding l_def by (rule last_in_set) simp
  have cA: "chain h (x # xs)"
    using is_list_split(1) [of h lst "x # xs" "[]"] A by (simp add: chain_tl)
  have cB: "chain h (ys @ [head])" using is_list_split(2) [of h head "[]" ys] B by simp
  have one: "chain h1 ([head] @ x # xs)"
    unfolding h1_def using chain_join [of h "[head]" "x # xs"] cA D dA butlast_subset [of "x # xs"]
    by auto
  have cB1: "chain h1 (ys @ [head])"
  proof -
    have "chain h1 (ys @ [head]) = chain h (ys @ [head])"
      unfolding h1_def list_del_between_def using D dA(2) by (intro chain_frame) (cases ys; auto)+
    then show ?thesis using cB by simp
  qed
  have "chain (list_del_between l (hd (ys @ [head])) h1) ((head # x # xs) @ ys @ [head])"
  proof -
    have e: "last (head # x # xs) = l" by (simp add: l_def)
    have "distinct (head # x # xs)" using dA D by auto
    then have "l \<notin> set (butlast (head # x # xs))" using last_distinct [of "head # x # xs"] unfolding e by blast
    moreover have "l \<notin> set (butlast (ys @ [head]))" "hd (ys @ [head]) \<notin> set (tl (ys @ [head]))"
      "hd (ys @ [head]) \<notin> set (tl (head # x # xs))"
      using lx D dA by (cases ys; auto)+
    ultimately show ?thesis
      using chain_join [of h1 "head # x # xs" "ys @ [head]"] one cB1 unfolding e by simp
  qed
  then show ?thesis
    using A B D by (auto simp: is_list_def list_splice_into_join n l at h1_def)
qed


section \<open>Properties\<close>

text \<open>On a well-formed cyclic list with entries \<open>xs @ x # ys\<close> each operation does what its
  comment says and leaves a well-formed list: \<open>list_add\<close> puts a new entry first and
  \<open>list_add_tail\<close> last, \<open>list_del\<close> and \<open>list_del_init\<close> take \<open>x\<close> out and null or
  reinitialise it, \<open>list_move\<close> and \<open>list_move_tail\<close> put \<open>x\<close> first or last.\<close>

theorem list_operations_correct:
  assumes "is_list h head (xs @ x # ys)" "new \<notin> set (head # xs @ x # ys)" "new \<noteq> 0"
  shows "is_list (list_add new head h) head (new # xs @ x # ys)
    \<and> is_list (list_add_tail new head h) head (xs @ x # ys @ [new])
    \<and> is_list (list_del x h) head (xs @ ys) \<and> nxt (list_del x h) x = 0 \<and> prv (list_del x h) x = 0
    \<and> is_list (list_del_init x h) head (xs @ ys) \<and> is_list (list_del_init x h) x []
    \<and> is_list (list_move x head h) head (x # xs @ ys)
    \<and> is_list (list_move_tail x head h) head (xs @ ys @ [x])
    \<and> \<not> list_empty head h"
  using add_front [OF assms] add_back [OF assms] delete_entry [OF assms(1)] delete_init [OF assms(1)]
    move_front [OF assms(1)] move_back [OF assms(1)] is_list_empty [OF assms(1)]
  by simp

text \<open>A list of entries 2 and 3 with the head 1, built by the code, and an empty one at 7.\<close>

definition sample_heap :: list_heap where
  "sample_heap = INIT_LIST_HEAD 7 (list_add_tail 3 1 (list_add_tail 2 1 (INIT_LIST_HEAD 1 \<lparr>nxt = \<lambda>p. 0, prv = \<lambda>p. 0\<rparr>)))"

lemma sample_heap_list: "is_list sample_heap 1 [2, 3]" "is_list sample_heap 7 []"
  by (simp_all add: is_list_def sample_heap_def list_add_tail_def list_add_between_def Let_def INIT_LIST_HEAD_def)

lemma list_operations_correct_witness:
  "is_list (list_move 3 1 sample_heap) 1 [3, 2] \<and> is_list (list_add_tail 4 1 sample_heap) 1 [2, 3, 4]"
  using list_operations_correct [of sample_heap 1 "[2]" 3 "[]" 4] sample_heap_list by simp

text \<open>Splicing puts the entries of one list, in order, at the front of another, and
  \<open>list_splice_init\<close> leaves the first one empty.\<close>

theorem list_splice_correct:
  assumes "is_list h lst xs" "is_list h head ys" "set (lst # xs) \<inter> set (head # ys) = {}"
  shows "is_list (list_splice lst head h) head (xs @ ys)
    \<and> is_list (list_splice_init lst head h) head (xs @ ys) \<and> is_list (list_splice_init lst head h) lst []"
proof (cases xs)
  case Nil
  then show ?thesis
    using assms is_list_empty [OF assms(1)] by (simp add: list_splice_def list_splice_init_def)
next
  case (Cons x zs)
  have "is_list (list_splice_into lst head h) head (xs @ ys)"
    using splice_into assms unfolding Cons by simp
  moreover have "is_list (INIT_LIST_HEAD lst (list_splice_into lst head h)) head (xs @ ys)"
    using assms by (intro is_list_frame [OF calculation]) (auto simp: INIT_LIST_HEAD_def is_list_def)
  moreover have "lst \<noteq> 0" using assms(1) by (auto simp: is_list_def)
  ultimately show ?thesis
    using is_list_empty [OF assms(1)] Cons by (simp add: list_splice_def list_splice_init_def init_list)
qed

lemma list_splice_correct_witness:
  "is_list (list_splice_init 1 7 sample_heap) 7 [2, 3] \<and> is_list (list_splice_init 1 7 sample_heap) 1 []"
  using list_splice_correct [OF sample_heap_list] by simp

end
