(* ===== verification/ThreadQueue.thy ===== *)
theory ThreadQueue
  imports ListHeads
begin

text \<open>
  The message queues between threads (\<open>tq_new\<close>, \<open>tq_free\<close>, \<open>tq_freeze\<close>, \<open>tq_thaw\<close>,
  \<open>tq_push\<close>, \<open>tq_pop\<close> of \<open>util.c\<close>), on the linked lists of \<open>elist.h\<close>. Every operation
  holds the queue's mutex, so an execution is a sequence of whole operations; a \<open>tq_pop\<close> that
  finds the queue empty gives up the mutex while it waits and goes on as a second operation when it
  is woken. What \<open>calloc\<close> returns is a parameter.
\<close>

section \<open>The operations\<close>

text \<open>
  An entry is known by the address of its \<open>q_node\<close>; \<open>tq_data\<close> holds the entries that are
  allocated.
\<close>

record 'a tq =
  tq_heap :: list_heap
  tq_q :: addr
  tq_data :: "addr \<Rightarrow> 'a option"
  tq_frozen :: bool

definition tq_new :: "addr option \<Rightarrow> list_heap \<Rightarrow> 'a tq option" where
  "tq_new alloc h =
     map_option (\<lambda>a. \<lparr>tq_heap = INIT_LIST_HEAD a h, tq_q = a, tq_data = (\<lambda>_. None), tq_frozen = False\<rparr>) alloc"

text \<open>The loop of \<open>tq_free\<close> over the entries, \<open>list_for_each_entry_safe\<close>.\<close>

partial_function (option) tq_free_loop :: "addr \<Rightarrow> addr \<Rightarrow> 'a tq \<Rightarrow> 'a tq option" where
  "tq_free_loop ent iter tq =
     (if ent = tq_q tq then Some tq
      else (let tq = tq\<lparr>tq_heap := list_del ent (tq_heap tq), tq_data := (tq_data tq)(ent := None)\<rparr>
            in tq_free_loop iter (nxt (tq_heap tq) iter) tq))"

definition tq_free :: "'a tq option \<Rightarrow> 'a tq option option" where
  "tq_free tq =
     (case tq of
        None \<Rightarrow> Some None
      | Some tq \<Rightarrow>
          (let ent = nxt (tq_heap tq) (tq_q tq)
           in map_option Some (tq_free_loop ent (nxt (tq_heap tq) ent) tq)))"

definition tq_freezethaw :: "'a tq \<Rightarrow> bool \<Rightarrow> 'a tq" where
  "tq_freezethaw tq frozen = tq\<lparr>tq_frozen := frozen\<rparr>"

definition tq_freeze :: "'a tq \<Rightarrow> 'a tq" where
  "tq_freeze tq = tq_freezethaw tq True"

definition tq_thaw :: "'a tq \<Rightarrow> 'a tq" where
  "tq_thaw tq = tq_freezethaw tq False"

definition tq_push :: "addr option \<Rightarrow> 'a \<Rightarrow> 'a tq \<Rightarrow> bool \<times> 'a tq" where
  "tq_push alloc data tq =
     (case alloc of
        None \<Rightarrow> (False, tq)
      | Some ent \<Rightarrow>
          (let tq = tq\<lparr>tq_data := (tq_data tq)(ent := Some data), tq_heap := INIT_LIST_HEAD ent (tq_heap tq)\<rparr>
           in if \<not> tq_frozen tq
              then (True, tq\<lparr>tq_heap := list_add_tail ent (tq_q tq) (tq_heap tq)\<rparr>)
              else (False, tq\<lparr>tq_data := (tq_data tq)(ent := None)\<rparr>)))"

text \<open>The label \<open>pop\<close> of \<open>tq_pop\<close>.\<close>

definition tq_take :: "'a tq \<Rightarrow> 'a option \<times> 'a tq" where
  "tq_take tq =
     (let ent = nxt (tq_heap tq) (tq_q tq);
          rval = tq_data tq ent
      in (rval, tq\<lparr>tq_heap := list_del ent (tq_heap tq), tq_data := (tq_data tq)(ent := None)\<rparr>))"

text \<open>After the wait, whose result is \<open>rc\<close>: a wake-up that finds nothing returns NULL.\<close>

definition tq_woken :: "int \<Rightarrow> 'a tq \<Rightarrow> 'a option \<times> 'a tq" where
  "tq_woken rc tq =
     (if rc \<noteq> 0 then (None, tq)
      else if list_empty (tq_q tq) (tq_heap tq) then (None, tq)
      else tq_take tq)"

text \<open>
  The whole of \<open>tq_pop\<close>; \<open>wait\<close> is what the other threads do to the queue while it waits, and
  the result of \<open>pthread_cond_wait\<close> or \<open>pthread_cond_timedwait\<close>.
\<close>

definition tq_pop :: "('a tq \<Rightarrow> int \<times> 'a tq) \<Rightarrow> 'a tq \<Rightarrow> 'a option \<times> 'a tq" where
  "tq_pop wait tq =
     (if \<not> list_empty (tq_q tq) (tq_heap tq) then tq_take tq
      else (case wait tq of (rc, tq) \<Rightarrow> tq_woken rc tq))"

section \<open>The contract of a queue\<close>

text \<open>
  A client puts data in, each under a fresh key, and takes data out; the state represents the data
  that are in the queue.
\<close>

datatype ('k, 'd) queue_op = Put 'k 'd | Get

fun queue_run :: "('k \<Rightarrow> 'd \<Rightarrow> 's \<Rightarrow> 's) \<Rightarrow> ('s \<Rightarrow> 'd option \<times> 's) \<Rightarrow> ('k, 'd) queue_op list \<Rightarrow> 's \<Rightarrow> 'd option list \<times> 's" where
  "queue_run put get [] s = ([], s)"
| "queue_run put get (Put k d # ops) s = queue_run put get ops (put k d s)"
| "queue_run put get (Get # ops) s =
     (case get s of (r, s) \<Rightarrow> (case queue_run put get ops s of (rs, s) \<Rightarrow> (r # rs, s)))"

fun keys_fresh :: "('k \<Rightarrow> 'd \<Rightarrow> 's \<Rightarrow> 's) \<Rightarrow> ('s \<Rightarrow> 'd option \<times> 's) \<Rightarrow> ('s \<Rightarrow> 'k \<Rightarrow> bool) \<Rightarrow> ('k, 'd) queue_op list \<Rightarrow> 's \<Rightarrow> bool" where
  "keys_fresh put get fresh [] s \<longleftrightarrow> True"
| "keys_fresh put get fresh (Put k d # ops) s \<longleftrightarrow> fresh s k \<and> keys_fresh put get fresh ops (put k d s)"
| "keys_fresh put get fresh (Get # ops) s \<longleftrightarrow> keys_fresh put get fresh ops (snd (get s))"

fun queue_sent :: "('k, 'd) queue_op list \<Rightarrow> 'd list" where
  "queue_sent [] = []"
| "queue_sent (Put k d # ops) = d # queue_sent ops"
| "queue_sent (Get # ops) = queue_sent ops"

definition received :: "'d option list \<Rightarrow> 'd list" where
  "received rs = List.map_filter id rs"

lemma received_simps [simp]:
  "received [] = []" "received (None # rs) = received rs" "received (Some d # rs) = d # received rs"
  by (simp_all add: received_def)

locale fifo_queue =
  fixes rep :: "'s \<Rightarrow> 'd list \<Rightarrow> bool"
    and fresh :: "'s \<Rightarrow> 'k \<Rightarrow> bool"
    and put :: "'k \<Rightarrow> 'd \<Rightarrow> 's \<Rightarrow> 's"
    and get :: "'s \<Rightarrow> 'd option \<times> 's"
  assumes rep_put: "rep s ds \<Longrightarrow> fresh s k \<Longrightarrow> rep (put k d s) (ds @ [d])"
    and get_empty: "rep s [] \<Longrightarrow> get s = (None, s)"
    and get_front: "rep s (d # ds) \<Longrightarrow> fst (get s) = Some d \<and> rep (snd (get s)) ds"
begin

lemma run_fifo:
  "\<lbrakk>rep s ds; keys_fresh put get fresh ops s\<rbrakk> \<Longrightarrow>
   \<exists>rest. rep (snd (queue_run put get ops s)) rest
     \<and> received (fst (queue_run put get ops s)) @ rest = ds @ queue_sent ops"
proof (induction ops arbitrary: s ds)
  case (Cons op ops)
  show ?case
  proof (cases op)
    case (Put k d)
    then have "rep (put k d s) (ds @ [d])" using Cons.prems rep_put by simp
    from Cons.IH [OF this] show ?thesis using Put Cons.prems by simp
  next
    case Get
    obtain r s1 where g: "get s = (r, s1)" by (metis surj_pair)
    have f: "keys_fresh put get fresh ops s1" using Cons.prems Get g by simp
    show ?thesis
    proof (cases ds)
      case Nil
      then have "r = None" "s1 = s" using get_empty Cons.prems(1) g by simp_all
      then show ?thesis
        using Cons.IH [OF Cons.prems(1)] f Get g by (simp split: prod.split) (metis fst_conv snd_conv)
    next
      case (Cons d ds')
      then have "r = Some d" "rep s1 ds'" using get_front Cons.prems(1) g by (metis fst_conv snd_conv)+
      then show ?thesis
        using Cons.IH [OF _ f] Get g \<open>ds = d # ds'\<close> by (simp split: prod.split) (metis fst_conv snd_conv)
    qed
  qed
qed auto

end

section \<open>The contents of a queue\<close>

definition tq_rep :: "'a tq \<Rightarrow> 'a list \<Rightarrow> bool" where
  "tq_rep tq ds \<longleftrightarrow> (\<exists>xs. is_list (tq_heap tq) (tq_q tq) xs \<and> dom (tq_data tq) = set xs
     \<and> map (tq_data tq) xs = map Some ds)"

definition tq_fresh :: "'a tq \<Rightarrow> addr \<Rightarrow> bool" where
  "tq_fresh tq ent \<longleftrightarrow> ent \<noteq> 0 \<and> ent \<noteq> tq_q tq \<and> tq_data tq ent = None"

lemma tq_rep_new: "a \<noteq> 0 \<Longrightarrow> \<exists>tq. tq_new (Some a) h = Some tq \<and> tq_rep tq [] \<and> \<not> tq_frozen tq"
  by (simp add: tq_new_def tq_rep_def init_list)

lemma tq_rep_cong: "tq_heap t = tq_heap s \<Longrightarrow> tq_q t = tq_q s \<Longrightarrow> tq_data t = tq_data s \<Longrightarrow> tq_rep t ds = tq_rep s ds"
  by (simp add: tq_rep_def)

lemma tq_rep_empty: "tq_rep tq ds \<Longrightarrow> list_empty (tq_q tq) (tq_heap tq) \<longleftrightarrow> ds = []"
  by (auto simp: tq_rep_def is_list_empty dest: map_eq_imp_length_eq)

lemma tq_push_rep:
  assumes rep: "tq_rep tq ds" and fresh: "tq_fresh tq ent"
  shows "tq_rep (snd (tq_push (Some ent) d tq)) (if tq_frozen tq then ds else ds @ [d])"
    and "fst (tq_push (Some ent) d tq) = (\<not> tq_frozen tq)"
    and "tq_frozen (snd (tq_push (Some ent) d tq)) = tq_frozen tq"
proof -
  obtain xs where xs: "is_list (tq_heap tq) (tq_q tq) xs" "dom (tq_data tq) = set xs"
    "map (tq_data tq) xs = map Some ds"
    using rep by (auto simp: tq_rep_def)
  have ent: "ent \<notin> set (tq_q tq # xs)" "ent \<noteq> 0" using fresh xs(2) by (auto simp: tq_fresh_def)
  have init: "is_list (INIT_LIST_HEAD ent (tq_heap tq)) (tq_q tq) xs"
    using ent by (intro is_list_frame [OF xs(1)]) (auto simp: INIT_LIST_HEAD_def)
  have same: "map ((tq_data tq)(ent := v)) xs = map Some ds" for v
    using xs(3) ent(1) by (metis fun_upd_apply list.set_intros(2) map_eq_conv)
  show "tq_rep (snd (tq_push (Some ent) d tq)) (if tq_frozen tq then ds else ds @ [d])"
  proof (cases "tq_frozen tq")
    case True
    then show ?thesis
      using init xs(2) same ent(1) by (auto simp: tq_push_def tq_rep_def Let_def intro!: exI [of _ xs])
  next
    case False
    have "is_list (list_add_tail ent (tq_q tq) (INIT_LIST_HEAD ent (tq_heap tq))) (tq_q tq) (xs @ [ent])"
      by (rule add_back [OF init ent])
    then show ?thesis
      using False xs(2) same by (auto simp: tq_push_def tq_rep_def Let_def intro!: exI [of _ "xs @ [ent]"])
  qed
  show "fst (tq_push (Some ent) d tq) = (\<not> tq_frozen tq)"
    "tq_frozen (snd (tq_push (Some ent) d tq)) = tq_frozen tq"
    by (simp_all add: tq_push_def Let_def)
qed

lemma tq_take_rep:
  assumes "tq_rep tq (d # ds)"
  shows "fst (tq_take tq) = Some d" "tq_rep (snd (tq_take tq)) ds"
    and "tq_frozen (snd (tq_take tq)) = tq_frozen tq"
proof -
  obtain ys where ys: "is_list (tq_heap tq) (tq_q tq) ys" "dom (tq_data tq) = set ys"
    "map (tq_data tq) ys = map Some (d # ds)"
    using assms unfolding tq_rep_def by blast
  then obtain x xs where y: "ys = x # xs" by (cases ys) simp_all
  have xs1: "is_list (tq_heap tq) (tq_q tq) ([] @ x # xs)" using ys(1) by (simp only: y append_Nil)
  have xs2: "dom (tq_data tq) = set (x # xs)" using ys(2) by (simp only: y)
  have "map (tq_data tq) (x # xs) = map Some (d # ds)" using ys(3) by (simp only: y)
  then have xs3: "tq_data tq x = Some d" and xs4: "map (tq_data tq) xs = map Some ds" by simp_all
  have x: "nxt (tq_heap tq) (tq_q tq) = x" using is_list_hd [of "tq_heap tq" "tq_q tq" x xs] xs1 by simp
  have dx: "x \<notin> set xs" using xs1 by (simp add: is_list_def)
  show "fst (tq_take tq) = Some d" by (simp add: tq_take_def Let_def x xs3)
  have "map ((tq_data tq)(x := None)) xs = map Some ds"
    using xs4 dx by (metis fun_upd_apply map_eq_conv)
  then show "tq_rep (snd (tq_take tq)) ds"
    using delete_entry(1) [OF xs1] xs2 dx
    by (auto simp: tq_take_def tq_rep_def Let_def x intro!: exI [of _ xs])
  show "tq_frozen (snd (tq_take tq)) = tq_frozen tq" by (simp add: tq_take_def Let_def)
qed

interpretation tqf: fifo_queue "\<lambda>tq ds. tq_rep tq ds \<and> \<not> tq_frozen tq" tq_fresh
    "\<lambda>ent d tq. snd (tq_push (Some ent) d tq)" "tq_woken 0"
proof
  fix s :: "'a tq" and ds d k
  assume "tq_rep s ds \<and> \<not> tq_frozen s" "tq_fresh s k"
  then show "tq_rep (snd (tq_push (Some k) d s)) (ds @ [d]) \<and> \<not> tq_frozen (snd (tq_push (Some k) d s))"
    using tq_push_rep [of s ds k d] by simp
next
  fix s :: "'a tq"
  assume "tq_rep s [] \<and> \<not> tq_frozen s"
  then show "tq_woken 0 s = (None, s)" using tq_rep_empty by (auto simp: tq_woken_def)
next
  fix s :: "'a tq" and d ds
  assume "tq_rep s (d # ds) \<and> \<not> tq_frozen s"
  then show "fst (tq_woken 0 s) = Some d \<and> tq_rep (snd (tq_woken 0 s)) ds \<and> \<not> tq_frozen (snd (tq_woken 0 s))"
    using tq_rep_empty [of s "d # ds"] tq_take_rep [of s d ds] by (simp add: tq_woken_def)
qed

section \<open>Properties\<close>

text \<open>C26: messages arrive once each and in order: whatever pushes and pops are carried out on a
  thawed queue, in whatever order, the data received so far and the data still in the queue are
  together the data that were in it followed by the data sent.\<close>

theorem tq_fifo:
  assumes "tq_rep tq ds" "\<not> tq_frozen tq"
    and "keys_fresh (\<lambda>ent d tq. snd (tq_push (Some ent) d tq)) (tq_woken 0) tq_fresh ops tq"
  shows "\<exists>rest. tq_rep (snd (queue_run (\<lambda>ent d tq. snd (tq_push (Some ent) d tq)) (tq_woken 0) ops tq)) rest
    \<and> received (fst (queue_run (\<lambda>ent d tq. snd (tq_push (Some ent) d tq)) (tq_woken 0) ops tq)) @ rest
      = ds @ queue_sent ops"
  using tqf.run_fifo [of tq ds ops] assms by auto

definition sample_tq :: "string tq" where
  "sample_tq = the (tq_new (Some 1) \<lparr>nxt = (\<lambda>p. 0), prv = (\<lambda>p. 0)\<rparr>)"

lemma sample_tq_rep: "tq_rep sample_tq []" "\<not> tq_frozen sample_tq"
  by (simp_all add: sample_tq_def tq_new_def tq_rep_def init_list)

lemma tq_fifo_witness:
  "\<exists>rest. tq_rep (snd (queue_run (\<lambda>ent d tq. snd (tq_push (Some ent) d tq)) (tq_woken 0) [Put 5 ''a'', Get, Put 5 ''b''] sample_tq)) rest
    \<and> received (fst (queue_run (\<lambda>ent d tq. snd (tq_push (Some ent) d tq)) (tq_woken 0) [Put 5 ''a'', Get, Put 5 ''b''] sample_tq)) @ rest
      = [''a'', ''b'']"
  using tq_fifo [OF sample_tq_rep, of "[Put 5 ''a'', Get, Put 5 ''b'']"]
  by (simp add: sample_tq_def tq_new_def tq_fresh_def tq_push_def tq_woken_def tq_take_def Let_def list_empty_def
      list_add_tail_def list_add_between_def INIT_LIST_HEAD_def list_del_def list_del_between_def)

text \<open>A push fails, and changes nothing that is queued, exactly when no entry can be allocated
  or the queue is frozen; a pop of a queue with data returns the first at once; a pop of an empty
  queue returns what it finds when its wait ends, and NULL when the wait fails or when it is woken
  with the queue still empty.\<close>

theorem tq_push_pop_correct:
  assumes "tq_rep tq ds" "tq_fresh tq ent" "tq_rep (snd (wait tq)) ds'"
  shows "tq_push None d tq = (False, tq)
    \<and> fst (tq_push (Some ent) d tq) = (\<not> tq_frozen tq)
    \<and> tq_rep (snd (tq_push (Some ent) d tq)) (if tq_frozen tq then ds else ds @ [d])
    \<and> fst (tq_pop wait tq)
      = (if ds \<noteq> [] then Some (hd ds) else if fst (wait tq) = 0 \<and> ds' \<noteq> [] then Some (hd ds') else None)
    \<and> tq_rep (snd (tq_pop wait tq))
      (if ds \<noteq> [] then tl ds else if fst (wait tq) = 0 \<and> ds' \<noteq> [] then tl ds' else ds')"
proof -
  obtain rc tq' where w: "wait tq = (rc, tq')" by (metis surj_pair)
  have "fst (tq_pop wait tq)
      = (if ds \<noteq> [] then Some (hd ds) else if fst (wait tq) = 0 \<and> ds' \<noteq> [] then Some (hd ds') else None)
    \<and> tq_rep (snd (tq_pop wait tq))
      (if ds \<noteq> [] then tl ds else if fst (wait tq) = 0 \<and> ds' \<noteq> [] then tl ds' else ds')"
    using assms(1,3) tq_rep_empty [of tq ds] tq_rep_empty [of tq' ds']
      tq_take_rep [of tq "hd ds" "tl ds"] tq_take_rep [of tq' "hd ds'" "tl ds'"]
    by (auto simp: tq_pop_def tq_woken_def w neq_Nil_conv)
  then show ?thesis
    using tq_push_rep [OF assms(1,2)] by (simp add: tq_push_def)
qed

lemma tq_push_pop_correct_witness:
  "fst (tq_pop (\<lambda>tq. (0, snd (tq_push (Some 5) ''a'' tq))) sample_tq) = Some ''a''
   \<and> fst (tq_pop (\<lambda>tq. (0, tq)) sample_tq) = None"
proof -
  have f: "tq_fresh sample_tq 5" by (simp add: tq_fresh_def sample_tq_def tq_new_def)
  define w :: "string tq \<Rightarrow> int \<times> string tq" where "w = (\<lambda>tq. (0, snd (tq_push (Some 5) ''a'' tq)))"
  define v :: "string tq \<Rightarrow> int \<times> string tq" where "v = (\<lambda>tq. (0, tq))"
  have "tq_rep (snd (w sample_tq)) [''a'']" "tq_rep (snd (v sample_tq)) []"
    using tq_push_rep(1) [OF sample_tq_rep(1) f, of "''a''"] sample_tq_rep by (simp_all add: w_def v_def)
  then have "fst (tq_pop w sample_tq) = Some ''a'' \<and> fst (tq_pop v sample_tq) = None"
    using tq_push_pop_correct [OF sample_tq_rep(1) f, of w "[''a'']"]
      tq_push_pop_correct [OF sample_tq_rep(1) f, of v "[]"] by (simp add: w_def v_def)
  then show ?thesis by (simp add: w_def v_def)
qed

lemma tq_free_loop_empties:
  "\<lbrakk>is_list (tq_heap tq) (tq_q tq) xs; dom (tq_data tq) = set xs\<rbrakk> \<Longrightarrow>
   \<exists>tq'. tq_free_loop (hd (xs @ [tq_q tq])) (nxt (tq_heap tq) (hd (xs @ [tq_q tq]))) tq = Some tq'
     \<and> tq_data tq' = (\<lambda>_. None)"
proof (induction xs arbitrary: tq)
  case Nil
  then show ?case by (subst tq_free_loop.simps) auto
next
  case (Cons x xs)
  define t where "t = tq\<lparr>tq_heap := list_del x (tq_heap tq), tq_data := (tq_data tq)(x := None)\<rparr>"
  have L: "is_list (tq_heap tq) (tq_q tq) ([] @ x # xs)" using Cons.prems(1) by simp
  have x: "x \<noteq> tq_q tq" "x \<notin> set xs" using L by (auto simp: is_list_def)
  have n: "nxt (tq_heap tq) x = hd (xs @ [tq_q tq])" using del_between(3) [OF L] .
  have "is_list (tq_heap t) (tq_q t) xs" "dom (tq_data t) = set xs"
    using delete_entry(1) [OF L] Cons.prems(2) x(2) by (auto simp: t_def)
  from Cons.IH [OF this] show ?case
    using x(1) n by (subst tq_free_loop.simps) (simp add: Let_def t_def)
qed

text \<open>\<open>tq_free\<close> ends, and by then has freed every entry that is still queued.\<close>

theorem tq_free_empties:
  assumes "tq_rep tq ds"
  shows "\<exists>tq'. tq_free (Some tq) = Some (Some tq') \<and> tq_data tq' = (\<lambda>_. None)"
proof -
  obtain xs where xs: "is_list (tq_heap tq) (tq_q tq) xs" "dom (tq_data tq) = set xs"
    using assms by (auto simp: tq_rep_def)
  moreover have "nxt (tq_heap tq) (tq_q tq) = hd (xs @ [tq_q tq])"
    using is_list_split(3) [of "tq_heap tq" "tq_q tq" "[]" xs] xs(1) by simp
  ultimately show ?thesis using tq_free_loop_empties [OF xs] by (auto simp: tq_free_def Let_def)
qed

lemma tq_free_empties_witness:
  "\<exists>tq'. tq_free (Some (snd (tq_push (Some 5) ''a'' sample_tq))) = Some (Some tq') \<and> tq_data tq' = (\<lambda>_. None)"
proof -
  have "tq_fresh sample_tq 5" by (simp add: tq_fresh_def sample_tq_def tq_new_def)
  from tq_free_empties [OF tq_push_rep(1) [OF sample_tq_rep(1) this]] show ?thesis .
qed

end
