(* ===== verification/Barrier.thy ===== *)
theory Barrier
  imports Prelude
begin

text \<open>
  The barrier of \<open>pthread_barrier.c\<close>. The body of \<open>pthread_barrier_wait\<close> runs under the mutex except
  while it sleeps, so that a call is two atomic parts: arriving, and looking at the phase after a
  wakeup, which may be spurious.
\<close>

record barrier_t =
  b_limit :: u32
  b_count :: u32
  b_phase :: u32

text \<open>The results of the two initialisations are parameters; the code tests them for being negative.\<close>

definition pthread_barrier_init :: "int \<Rightarrow> int \<Rightarrow> barrier_t \<Rightarrow> u32 \<Rightarrow> int \<times> barrier_t" where
  "pthread_barrier_init mutex_rc cond_rc barrier count =
     (if count = 0 then (- 1, barrier)
      else if mutex_rc < 0 then (- 1, barrier)
      else if cond_rc < 0 then (- 1, barrier)
      else (0, \<lparr>b_limit = count, b_count = 0, b_phase = 0\<rparr>))"

text \<open>Arriving: the last thread opens the barrier and returns (\<open>None\<close>), the others go to sleep with the
  phase they saw.\<close>

definition barrier_arrive :: "barrier_t \<Rightarrow> barrier_t \<times> u32 option" where
  "barrier_arrive barrier =
     (let barrier = barrier\<lparr>b_count := b_count barrier + 1\<rparr>
      in if b_limit barrier \<le> b_count barrier
         then (barrier\<lparr>b_phase := b_phase barrier + 1, b_count := 0\<rparr>, None)
         else (barrier, Some (b_phase barrier)))"

text \<open>The condition on which a thread that woke up sleeps again.\<close>

definition barrier_sleeps :: "barrier_t \<Rightarrow> u32 \<Rightarrow> bool" where
  "barrier_sleeps barrier phase \<longleftrightarrow> phase = b_phase barrier"

section \<open>Threads at a barrier\<close>

text \<open>
  Each thread is outside or sleeps with a phase; the numbers of calls it has begun and finished are
  kept beside.
\<close>

record barrier_sys =
  y_barrier :: barrier_t
  y_sleep :: "nat \<Rightarrow> u32 option"
  y_begun :: "nat \<Rightarrow> nat"
  y_done :: "nat \<Rightarrow> nat"

definition barrier_start :: "nat \<Rightarrow> barrier_sys" where
  "barrier_start n = \<lparr>y_barrier = snd (pthread_barrier_init 0 0 \<lparr>b_limit = 0, b_count = 0, b_phase = 0\<rparr> (of_nat n)),
     y_sleep = (\<lambda>_. None), y_begun = (\<lambda>_. 0), y_done = (\<lambda>_. 0)\<rparr>"

inductive barrier_step :: "nat \<Rightarrow> barrier_sys \<Rightarrow> barrier_sys \<Rightarrow> bool" for n where
  arrive: "\<lbrakk>t < n; y_sleep s t = None; barrier_arrive (y_barrier s) = (b, Some p)\<rbrakk> \<Longrightarrow>
     barrier_step n s (s\<lparr>y_barrier := b, y_sleep := (y_sleep s)(t := Some p), y_begun := (y_begun s)(t := Suc (y_begun s t))\<rparr>)"
| last: "\<lbrakk>t < n; y_sleep s t = None; barrier_arrive (y_barrier s) = (b, None)\<rbrakk> \<Longrightarrow>
     barrier_step n s (s\<lparr>y_barrier := b, y_begun := (y_begun s)(t := Suc (y_begun s t)), y_done := (y_done s)(t := Suc (y_done s t))\<rparr>)"
| wake: "\<lbrakk>t < n; y_sleep s t = Some p; \<not> barrier_sleeps (y_barrier s) p\<rbrakk> \<Longrightarrow>
     barrier_step n s (s\<lparr>y_sleep := (y_sleep s)(t := None), y_done := (y_done s)(t := Suc (y_done s t))\<rparr>)"
| spurious: "\<lbrakk>t < n; y_sleep s t = Some p; barrier_sleeps (y_barrier s) p\<rbrakk> \<Longrightarrow> barrier_step n s s"

text \<open>
  In round \<open>r\<close> a thread is outside, sleeps in this round, or has not yet woken up from the round
  before.
\<close>

definition in_round :: "nat \<Rightarrow> barrier_sys \<Rightarrow> nat \<Rightarrow> bool" where
  "in_round r s t \<longleftrightarrow>
     y_sleep s t = None \<and> y_begun s t = r \<and> y_done s t = r
     \<or> y_sleep s t = Some (of_nat r) \<and> y_begun s t = Suc r \<and> y_done s t = r
     \<or> (\<exists>q. r = Suc q \<and> y_sleep s t = Some (of_nat q) \<and> y_begun s t = r \<and> y_done s t = q)"

definition arrived :: "nat \<Rightarrow> nat \<Rightarrow> barrier_sys \<Rightarrow> nat set" where
  "arrived n r s = {t. t < n \<and> y_begun s t = Suc r}"

definition barrier_inv :: "nat \<Rightarrow> nat \<Rightarrow> barrier_sys \<Rightarrow> bool" where
  "barrier_inv n r s \<longleftrightarrow> y_barrier s = \<lparr>b_limit = of_nat n, b_count = of_nat (card (arrived n r s)), b_phase = of_nat r\<rparr>
     \<and> card (arrived n r s) < n \<and> (\<forall>t < n. in_round r s t)"

lemma finite_arrived [simp]: "finite (arrived n r s)"
  by (simp add: arrived_def)

lemma of_nat_u32_le: "a < 2 ^ 32 \<Longrightarrow> b < 2 ^ 32 \<Longrightarrow> (of_nat a :: u32) \<le> of_nat b \<longleftrightarrow> a \<le> b"
  by (simp add: word_le_nat_alt unsigned_of_nat take_bit_nat_eq_self)

lemma phase_moves: "(of_nat q :: u32) \<noteq> of_nat (Suc q)"
  by simp

lemma arrive_result:
  assumes "barrier_inv n r s" "0 < n" "n < 2 ^ 32"
  shows "barrier_arrive (y_barrier s) =
    (if Suc (card (arrived n r s)) = n then (\<lparr>b_limit = of_nat n, b_count = 0, b_phase = of_nat (Suc r)\<rparr>, None)
     else (\<lparr>b_limit = of_nat n, b_count = of_nat (Suc (card (arrived n r s))), b_phase = of_nat r\<rparr>, Some (of_nat r)))"
proof -
  define c where "c = card (arrived n r s)"
  have c: "c < n" using assms(1) by (simp add: barrier_inv_def c_def)
  have "(of_nat n :: u32) \<le> of_nat (Suc c) \<longleftrightarrow> n \<le> Suc c" using assms(3) c by (intro of_nat_u32_le) simp_all
  then show ?thesis
    using assms(1) c unfolding barrier_arrive_def Let_def
    by (auto simp: barrier_inv_def add.commute simp flip: c_def)
qed

lemma round_begun: "in_round r s t \<Longrightarrow> y_sleep s t = None \<Longrightarrow> y_begun s t = r \<and> y_done s t = r"
  by (auto simp: in_round_def)

lemma barrier_step_inv:
  assumes "barrier_step n s s'" "barrier_inv n r s" "0 < n" "n < 2 ^ 32"
  shows "barrier_inv n r s' \<or> barrier_inv n (Suc r) s'"
  using assms(1)
proof cases
  case (arrive t b p)
  then have b: "b = \<lparr>b_limit = of_nat n, b_count = of_nat (Suc (card (arrived n r s))), b_phase = of_nat r\<rparr>"
    "p = of_nat r" "Suc (card (arrived n r s)) \<noteq> n"
    using arrive_result [OF assms(2-4)] by (auto split: if_splits)
  have t: "y_begun s t = r \<and> y_done s t = r"
    using arrive assms(2) by (intro round_begun) (simp_all add: barrier_inv_def)
  then have "arrived n r s' = insert t (arrived n r s)" "t \<notin> arrived n r s"
    using arrive by (auto simp: arrived_def)
  moreover have "in_round r s' u" if "u < n" for u
    using assms(2) that t by (auto simp: arrive(1) barrier_inv_def in_round_def b(2))
  ultimately show ?thesis
    using assms(2) b(3) by (auto simp: barrier_inv_def arrive(1) b(1))
next
  case (last t b)
  then have b: "b = \<lparr>b_limit = of_nat n, b_count = 0, b_phase = of_nat (Suc r)\<rparr>" "Suc (card (arrived n r s)) = n"
    using arrive_result [OF assms(2-4)] by (auto split: if_splits)
  have t: "y_begun s t = r \<and> y_done s t = r"
    using last assms(2) by (intro round_begun) (simp_all add: barrier_inv_def)
  have notin: "t \<notin> arrived n r s" using t by (simp add: arrived_def)
  then have "card (insert t (arrived n r s)) = n" using b(2) by simp
  moreover have "insert t (arrived n r s) \<subseteq> {..<n}" using last(2) by (auto simp: arrived_def)
  ultimately have all: "insert t (arrived n r s) = {..<n}" by (intro card_subset_eq) simp_all
  have others: "y_begun s u = Suc r \<and> y_done s u = r \<and> y_sleep s u = Some (of_nat r)" if "u < n" "u \<noteq> t" for u
  proof -
    have "u \<in> insert t (arrived n r s)" using all that(1) by simp
    then have "u \<in> arrived n r s" using that(2) by simp
    moreover have "in_round r s u" using assms(2) that(1) by (simp add: barrier_inv_def)
    ultimately show ?thesis by (auto simp: arrived_def in_round_def)
  qed
  have "in_round (Suc r) s' u" if "u < n" for u
    using others [OF that] t last(3) by (cases "u = t") (auto simp: last(1) in_round_def)
  moreover have "arrived n (Suc r) s' = {}"
    using others t by (force simp: arrived_def last(1))
  ultimately have "barrier_inv n (Suc r) s'" using assms(3) by (simp add: barrier_inv_def last(1) b(1))
  then show ?thesis ..
next
  case (wake t p)
  have "in_round r s t" using assms(2) wake(2) by (simp add: barrier_inv_def)
  then obtain q where q: "r = Suc q" "y_begun s t = r" "y_done s t = q"
    using wake assms(2) by (auto simp: in_round_def barrier_sleeps_def barrier_inv_def)
  have "arrived n r s' = arrived n r s" by (simp add: arrived_def wake(1))
  moreover have "in_round r s' u" if "u < n" for u
    using assms(2) that q by (auto simp: wake(1) barrier_inv_def in_round_def)
  ultimately show ?thesis using assms(2) by (simp add: barrier_inv_def wake(1))
next
  case spurious
  then show ?thesis using assms(2) by simp
qed

lemma barrier_reachable:
  assumes "(barrier_step n)\<^sup>*\<^sup>* (barrier_start n) s" "0 < n" "n < 2 ^ 32"
  shows "\<exists>r. barrier_inv n r s"
  using assms(1)
proof (induction rule: rtranclp_induct)
  case base
  have "(of_nat n :: u32) \<noteq> 0" using of_nat_u32_le [of n 0] assms(2,3) by auto
  then have "barrier_inv n 0 (barrier_start n)"
    using assms(2) by (simp add: barrier_inv_def barrier_start_def pthread_barrier_init_def arrived_def in_round_def)
  then show ?case ..
next
  case (step s s')
  then show ?case using barrier_step_inv assms(2,3) by blast
qed

section \<open>Properties\<close>

text \<open>C20: no thread leaves a call of \<open>pthread_barrier_wait\<close> before all threads have begun theirs,
  whatever the order of the threads and however often they wake up for nothing.\<close>

theorem barrier_safe:
  assumes "(barrier_step n)\<^sup>*\<^sup>* (barrier_start n) s" "0 < n" "n < 2 ^ 32" "t < n" "u < n"
  shows "y_done s t \<le> y_begun s u \<and> y_begun s t \<le> Suc (y_begun s u)"
proof -
  obtain r where "barrier_inv n r s" using barrier_reachable [OF assms(1-3)] ..
  then have "in_round r s t" "in_round r s u" using assms(4,5) by (simp_all add: barrier_inv_def)
  then show ?thesis by (auto simp: in_round_def)
qed

lemma two_arrive: "(barrier_step 2)\<^sup>*\<^sup>* (barrier_start 2) ((barrier_start 2)\<lparr>
    y_barrier := \<lparr>b_limit = 2, b_count = 1, b_phase = 0\<rparr>, y_sleep := (\<lambda>_. None)(0 := Some 0), y_begun := (\<lambda>_. 0)(0 := 1)\<rparr>)"
proof -
  have "barrier_arrive (y_barrier (barrier_start 2)) = (\<lparr>b_limit = 2, b_count = 1, b_phase = 0\<rparr>, Some 0)"
    by (simp add: barrier_start_def pthread_barrier_init_def barrier_arrive_def Let_def word_le_nat_alt)
  from barrier_step.arrive [of 0 2 "barrier_start 2", OF _ _ this]
  have "barrier_step 2 (barrier_start 2) ((barrier_start 2)\<lparr>y_barrier := \<lparr>b_limit = 2, b_count = 1, b_phase = 0\<rparr>,
      y_sleep := (\<lambda>_. None)(0 := Some 0), y_begun := (\<lambda>_. 0)(0 := 1)\<rparr>)"
    by (simp add: barrier_start_def)
  then show ?thesis by (rule r_into_rtranclp)
qed

lemma barrier_safe_witness:
  "\<exists>s. (barrier_step 2)\<^sup>*\<^sup>* (barrier_start 2) s \<and> y_begun s 0 = 1 \<and> y_done s 0 \<le> y_begun s 1"
    using barrier_safe [OF two_arrive, where t = 0 and u = 1] two_arrive by auto

definition barrier_total :: "nat \<Rightarrow> barrier_sys \<Rightarrow> nat" where
  "barrier_total n s = (\<Sum>t < n. y_begun s t + y_done s t)"

lemma total_more:
  assumes "t < n" "y_begun s t + y_done s t < y_begun s' t + y_done s' t"
    and "\<And>u. u < n \<Longrightarrow> u \<noteq> t \<Longrightarrow> y_begun s' u = y_begun s u \<and> y_done s' u = y_done s u"
  shows "barrier_total n s < barrier_total n s'"
  unfolding barrier_total_def
proof (rule sum_strict_mono_ex1)
  show "\<forall>u \<in> {..<n}. y_begun s u + y_done s u \<le> y_begun s' u + y_done s' u"
  proof
    fix u assume "u \<in> {..<n}"
    then show "y_begun s u + y_done s u \<le> y_begun s' u + y_done s' u" using assms(2) assms(3) [of u] by (cases "u = t") auto
  qed
  show "\<exists>u \<in> {..<n}. y_begun s u + y_done s u < y_begun s' u + y_done s' u" using assms(1,2) by auto
qed simp



end
