(* ===== verification/Json.thy ===== *)
theory Json
  imports Complex_Main HexText
begin

text \<open>
  JSON values as the miner reads them, and the accessors of the bundled \<open>jansson\<close>
  (\<open>compat/jansson/value.c\<close>) that it calls. A null pointer is \<open>None\<close>. An object is the list
  of its members in the order the iterator visits them, with distinct keys; an integer has the
  range of the library's integer type and a real is the rational number of its \<open>double\<close>.
\<close>

datatype json =
    JObject "(string \<times> json) list"
  | JArray "json list"
  | JString string
  | JInteger int
  | JReal rat
  | JTrue
  | JFalse
  | JNull

fun json_object_get :: "json option \<Rightarrow> string \<Rightarrow> json option" where
  "json_object_get (Some (JObject ms)) key = map_of ms key"
| "json_object_get _ key = None"

fun json_is_object :: "json option \<Rightarrow> bool" where
  "json_is_object (Some (JObject ms)) = True"
| "json_is_object _ = False"

fun json_is_array :: "json option \<Rightarrow> bool" where
  "json_is_array (Some (JArray js)) = True"
| "json_is_array _ = False"

fun json_array_size :: "json option \<Rightarrow> nat" where
  "json_array_size (Some (JArray js)) = length js"
| "json_array_size _ = 0"

fun json_array_get :: "json option \<Rightarrow> nat \<Rightarrow> json option" where
  "json_array_get (Some (JArray js)) i = (if i < length js then Some (js ! i) else None)"
| "json_array_get _ i = None"

fun json_is_string :: "json option \<Rightarrow> bool" where
  "json_is_string (Some (JString s)) = True"
| "json_is_string _ = False"

fun json_string_value :: "json option \<Rightarrow> string option" where
  "json_string_value (Some (JString s)) = Some s"
| "json_string_value _ = None"

fun json_is_integer :: "json option \<Rightarrow> bool" where
  "json_is_integer (Some (JInteger i)) = True"
| "json_is_integer _ = False"

fun json_integer_value :: "json option \<Rightarrow> int" where
  "json_integer_value (Some (JInteger i)) = i"
| "json_integer_value _ = 0"

fun json_is_number :: "json option \<Rightarrow> bool" where
  "json_is_number (Some (JInteger i)) = True"
| "json_is_number (Some (JReal r)) = True"
| "json_is_number _ = False"

fun json_number_value :: "json option \<Rightarrow> rat" where
  "json_number_value (Some (JInteger i)) = of_int i"
| "json_number_value (Some (JReal r)) = r"
| "json_number_value _ = 0"

fun json_is_true :: "json option \<Rightarrow> bool" where
  "json_is_true (Some JTrue) = True"
| "json_is_true _ = False"

fun json_is_false :: "json option \<Rightarrow> bool" where
  "json_is_false (Some JFalse) = True"
| "json_is_false _ = False"

fun json_is_null :: "json option \<Rightarrow> bool" where
  "json_is_null (Some JNull) = True"
| "json_is_null _ = False"

text \<open>The elements an index loop over an array sees, and the values an object iterator visits.\<close>

fun json_array_elems :: "json option \<Rightarrow> json list" where
  "json_array_elems (Some (JArray js)) = js"
| "json_array_elems _ = []"

fun json_object_values :: "json option \<Rightarrow> json list" where
  "json_object_values (Some (JObject ms)) = List.map snd ms"
| "json_object_values _ = []"

lemma json_array_elems_get:
  "json_array_elems a = List.map (\<lambda>i. the (json_array_get a i)) [0..<json_array_size a]"
  by (cases a rule: json_array_elems.cases) (auto intro: nth_equalityI)

section \<open>Hexadecimal members\<close>

text \<open>
  \<open>jobj_binary\<close>: the \<open>n\<close>-byte buffer of a hexadecimal member. On failure the caller does not
  use the buffer.
\<close>

definition jobj_binary :: "json option \<Rightarrow> string \<Rightarrow> nat \<Rightarrow> byte list option" where
  "jobj_binary obj key buflen =
     (case json_object_get obj key of
        None \<Rightarrow> None
      | Some tmp \<Rightarrow>
          (case json_string_value (Some tmp) of
             None \<Rightarrow> None
           | Some hexstr \<Rightarrow>
               (case hex2bin (replicate buflen 0) (Some hexstr) buflen of
                  (ok, buf) \<Rightarrow> if ok then Some buf else None)))"

end
