(* ===== verification/Merkle.thy ===== *)
theory Merkle
  imports Sha256
begin

text \<open>
  The two in-place Merkle reductions of \<open>gbt_work_decode\<close> (the transaction tree and the
  witness tree of \<open>cpu-miner.c\<close>), against the Merkle root as a function of the leaves.
\<close>

section \<open>The loops\<close>

text \<open>The inner loop: node \<open>i\<close> becomes the hash of nodes \<open>2 i\<close> and \<open>2 i + 1\<close>.\<close>

function merkle_pass :: "byte list list \<Rightarrow> nat \<Rightarrow> nat \<Rightarrow> byte list list" where
  "merkle_pass tree i n =
     (if i < n then merkle_pass (tree[i := sha256d (tree ! (2 * i) @ tree ! (2 * i + 1)) 64]) (i + 1) n
      else tree)"
  by pat_completeness auto
termination by (relation "measure (\<lambda>(tree, i, n). n - i)") auto

function merkle_loop :: "byte list list \<Rightarrow> nat \<Rightarrow> byte list list" where
  "merkle_loop tree n =
     (if 1 < n
      then (let (tree, n) = (if odd n then (tree[n := tree ! (n - 1)], n + 1) else (tree, n));
                n = n div 2
            in merkle_loop (merkle_pass tree 0 n) n)
      else tree)"
  by pat_completeness auto
termination by (relation "measure (\<lambda>(tree, n). n)") (auto split: if_splits elim!: oddE)

text \<open>The form of the witness tree, which rounds up while it halves.\<close>

function wtree_loop :: "byte list list \<Rightarrow> nat \<Rightarrow> byte list list" where
  "wtree_loop tree n =
     (if 1 < n
      then (let tree = (if odd n then tree[n := tree ! (n - 1)] else tree);
                n = (n + 1) div 2
            in wtree_loop (merkle_pass tree 0 n) n)
      else tree)"
  by pat_completeness auto
termination by (relation "measure (\<lambda>(tree, n). n)") auto

declare merkle_pass.simps [simp del] merkle_loop.simps [simp del] wtree_loop.simps [simp del]

section \<open>The root of a list of leaves\<close>

definition hash_pair :: "byte list \<Rightarrow> byte list \<Rightarrow> byte list" where
  "hash_pair a b = fips_sha256 (fips_sha256 (a @ b))"

fun merkle_level :: "byte list list \<Rightarrow> byte list list" where
  "merkle_level (a # b # xs) = hash_pair a b # merkle_level xs"
| "merkle_level [a] = [hash_pair a a]"
| "merkle_level [] = []"

lemma length_merkle_level: "length (merkle_level xs) = (length xs + 1) div 2"
  by (induction xs rule: merkle_level.induct) auto

function merkle_root :: "byte list list \<Rightarrow> byte list" where
  "merkle_root xs = (if length xs \<le> 1 then hd xs else merkle_root (merkle_level xs))"
  by pat_completeness auto
termination by (relation "measure length") (auto simp: length_merkle_level)

declare merkle_root.simps [simp del]

section \<open>The loops compute the root\<close>

definition nodes32 :: "byte list list \<Rightarrow> bool" where
  "nodes32 xs \<longleftrightarrow> (\<forall>x \<in> set xs. length x = 32)"

lemma sha256d_pair: "length a = 32 \<Longrightarrow> length b = 32 \<Longrightarrow> sha256d (a @ b) 64 = hash_pair a b"
  using sha256d_fips [of 64 "a @ b"] by (simp add: hash_pair_def)

lemma length_merkle_pass [simp]: "length (merkle_pass tree i n) = length tree"
proof (induction tree i n rule: merkle_pass.induct)
  case (1 tree i n)
  then show ?case by (subst merkle_pass.simps) simp
qed

lemma merkle_pass_nth:
  "\<lbrakk>nodes32 (take (2 * n) tree); 2 * n \<le> length tree; i \<le> n\<rbrakk> \<Longrightarrow>
   merkle_pass tree i n ! k = (if i \<le> k \<and> k < n then hash_pair (tree ! (2 * k)) (tree ! (2 * k + 1)) else tree ! k)"
proof (induction "n - i" arbitrary: tree i)
  case 0
  then show ?case by (subst merkle_pass.simps) auto
next
  case (Suc d)
  then have i: "i < n" by simp
  define tree' where "tree' = tree[i := sha256d (tree ! (2 * i) @ tree ! (2 * i + 1)) 64]"
  have n32: "length (tree ! j) = 32" if "j < 2 * n" for j
    using Suc.prems(1,2) that nth_mem [of j "take (2 * n) tree"] by (simp add: nodes32_def)
  have s: "sha256d (tree ! (2 * i) @ tree ! (2 * i + 1)) 64 = hash_pair (tree ! (2 * i)) (tree ! (2 * i + 1))"
    using i by (intro sha256d_pair n32) auto
  have "length (hash_pair a b) = 32" for a b by (simp add: hash_pair_def layout_simps)
  then have t32: "nodes32 (take (2 * n) tree')"
    using n32 Suc.prems(2) i unfolding nodes32_def tree'_def s
    by (auto simp: in_set_conv_nth nth_list_update)
  have "merkle_pass tree i n = merkle_pass tree' (i + 1) n"
    using i by (subst merkle_pass.simps) (simp add: tree'_def)
  also have "\<dots> ! k = (if i + 1 \<le> k \<and> k < n then hash_pair (tree' ! (2 * k)) (tree' ! (2 * k + 1)) else tree' ! k)"
    using Suc i t32 by (intro Suc.hyps(1)) (simp_all add: tree'_def)
  also have "\<dots> = (if i \<le> k \<and> k < n then hash_pair (tree ! (2 * k)) (tree ! (2 * k + 1)) else tree ! k)"
    unfolding tree'_def s using i Suc.prems(2) by (cases "k = i") auto
  finally show ?case .
qed

lemma merkle_level_nth:
  "k < length (merkle_level xs) \<Longrightarrow>
   merkle_level xs ! k = hash_pair (xs ! (2 * k)) (if 2 * k + 1 < length xs then xs ! (2 * k + 1) else xs ! (2 * k))"
proof (induction xs arbitrary: k rule: merkle_level.induct)
  case (1 a b xs)
  then show ?case by (cases k) auto
qed auto

text \<open>One round: duplicate the last node of an odd number, then hash the pairs.\<close>

lemma merkle_round:
  assumes "nodes32 (take n tree)" "n + n mod 2 \<le> length tree" "1 < n"
  defines "tree' \<equiv> (if odd n then tree[n := tree ! (n - 1)] else tree)" and "m \<equiv> (n + 1) div 2"
  shows "take m (merkle_pass tree' 0 m) = merkle_level (take n tree)"
    and "nodes32 (take m (merkle_pass tree' 0 m))" and "m + m mod 2 \<le> length (merkle_pass tree' 0 m)" and "m < n" "0 < m"
proof -
  have m2: "2 * m = n + n mod 2" unfolding m_def by presburger
  have len: "length tree' = length tree" by (simp add: tree'_def)
  have n: "n \<le> length tree" using assms(2) by simp
  have nth: "tree' ! k = take n tree ! k" if "k < n" for k
    using that by (simp add: tree'_def)
  have last: "tree' ! n = tree ! (n - 1)" if "odd n" "n < length tree" using that by (simp add: tree'_def)
  have "length (tree' ! k) = 32" if "k < 2 * m" for k
  proof (cases "k < n")
    case True
    then have "take n tree ! k \<in> set (take n tree)" using n by (intro nth_mem) simp
    then show ?thesis using assms(1) True by (simp add: nth nodes32_def)
  next
    case False
    then have k: "k = n" "odd n" using that m2 by presburger+
    have "tree ! (n - 1) \<in> set (take n tree)"
      using n assms(3) nth_mem [of "n - 1" "take n tree"] by simp
    then show ?thesis using assms(1,2) k that m2 last by (auto simp: nodes32_def)
  qed
  then have t32: "nodes32 (take (2 * m) tree')"
    using m2 assms(2) len by (auto simp: nodes32_def in_set_conv_nth)
  have pass: "merkle_pass tree' 0 m ! k = hash_pair (tree' ! (2 * k)) (tree' ! (2 * k + 1))" if "k < m" for k
    using merkle_pass_nth [OF t32, of 0 k] m2 assms(2) len that by simp
  show level: "take m (merkle_pass tree' 0 m) = merkle_level (take n tree)"
  proof (rule nth_equalityI)
    show "length (take m (merkle_pass tree' 0 m)) = length (merkle_level (take n tree))"
      using m2 assms(2) len n by (simp add: length_merkle_level m_def)
    fix k assume "k < length (take m (merkle_pass tree' 0 m))"
    then have k: "k < m" by simp
    have "tree' ! (2 * k + 1) = (if 2 * k + 1 < n then take n tree ! (2 * k + 1) else take n tree ! (2 * k))"
    proof (cases "2 * k + 1 < n")
      case True
      then show ?thesis by (simp add: nth)
    next
      case False
      then have o: "odd n" "2 * k + 1 = n" using k m2 by presburger+
      then have "n < length tree" using assms(2) by presburger
      then have "tree' ! n = tree ! (n - 1)" using last o(1) by blast
      then show ?thesis using o(2) False by (simp flip: o(2))
    qed
    moreover have "tree' ! (2 * k) = take n tree ! (2 * k)" using k m2 by (intro nth) presburger
    moreover have "merkle_level (take n tree) ! k = hash_pair (take n tree ! (2 * k))
        (if 2 * k + 1 < n then take n tree ! (2 * k + 1) else take n tree ! (2 * k))"
      using merkle_level_nth [of k "take n tree"] k n
      by (simp add: length_merkle_level m_def min_absorb2 del: nth_take)
    moreover have "take m (merkle_pass tree' 0 m) ! k = merkle_pass tree' 0 m ! k" using k by simp
    ultimately show "take m (merkle_pass tree' 0 m) ! k = merkle_level (take n tree) ! k"
      using pass [OF k] by (simp only:)
  qed
  have "nodes32 (merkle_level xs)" for xs
    by (induction xs rule: merkle_level.induct) (auto simp: nodes32_def hash_pair_def layout_simps)
  then show "nodes32 (take m (merkle_pass tree' 0 m))" by (simp add: level)
  show "m < n" "0 < m" using assms(3) by (simp_all add: m_def)
  then show "m + m mod 2 \<le> length (merkle_pass tree' 0 m)"
    using assms(2) len by (simp add: m_def)
qed

lemma wtree_loop_root:
  "\<lbrakk>nodes32 (take n tree); n + n mod 2 \<le> length tree; 0 < n\<rbrakk> \<Longrightarrow>
   wtree_loop tree n ! 0 = merkle_root (take n tree) \<and> length (wtree_loop tree n) = length tree"
proof (induction n arbitrary: tree rule: less_induct)
  case (less n)
  show ?case
  proof (cases "1 < n")
    case True
    define tree' where "tree' = (if odd n then tree[n := tree ! (n - 1)] else tree)"
    define m where "m = (n + 1) div 2"
    note round = merkle_round [OF less.prems(1,2) True, folded tree'_def m_def]
    have "wtree_loop tree n = wtree_loop (merkle_pass tree' 0 m) m"
      using True by (subst wtree_loop.simps) (simp add: Let_def tree'_def m_def)
    moreover have "merkle_root (take n tree) = merkle_root (merkle_level (take n tree))"
      using True less.prems(2) by (subst merkle_root.simps) simp
    ultimately show ?thesis
      using less.IH [OF round(4,2,3,5)] by (simp add: round(1)) (simp add: tree'_def)
  next
    case False
    then have "n = 1" using less.prems(3) by simp
    moreover have "wtree_loop tree 1 = tree" by (subst wtree_loop.simps) simp
    moreover have "merkle_root (take 1 tree) = hd (take 1 tree)" by (subst merkle_root.simps) simp
    moreover have "tree \<noteq> []" using less.prems(2) \<open>n = 1\<close> by auto
    ultimately show ?thesis by (cases tree) simp_all
  qed
qed

lemma merkle_loop_wtree: "merkle_loop tree n = wtree_loop tree n"
proof (induction n arbitrary: tree rule: less_induct)
  case (less n)
  show ?case
  proof (cases "1 < n")
    case True
    then have "(n + 1) div 2 < n" by simp
    from less.IH [OF this] True show ?thesis
      by (subst merkle_loop.simps, subst wtree_loop.simps) (auto simp: Let_def elim!: evenE)
  qed (subst merkle_loop.simps, subst wtree_loop.simps, simp)
qed


section \<open>Branches\<close>

text \<open>The root from the leftmost leaf and the nodes beside its path, as stratum jobs give it.\<close>

definition fold_branch :: "byte list \<Rightarrow> byte list list \<Rightarrow> byte list" where
  "fold_branch leaf branch = foldl hash_pair leaf branch"

text \<open>The branch beside leaf 0: at each level the second node (the first again when alone).\<close>

function left_branch :: "byte list list \<Rightarrow> byte list list" where
  "left_branch xs = (if length xs \<le> 1 then [] else xs ! 1 # left_branch (merkle_level xs))"
  by pat_completeness auto
termination by (relation "measure length") (auto simp: length_merkle_level)

declare left_branch.simps [simp del]

lemma merkle_root_fold: "xs \<noteq> [] \<Longrightarrow> merkle_root xs = fold_branch (hd xs) (left_branch xs)"
proof (induction xs rule: merkle_root.induct)
  case (1 xs)
  show ?case
  proof (cases "length xs \<le> 1")
    case True
    then show ?thesis
      by (subst merkle_root.simps, subst left_branch.simps) (simp add: fold_branch_def)
  next
    case False
    then obtain a b ys where xs: "xs = a # b # ys" by (cases xs rule: merkle_level.cases) auto
    have "merkle_root xs = fold_branch (hd (merkle_level xs)) (left_branch (merkle_level xs))"
      using 1 False xs by (subst merkle_root.simps) simp
    moreover have "left_branch xs = b # left_branch (merkle_level xs)"
      by (subst left_branch.simps) (simp add: xs)
    ultimately show ?thesis by (simp add: xs fold_branch_def)
  qed
qed

text \<open>Changing the first leaf keeps the branch.\<close>

lemma left_branch_first: "left_branch (a # xs) = left_branch (a' # xs)"
proof (induction "length xs" arbitrary: a a' xs rule: less_induct)
  case less
  show ?case
  proof (cases xs)
    case Nil
    then show ?thesis by (subst (1 2) left_branch.simps) simp
  next
    case (Cons b ys)
    have "length (merkle_level ys) < length xs" by (simp add: Cons length_merkle_level)
    from less [OF this, of "hash_pair a b" "hash_pair a' b"] show ?thesis
      by (subst (1 2) left_branch.simps) (simp add: Cons)
  qed
qed


text \<open>Both in-place reductions leave the Merkle root of their \<open>n\<close> leaves in node 0 and write
  nothing outside the array, which needs one spare node when \<open>n\<close> is odd.\<close>

theorem merkle_loops_correct:
  assumes "\<forall>x \<in> set (take n tree). length x = 32" "n + n mod 2 \<le> length tree" "0 < n"
  shows "merkle_loop tree n ! 0 = merkle_root (take n tree) \<and> length (merkle_loop tree n) = length tree
    \<and> wtree_loop tree n ! 0 = merkle_root (take n tree) \<and> length (wtree_loop tree n) = length tree"
  using wtree_loop_root [of n tree] assms by (simp add: merkle_loop_wtree nodes32_def)

lemma merkle_loops_correct_witness:
  "merkle_loop [replicate 32 1, replicate 32 2, replicate 32 3, []] 3 ! 0
    = merkle_root [replicate 32 1, replicate 32 2, replicate 32 3]"
  using merkle_loops_correct [of 3 "[replicate 32 1, replicate 32 2, replicate 32 3, []]"] by simp

end
