(* ===== verification/Gbt.thy ===== *)
theory Gbt
  imports Json Merkle Target
begin

text \<open>
  Decoding of work: \<open>work_decode\<close> (getwork) and \<open>gbt_work_decode\<close> (getblocktemplate) of
  \<open>cpu-miner.c\<close>, with the construction of the coinbase transaction, the witness commitment and
  the block header. The host is little-endian.
\<close>

section \<open>Work\<close>

record work =
  w_data :: "u32 list"
  w_target :: "u32 list"
  w_height :: int
  w_txs :: "string option"
  w_workid :: "string option"
  w_job_id :: "string option"
  w_xnonce2 :: "byte list"
  w_seed_hash :: "byte list"
  w_rx_hash :: "byte list"

text \<open>The work that \<open>calloc\<close> gives.\<close>

definition work_zero :: work where
  "work_zero = \<lparr>w_data = replicate 32 0, w_target = replicate 8 0, w_height = 0, w_txs = None,
     w_workid = None, w_job_id = None, w_xnonce2 = [], w_seed_hash = replicate 32 0, w_rx_hash = replicate 32 0\<rparr>"

definition work_decode :: "json option \<Rightarrow> work \<Rightarrow> bool \<times> work" where
  "work_decode val work =
     (case jobj_binary val ''data'' 128 of
        None \<Rightarrow> (False, work)
      | Some d \<Rightarrow>
          (case jobj_binary val ''target'' 32 of
             None \<Rightarrow> (False, work\<lparr>w_data := words_of le32dec d\<rparr>)
           | Some t \<Rightarrow> (True, work\<lparr>w_data := words_of le32dec d, w_target := words_of le32dec t\<rparr>)))"

section \<open>Outcomes\<close>

text \<open>
  A part of the decoder gives a value, fails (it logs an error and the decoder returns false), or
  does something the language does not define.
\<close>

datatype 'a outcome = Value 'a | Fail | Undefined

fun and_then :: "'a outcome \<Rightarrow> ('a \<Rightarrow> 'b outcome) \<Rightarrow> 'b outcome" where
  "and_then (Value x) f = f x"
| "and_then Fail f = Fail"
| "and_then Undefined f = Undefined"

text \<open>The settings and the global variables the decoder reads, and those it changes.\<close>

record gbt_cfg =
  c_pk_script :: "byte list"
  c_allow_getwork :: bool
  c_want_longpoll :: bool
  c_coinbase_sig :: string
  c_rpc_url :: string

record gbt_env =
  e_have_gbt :: bool
  e_have_longpoll :: bool
  e_lp_id :: "string option"
  e_longpoll_queue :: "string list"

section \<open>The template's flags and numbers\<close>

definition gbt_segwit :: "json option \<Rightarrow> bool" where
  "gbt_segwit val =
     list_ex (\<lambda>s. s = Some ''segwit'' \<or> s = Some ''!segwit'')
       (map (\<lambda>j. json_string_value (Some j)) (json_array_elems (json_object_get val ''rules'')))"

text \<open>\<open>coinbase/append\<close> and \<open>submit/coinbase\<close> in \<open>mutable\<close>.\<close>

definition gbt_mutable :: "json option \<Rightarrow> string \<Rightarrow> bool" where
  "gbt_mutable val what =
     list_ex (\<lambda>s. s = Some what)
       (map (\<lambda>j. json_string_value (Some j)) (json_array_elems (json_object_get val ''mutable'')))"

text \<open>A required integer.\<close>

definition gbt_integer :: "json option \<Rightarrow> string \<Rightarrow> int outcome" where
  "gbt_integer val key =
     (let tmp = json_object_get val key
      in if json_is_integer tmp then Value (json_integer_value tmp) else Fail)"

text \<open>The sizes of the transactions' data; a transaction without data fails.\<close>

fun gbt_tx_size :: "json list \<Rightarrow> nat outcome" where
  "gbt_tx_size [] = Value 0"
| "gbt_tx_size (tx # txs) =
     (case json_string_value (json_object_get (Some tx) ''data'') of
        None \<Rightarrow> Fail
      | Some tx_hex \<Rightarrow> and_then (gbt_tx_size txs) (\<lambda>n. Value (length tx_hex div 2 + n)))"

section \<open>The coinbase transaction\<close>

text \<open>
  The bytes of the height, least significant first, with a zero byte when the last would be read
  as negative. The shift keeps the sign, so a negative height never reaches zero.
\<close>

partial_function (option) gbt_height_bytes :: "int \<Rightarrow> byte list \<Rightarrow> byte list option" where
  "gbt_height_bytes n acc =
     (if n = 0 then Some acc
      else (let acc = acc @ [of_int (n AND 0xff)];
                acc = (if n < 0x100 \<and> 0x80 \<le> n then acc @ [0] else acc)
            in gbt_height_bytes (drop_bit 8 n) acc))"

text \<open>The script signature from its first byte, as \<open>cbtx[42]\<close> and on.\<close>

definition gbt_height_script :: "int \<Rightarrow> byte list outcome" where
  "gbt_height_script height =
     (if 1 \<le> height \<and> height \<le> 16 then Value [of_int (height + 0x50), 0]
      else (case gbt_height_bytes height [] of
              None \<Rightarrow> Undefined
            | Some bs \<Rightarrow> Value (of_nat (length bs) # bs)))"

text \<open>The leaf of the witness tree for each transaction.\<close>

fun gbt_wtree_leaves :: "json list \<Rightarrow> byte list list outcome" where
  "gbt_wtree_leaves [] = Value []"
| "gbt_wtree_leaves (tx # txs) =
     (case json_object_get (Some tx) ''hash'' of
        None \<Rightarrow> Fail
      | Some h \<Rightarrow>
          (case hex2bin (replicate 32 0) (json_string_value (Some h)) 32 of
             (ok, buf) \<Rightarrow>
               if ok then and_then (gbt_wtree_leaves txs) (\<lambda>ls. Value (memrev buf 32 # ls)) else Fail))"

text \<open>The output that commits to the witness tree; the coinbase's own leaf is zero.\<close>

definition gbt_witness_output :: "byte list list \<Rightarrow> byte list" where
  "gbt_witness_output leaves =
     (let tx_count = length leaves;
          wtree = replicate 32 0 # leaves @ [replicate 32 0];
          wtree = wtree_loop wtree (tx_count + 1);
          wtree = wtree[1 := replicate 32 0]
      in replicate 8 0 @ [38, 0x6a, 0x24, 0xaa, 0x21, 0xa9, 0xed]
           @ sha256d (wtree ! 0 @ wtree ! 1) 64)"

definition gbt_cbvalue :: "json option \<Rightarrow> int outcome" where
  "gbt_cbvalue val =
     (let tmp = json_object_get val ''coinbasevalue''
      in if \<not> json_is_number tmp then Fail
         else if json_is_integer tmp then Value (json_integer_value tmp)
         else (let v = (let r = json_number_value tmp in if 0 \<le> r then \<lfloor>r\<rfloor> else \<lceil>r\<rceil>)
               in if - (2 ^ 63) \<le> v \<and> v < 2 ^ 63 then Value v else Undefined))"

definition gbt_make_coinbase :: "gbt_cfg \<Rightarrow> json option \<Rightarrow> int \<Rightarrow> bool \<Rightarrow> json list \<Rightarrow> byte list outcome" where
  "gbt_make_coinbase cfg val height segwit txs =
     (if c_pk_script cfg = [] then Fail
      else and_then (gbt_cbvalue val) (\<lambda>cbvalue.
           and_then (gbt_height_script height) (\<lambda>script.
             (let cbtx = le32enc 1 @ [1] @ replicate 32 0 @ le32enc 0xffffffff
                    @ [of_nat (length script)] @ script @ le32enc 0xffffffff
                    @ [if segwit then 2 else 1]
                    @ le32enc (of_int cbvalue) @ le32enc (of_int (drop_bit 32 cbvalue))
                    @ [of_nat (length (c_pk_script cfg))] @ c_pk_script cfg
              in and_then (if segwit
                           then and_then (gbt_wtree_leaves txs) (\<lambda>ls. Value (cbtx @ gbt_witness_output ls))
                           else Value cbtx)
                   (\<lambda>cbtx. Value (cbtx @ le32enc 0))))))"

text \<open>A coinbase transaction from the server.\<close>

definition gbt_given_coinbase :: "json \<Rightarrow> byte list outcome" where
  "gbt_given_coinbase tmp =
     (let cbtx_hex = json_string_value (json_object_get (Some tmp) ''data'');
          cbtx_size = (case cbtx_hex of Some s \<Rightarrow> length s div 2 | None \<Rightarrow> 0)
      in if cbtx_size < 60 then Fail
         else (case hex2bin (replicate cbtx_size 0) cbtx_hex cbtx_size of
                 (ok, cbtx) \<Rightarrow> if ok then Value cbtx else Fail))"

section \<open>Data appended to the script signature\<close>

text \<open>The signature option and then each member of \<open>coinbaseaux\<close>, as long as they fit.\<close>

fun gbt_aux_data :: "nat \<Rightarrow> byte list \<Rightarrow> json list \<Rightarrow> byte list" where
  "gbt_aux_data cb41 xsig [] = xsig"
| "gbt_aux_data cb41 xsig (v # vs) =
     (case json_string_value (Some v) of
        None \<Rightarrow> xsig
      | Some s \<Rightarrow>
          (let n = length s div 2
           in if 100 < n then xsig
              else (case hex2bin (replicate 100 0) (Some s) n of
                      (ok, buf) \<Rightarrow>
                        if \<not> ok then xsig
                        else if cb41 + length xsig + n \<le> 100
                        then gbt_aux_data cb41 (xsig @ take n buf) vs
                        else gbt_aux_data cb41 xsig vs)))"

definition gbt_xsig :: "string \<Rightarrow> json option \<Rightarrow> nat \<Rightarrow> byte list" where
  "gbt_xsig coinbase_sig val cb41 =
     (let xsig = (if coinbase_sig \<noteq> [] \<and> cb41 + length coinbase_sig \<le> 100
                  then map of_char coinbase_sig else [])
      in gbt_aux_data cb41 xsig (json_object_values (json_object_get val ''coinbaseaux'')))"

text \<open>
  Room is made after the script signature by moving the rest of the transaction, whose length the
  code computes from the length byte \<open>cbtx[41]\<close>: a byte that reaches past the transaction makes
  it negative.
\<close>

definition gbt_append_xsig :: "byte list \<Rightarrow> byte list \<Rightarrow> byte list outcome" where
  "gbt_append_xsig cbtx xsig =
     (let cb41 = unat (cbtx ! 41); xsig_len = length xsig
      in if xsig_len = 0 then Value cbtx
         else if length cbtx < 42 + cb41 then Undefined
         else (let push_len = (if cb41 + xsig_len < 76 then 1 else if 100 < cb41 + 2 + xsig_len then 0 else 2);
                   n = xsig_len + push_len;
                   push = (if push_len = 2 then [0x4c] else []) @ (if push_len \<noteq> 0 then [of_nat xsig_len] else [])
               in Value ((take (42 + cb41) cbtx)[41 := cbtx ! 41 + of_nat n] @ push @ xsig
                         @ drop (42 + cb41) cbtx)))"

definition gbt_coinbase :: "gbt_cfg \<Rightarrow> json option \<Rightarrow> int \<Rightarrow> bool \<Rightarrow> json list \<Rightarrow> byte list outcome" where
  "gbt_coinbase cfg val height segwit txs =
     (case json_object_get val ''coinbasetxn'' of
        Some tmp \<Rightarrow>
          and_then (gbt_given_coinbase tmp) (\<lambda>cbtx.
            if gbt_mutable val ''coinbase/append''
            then gbt_append_xsig cbtx (gbt_xsig (c_coinbase_sig cfg) val (unat (cbtx ! 41)))
            else Value cbtx)
      | None \<Rightarrow>
          and_then (gbt_make_coinbase cfg val height segwit txs) (\<lambda>cbtx.
            gbt_append_xsig cbtx (gbt_xsig (c_coinbase_sig cfg) val (unat (cbtx ! 41)))))"

section \<open>The transaction list and the Merkle tree\<close>

text \<open>The leaf of a transaction: its id read backwards, or the hash of its data.\<close>

definition gbt_leaf :: "bool \<Rightarrow> json \<Rightarrow> byte list outcome" where
  "gbt_leaf segwit tx =
     (if segwit
      then (case json_string_value (json_object_get (Some tx) ''txid'') of
              None \<Rightarrow> Fail
            | Some txid \<Rightarrow>
                (case hex2bin (replicate 32 0) (Some txid) 32 of
                   (ok, buf) \<Rightarrow> if ok then Value (memrev buf 32) else Fail))
      else (case json_string_value (json_object_get (Some tx) ''data'') of
              None \<Rightarrow> Fail
            | Some tx_hex \<Rightarrow>
                (let tx_size = length tx_hex div 2
                 in case hex2bin (replicate tx_size 0) (Some tx_hex) tx_size of
                      (ok, tx) \<Rightarrow> if ok then Value (sha256d tx (int tx_size)) else Fail)))"

text \<open>
  The loop over the transactions: their leaves, and the hexadecimal data copied behind the
  coinbase unless the server wants the coinbase alone. \<open>room\<close> is what is left of the space that was
  allocated for the data: a longer text runs past the buffer.
\<close>

fun gbt_tx_loop :: "bool \<Rightarrow> bool \<Rightarrow> nat \<Rightarrow> json list \<Rightarrow> byte list list outcome \<times> string" where
  "gbt_tx_loop segwit submit_coinbase room [] = (Value [], [])"
| "gbt_tx_loop segwit submit_coinbase room (tx # txs) =
     (case gbt_leaf segwit tx of
        Fail \<Rightarrow> (Fail, [])
      | Undefined \<Rightarrow> (Undefined, [])
      | Value leaf \<Rightarrow>
          (let tx_hex = (if submit_coinbase then []
                         else (case json_string_value (json_object_get (Some tx) ''data'') of Some s \<Rightarrow> s | None \<Rightarrow> []))
           in if room < length tx_hex then (Undefined, [])
              else (case gbt_tx_loop segwit submit_coinbase (room - length tx_hex) txs of
                      (leaves, out) \<Rightarrow> (and_then leaves (\<lambda>ls. Value (leaf # ls)), tx_hex @ out))))"

text \<open>\<open>work->txs\<close>: the count, the coinbase and the transactions.\<close>

definition gbt_txs :: "nat \<Rightarrow> byte list \<Rightarrow> string \<Rightarrow> string" where
  "gbt_txs tx_count cbtx tx_hex =
     (let txc_vi = varint_encode (of_nat (1 + tx_count))
      in bin2hex txc_vi (length txc_vi) @ bin2hex cbtx (length cbtx) @ tx_hex)"

definition gbt_merkle_root :: "byte list \<Rightarrow> byte list list \<Rightarrow> byte list" where
  "gbt_merkle_root cbtx leaves =
     (let tx_count = length leaves;
          tree = sha256d cbtx (int (length cbtx)) # leaves @ (if even tx_count then [replicate 32 0] else [])
      in merkle_loop tree (1 + tx_count) ! 0)"

section \<open>The block header\<close>

text \<open>The 32 words of \<open>work->data\<close>, with the padding for the SHA-256 scanner.\<close>

definition gbt_header :: "int \<Rightarrow> byte list \<Rightarrow> byte list \<Rightarrow> int \<Rightarrow> byte list \<Rightarrow> u32 list" where
  "gbt_header version prevhash merkle curtime bits =
     [swab32 (of_int version)]
     @ rev (words_of le32dec prevhash)
     @ words_of be32dec merkle
     @ [swab32 (of_int curtime), le32dec bits, 0, 0x80000000]
     @ replicate 10 0 @ [0x280]"

text \<open>\<open>sprintf("%d")\<close>.\<close>

fun fmt_nat :: "nat \<Rightarrow> string" where
  "fmt_nat n = (if n < 10 then [''0123456789'' ! n] else fmt_nat (n div 10) @ [''0123456789'' ! (n mod 10)])"

declare fmt_nat.simps [simp del]

definition fmt_d :: "u32 \<Rightarrow> string" where
  "fmt_d x = (if sint x < 0 then CHR ''-'' # fmt_nat (nat (- sint x)) else fmt_nat (nat (sint x)))"

text \<open>The key of the RandomX epoch. A duration of zero is a division by zero.\<close>

definition gbt_seed_hash :: "int \<Rightarrow> int \<Rightarrow> byte list outcome" where
  "gbt_seed_hash curtime duration =
     (let epochDuration = of_int duration :: u32
      in if epochDuration = 0 then Undefined
         else (let nEpoch = of_int curtime div epochDuration;
                   s = ''Alpha/RandomX/Epoch/'' @ fmt_d nEpoch
               in Value (sha256d (map of_char s) (int (length s)))))"

section \<open>The decoder\<close>

text \<open>\<open>work->height\<close> is an \<open>int\<close>.\<close>

definition int32 :: "int \<Rightarrow> int" where
  "int32 v = signed_take_bit 31 v"

text \<open>
  The long-polling part at the end: the id is kept, and the first time a queue message starts the
  long-polling thread.
\<close>

definition gbt_longpoll :: "gbt_cfg \<Rightarrow> json option \<Rightarrow> gbt_env \<Rightarrow> gbt_env" where
  "gbt_longpoll cfg val env =
     (let tmp = json_object_get val ''longpollid''
      in if c_want_longpoll cfg \<and> json_is_string tmp
         then (let env = env\<lparr>e_lp_id := json_string_value tmp\<rparr>
               in if e_have_longpoll env then env
                  else (let uri = (case json_string_value (json_object_get val ''longpolluri'') of
                                     Some s \<Rightarrow> s | None \<Rightarrow> c_rpc_url cfg)
                        in env\<lparr>e_have_longpoll := True, e_longpoll_queue := e_longpoll_queue env @ [uri]\<rparr>))
         else env)"

text \<open>
  The checks before the coinbase: the height is stored in the work before the later ones can fail.
\<close>

definition gbt_fields :: "json option \<Rightarrow> (int \<times> byte list \<times> int \<times> int \<times> byte list \<times> json list \<times> nat) outcome" where
  "gbt_fields val =
     and_then (gbt_integer val ''version'') (\<lambda>version.
       (case jobj_binary val ''previousblockhash'' 32 of
          None \<Rightarrow> Fail
        | Some prevhash \<Rightarrow>
            and_then (gbt_integer val ''rx_epoch_duration'') (\<lambda>duration.
            and_then (gbt_integer val ''curtime'') (\<lambda>curtime.
              (case jobj_binary val ''bits'' 4 of
                 None \<Rightarrow> Fail
               | Some bits \<Rightarrow>
                   (let txa = json_object_get val ''transactions''
                    in if \<not> json_is_array txa then Fail
                       else and_then (gbt_tx_size (json_array_elems txa)) (\<lambda>tx_size.
                              Value (version, prevhash, duration, curtime, bits, json_array_elems txa, tx_size))))))))"

text \<open>The target and the members after it.\<close>

definition gbt_finish :: "gbt_cfg \<Rightarrow> json option \<Rightarrow> work \<Rightarrow> gbt_env \<Rightarrow> bool \<times> work \<times> gbt_env" where
  "gbt_finish cfg val work env =
     (case jobj_binary val ''target'' 32 of
        None \<Rightarrow> (False, work, env)
      | Some target \<Rightarrow>
          (let work = work\<lparr>w_target := rev (words_of be32dec target)\<rparr>
           in case json_object_get val ''workid'' of
                None \<Rightarrow> (True, work, gbt_longpoll cfg val env)
              | Some tmp \<Rightarrow>
                  if \<not> json_is_string (Some tmp) then (False, work, env)
                  else (True, work\<lparr>w_workid := json_string_value (Some tmp)\<rparr>, gbt_longpoll cfg val env)))"

text \<open>
  The result of the decoder: \<open>None\<close> when it does something undefined, else the return value, the
  work and the globals. Without a payout address it may turn getblocktemplate off.
\<close>

definition gbt_work_decode :: "gbt_cfg \<Rightarrow> json option \<Rightarrow> work \<Rightarrow> gbt_env \<Rightarrow> (bool \<times> work \<times> gbt_env) option" where
  "gbt_work_decode cfg val work env =
     (case gbt_integer val ''height'' of
        Fail \<Rightarrow> Some (False, work, env)
      | Undefined \<Rightarrow> None
      | Value h \<Rightarrow>
          (let work = work\<lparr>w_height := int32 h\<rparr>
           in case gbt_fields val of
                Fail \<Rightarrow> Some (False, work, env)
              | Undefined \<Rightarrow> None
              | Value (version, prevhash, duration, curtime, bits, txa, tx_size) \<Rightarrow>
                  (let segwit = gbt_segwit val;
                       env = (if json_object_get val ''coinbasetxn'' = None \<and> c_pk_script cfg = [] \<and> c_allow_getwork cfg
                              then env\<lparr>e_have_gbt := False\<rparr> else env)
                   in case gbt_coinbase cfg val (w_height work) segwit txa of
                        Fail \<Rightarrow> Some (False, work, env)
                      | Undefined \<Rightarrow> None
                      | Value cbtx \<Rightarrow>
                          (case gbt_tx_loop segwit (gbt_mutable val ''submit/coinbase'') (2 * tx_size) txa of
                             (res, tx_hex) \<Rightarrow>
                               (let work = work\<lparr>w_txs := Some (gbt_txs (length txa) cbtx tx_hex)\<rparr>
                                in case res of
                                     Fail \<Rightarrow> Some (False, work, env)
                                   | Undefined \<Rightarrow> None
                                   | Value leaves \<Rightarrow>
                                       (let work = work\<lparr>w_data := gbt_header version prevhash
                                              (gbt_merkle_root cbtx leaves) curtime bits\<rparr>
                                        in case gbt_seed_hash curtime duration of
                                             Fail \<Rightarrow> Some (False, work, env)
                                           | Undefined \<Rightarrow> None
                                           | Value seed \<Rightarrow> Some (gbt_finish cfg val (work\<lparr>w_seed_hash := seed\<rparr>) env)))))))"

section \<open>The header\<close>

lemma length_gbt_header:
  "length prevhash = 32 \<Longrightarrow> length merkle = 32 \<Longrightarrow> length (gbt_header version prevhash merkle curtime bits) = 32"
  by (simp add: gbt_header_def layout_simps)

lemma gbt_header_bytes:
  assumes "length prevhash = 32" "length merkle = 32" "length bits = 4"
  shows "bytes_of be32enc (take 20 (gbt_header version prevhash merkle curtime bits))
    = le32enc (of_int version) @ rev prevhash @ merkle @ le32enc (of_int curtime) @ rev bits @ replicate 4 0"
proof -
  have p: "bytes_of be32enc (rev (words_of le32dec prevhash)) = rev prevhash"
    by (rule bytes_of_rev_words [where n = 8]) (simp add: assms)
  have m: "bytes_of be32enc (words_of be32dec merkle) = merkle"
    by (rule be32.bytes_of_words_of [where n = 8]) (simp add: assms)
  have b: "be32enc (le32dec bits) = rev bits"
    using assms(3) by (simp add: le32dec_rev be32enc_be32dec)
  have z: "be32enc 0 = replicate 4 0" by (simp add: be32enc_def numeral_eq_Suc)
  have "take 20 (gbt_header version prevhash merkle curtime bits)
      = [swab32 (of_int version)] @ rev (words_of le32dec prevhash) @ words_of be32dec merkle
        @ [swab32 (of_int curtime), le32dec bits, 0]"
    using assms by (simp add: gbt_header_def layout_simps)
  then show ?thesis by (simp add: p m b z be32enc_swab32)
qed

lemma gbt_header_padding:
  assumes "length prevhash = 32" "length merkle = 32"
  shows "drop 20 (gbt_header version prevhash merkle curtime bits) = 0x80000000 # replicate 10 0 @ [0x280]"
  using assms by (simp add: gbt_header_def layout_simps)

lemma target_val: "length t = 32 \<Longrightarrow> words_val (rev (words_of be32dec t)) = be_val t"
  using be32.bytes_of_words_of [of t 8] be_val_bytes_of [of "words_of be32dec t"]
  by (simp add: words_val_def)

lemma jobj_binary_length: "jobj_binary val key n = Some buf \<Longrightarrow> length buf = n"
  using hex2bin_iff [of n "replicate n 0"]
  by (auto simp: jobj_binary_def split: option.splits prod.splits if_splits)

section \<open>The Merkle root\<close>

lemma length_sha256d: "length (sha256d m (int n)) = 32" if "n \<le> length m" "n < 2 ^ 28"
  using sha256d_fips [OF that] by (simp add: layout_simps)

lemma gbt_leaf_length:
  assumes "gbt_leaf segwit tx = Value leaf"
    and "\<forall>s. json_string_value (json_object_get (Some tx) ''data'') = Some s \<longrightarrow> length s < 2 ^ 28"
  shows "length leaf = 32"
proof -
  have "length (memrev buf 32) = length buf" for buf by (simp add: memrev_def layout_simps)
  moreover have "hex2bin (replicate n 0) (Some s) n = (True, buf) \<Longrightarrow> length buf = n" for s n buf
    using hex2bin_iff [of n "replicate n 0" s buf] by auto
  ultimately show ?thesis
    using assms by (auto simp: gbt_leaf_def Let_def intro!: length_sha256d split: if_splits option.splits prod.splits)
qed

lemma gbt_tx_loop_leaves:
  assumes "gbt_tx_loop segwit sub room txs = (Value leaves, out)"
    and "\<forall>tx \<in> set txs. \<forall>s. json_string_value (json_object_get (Some tx) ''data'') = Some s \<longrightarrow> length s < 2 ^ 28"
  shows "length leaves = length txs \<and> nodes32 leaves
    \<and> (\<forall>i < length txs. gbt_leaf segwit (txs ! i) = Value (leaves ! i)) \<and> length out \<le> room"
  using assms
proof (induction txs arbitrary: room leaves out)
  case Nil
  then show ?case by (simp add: nodes32_def)
next
  case (Cons tx txs)
  obtain leaf where leaf: "gbt_leaf segwit tx = Value leaf"
    using Cons.prems(1) by (auto split: outcome.splits)
  define hex where "hex = (if sub then [] else (case json_string_value (json_object_get (Some tx) ''data'') of Some s \<Rightarrow> s | None \<Rightarrow> []))"
  have room: "length hex \<le> room"
    using Cons.prems(1) by (auto simp: leaf Let_def simp flip: hex_def split: if_splits)
  obtain res o' where rec: "gbt_tx_loop segwit sub (room - length hex) txs = (res, o')" by (metis surj_pair)
  obtain ls where ls: "res = Value ls" "leaves = leaf # ls" "out = hex @ o'"
    using Cons.prems(1) room by (cases res) (auto simp: leaf Let_def rec simp flip: hex_def split: if_splits)
  have "length leaf = 32" using gbt_leaf_length [OF leaf] Cons.prems(2) by simp
  then show ?case
    using Cons.IH [OF rec [unfolded ls]] Cons.prems(2) leaf ls room by (auto simp: nodes32_def nth_Cons')
qed

lemma length_merkle_root: "nodes32 xs \<Longrightarrow> xs \<noteq> [] \<Longrightarrow> length (merkle_root xs) = 32"
proof (induction xs rule: merkle_root.induct)
  case (1 xs)
  have "nodes32 (merkle_level xs)"
    by (induction xs rule: merkle_level.induct) (auto simp: nodes32_def hash_pair_def layout_simps)
  moreover have "merkle_level xs \<noteq> []" if "1 < length xs"
    using that by (cases xs rule: merkle_level.cases) auto
  ultimately show ?case
    using 1 by (subst merkle_root.simps) (auto simp: nodes32_def)
qed

lemma gbt_merkle_root_eq:
  assumes "nodes32 leaves" "length cbtx < 2 ^ 28"
  shows "gbt_merkle_root cbtx leaves = merkle_root (fips_sha256 (fips_sha256 cbtx) # leaves)"
    and "length (gbt_merkle_root cbtx leaves) = 32"
proof -
  define tree where "tree = sha256d cbtx (int (length cbtx)) # leaves @ (if even (length leaves) then [replicate 32 0] else [])"
  have h: "sha256d cbtx (int (length cbtx)) = fips_sha256 (fips_sha256 cbtx)"
    using sha256d_fips [of "length cbtx" cbtx] assms(2) by simp
  have "take (1 + length leaves) tree = fips_sha256 (fips_sha256 cbtx) # leaves" by (simp add: tree_def h)
  moreover have "nodes32 (fips_sha256 (fips_sha256 cbtx) # leaves)"
    using assms(1) by (simp add: nodes32_def layout_simps)
  ultimately have n: "nodes32 (take (1 + length leaves) tree)"
    and "merkle_root (take (1 + length leaves) tree) = merkle_root (fips_sha256 (fips_sha256 cbtx) # leaves)"
    by simp_all
  moreover have "1 + length leaves + (1 + length leaves) mod 2 \<le> length tree"
    by (auto simp: tree_def)
  ultimately show "gbt_merkle_root cbtx leaves = merkle_root (fips_sha256 (fips_sha256 cbtx) # leaves)"
    using wtree_loop_root [of "1 + length leaves" tree]
    by (simp add: gbt_merkle_root_def Let_def merkle_loop_wtree flip: tree_def)
  then show "length (gbt_merkle_root cbtx leaves) = 32"
    using assms(1) by (simp add: length_merkle_root nodes32_def layout_simps)
qed


section \<open>The height in the coinbase\<close>

lemma height_bytes_returns:
  assumes "gbt_height_bytes n acc = Some r"
  shows "0 \<le> n"
proof (rule gbt_height_bytes.raw_induct [where P = "\<lambda>n acc r. 0 \<le> n", OF _ assms])
  fix rec :: "int \<Rightarrow> byte list \<Rightarrow> byte list option" and n acc r
  assume IH: "\<And>n acc r. rec n acc = Some r \<Longrightarrow> 0 \<le> n"
    and step: "(if n = 0 then Some acc
      else (let acc = acc @ [of_int (n AND 0xff)];
                acc = (if n < 0x100 \<and> 0x80 \<le> n then acc @ [0] else acc)
            in rec (drop_bit 8 n) acc)) = Some r"
  show "0 \<le> n"
  proof (cases "n = 0")
    case False
    then obtain a where "rec (drop_bit 8 n) a = Some r" using step unfolding Let_def by metis
    then show ?thesis using IH by fastforce
  qed simp
qed

lemma height_byte: "unat (of_int ((n :: int) AND 0xff) :: byte) = nat (n mod 256)"
proof -
  have "n AND 0xff = n mod 256"
    using take_bit_eq_mask [of 8 n] by (simp add: mask_eq_exp_minus_1 take_bit_eq_mod)
  then show ?thesis by (simp add: unat_eq_nat_uint uint_word_of_int)
qed

lemma height_bytes_value:
  assumes "0 < n" "n < 2 ^ (8 * Suc k - 1)"
  shows "\<exists>bs. gbt_height_bytes n acc = Some (acc @ bs) \<and> bs \<noteq> [] \<and> length bs \<le> Suc k
    \<and> int (le_val bs) = n \<and> unat (last bs) < 128"
  using assms
proof (induction k arbitrary: n acc)
  case 0
  then have "n AND 0xff = n" "drop_bit 8 n = 0"
    using take_bit_eq_mask [of 8 n] by (simp_all add: mask_eq_exp_minus_1 take_bit_int_eq_self drop_bit_eq_div)
  moreover have "unat (of_int n :: byte) = nat n" using 0 height_byte [of n] \<open>n AND 0xff = n\<close> by simp
  moreover have "gbt_height_bytes 0 a = Some a" for a by (subst gbt_height_bytes.simps) simp
  ultimately have "gbt_height_bytes n acc = Some (acc @ [of_int n])"
    using 0 by (subst gbt_height_bytes.simps) (simp add: Let_def)
  then show ?case
    using 0 \<open>unat (of_int n :: byte) = nat n\<close> by (intro exI [of _ "[of_int n]"]) (simp add: le_val_Cons)
next
  case (Suc k)
  define b :: byte where "b = of_int (n AND 0xff)"
  have b: "int (unat b) = n mod 256" by (simp add: b_def height_byte)
  have d: "drop_bit 8 n = n div 256" by (simp add: drop_bit_eq_div)
  show ?case
  proof (cases "n < 256")
    case True
    then have "n mod 256 = n" "n div 256 = 0" using Suc.prems(1) by simp_all
    moreover have "gbt_height_bytes 0 a = Some a" for a by (subst gbt_height_bytes.simps) simp
    ultimately have "gbt_height_bytes n acc = Some (acc @ (if 128 \<le> n then [b, 0] else [b]))"
      using Suc.prems(1) True by (subst gbt_height_bytes.simps) (simp add: Let_def d flip: b_def)
    moreover have "unat b = nat n" using b \<open>n mod 256 = n\<close> by linarith
    ultimately show ?thesis
      using Suc.prems(1) by (intro exI [of _ "if 128 \<le> n then [b, 0] else [b]"]) (auto simp: le_val_Cons)
  next
    case False
    have "n < 256 * 2 ^ (8 * Suc k - 1)" using Suc.prems(2) by (simp add: power_add)
    then have "0 < n div 256" "n div 256 < 2 ^ (8 * Suc k - 1)"
      using False by (simp_all add: div_less_iff_less_mult pos_imp_zdiv_pos_iff mult.commute)
    then obtain bs where bs: "gbt_height_bytes (n div 256) (acc @ [b]) = Some ((acc @ [b]) @ bs)" "bs \<noteq> []"
      "length bs \<le> Suc k" "int (le_val bs) = n div 256" "unat (last bs) < 128"
      using Suc.IH [of "n div 256" "acc @ [b]"] by blast
    have "gbt_height_bytes n acc = Some (acc @ b # bs)"
      using Suc.prems(1) False bs(1) by (subst gbt_height_bytes.simps) (simp add: Let_def d flip: b_def)
    moreover have "int (le_val (b # bs)) = n" using b bs(4) by (simp add: le_val_Cons)
    ultimately show ?thesis using bs by (intro exI [of _ "b # bs"]) simp
  qed
qed

lemma height_script_spec:
  assumes "0 \<le> h" "h < 2 ^ 31" "\<not> (1 \<le> h \<and> h \<le> 16)"
  shows "\<exists>bs. gbt_height_script h = Value (of_nat (length bs) # bs) \<and> length bs \<le> 4 \<and> int (le_val bs) = h
    \<and> (bs \<noteq> [] \<longrightarrow> unat (last bs) < 128)"
proof (cases "h = 0")
  case True
  moreover have "gbt_height_bytes 0 [] = Some []" by (subst gbt_height_bytes.simps) simp
  ultimately show ?thesis by (simp add: gbt_height_script_def)
next
  case False
  then obtain bs where "gbt_height_bytes h [] = Some bs" "length bs \<le> 4" "int (le_val bs) = h" "unat (last bs) < 128"
    using height_bytes_value [of h 3 "[]"] assms by auto
  then show ?thesis using assms by (auto simp: gbt_height_script_def)
qed


section \<open>The coinbase\<close>

definition zero_node :: "byte list" where
  "zero_node = replicate 32 0"

definition witness_commitment :: "byte list list \<Rightarrow> byte list" where
  "witness_commitment leaves = hash_pair (merkle_root (zero_node # leaves)) zero_node"

lemma wtree_leaves_nodes: "gbt_wtree_leaves txs = Value ls \<Longrightarrow> nodes32 ls \<and> length ls = length txs"
proof (induction txs arbitrary: ls)
  case Nil
  then show ?case by (simp add: nodes32_def)
next
  case (Cons tx txs)
  have "length (memrev buf 32) = length buf" for buf by (simp add: memrev_def layout_simps)
  moreover have "hex2bin (replicate 32 0) s 32 = (True, buf) \<Longrightarrow> length buf = 32" for s buf
    using hex2bin_iff [of 32 "replicate 32 0" "the s" buf] by (cases s) (auto simp: hex2bin_def)
  moreover obtain h buf ls' where "json_object_get (Some tx) ''hash'' = Some h"
    "hex2bin (replicate 32 0) (json_string_value (Some h)) 32 = (True, buf)"
    "gbt_wtree_leaves txs = Value ls'" "ls = memrev buf 32 # ls'"
    using Cons.prems by (cases "gbt_wtree_leaves txs") (auto split: option.splits prod.splits if_splits)
  ultimately show ?case using Cons.IH by (simp add: nodes32_def)
qed

lemma witness_output_eq:
  assumes "nodes32 leaves"
  shows "gbt_witness_output leaves
    = replicate 8 0 @ [38, 0x6a, 0x24, 0xaa, 0x21, 0xa9, 0xed] @ witness_commitment leaves"
proof -
  define n where "n = length leaves + 1"
  define tree where "tree = zero_node # leaves @ [zero_node]"
  have t: "take n tree = zero_node # leaves" by (simp add: tree_def n_def)
  have "nodes32 (take n tree)" using assms by (simp add: t nodes32_def zero_node_def)
  moreover have "n + n mod 2 \<le> length tree" "0 < n" by (simp_all add: n_def tree_def)
  ultimately have r: "wtree_loop tree n ! 0 = merkle_root (zero_node # leaves)" "length (wtree_loop tree n) = length tree"
    using wtree_loop_root [of n tree] by (simp_all only: t simp_thms)
  have "length (merkle_root (zero_node # leaves)) = 32"
    using assms by (intro length_merkle_root) (simp_all add: nodes32_def zero_node_def)
  then have "sha256d (merkle_root (zero_node # leaves) @ zero_node) 64 = witness_commitment leaves"
    unfolding witness_commitment_def by (intro sha256d_pair) (simp_all add: zero_node_def)
  moreover have "1 < length (wtree_loop tree n)" using r(2) by (simp add: tree_def)
  moreover have "Suc (length leaves) = n" by (simp add: n_def)
  ultimately show ?thesis
    using r(1) by (simp add: gbt_witness_output_def Let_def flip: zero_node_def tree_def)
qed

text \<open>The outputs of the miner's own coinbase.\<close>

definition coinbase_outputs :: "gbt_cfg \<Rightarrow> int \<Rightarrow> byte list list option \<Rightarrow> byte list" where
  "coinbase_outputs cfg value wit =
     [if wit \<noteq> None then 2 else 1] @ le32enc (of_int value) @ le32enc (of_int (drop_bit 32 value))
     @ [of_nat (length (c_pk_script cfg))] @ c_pk_script cfg
     @ (case wit of None \<Rightarrow> [] | Some leaves \<Rightarrow>
          replicate 8 0 @ [38, 0x6a, 0x24, 0xaa, 0x21, 0xa9, 0xed] @ witness_commitment leaves)"

definition coinbase_frame :: "byte list \<Rightarrow> byte list \<Rightarrow> byte list" where
  "coinbase_frame script outs =
     le32enc 1 @ [1] @ replicate 32 0 @ le32enc 0xffffffff @ [of_nat (length script)] @ script
     @ le32enc 0xffffffff @ outs @ le32enc 0"

definition witness_of :: "bool \<Rightarrow> json list \<Rightarrow> byte list list option" where
  "witness_of segwit txs =
     (if segwit then (case gbt_wtree_leaves txs of Value ls \<Rightarrow> Some ls | _ \<Rightarrow> None) else None)"

lemma and_then_Value: "and_then r f = Value y \<longleftrightarrow> (\<exists>x. r = Value x \<and> f x = Value y)"
  by (cases r) auto

lemma make_coinbase_frame:
  assumes "gbt_make_coinbase cfg val height segwit txs = Value cbtx"
  obtains script cbv where "gbt_height_script height = Value script" "gbt_cbvalue val = Value cbv"
    "cbtx = coinbase_frame script (coinbase_outputs cfg cbv (witness_of segwit txs))"
proof -
  obtain cbv script where v: "gbt_cbvalue val = Value cbv" "gbt_height_script height = Value script"
    using assms by (auto simp: gbt_make_coinbase_def and_then_Value split: if_splits)
  have "cbtx = coinbase_frame script (coinbase_outputs cfg cbv (witness_of segwit txs))"
  proof (cases segwit)
    case True
    then obtain ls where ls: "gbt_wtree_leaves txs = Value ls"
      using assms v by (auto simp: gbt_make_coinbase_def and_then_Value Let_def split: if_splits)
    show ?thesis
      using assms v True ls wtree_leaves_nodes [OF ls] witness_output_eq [of ls]
      by (auto simp: gbt_make_coinbase_def Let_def coinbase_frame_def coinbase_outputs_def witness_of_def split: if_splits)
  next
    case False
    then show ?thesis
      using assms v
      by (auto simp: gbt_make_coinbase_def Let_def coinbase_frame_def coinbase_outputs_def witness_of_def split: if_splits)
  qed
  with v that show ?thesis by blast
qed

text \<open>The appended data fit the 100 bytes of a script signature.\<close>

lemma aux_data_fits:
  "cb41 + length xsig \<le> 100 \<or> xsig = [] \<Longrightarrow>
   cb41 + length (gbt_aux_data cb41 xsig vs) \<le> 100 \<or> gbt_aux_data cb41 xsig vs = []"
proof (induction vs arbitrary: xsig)
  case (Cons v vs)
  show ?case
  proof (cases "json_string_value (Some v)")
    case (Some s)
    define n where "n = length s div 2"
    obtain ok buf where h: "hex2bin (replicate 100 0) (Some s) n = (ok, buf)" by (metis surj_pair)
    have "cb41 + length (xsig @ take n buf) \<le> 100" if "cb41 + length xsig + n \<le> 100"
      using that by simp
    then show ?thesis
      using Cons Some h by (simp add: Let_def flip: n_def)
  qed (use Cons.prems in simp)
qed simp

lemma xsig_fits: "cb41 + length (gbt_xsig sig val cb41) \<le> 100 \<or> gbt_xsig sig val cb41 = []"
  unfolding gbt_xsig_def Let_def by (rule aux_data_fits) simp

definition push_of :: "nat \<Rightarrow> byte list \<Rightarrow> byte list" where
  "push_of cb41 xsig =
     (if xsig = [] then []
      else if cb41 + length xsig < 76 then of_nat (length xsig) # xsig
      else if cb41 + 2 + length xsig > 100 then xsig
      else 0x4c # of_nat (length xsig) # xsig)"

lemma push_of_fits: "cb41 + length xsig \<le> 100 \<or> xsig = [] \<Longrightarrow>
    push_of cb41 xsig = [] \<or> cb41 + length (push_of cb41 xsig) \<le> 100"
  by (auto simp: push_of_def)

lemma append_xsig_parts:
  assumes cb: "cbtx = pre @ [of_nat (length script)] @ script @ post" "length pre = 41" "length script \<le> 100"
    and x: "length script + length xsig \<le> 100 \<or> xsig = []"
  shows "gbt_append_xsig cbtx xsig = Value (pre @ [of_nat (length (script @ push_of (length script) xsig))]
    @ script @ push_of (length script) xsig @ post)"
proof -
  have l41: "cbtx ! 41 = of_nat (length script)" using cb(1,2) by (simp add: nth_append)
  have u: "unat (of_nat (length script) :: byte) = length script"
    using cb(3) by (simp add: unsigned_of_nat take_bit_nat_eq_self)
  have t: "take (42 + length script) cbtx = pre @ [of_nat (length script)] @ script"
    "drop (42 + length script) cbtx = post"
    using cb(1,2) by simp_all
  have upd: "(pre @ [of_nat (length script)] @ script)[41 := v] = pre @ [v] @ script" for v :: byte
    using cb(2) by (simp add: list_update_append)
  have len: "\<not> length cbtx < 42 + length script" using cb(1,2) by simp
  show ?thesis
  proof (cases "xsig = []")
    case True
    then show ?thesis by (simp add: gbt_append_xsig_def push_of_def cb(1))
  next
    case False
    then show ?thesis
      using x len unfolding gbt_append_xsig_def Let_def l41 u t upd by (auto simp: push_of_def)
  qed
qed

end
