(* ===== verification/GbtTheorems.thy ===== *)
theory GbtTheorems
  imports Gbt
begin

text \<open>
  What \<open>gbt_work_decode\<close> of \<open>cpu-miner.c\<close> guarantees: the coinbase it builds, the encoding of the
  block height, and the block header of the work it leaves.
\<close>

section \<open>Properties\<close>

text \<open>The coinbase script: the height, and what is appended to it.\<close>

definition coinbase_script :: "gbt_cfg \<Rightarrow> json option \<Rightarrow> byte list \<Rightarrow> byte list" where
  "coinbase_script cfg val script =
     script @ push_of (length script) (gbt_xsig (c_coinbase_sig cfg) val (length script))"

lemma coinbase_script_fits: "length script \<le> 100 \<Longrightarrow> length (coinbase_script cfg val script) \<le> 100"
  using push_of_fits [OF xsig_fits, of "length script" "c_coinbase_sig cfg" val]
  by (auto simp: coinbase_script_def)

lemma append_to_frame:
  assumes "length script \<le> 100"
  shows "gbt_append_xsig (coinbase_frame script outs)
      (gbt_xsig sig val (unat (coinbase_frame script outs ! 41)))
    = Value (coinbase_frame (script @ push_of (length script) (gbt_xsig sig val (length script))) outs)"
proof -
  define pre :: "byte list" where "pre = le32enc 1 @ [1] @ replicate 32 0 @ le32enc 0xffffffff"
  define post where "post = le32enc 0xffffffff @ outs @ le32enc 0"
  have pre: "length pre = 41" by (simp add: pre_def)
  have f: "coinbase_frame s outs = pre @ [of_nat (length s)] @ s @ post" for s
    by (simp add: coinbase_frame_def pre_def post_def)
  have "unat (coinbase_frame script outs ! 41) = length script"
    using assms pre by (simp add: f nth_append unsigned_of_nat take_bit_nat_eq_self)
  then show ?thesis
    using append_xsig_parts [OF f pre assms xsig_fits, of sig val] by (simp only: f append_assoc)
qed

lemma coinbase_own:
  assumes "json_object_get val ''coinbasetxn'' = None" "0 \<le> height" "height < 2 ^ 31"
    and "gbt_coinbase cfg val height segwit txs = Value cbtx"
  obtains script cbv where "gbt_height_script height = Value script" "gbt_cbvalue val = Value cbv" "length script \<le> 5"
    "cbtx = coinbase_frame (coinbase_script cfg val script) (coinbase_outputs cfg cbv (witness_of segwit txs))"
proof -
  obtain c where c: "gbt_make_coinbase cfg val height segwit txs = Value c"
    "gbt_append_xsig c (gbt_xsig (c_coinbase_sig cfg) val (unat (c ! 41))) = Value cbtx"
    using assms(1,4) by (auto simp: gbt_coinbase_def and_then_Value)
  obtain script cbv where s: "gbt_height_script height = Value script" "gbt_cbvalue val = Value cbv"
    "c = coinbase_frame script (coinbase_outputs cfg cbv (witness_of segwit txs))"
    using make_coinbase_frame [OF c(1)] by blast
  have "length script \<le> 5"
  proof (cases "1 \<le> height \<and> height \<le> 16")
    case True
    then show ?thesis using s(1) by (auto simp: gbt_height_script_def)
  next
    case False
    then show ?thesis using height_script_spec [OF assms(2,3) False] s(1) by auto
  qed
  moreover from this have "cbtx = coinbase_frame (coinbase_script cfg val script) (coinbase_outputs cfg cbv (witness_of segwit txs))"
    using c(2) append_to_frame [of script "coinbase_outputs cfg cbv (witness_of segwit txs)" "c_coinbase_sig cfg" val]
    by (simp add: s(3) coinbase_script_def)
  ultimately show ?thesis using that s by blast
qed

lemma length_witness_commitment: "length (witness_commitment leaves) = 32"
  by (simp add: witness_commitment_def hash_pair_def layout_simps)

lemma length_coinbase_frame:
  "length (coinbase_frame script (coinbase_outputs cfg v wit))
    = 60 + length script + length (c_pk_script cfg) + (if wit = None then 0 else 47)"
  by (simp add: coinbase_frame_def coinbase_outputs_def length_witness_commitment split: option.splits)


definition sample_cfg :: gbt_cfg where
  "sample_cfg = \<lparr>c_pk_script = [0x51], c_allow_getwork = True, c_want_longpoll = True,
     c_coinbase_sig = ''hi'', c_rpc_url = ''http://localhost''\<rparr>"

lemma height_bytes_300: "gbt_height_bytes 300 [] = Some [44, 1]"
  by (simp add: gbt_height_bytes.simps [of 300] gbt_height_bytes.simps [of 1] gbt_height_bytes.simps [of 0]
      Let_def drop_bit_eq_div)

lemma sample_coinbase:
  assumes "json_object_get val ''coinbasetxn'' = None" "gbt_cbvalue val = Value v"
  shows "\<exists>cbtx. gbt_coinbase sample_cfg val 300 False [] = Value cbtx"
    and "gbt_height_script 300 = Value [2, 44, 1]"
proof -
  show h: "gbt_height_script 300 = Value [2, 44, 1]"
    by (simp add: gbt_height_script_def height_bytes_300)
  obtain c where c: "gbt_make_coinbase sample_cfg val 300 False [] = Value c"
    using assms(2) h by (simp add: gbt_make_coinbase_def Let_def sample_cfg_def)
  obtain script cbv where "c = coinbase_frame script (coinbase_outputs sample_cfg cbv (witness_of False []))"
    and sc: "gbt_height_script 300 = Value script"
    using make_coinbase_frame [OF c] by blast
  moreover have "script = [2, 44, 1]" using sc h by simp
  ultimately show "\<exists>cbtx. gbt_coinbase sample_cfg val 300 False [] = Value cbtx"
    using append_to_frame [of script _ "c_coinbase_sig sample_cfg" val]
    by (simp add: gbt_coinbase_def assms(1) c)
qed


text \<open>The height script is the one-byte opcode for 1 to 16, padded, and else the push of at most
  four bytes that read as the height, with the sign bit clear (one zero byte counts the empty string
  of height 0); for a negative height the loop never ends.\<close>

theorem gbt_height_script_correct:
  assumes "- (2 ^ 31) \<le> h" "h < 2 ^ 31"
  shows "(h < 0 \<longrightarrow> gbt_height_script h = Undefined)
    \<and> (1 \<le> h \<and> h \<le> 16 \<longrightarrow> gbt_height_script h = Value [0x50 + of_int h, 0])
    \<and> (h = 0 \<or> 16 < h \<longrightarrow> (\<exists>bs. gbt_height_script h = Value (of_nat (length bs) # bs) \<and> length bs \<le> 4
         \<and> int (le_val bs) = h \<and> (bs \<noteq> [] \<longrightarrow> unat (last bs) < 128)))"
proof -
  have "gbt_height_script h = Undefined" if "h < 0"
  proof -
    have "gbt_height_bytes h [] = None" using height_bytes_returns [of h "[]"] that by (cases "gbt_height_bytes h []") auto
    then show ?thesis using that by (simp add: gbt_height_script_def)
  qed
  then show ?thesis
    using height_script_spec [of h] assms by (auto simp: gbt_height_script_def add.commute)
qed

lemma gbt_height_script_correct_witness:
  "gbt_height_script (- 1) = Undefined \<and> gbt_height_script 16 = Value [0x60, 0]"
  using gbt_height_script_correct [of "- 1"] gbt_height_script_correct [of 16] by simp


section \<open>The decoded work\<close>

text \<open>Hexadecimal members of the template are shorter than 2 to the 28 characters.\<close>

definition short_hex :: "json option \<Rightarrow> bool" where
  "short_hex obj \<longleftrightarrow> (\<forall>s. json_string_value (json_object_get obj ''data'') = Some s \<longrightarrow> length s < 2 ^ 27)"

definition gbt_short :: "json option \<Rightarrow> bool" where
  "gbt_short val \<longleftrightarrow> short_hex (json_object_get val ''coinbasetxn'')
     \<and> (\<forall>tx \<in> set (json_array_elems (json_object_get val ''transactions'')). short_hex (Some tx))"

lemma given_coinbase_length:
  assumes "gbt_given_coinbase tmp = Value cbtx" "short_hex (Some tmp)"
  shows "length cbtx < 2 ^ 27"
proof -
  obtain s where s: "json_string_value (json_object_get (Some tmp) ''data'') = Some s"
    "hex2bin (replicate (length s div 2) 0) (Some s) (length s div 2) = (True, cbtx)"
    using assms(1) by (auto simp: gbt_given_coinbase_def Let_def split: option.splits if_splits prod.splits)
  have "length cbtx = length s div 2"
    using hex2bin_iff [of "length s div 2" "replicate (length s div 2) 0" s cbtx] s(2) by auto
  moreover have "length s < 2 ^ 27" using assms(2) s(1) by (simp add: short_hex_def)
  ultimately show ?thesis by simp
qed

lemma append_length:
  assumes "gbt_append_xsig cbtx (gbt_xsig sig val k) = Value r"
  shows "length r \<le> length cbtx + 102"
proof -
  have "length (gbt_xsig sig val k) \<le> 100" using xsig_fits [of k sig val] by auto
  then show ?thesis
    using assms by (auto simp: gbt_append_xsig_def Let_def split: if_splits)
qed

lemma coinbase_length:
  assumes "gbt_coinbase cfg val height segwit txs = Value cbtx" "gbt_short val"
    and "length (c_pk_script cfg) \<le> 42" "- (2 ^ 31) \<le> height" "height < 2 ^ 31"
  shows "length cbtx < 2 ^ 28"
proof (cases "json_object_get val ''coinbasetxn''")
  case None
  have "0 \<le> height"
  proof (rule ccontr)
    assume "\<not> 0 \<le> height"
    then have "gbt_height_bytes height [] = None"
      using height_bytes_returns [of height "[]"] by (cases "gbt_height_bytes height []") auto
    then show False
      using assms(1) None \<open>\<not> 0 \<le> height\<close>
      by (auto simp: gbt_coinbase_def gbt_make_coinbase_def and_then_Value gbt_height_script_def split: if_splits)
  qed
  then obtain script cbv where "length script \<le> 5"
    "cbtx = coinbase_frame (coinbase_script cfg val script) (coinbase_outputs cfg cbv (witness_of segwit txs))"
    using coinbase_own [OF None _ assms(5,1)] by blast
  then show ?thesis
    using coinbase_script_fits [of script cfg val] assms(3) by (simp add: length_coinbase_frame)
next
  case (Some tmp)
  then obtain c where c: "gbt_given_coinbase tmp = Value c"
    "cbtx = c \<or> gbt_append_xsig c (gbt_xsig (c_coinbase_sig cfg) val (unat (c ! 41))) = Value cbtx"
    using assms(1) by (auto simp: gbt_coinbase_def and_then_Value split: if_splits)
  have "short_hex (Some tmp)" using assms(2) Some by (simp add: gbt_short_def)
  then have "length c < 2 ^ 27" by (rule given_coinbase_length [OF c(1)])
  moreover have "length cbtx \<le> length c + 102" using c(2) append_length by auto
  ultimately show ?thesis by simp
qed

lemma gbt_fields_Value:
  assumes "gbt_fields val = Value (version, prevhash, duration, curtime, bits, txa, tx_size)"
  shows "version = json_integer_value (json_object_get val ''version'')"
    and "curtime = json_integer_value (json_object_get val ''curtime'')"
    and "duration = json_integer_value (json_object_get val ''rx_epoch_duration'')"
    and "jobj_binary val ''previousblockhash'' 32 = Some prevhash" "jobj_binary val ''bits'' 4 = Some bits"
    and "txa = json_array_elems (json_object_get val ''transactions'')" "gbt_tx_size txa = Value tx_size"
  using assms
  by (auto simp: gbt_fields_def and_then_Value gbt_integer_def Let_def split: option.splits if_splits)

lemma int32_range: "- (2 ^ 31) \<le> int32 v \<and> int32 v < 2 ^ 31"
  unfolding int32_def
  using signed_take_bit_int_greater_eq_minus_exp [of 31 v] signed_take_bit_int_less_exp [of 31 v] by simp

lemma gbt_decode_parts:
  assumes "gbt_work_decode cfg val work env = Some (True, work', env')"
  obtains version prevhash duration curtime bits txa tx_size cbtx leaves tx_hex seed target where
    "gbt_fields val = Value (version, prevhash, duration, curtime, bits, txa, tx_size)"
    "gbt_coinbase cfg val (w_height work') (gbt_segwit val) txa = Value cbtx"
    "gbt_tx_loop (gbt_segwit val) (gbt_mutable val ''submit/coinbase'') (2 * tx_size) txa = (Value leaves, tx_hex)"
    "gbt_seed_hash curtime duration = Value seed"
    "jobj_binary val ''target'' 32 = Some target"
    "w_height work' = int32 (json_integer_value (json_object_get val ''height''))"
    "w_txs work' = Some (gbt_txs (length txa) cbtx tx_hex)"
    "w_data work' = gbt_header version prevhash (gbt_merkle_root cbtx leaves) curtime bits"
    "w_seed_hash work' = seed" "w_target work' = rev (words_of be32dec target)"
proof -
  obtain h where h: "gbt_integer val ''height'' = Value h"
    using assms by (auto simp: gbt_work_decode_def split: outcome.splits)
  have hv: "h = json_integer_value (json_object_get val ''height'')"
    using h by (auto simp: gbt_integer_def Let_def split: if_splits)
  obtain version prevhash duration curtime bits txa tx_size
    where f: "gbt_fields val = Value (version, prevhash, duration, curtime, bits, txa, tx_size)"
    using assms h by (auto simp: gbt_work_decode_def Let_def split: outcome.splits)
  obtain cbtx where c: "gbt_coinbase cfg val (int32 h) (gbt_segwit val) txa = Value cbtx"
    using assms by (auto simp: gbt_work_decode_def Let_def h f split: outcome.splits)
  obtain res tx_hex where l: "gbt_tx_loop (gbt_segwit val) (gbt_mutable val ''submit/coinbase'') (2 * tx_size) txa = (res, tx_hex)"
    by (metis surj_pair)
  obtain leaves where r: "res = Value leaves"
    using assms by (auto simp: gbt_work_decode_def Let_def h f c l split: outcome.splits)
  obtain seed where s: "gbt_seed_hash curtime duration = Value seed"
    using assms by (auto simp: gbt_work_decode_def Let_def h f c l r split: outcome.splits)
  obtain target where t: "jobj_binary val ''target'' 32 = Some target"
    using assms by (auto simp: gbt_work_decode_def gbt_finish_def Let_def h f c l r s split: option.splits)
  show thesis
    by (rule that [OF f _ l [unfolded r] s t])
      (use assms in \<open>auto simp: gbt_work_decode_def gbt_finish_def Let_def h f c l r s t hv [symmetric] split: option.splits if_splits\<close>)
qed

text \<open>C4: when \<open>gbt_work_decode\<close> succeeds, the 80 bytes that the words of the work stand for are the
  block header of the template: the version, the previous hash in internal order, the Merkle root of
  the coinbase and the transactions, the time, the difficulty bits and a zero nonce; the twelve words
  after it are the SHA-256 padding; and the target is the number of the template's target.\<close>

theorem gbt_work_decode_header:
  assumes "gbt_work_decode cfg val work env = Some (True, work', env')" "gbt_short val" "length (c_pk_script cfg) \<le> 42"
  shows "\<exists>cbtx leaves prevhash bits target.
    gbt_coinbase cfg val (w_height work') (gbt_segwit val) (json_array_elems (json_object_get val ''transactions'')) = Value cbtx
    \<and> length leaves = json_array_size (json_object_get val ''transactions'')
    \<and> (\<forall>i < length leaves. gbt_leaf (gbt_segwit val) (json_array_elems (json_object_get val ''transactions'') ! i) = Value (leaves ! i))
    \<and> jobj_binary val ''previousblockhash'' 32 = Some prevhash
    \<and> jobj_binary val ''bits'' 4 = Some bits \<and> jobj_binary val ''target'' 32 = Some target
    \<and> bytes_of be32enc (take 20 (w_data work'))
      = le32enc (of_int (json_integer_value (json_object_get val ''version''))) @ rev prevhash
        @ merkle_root (fips_sha256 (fips_sha256 cbtx) # leaves)
        @ le32enc (of_int (json_integer_value (json_object_get val ''curtime''))) @ rev bits @ replicate 4 0
    \<and> drop 20 (w_data work') = 0x80000000 # replicate 10 0 @ [0x280]
    \<and> words_val (w_target work') = be_val target"
proof -
  obtain version prevhash duration curtime bits txa tx_size cbtx leaves tx_hex seed target where
    f: "gbt_fields val = Value (version, prevhash, duration, curtime, bits, txa, tx_size)"
    and c: "gbt_coinbase cfg val (w_height work') (gbt_segwit val) txa = Value cbtx"
    and l: "gbt_tx_loop (gbt_segwit val) (gbt_mutable val ''submit/coinbase'') (2 * tx_size) txa = (Value leaves, tx_hex)"
    and t: "jobj_binary val ''target'' 32 = Some target"
    and w: "w_height work' = int32 (json_integer_value (json_object_get val ''height''))"
      "w_data work' = gbt_header version prevhash (gbt_merkle_root cbtx leaves) curtime bits"
      "w_target work' = rev (words_of be32dec target)"
    using gbt_decode_parts [OF assms(1)] by metis
  note F = gbt_fields_Value [OF f]
  have "length cbtx < 2 ^ 28"
    using int32_range by (intro coinbase_length [OF c assms(2,3)]) (simp_all add: w(1))
  moreover have "\<forall>tx \<in> set txa. \<forall>s. json_string_value (json_object_get (Some tx) ''data'') = Some s \<longrightarrow> length s < 2 ^ 28"
    using assms(2) F(6) by (fastforce simp: gbt_short_def short_hex_def)
  note L = gbt_tx_loop_leaves [OF l this]
  ultimately have m: "gbt_merkle_root cbtx leaves = merkle_root (fips_sha256 (fips_sha256 cbtx) # leaves)"
    "length (gbt_merkle_root cbtx leaves) = 32"
    using gbt_merkle_root_eq by simp_all
  have len: "length prevhash = 32" "length bits = 4" "length target = 32"
    using jobj_binary_length F(4,5) t by blast+
  have n: "length txa = json_array_size (json_object_get val ''transactions'')"
    by (simp add: F(6) json_array_elems_get)
  show ?thesis
    using c L F t n gbt_header_bytes [OF len(1) m(2) len(2), of version curtime]
      gbt_header_padding [OF len(1) m(2), of version curtime bits] target_val [OF len(3)]
    by (intro exI [of _ cbtx] exI [of _ leaves] exI [of _ prevhash] exI [of _ bits] exI [of _ target])
      (simp add: w(2,3) m(1))
qed

text \<open>A small template.\<close>

definition sample_template :: "json option" where
  "sample_template = Some (JObject [(''height'', JInteger 300), (''version'', JInteger 4),
     (''previousblockhash'', JString (replicate 64 (CHR ''7''))), (''rx_epoch_duration'', JInteger 100),
     (''curtime'', JInteger 1000), (''bits'', JString ''1d00ffff''), (''transactions'', JArray []),
     (''coinbasevalue'', JInteger 5000000000), (''target'', JString (replicate 64 (CHR ''0'')))])"

lemma unhex_replicate: "\<exists>bs. unhex (replicate (2 * k) c) = Some bs \<and> length bs = k" if "hex_nibble c \<noteq> None"
  using that by (induction k) (auto split: option.splits)

lemma sample_hex:
  "\<exists>buf. hex2bin (replicate 32 0) (Some (replicate 64 (CHR ''7''))) 32 = (True, buf)"
  "\<exists>buf. hex2bin (replicate 32 0) (Some (replicate 64 (CHR ''0''))) 32 = (True, buf)"
  "\<exists>buf. hex2bin (replicate 4 0) (Some ''1d00ffff'') 4 = (True, buf)"
  using unhex_replicate [of "CHR ''7''" 32] unhex_replicate [of "CHR ''0''" 32]
  by (auto simp: hex2bin_iff hex_nibble_def)

lemma sample_decodes:
  "\<exists>work' env'. gbt_work_decode sample_cfg sample_template work_zero env = Some (True, work', env')"
proof -
  obtain b1 b2 b3 where "jobj_binary sample_template ''previousblockhash'' 32 = Some b1"
    "jobj_binary sample_template ''target'' 32 = Some b2" "jobj_binary sample_template ''bits'' 4 = Some b3"
    using sample_hex by (auto simp: jobj_binary_def sample_template_def)
  moreover obtain cbtx where "gbt_coinbase sample_cfg sample_template 300 False [] = Value cbtx"
    using sample_coinbase(1) [of sample_template] by (auto simp: sample_template_def gbt_cbvalue_def)
  moreover have "int32 300 = 300" by (simp add: int32_def)
  moreover have "gbt_fields sample_template = Value (4, b1, 100, 1000, b3, [], 0)"
    using calculation(1,3) by (simp add: gbt_fields_def sample_template_def gbt_integer_def)
  moreover have "gbt_segwit sample_template = False" "gbt_integer sample_template ''height'' = Value 300"
    "json_object_get sample_template ''workid'' = None"
    by (simp_all add: sample_template_def gbt_segwit_def gbt_integer_def)
  ultimately show ?thesis
    by (simp add: gbt_work_decode_def gbt_finish_def gbt_seed_hash_def Let_def)
qed

lemma gbt_work_decode_header_witness:
  "\<exists>work' env'. gbt_work_decode sample_cfg sample_template work_zero
      \<lparr>e_have_gbt = True, e_have_longpoll = False, e_lp_id = None, e_longpoll_queue = []\<rparr> = Some (True, work', env')
    \<and> drop 20 (w_data work') = 0x80000000 # replicate 10 0 @ [0x280]"
proof -
  obtain work' env' where d: "gbt_work_decode sample_cfg sample_template work_zero
      \<lparr>e_have_gbt = True, e_have_longpoll = False, e_lp_id = None, e_longpoll_queue = []\<rparr> = Some (True, work', env')"
    using sample_decodes by blast
  have "gbt_short sample_template" by (simp add: gbt_short_def short_hex_def sample_template_def)
  moreover have "length (c_pk_script sample_cfg) \<le> 42" by (simp add: sample_cfg_def)
  ultimately show ?thesis using gbt_work_decode_header [OF d] d by blast
qed

end
