(* ===== verification/StratumLine.thy ===== *)
theory StratumLine
  imports CString
begin

text \<open>
  The line transport of the Stratum connection in \<open>util.c\<close>: the receive buffer
  (\<open>stratum_buffer_append\<close>, \<open>stratum_recv_line\<close>), \<open>send_line\<close>, and the opening and closing of the
  connection. What the socket does is the script \<open>net\<close>: the results of the coming \<open>select\<close>,
  \<open>curl_easy_recv\<close>, \<open>curl_easy_send\<close> and connection calls. A call for which the script holds no
  result has not returned.
\<close>

section \<open>The connection\<close>

text \<open>\<open>Done\<close>: the call returned; \<open>Blocked\<close>: it is still waiting; \<open>Broken\<close>: it did something the
  language does not define.\<close>

datatype 'a io = Done 'a | Blocked | Broken

fun io_bind :: "'a io \<Rightarrow> ('a \<Rightarrow> 'b io) \<Rightarrow> 'b io" where
  "io_bind (Done x) f = f x"
| "io_bind Blocked f = Blocked"
| "io_bind Broken f = Broken"

lemma io_bind_Done: "io_bind m f = Done y \<longleftrightarrow> (\<exists>x. m = Done x \<and> f x = Done y)"
  by (cases m) auto

text \<open>
  A received chunk ends at its first zero byte for the caller. With each result of a receive call
  comes whether 60 seconds have passed when the loop looks at the clock.
\<close>

datatype recv_result = Received string | Closed | RecvAgain | RecvError

datatype send_result = Sent nat | SendAgain | SendError

record net =
  n_ready :: "bool list"
  n_recv :: "(recv_result \<times> bool) list"
  n_send :: "(bool \<times> send_result) list"
  n_conn :: "(bool \<times> bool) list"
  n_out :: string

record conn =
  s_url :: string
  s_curl :: bool
  s_curl_url :: string
  s_sockbuf :: string
  s_sockbuf_size :: nat

section \<open>Receiving\<close>

definition socket_full :: "net \<Rightarrow> (bool \<times> net) io" where
  "socket_full net =
     (case n_ready net of [] \<Rightarrow> Blocked | b # bs \<Rightarrow> Done (b, net\<lparr>n_ready := bs\<rparr>))"

definition stratum_socket_full :: "'a conn_scheme \<Rightarrow> net \<Rightarrow> (bool \<times> net) io" where
  "stratum_socket_full sctx net = (if s_sockbuf sctx \<noteq> [] then Done (True, net) else socket_full net)"

definition stratum_buffer_append :: "'a conn_scheme \<Rightarrow> string \<Rightarrow> 'a conn_scheme" where
  "stratum_buffer_append sctx s =
     (let old = length (s_sockbuf sctx); new = old + length s + 1
      in sctx\<lparr>s_sockbuf_size := (if s_sockbuf_size sctx \<le> new then new + (2048 - new mod 2048) else s_sockbuf_size sctx),
              s_sockbuf := s_sockbuf sctx @ s\<rparr>)"

text \<open>
  The receive loop: the flag tells whether the connection still stands. Each call reads at most
  2044 bytes into a zeroed buffer, so that the chunk is a string.
\<close>

fun recv_loop :: "'a conn_scheme \<Rightarrow> bool list \<Rightarrow> (recv_result \<times> bool) list
    \<Rightarrow> (bool \<times> 'a conn_scheme \<times> bool list \<times> (recv_result \<times> bool) list) io" where
  "recv_loop sctx ready [] = Blocked"
| "recv_loop sctx ready ((r, late) # rs) =
     (case r of
        Closed \<Rightarrow> Done (False, sctx, ready, rs)
      | RecvError \<Rightarrow> Done (False, sctx, ready, rs)
      | RecvAgain \<Rightarrow>
          (case ready of
             [] \<Rightarrow> Blocked
           | b # ready \<Rightarrow>
               if \<not> b then Done (False, sctx, ready, rs)
               else if late \<or> NL \<in> set (s_sockbuf sctx) then Done (True, sctx, ready, rs)
               else recv_loop sctx ready rs)
      | Received s \<Rightarrow>
          (let sctx = stratum_buffer_append sctx (cstr (take 2044 s))
           in if late \<or> NL \<in> set (s_sockbuf sctx) then Done (True, sctx, ready, rs)
              else recv_loop sctx ready rs))"

text \<open>
  \<open>strtok\<close> skips newlines and ends the token with a zero byte in place of the next newline; the
  code then moves what follows \<open>len + 1\<close> bytes from the start of the buffer.
\<close>

definition take_token :: "string \<Rightarrow> (string \<times> string) option" where
  "take_token buf =
     (let k = length (takeWhile (\<lambda>c. c = NL) buf);
          tok = takeWhile (\<lambda>c. c \<noteq> NL) (drop k buf);
          len = length tok
      in if tok = [] then None
         else Some (tok, if len + 1 < length buf then cstr (drop (len + 1) (buf[k + len := NUL])) else []))"

definition stratum_recv_line :: "'a conn_scheme \<Rightarrow> net \<Rightarrow> (string option \<times> 'a conn_scheme \<times> net) io" where
  "stratum_recv_line sctx net =
     io_bind
       (if NL \<in> set (s_sockbuf sctx) then Done (True, sctx, net)
        else io_bind (socket_full net) (\<lambda>(full, net).
          if \<not> full then Done (False, sctx, net)
          else io_bind (recv_loop sctx (n_ready net) (n_recv net)) (\<lambda>(ok, sctx, ready, rs).
            Done (ok, sctx, net\<lparr>n_ready := ready, n_recv := rs\<rparr>))))
       (\<lambda>(ok, sctx, net).
          if \<not> ok then Done (None, sctx, net)
          else (case take_token (s_sockbuf sctx) of
                  None \<Rightarrow> Done (None, sctx, net)
                | Some (tok, rest) \<Rightarrow> Done (Some tok, sctx\<lparr>s_sockbuf := rest\<rparr>, net)))"

section \<open>Sending\<close>

fun send_loop :: "string \<Rightarrow> (bool \<times> send_result) list \<Rightarrow> string \<Rightarrow> (bool \<times> (bool \<times> send_result) list \<times> string) io" where
  "send_loop [] steps out = Done (True, steps, out)"
| "send_loop s [] out = Blocked"
| "send_loop s ((writable, r) # steps) out =
     (if \<not> writable then Done (False, steps, out)
      else (case r of
              SendError \<Rightarrow> Done (False, steps, out)
            | SendAgain \<Rightarrow> send_loop s steps out
            | Sent n \<Rightarrow> send_loop (drop n s) steps (out @ take n s)))"

definition stratum_send_line :: "string \<Rightarrow> net \<Rightarrow> (bool \<times> net) io" where
  "stratum_send_line s net =
     io_bind (send_loop (s @ [NL]) (n_send net) (n_out net)) (\<lambda>(ok, steps, out).
       Done (ok, net\<lparr>n_send := steps, n_out := out\<rparr>))"

section \<open>Opening and closing\<close>

text \<open>
  The first result of a connection attempt is whether the library gave a handle, the second whether
  the connection was made. The URL is at least the 11 characters \<open>stratum+tcp\<close> long.
\<close>

definition stratum_connect :: "'a conn_scheme \<Rightarrow> string \<Rightarrow> net \<Rightarrow> (bool \<times> 'a conn_scheme \<times> net) io" where
  "stratum_connect sctx url net =
     (case n_conn net of
        [] \<Rightarrow> Blocked
      | (handle, ok) # cs \<Rightarrow>
          (let net = net\<lparr>n_conn := cs\<rparr>
           in if \<not> handle then Done (False, sctx\<lparr>s_curl := False\<rparr>, net)
              else (let sctx = sctx\<lparr>s_curl := True,
                          s_sockbuf_size := (if s_sockbuf_size sctx = 0 then 2048 else s_sockbuf_size sctx),
                          s_sockbuf := [], s_url := url\<rparr>
                    in if length url < 11 then Broken
                       else (let sctx = sctx\<lparr>s_curl_url := ''http'' @ drop 11 url\<rparr>
                             in if ok then Done (True, sctx, net) else Done (False, sctx\<lparr>s_curl := False\<rparr>, net)))))"

definition stratum_disconnect :: "'a conn_scheme \<Rightarrow> 'a conn_scheme" where
  "stratum_disconnect sctx = (if s_curl sctx then sctx\<lparr>s_curl := False, s_sockbuf := []\<rparr> else sctx)"

section \<open>Lines come out whole and in order\<close>

definition line_ok :: "string \<Rightarrow> bool" where
  "line_ok l \<longleftrightarrow> l \<noteq> [] \<and> NL \<notin> set l \<and> NUL \<notin> set l"

definition chunk_ok :: "string \<Rightarrow> bool" where
  "chunk_ok c \<longleftrightarrow> length c \<le> 2044 \<and> NUL \<notin> set c"

abbreviation received :: "string list \<Rightarrow> (recv_result \<times> bool) list" where
  "received cs \<equiv> map (\<lambda>c. (Received c, False)) cs"

lemma chunk_ok_take: "chunk_ok c \<Longrightarrow> cstr (take 2044 c) = c"
  by (simp add: chunk_ok_def cstr_id)

lemma take_token_line:
  assumes "line_ok l" "NUL \<notin> set rest"
  shows "take_token (l @ NL # rest) = Some (l, rest)"
proof -
  have l: "l \<noteq> []" "\<forall>c \<in> set l. c \<noteq> NL" using assms(1) by (auto simp: line_ok_def)
  then have "takeWhile (\<lambda>c. c = NL) (l @ NL # rest) = []" by (cases l) auto
  moreover have "takeWhile (\<lambda>c. c \<noteq> NL) (l @ NL # rest) = l"
    using l(2) by (simp add: takeWhile_append2)
  ultimately show ?thesis
    using assms(2) l(1) by (simp add: take_token_def Let_def cstr_id list_update_append)
qed

text \<open>After a blank line what follows the next line is gone.\<close>

lemma take_token_blank:
  assumes "line_ok l"
  shows "take_token (NL # l @ NL # rest) = Some (l, [])"
proof -
  have l: "l \<noteq> []" "\<forall>c \<in> set l. c \<noteq> NL" using assms(1) by (auto simp: line_ok_def)
  then have "takeWhile (\<lambda>c. c = NL) (l @ NL # rest) = []" by (cases l) auto
  moreover have "takeWhile (\<lambda>c. c \<noteq> NL) (l @ NL # rest) = l"
    using l(2) by (simp add: takeWhile_append2)
  ultimately show ?thesis
    using l(1) by (simp add: take_token_def Let_def cstr_def list_update_append)
qed

lemma recv_loop_chunks:
  assumes "NL \<notin> set (s_sockbuf s)" "NL \<in> set (concat cs)" "\<forall>c \<in> set cs. chunk_ok c"
  shows "\<exists>cs1 cs2 size. cs = cs1 @ cs2 \<and> NL \<in> set (s_sockbuf s @ concat cs1)
    \<and> recv_loop s ready (received cs @ later)
      = Done (True, s\<lparr>s_sockbuf := s_sockbuf s @ concat cs1, s_sockbuf_size := size\<rparr>, ready, received cs2 @ later)"
  using assms
proof (induction cs arbitrary: s)
  case (Cons c cs)
  define s' where "s' = stratum_buffer_append s c"
  have buf: "s_sockbuf s' = s_sockbuf s @ c" by (simp add: s'_def stratum_buffer_append_def Let_def)
  have step: "recv_loop s ready (received (c # cs) @ later)
      = (if NL \<in> set (s_sockbuf s') then Done (True, s', ready, received cs @ later)
         else recv_loop s' ready (received cs @ later))"
    using Cons.prems(3) by (simp add: Let_def chunk_ok_take s'_def)
  have s': "s' = s\<lparr>s_sockbuf := s_sockbuf s @ c, s_sockbuf_size := s_sockbuf_size s'\<rparr>"
    by (simp add: s'_def stratum_buffer_append_def Let_def)
  show ?case
  proof (cases "NL \<in> set (s_sockbuf s')")
    case True
    then show ?thesis
      using step s' buf by (intro exI [of _ "[c]"] exI [of _ cs] exI [of _ "s_sockbuf_size s'"]) simp
  next
    case False
    then have "NL \<in> set (concat cs)" using Cons.prems(1,2) buf by auto
    moreover have "\<forall>c \<in> set cs. chunk_ok c" using Cons.prems(3) by simp
    ultimately obtain cs1 cs2 size where "cs = cs1 @ cs2" "NL \<in> set (s_sockbuf s' @ concat cs1)"
      "recv_loop s' ready (received cs @ later)
        = Done (True, s'\<lparr>s_sockbuf := s_sockbuf s' @ concat cs1, s_sockbuf_size := size\<rparr>, ready, received cs2 @ later)"
      using Cons.IH [OF False] by blast
    moreover have "s'\<lparr>s_sockbuf := b, s_sockbuf_size := size\<rparr> = s\<lparr>s_sockbuf := b, s_sockbuf_size := size\<rparr>" for b
      by (subst s') simp
    ultimately show ?thesis
      using step False buf by (intro exI [of _ "c # cs1"] exI [of _ cs2] exI [of _ size]) simp
  qed
qed simp

lemma first_newline:
  "\<lbrakk>l @ NL # rest = b @ c; NL \<notin> set l; NL \<in> set b\<rbrakk> \<Longrightarrow> \<exists>r. b = l @ NL # r \<and> rest = r @ c"
  by (induction l arbitrary: b) (auto simp: Cons_eq_append_conv)

lemma recv_one_line:
  assumes stream: "s_sockbuf s @ concat cs = l @ NL # rest"
    and l: "line_ok l" and nul: "NUL \<notin> set (s_sockbuf s)" and cs: "\<forall>c \<in> set cs. chunk_ok c"
    and net: "n_ready net = True # ready" "n_recv net = received cs @ later"
  shows "\<exists>s' net' cs2. stratum_recv_line s net = Done (Some l, s', net')
    \<and> s_sockbuf s' @ concat cs2 = rest \<and> NUL \<notin> set (s_sockbuf s') \<and> (\<forall>c \<in> set cs2. chunk_ok c)
    \<and> n_recv net' = received cs2 @ later \<and> (n_ready net' = ready \<or> n_ready net' = True # ready)"
proof (cases "NL \<in> set (s_sockbuf s)")
  case True
  then obtain r where r: "s_sockbuf s = l @ NL # r" "rest = r @ concat cs"
    using first_newline [OF stream [symmetric]] l by (auto simp: line_ok_def)
  then have "take_token (s_sockbuf s) = Some (l, r)" using take_token_line [OF l] nul by simp
  then show ?thesis
    using True r nul cs net by (intro exI [of _ "s\<lparr>s_sockbuf := r\<rparr>"] exI [of _ net] exI [of _ cs])
      (simp add: stratum_recv_line_def)
next
  case False
  have "NL \<in> set (s_sockbuf s @ concat cs)" by (simp add: stream)
  then have "NL \<in> set (concat cs)" using False by simp
  then obtain cs1 cs2 size where split: "cs = cs1 @ cs2" "NL \<in> set (s_sockbuf s @ concat cs1)"
    and loop: "recv_loop s ready (received cs @ later)
      = Done (True, s\<lparr>s_sockbuf := s_sockbuf s @ concat cs1, s_sockbuf_size := size\<rparr>, ready, received cs2 @ later)"
    using recv_loop_chunks [OF False _ cs, of ready later] by blast
  obtain r where r: "s_sockbuf s @ concat cs1 = l @ NL # r" "rest = r @ concat cs2"
    using first_newline [of l rest "s_sockbuf s @ concat cs1" "concat cs2"] stream l split
    by (auto simp: line_ok_def)
  have "NUL \<notin> set (l @ NL # r)" unfolding r(1) [symmetric] using nul cs split(1) by (auto simp: chunk_ok_def)
  then have nr: "NUL \<notin> set r" by simp
  then have "take_token (l @ NL # r) = Some (l, r)" by (rule take_token_line [OF l])
  then show ?thesis
    using False r nr cs net split loop
    by (intro exI [of _ "s\<lparr>s_sockbuf := r, s_sockbuf_size := size\<rparr>"]
        exI [of _ "net\<lparr>n_ready := ready, n_recv := received cs2 @ later\<rparr>"] exI [of _ cs2])
      (simp add: stratum_recv_line_def socket_full_def)
qed

text \<open>A number of calls, one after the other.\<close>

fun recv_lines :: "nat \<Rightarrow> 'a conn_scheme \<Rightarrow> net \<Rightarrow> (string option list \<times> 'a conn_scheme \<times> net) io" where
  "recv_lines 0 s net = Done ([], s, net)"
| "recv_lines (Suc n) s net =
     io_bind (stratum_recv_line s net) (\<lambda>(l, s, net).
     io_bind (recv_lines n s net) (\<lambda>(ls, s, net). Done (l # ls, s, net)))"



text \<open>A blank line makes \<open>stratum_recv_line\<close> lose what follows the next line, because the rest
  is moved from the wrong place, and a line that does not end within a minute is given as if it had.\<close>

theorem recv_line_loses_input:
  assumes "line_ok l"
  shows "(s_sockbuf s = NL # l @ NL # rest \<longrightarrow> stratum_recv_line s net = Done (Some l, s\<lparr>s_sockbuf := []\<rparr>, net))
    \<and> (s_sockbuf s = [] \<and> length l \<le> 2044 \<and> n_ready net = [True] \<and> n_recv net = [(Received l, True)] \<longrightarrow>
      (\<exists>s' net'. stratum_recv_line s net = Done (Some l, s', net') \<and> s_sockbuf s' = []))"
proof -
  have 1: "s_sockbuf s = NL # l @ NL # rest \<longrightarrow> stratum_recv_line s net = Done (Some l, s\<lparr>s_sockbuf := []\<rparr>, net)"
    using take_token_blank [OF assms] by (simp add: stratum_recv_line_def)
  have "cstr l = l" using assms by (simp add: line_ok_def cstr_id)
  moreover have "take_token l = Some (l, [])"
  proof -
    have l: "l \<noteq> []" "\<forall>c \<in> set l. c \<noteq> NL" using assms(1) by (auto simp: line_ok_def)
    then have "takeWhile (\<lambda>c. c = NL) l = []" by (cases l) auto
    moreover have "takeWhile (\<lambda>c. c \<noteq> NL) l = l" using l(2) by (simp add: takeWhile_eq_all_conv)
    ultimately show ?thesis using l(1) by (simp add: take_token_def Let_def del: takeWhile_eq_all_conv)
  qed
  ultimately have "s_sockbuf s = [] \<and> length l \<le> 2044 \<and> n_ready net = [True] \<and> n_recv net = [(Received l, True)] \<longrightarrow>
      (\<exists>s' net'. stratum_recv_line s net = Done (Some l, s', net') \<and> s_sockbuf s' = [])"
    by (auto simp: stratum_recv_line_def socket_full_def stratum_buffer_append_def Let_def)
  with 1 show ?thesis by blast
qed

lemma recv_line_loses_input_witness:
  "\<exists>(s :: conn) net. s_sockbuf s = NL # ''a'' @ NL # ''b'' @ [NL]
    \<and> stratum_recv_line s net = Done (Some ''a'', s\<lparr>s_sockbuf := []\<rparr>, net)"
proof -
  define s where "s = \<lparr>s_url = [], s_curl = True, s_curl_url = [], s_sockbuf = NL # ''a'' @ NL # ''b'' @ [NL], s_sockbuf_size = 2048\<rparr>"
  have s: "s_sockbuf s = NL # ''a'' @ NL # ''b'' @ [NL]" by (simp add: s_def)
  have "line_ok ''a''" by (simp add: line_ok_def)
  then have "stratum_recv_line s undefined = Done (Some ''a'', s\<lparr>s_sockbuf := []\<rparr>, undefined)"
    using recv_line_loses_input s by blast
  with s show ?thesis by blast
qed

section \<open>What is sent\<close>

lemma send_loop_out:
  "send_loop s steps out = Done (ok, steps', out') \<Longrightarrow>
   \<exists>p q. s = p @ q \<and> out' = out @ p \<and> (ok \<longrightarrow> q = [])"
proof (induction steps arbitrary: s out)
  case Nil
  then show ?case by (cases s) auto
next
  case (Cons st steps)
  obtain writable r where st: "st = (writable, r)" by (cases st)
  show ?case
  proof (cases "s = [] \<or> \<not> writable \<or> r = SendError")
    case True
    then show ?thesis using Cons.prems st by (cases s) (auto split: if_splits)
  next
    case False
    then obtain c t where s: "s = c # t" by (cases s) auto
    show ?thesis
    proof (cases r)
      case (Sent n)
      then have "send_loop (drop n s) steps (out @ take n s) = Done (ok, steps', out')"
        using Cons.prems False st s by simp
      from Cons.IH [OF this] obtain p q where pq: "drop n s = p @ q" "out' = (out @ take n s) @ p" "ok \<longrightarrow> q = []"
        by blast
      have "s = (take n s @ p) @ q" using pq(1) append_take_drop_id [of n s] by simp
      then show ?thesis using pq(2,3) by (metis append.assoc)
    next
      case SendAgain
      then have "send_loop s steps out = Done (ok, steps', out')"
        using Cons.prems False st s by simp
      then show ?thesis by (rule Cons.IH)
    qed (use False in simp)
  qed
qed

text \<open>\<open>stratum_send_line\<close> puts a prefix of the line and its newline on the connection, and all of
  it when it returns true.\<close>

theorem send_line_sends:
  assumes "stratum_send_line s net = Done (ok, net')"
  shows "\<exists>p q. s @ [NL] = p @ q \<and> n_out net' = n_out net @ p \<and> (ok \<longrightarrow> p = s @ [NL])"
proof -
  obtain steps where "send_loop (s @ [NL]) (n_send net) (n_out net) = Done (ok, steps, n_out net')"
    using assms by (auto simp: stratum_send_line_def io_bind_Done)
  from send_loop_out [OF this] show ?thesis by auto
qed

lemma send_line_sends_witness:
  "\<exists>net'. stratum_send_line ''abc'' \<lparr>n_ready = [], n_recv = [], n_send = [(True, Sent 2), (True, SendAgain), (True, Sent 2)],
      n_conn = [], n_out = ''x''\<rparr> = Done (True, net') \<and> n_out net' = ''xabc'' @ [NL]"
proof -
  define net where "net = \<lparr>n_ready = [], n_recv = [], n_send = [(True, Sent 2), (True, SendAgain), (True, Sent 2)],
      n_conn = [], n_out = ''x''\<rparr>"
  obtain net' where "stratum_send_line ''abc'' net = Done (True, net')"
    by (simp add: net_def stratum_send_line_def numeral_eq_Suc)
  with send_line_sends [OF this] show ?thesis by (auto simp: net_def)
qed

section \<open>The buffer is never overrun\<close>

text \<open>
  The steps of a connection: opening, closing and receiving, in any order. The move in
  \<open>stratum_recv_line\<close> reads one byte past the terminating zero, so that the buffer has to hold two
  bytes more than the string.
\<close>

inductive conn_step :: "conn \<Rightarrow> conn \<Rightarrow> bool" where
  connect: "stratum_connect s url net = Done (ok, s', net') \<Longrightarrow> conn_step s s'"
| disconnect: "conn_step s (stratum_disconnect s)"
| receive: "s_curl s \<Longrightarrow> stratum_recv_line s net = Done (l, s', net') \<Longrightarrow> conn_step s s'"

definition conn_start :: conn where
  "conn_start = \<lparr>s_url = [], s_curl = False, s_curl_url = [], s_sockbuf = [], s_sockbuf_size = 0\<rparr>"

definition sockbuf_ok :: "'a conn_scheme \<Rightarrow> bool" where
  "sockbuf_ok s \<longleftrightarrow> NUL \<notin> set (s_sockbuf s)
     \<and> (s_sockbuf_size s = 0 \<and> s_sockbuf s = [] \<and> \<not> s_curl s \<or> length (s_sockbuf s) + 1 < s_sockbuf_size s)"

lemma buffer_append_ok: "NUL \<notin> set (s_sockbuf s) \<Longrightarrow> NUL \<notin> set c \<Longrightarrow> sockbuf_ok (stratum_buffer_append s c)"
  using mod_less_divisor [of 2048 "length (s_sockbuf s) + length c + 1"]
  by (auto simp: sockbuf_ok_def stratum_buffer_append_def Let_def less_diff_conv)

lemma buffer_append_curl [simp]: "s_curl (stratum_buffer_append s c) = s_curl s"
  by (simp add: stratum_buffer_append_def Let_def)

lemma recv_loop_ok:
  "recv_loop s ready rs = Done (ok, s', ready', rs') \<Longrightarrow> sockbuf_ok s \<Longrightarrow> sockbuf_ok s' \<and> s_curl s' = s_curl s"
proof (induction rs arbitrary: s ready)
  case (Cons rl rs)
  obtain r late where rl: "rl = (r, late)" by (cases rl)
  show ?case
  proof (cases r)
    case (Received c)
    define s1 where "s1 = stratum_buffer_append s (cstr (take 2044 c))"
    have "sockbuf_ok s1"
      unfolding s1_def using Cons.prems(2) by (intro buffer_append_ok) (simp_all add: sockbuf_ok_def)
    moreover have "s_curl s1 = s_curl s" by (simp add: s1_def)
    moreover have "(if late \<or> NL \<in> set (s_sockbuf s1) then Done (True, s1, ready, rs) else recv_loop s1 ready rs)
        = Done (ok, s', ready', rs')"
      using Cons.prems(1) rl Received by (simp add: Let_def flip: s1_def)
    ultimately show ?thesis using Cons.IH [of s1 ready] by (auto split: if_splits)
  next
    case RecvAgain
    show ?thesis
    proof (cases ready)
      case (Cons b bs)
      then show ?thesis using Cons.IH [of s bs] Cons.prems rl RecvAgain by (auto split: if_splits)
    qed (use Cons.prems rl RecvAgain in simp)
  qed (use Cons.prems rl in auto)
qed simp

lemma take_token_shorter:
  assumes "take_token buf = Some (tok, rest)"
  shows "length rest < length buf" "tok \<noteq> []" "NUL \<notin> set rest" "set tok \<subseteq> set buf"
proof -
  define k where "k = length (takeWhile (\<lambda>c. c = NL) buf)"
  have tok: "tok = takeWhile (\<lambda>c. c \<noteq> NL) (drop k buf)" "tok \<noteq> []"
    "rest = (if length tok + 1 < length buf then cstr (drop (length tok + 1) (buf[k + length tok := NUL])) else [])"
    using assms by (auto simp: take_token_def Let_def k_def split: if_splits)
  have len: "length (cstr x) \<le> length x" for x by (simp add: cstr_def length_takeWhile_le)
  have "buf \<noteq> []" using tok(1,2) by auto
  then show "length rest < length buf"
    using tok(3) len [of "drop (length tok + 1) (buf[k + length tok := NUL])"] by auto
  show "tok \<noteq> []" by (rule tok(2))
  show "NUL \<notin> set rest" using tok(3) by simp
  show "set tok \<subseteq> set buf" unfolding tok(1) by (auto dest: set_takeWhileD in_set_dropD)
qed

lemma recv_line_ok:
  assumes r: "stratum_recv_line s net = Done (l, s', net')" and s: "sockbuf_ok s"
  shows "sockbuf_ok s' \<and> s_curl s' = s_curl s"
proof -
  obtain ok s1 net1 where one: "(if NL \<in> set (s_sockbuf s) then Done (True, s, net)
        else io_bind (socket_full net) (\<lambda>(full, net).
          if \<not> full then Done (False, s, net)
          else io_bind (recv_loop s (n_ready net) (n_recv net)) (\<lambda>(ok, s, ready, rs).
            Done (ok, s, net\<lparr>n_ready := ready, n_recv := rs\<rparr>)))) = Done (ok, s1, net1)"
    and rest: "(if \<not> ok then Done (None, s1, net1)
          else (case take_token (s_sockbuf s1) of
                  None \<Rightarrow> Done (None, s1, net1)
                | Some (tok, rest) \<Rightarrow> Done (Some tok, s1\<lparr>s_sockbuf := rest\<rparr>, net1))) = Done (l, s', net')"
    using r unfolding stratum_recv_line_def io_bind_Done by auto
  have "sockbuf_ok s1 \<and> s_curl s1 = s_curl s"
  proof (cases "NL \<in> set (s_sockbuf s)")
    case False
    then show ?thesis using one s recv_loop_ok [of s] by (auto simp: io_bind_Done split: if_splits)
  qed (use one s in simp)
  then show ?thesis
    using rest take_token_shorter [of "s_sockbuf s1"]
    by (fastforce simp: sockbuf_ok_def split: if_splits option.splits)
qed

text \<open>C19: in every state the connection can reach, the receive buffer holds its string, the zero byte
  and one byte more, so that no call reads or writes outside it, and the string has no zero byte.\<close>

theorem sockbuf_never_overrun:
  assumes "conn_step\<^sup>*\<^sup>* conn_start s"
  shows "sockbuf_ok s"
  using assms
proof (induction rule: rtranclp_induct)
  case base
  then show ?case by (simp add: conn_start_def sockbuf_ok_def)
next
  case (step s s')
  from step.hyps(2) show ?case
  proof (cases rule: conn_step.cases)
    case (connect url net ok net')
    then show ?thesis
      using step.IH by (auto simp: stratum_connect_def sockbuf_ok_def Let_def split: list.splits prod.splits if_splits)
  next
    case disconnect
    then show ?thesis using step.IH by (auto simp: stratum_disconnect_def sockbuf_ok_def)
  next
    case (receive net l net')
    then show ?thesis using step.IH recv_line_ok by blast
  qed
qed

lemma sockbuf_never_overrun_witness: "sockbuf_ok (stratum_disconnect conn_start)"
  by (intro sockbuf_never_overrun r_into_rtranclp conn_step.disconnect)

end
