(* ===== verification/Difficulty.thy ===== *)
theory Difficulty
  imports Complex_Main Target "HOL-Library.Log_Nat"
begin

text \<open>
  The difficulty of Stratum and its target, \<open>diff_to_target\<close> of \<open>util.c\<close>. A \<open>double\<close> is the
  rational number it denotes; the result of an arithmetic operation is rounded to 53 significant
  bits, ties to even (the exponents that occur here are far from the ends of the format).
\<close>

section \<open>Double arithmetic\<close>

definition dbl_exp :: "rat \<Rightarrow> int" where
  "dbl_exp x =
     (let (p, q) = quotient_of x; e = bitlen p - bitlen q - 53
      in if 2 powi (e + 53) \<le> x then e + 1 else e)"

definition round_even :: "rat \<Rightarrow> int" where
  "round_even y = (let f = \<lfloor>y\<rfloor>; d = y - of_int f in if d < 1 / 2 \<or> d = 1 / 2 \<and> even f then f else f + 1)"

definition dbl :: "rat \<Rightarrow> rat" where
  "dbl x = (let e = dbl_exp \<bar>x\<bar> in sgn x * of_int (round_even (\<bar>x\<bar> / 2 powi e)) * 2 powi e)"

section \<open>The target of a difficulty\<close>

text \<open>The loop that scales the difficulty down; it gives the index of the word and the rest.\<close>

fun scale_diff :: "nat \<Rightarrow> rat \<Rightarrow> nat \<times> rat" where
  "scale_diff 0 diff = (0, diff)"
| "scale_diff (Suc k) diff = (if 1 < diff then scale_diff k (dbl (diff / 4294967296)) else (Suc k, diff))"

text \<open>
  The conversion to a 64-bit integer drops the fraction and is undefined out of range, as it is
  for the infinity of a division by zero: \<open>None\<close>.
\<close>

definition diff_to_target :: "rat \<Rightarrow> u32 list option" where
  "diff_to_target diff =
     (let (k, diff) = scale_diff 6 diff; q = dbl (4294901760 / diff)
      in if diff = 0 \<or> q \<le> - 1 \<or> 2 ^ 64 \<le> q then None
         else (let m = (if q < 0 then 0 else nat \<lfloor>q\<rfloor>)
               in if m = 0 \<and> k = 6 then Some (replicate 8 0xffffffff)
                  else Some ((replicate 8 0)[k := of_nat m, k + 1 := of_nat (m div 2 ^ 32)])))"

section \<open>Rounding\<close>

lemma round_even_error: "\<bar>of_int (round_even y) - y\<bar> \<le> 1 / 2"
  using floor_correct [of y] by (auto simp: round_even_def Let_def abs_le_iff)

lemma dbl_exp_bounds:
  assumes "0 < x"
  shows "2 powi (dbl_exp x + 52) \<le> x" "x < 2 powi (dbl_exp x + 53)"
proof -
  obtain p q where pq: "quotient_of x = (p, q)" by (cases "quotient_of x")
  have x: "x = of_int p / of_int q" "0 < q" using pq quotient_of_div quotient_of_denom_pos by auto
  then have "0 < p" using assms by (simp add: zero_less_divide_iff)
  define a b where "a = bitlen p" and "b = bitlen q"
  have pos: "0 < a" "0 < b"
    using bitlen_nonneg [of p] bitlen_eq_zero_iff [of p] bitlen_nonneg [of q] bitlen_eq_zero_iff [of q] \<open>0 < p\<close> x(2)
    unfolding a_def b_def by linarith+
  have p: "2 ^ nat (a - 1) \<le> p" "p < 2 ^ nat a" and q: "2 ^ nat (b - 1) \<le> q" "q < 2 ^ nat b"
    using bitlen_bounds \<open>0 < p\<close> x(2) by (auto simp: a_def b_def)
  have pw: "(of_int (2 ^ nat n) :: rat) = 2 powi n" if "0 \<le> n" for n
    using that by (simp add: power_int_def)
  have P: "2 powi (a - 1) \<le> rat_of_int p" "rat_of_int p < 2 powi a"
    using p pos by (simp_all add: pw [symmetric] del: of_int_power)
  have Q: "2 powi (b - 1) \<le> rat_of_int q" "rat_of_int q < 2 powi b"
    using q pos by (simp_all add: pw [symmetric] del: of_int_power)
  have "2 powi (a - b - 1) * rat_of_int q \<le> 2 powi (a - b - 1) * 2 powi b" using Q by (simp add: less_imp_le)
  also have "\<dots> = 2 powi (a - 1)" by (simp flip: power_int_add)
  also have "\<dots> \<le> rat_of_int p" by (rule P)
  finally have lo: "2 powi (a - b - 1) \<le> x" using x by (simp add: le_divide_eq)
  have "rat_of_int p < 2 powi a" by (rule P)
  also have "\<dots> = 2 powi (a - b + 1) * 2 powi (b - 1)" by (simp flip: power_int_add)
  also have "\<dots> \<le> 2 powi (a - b + 1) * rat_of_int q" using Q by simp
  finally have hi: "x < 2 powi (a - b + 1)" using x by (simp add: divide_less_eq)
  define e where "e = a - b - 53"
  have e: "dbl_exp x = (if 2 powi (e + 53) \<le> x then e + 1 else e)"
    by (simp add: dbl_exp_def pq e_def a_def b_def)
  have r: "a - b - 1 = e + 52" "a - b + 1 = e + 1 + 53" "e + 53 = e + 1 + 52" by (simp_all add: e_def)
  show "2 powi (dbl_exp x + 52) \<le> x" "x < 2 powi (dbl_exp x + 53)"
    using lo hi unfolding e r by (auto simp: add.commute)
qed

lemma dbl_exp_unique:
  assumes "2 powi (e + 52) \<le> x" "x < 2 powi (e + 53)"
  shows "dbl_exp x = e"
proof -
  have "0 < x" using assms(1) by (rule less_le_trans [rotated]) simp
  note B = dbl_exp_bounds [OF this]
  have "\<not> e < dbl_exp x"
  proof
    assume "e < dbl_exp x"
    then have "(2 :: rat) powi (e + 53) \<le> 2 powi (dbl_exp x + 52)" by (intro power_int_increasing) auto
    then show False using assms(2) B(1) by linarith
  qed
  moreover have "\<not> dbl_exp x < e"
  proof
    assume "dbl_exp x < e"
    then have "(2 :: rat) powi (dbl_exp x + 53) \<le> 2 powi (e + 52)" by (intro power_int_increasing) auto
    then show False using assms(1) B(2) by linarith
  qed
  ultimately show ?thesis by linarith
qed

lemma dbl_error:
  assumes "0 < x"
  shows "\<bar>dbl x - x\<bar> \<le> x / 2 ^ 53"
proof -
  define e where "e = dbl_exp x"
  define s where "s = (2 :: rat) powi e"
  have s: "0 < s" by (simp add: s_def)
  have "dbl x = of_int (round_even (x / s)) * s"
    using assms unfolding s_def e_def by (simp add: dbl_def Let_def)
  then have "dbl x - x = (of_int (round_even (x / s)) - x / s) * s" using s by (simp add: left_diff_distrib)
  then have "\<bar>dbl x - x\<bar> \<le> 1 / 2 * s"
    using mult_right_mono [OF round_even_error [of "x / s"], of s] s by (simp add: abs_mult)
  moreover have "s * 2 ^ 52 \<le> x"
    using dbl_exp_bounds(1) [OF assms] by (simp add: s_def e_def power_int_add)
  ultimately show ?thesis by simp
qed

lemma dbl_scale:
  assumes "0 < x" "dbl x = x"
  shows "dbl (x / 4294967296) = x / 4294967296"
proof -
  define e where "e = dbl_exp x"
  have B: "2 powi (e + 52) \<le> x" "x < 2 powi (e + 53)" using dbl_exp_bounds [OF assms(1)] by (simp_all add: e_def)
  have sh: "(2 :: rat) powi (n - 32) = 2 powi n / 4294967296" for n by (simp add: power_int_diff)
  have "2 powi (e - 32 + 52) \<le> x / 4294967296" "x / 4294967296 < 2 powi (e - 32 + 53)"
    using B sh [of "e + 52"] sh [of "e + 53"] by (simp_all add: algebra_simps)
  then have e': "dbl_exp (x / 4294967296) = e - 32" by (rule dbl_exp_unique)
  have "x / 4294967296 / 2 powi (e - 32) = x / 2 powi e" by (simp add: sh)
  then have "dbl (x / 4294967296) = of_int (round_even (x / 2 powi e)) * 2 powi e / 4294967296"
    using assms(1) by (simp add: dbl_def Let_def e' sh)
  also have "\<dots> = dbl x / 4294967296" using assms(1) by (simp add: dbl_def Let_def e_def)
  finally show ?thesis using assms(2) by simp
qed

section \<open>The target\<close>

lemma scale_diff_spec:
  assumes "0 < d" "dbl d = d" "scale_diff n d = (k, d')"
  shows "k \<le> n \<and> d = d' * 4294967296 ^ (n - k) \<and> 0 < d' \<and> (k \<noteq> 0 \<longrightarrow> d' \<le> 1)
    \<and> (k < n \<longrightarrow> 1 / 4294967296 < d')"
  using assms
proof (induction n arbitrary: d)
  case (Suc n)
  show ?case
  proof (cases "1 < d")
    case True
    have s: "dbl (d / 4294967296) = d / 4294967296" using Suc.prems by (simp add: dbl_scale)
    have "scale_diff n (dbl (d / 4294967296)) = (k, d')" using Suc.prems True by simp
    then have "scale_diff n (d / 4294967296) = (k, d')" by (simp only: s)
    with Suc.IH [of "d / 4294967296"] Suc.prems(1) s
    have IH: "k \<le> n \<and> d / 4294967296 = d' * 4294967296 ^ (n - k) \<and> 0 < d' \<and> (k \<noteq> 0 \<longrightarrow> d' \<le> 1)
      \<and> (k < n \<longrightarrow> 1 / 4294967296 < d')"
      by simp
    have "1 / 4294967296 < d'" if "k = n" using IH that True by simp
    moreover have "d = d' * 4294967296 ^ (Suc n - k)" using IH by (simp add: Suc_diff_le field_simps)
    ultimately show ?thesis using IH by auto
  next
    case False
    then show ?thesis using Suc.prems by simp
  qed
qed simp

lemma two_words_val:
  assumes "m < 2 ^ 64" "k \<le> 6"
  shows "words_val ((replicate 8 0)[k := of_nat m, k + 1 := of_nat (m div 2 ^ 32)]) = m * 2 ^ (32 * k)"
proof -
  have split: "unat (of_nat m :: u32) + unat (of_nat (m div 2 ^ 32) :: u32) * 2 ^ 32 = m"
    using assms(1) by (simp add: unsigned_of_nat take_bit_nat_eq_self_iff take_bit_eq_mod less_mult_imp_div_less)
  have "words_val ((replicate 8 0)[k := x, k + 1 := y]) = (unat x + unat y * 2 ^ 32) * 2 ^ (32 * k)" for x y :: u32
  proof -
    have "replicate 8 0 = replicate k (0 :: u32) @ 0 # 0 # replicate (6 - k) 0"
      using assms(2) by (simp flip: replicate_Suc replicate_add)
    then have "(replicate 8 0)[k := x, k + 1 := y] = replicate k 0 @ x # y # replicate (6 - k) 0"
      by (simp add: list_update_append)
    moreover have "words_val (replicate j 0) = 0" for j
      by (induction j) (simp_all add: words_val_snoc flip: replicate_append_same)
    moreover have app: "words_val (xs @ replicate j 0) = words_val xs" for xs j
      by (induction j) (simp_all add: words_val_snoc flip: replicate_append_same append_assoc)
    have "words_val (replicate k 0 @ x # y # replicate (6 - k) 0) = words_val ((replicate k 0 @ [x]) @ [y])"
      using app [of "(replicate k 0 @ [x]) @ [y]" "6 - k"] by simp
    ultimately show ?thesis
      using words_val_snoc [of "replicate k 0 @ [x]" y] words_val_snoc [of "replicate k 0" x]
      by (simp add: power_add algebra_simps)
  qed
  then show ?thesis by (simp only: split)
qed

text \<open>The quotient the target is made of.\<close>

lemma target_quotient:
  assumes "0 < d'" "4294901760 / d' \<le> 4294901760 * 4294967296" "d' \<le> 1"
  defines "q \<equiv> dbl (4294901760 / d')"
  shows "1 \<le> q \<and> q < 2 ^ 64 \<and> \<bar>of_int \<lfloor>q\<rfloor> * d' - 4294901760\<bar> \<le> 4294901760 / 2 ^ 31"
proof -
  define x where "x = 4294901760 / d'"
  have x: "4294901760 \<le> x" "x \<le> 4294901760 * 4294967296" "x * d' = 4294901760"
    using assms by (simp_all add: x_def field_simps)
  have "\<bar>q - x\<bar> \<le> x / 2 ^ 53" unfolding q_def x_def [symmetric] using x by (intro dbl_error) simp
  then have lo: "x - x / 2 ^ 53 \<le> q" and hi: "q \<le> x + x / 2 ^ 53" by linarith+
  have "1 \<le> q" using lo x(1) by (simp add: field_simps)
  moreover have "q < 2 ^ 64" using hi x(2) by (simp add: field_simps)
  moreover have "\<bar>of_int \<lfloor>q\<rfloor> - x\<bar> \<le> 1 + x / 2 ^ 53"
    using lo hi of_int_floor_le [of q] floor_correct [of q] by linarith
  then have le: "\<bar>of_int \<lfloor>q\<rfloor> - x\<bar> * d' \<le> (1 + x / 2 ^ 53) * d'" using assms(1) by (intro mult_right_mono) simp_all
  have "\<bar>of_int \<lfloor>q\<rfloor> * d' - x * d'\<bar> \<le> d' + x * d' / 2 ^ 53"
  proof -
    have "\<bar>of_int \<lfloor>q\<rfloor> * d' - x * d'\<bar> = \<bar>of_int \<lfloor>q\<rfloor> - x\<bar> * d'"
      using assms(1) by (simp add: abs_mult flip: left_diff_distrib)
    moreover have "(1 + x / 2 ^ 53) * d' = d' + x * d' / 2 ^ 53" by (simp add: field_simps)
    ultimately show ?thesis using le by linarith
  qed
  then have "\<bar>of_int \<lfloor>q\<rfloor> * d' - 4294901760\<bar> \<le> 4294901760 / 2 ^ 31"
    unfolding x(3) using assms(3) by simp
  ultimately show ?thesis by blast
qed

lemma target_exists:
  assumes "dbl d = d" and d: "1 / 2 ^ 31 \<le> d \<and> d \<le> 2 ^ 192"
  shows "\<exists>t. diff_to_target d = Some t \<and> length t = 8
        \<and> \<bar>of_nat (words_val t) * d - 0xffff * 2 ^ 208\<bar> \<le> 0xffff * 2 ^ 208 / 2 ^ 31"
proof -
  obtain k d' where sc: "scale_diff 6 d = (k, d')" by (cases "scale_diff 6 d")
  have pos: "0 < d" by (rule less_le_trans [of _ "1 / 2 ^ 31"]) (use d in simp_all)
  note S = scale_diff_spec [OF pos assms(1) sc]
  define p where "p = (4294967296 :: rat) ^ (6 - k)"
  have S: "k \<le> 6" "d = d' * p" "0 < d'" "k \<noteq> 0 \<longrightarrow> d' \<le> 1" "k < 6 \<longrightarrow> 1 / 4294967296 < d'"
    using S by (simp_all add: p_def)
  have "d' \<le> 1"
  proof (cases "k = 0")
    case True
    then have "p = 2 ^ 192" by (simp add: p_def)
    then show ?thesis using d S(2) by simp
  qed (use S(4) in simp)
  moreover have "1 / 4294967296 < d'"
  proof (cases "k < 6")
    case False
    then have "d = d'" using S(1,2) by (simp add: p_def)
    then show ?thesis using d by simp
  qed (use S(5) in simp)
  then have "4294901760 / d' \<le> 4294901760 * 4294967296" using S(3) by (simp add: field_simps)
  moreover define q where "q = dbl (4294901760 / d')"
  ultimately have q: "1 \<le> q" "q < 2 ^ 64" "\<bar>of_int \<lfloor>q\<rfloor> * d' - 4294901760\<bar> \<le> 4294901760 / 2 ^ 31"
    using target_quotient [OF S(3)] by simp_all
  define m where "m = nat \<lfloor>q\<rfloor>"
  have fl: "1 \<le> \<lfloor>q\<rfloor>" "\<lfloor>q\<rfloor> < 2 ^ 64" using q(1,2) by (simp_all add: le_floor_iff floor_less_iff)
  then have m: "m \<noteq> 0" "m < 2 ^ 64" "(of_nat m :: rat) = of_int \<lfloor>q\<rfloor>" 
    using fl by (simp_all add: m_def nat_less_iff)
  define t where "t = ((replicate 8 0)[k := of_nat m, k + 1 := of_nat (m div 2 ^ 32)] :: u32 list)"
  have "diff_to_target d = Some t"
    using q(1,2) m(1) S(3) by (simp add: diff_to_target_def sc Let_def t_def flip: q_def m_def)
  moreover have "length t = 8" by (simp add: t_def)
  moreover have "\<bar>of_nat (words_val t) * d - 0xffff * 2 ^ 208\<bar> \<le> 0xffff * 2 ^ 208 / 2 ^ 31"
  proof -
    define w where "w = (2 :: rat) ^ (32 * k)"
    have wp: "w * p = 2 ^ 192"
    proof -
      have "p = 2 ^ (32 * (6 - k))" by (simp add: p_def power_mult)
      then show ?thesis using S(1) by (simp add: w_def diff_mult_distrib2 flip: power_add)
    qed
    have "of_nat (words_val t) * d = of_int \<lfloor>q\<rfloor> * d' * (w * p)"
      using two_words_val [OF m(2) S(1)] by (simp add: t_def m(3) S(2) w_def)
    then have "of_nat (words_val t) * d - 0xffff * 2 ^ 208 = (of_int \<lfloor>q\<rfloor> * d' - 4294901760) * 2 ^ 192"
      unfolding wp by (simp add: left_diff_distrib)
    then have e: "\<bar>of_nat (words_val t) * d - 0xffff * 2 ^ 208\<bar> = \<bar>of_int \<lfloor>q\<rfloor> * d' - 4294901760\<bar> * 2 ^ 192"
      by (simp only: abs_mult) simp
    show ?thesis unfolding e using mult_right_mono [OF q(3), of "2 ^ 192"] by simp
  qed
  ultimately show "\<exists>t. diff_to_target d = Some t \<and> length t = 8
      \<and> \<bar>of_nat (words_val t) * d - 0xffff * 2 ^ 208\<bar> \<le> 0xffff * 2 ^ 208 / 2 ^ 31" by blast
qed

text \<open>C25: the target that \<open>diff_to_target\<close> gives for a difficulty of at most two to the 192 is, times
  the difficulty, the target of difficulty one to within one part in two to the 31; a positive
  difficulty below two to the minus 33 makes the conversion undefined, and a negative one gives
  nothing or the target that every hash meets.\<close>

theorem diff_to_target_correct:
  assumes "dbl d = d"
  shows "(1 / 2 ^ 31 \<le> d \<and> d \<le> 2 ^ 192 \<longrightarrow>
      (\<exists>t. diff_to_target d = Some t \<and> length t = 8
        \<and> \<bar>of_nat (words_val t) * d - 0xffff * 2 ^ 208\<bar> \<le> 0xffff * 2 ^ 208 / 2 ^ 31))
    \<and> (0 < d \<and> d \<le> 1 / 2 ^ 33 \<longrightarrow> diff_to_target d = None)
    \<and> (d < 0 \<longrightarrow> diff_to_target d \<in> {None, Some (replicate 8 0xffffffff)})"
proof (intro conjI impI)
  assume "1 / 2 ^ 31 \<le> d \<and> d \<le> 2 ^ 192"
  then show "\<exists>t. diff_to_target d = Some t \<and> length t = 8
      \<and> \<bar>of_nat (words_val t) * d - 0xffff * 2 ^ 208\<bar> \<le> 0xffff * 2 ^ 208 / 2 ^ 31"
    by (rule target_exists [OF assms])
next
  assume d: "0 < d \<and> d \<le> 1 / 2 ^ 33"
  then have sc: "scale_diff 6 d = (6, d)" by (simp add: numeral_eq_Suc)
  have "2 ^ 64 \<le> dbl (4294901760 / d)"
  proof -
    have "4294901760 * 2 ^ 33 \<le> 4294901760 / d" using d by (simp add: field_simps)
    moreover have "\<bar>dbl (4294901760 / d) - 4294901760 / d\<bar> \<le> 4294901760 / d / 2 ^ 53"
      using d by (intro dbl_error) simp
    ultimately show ?thesis by (simp add: abs_le_iff)
  qed
  then show "diff_to_target d = None" by (simp add: diff_to_target_def sc Let_def)
next
  assume d: "d < 0"
  then have sc: "scale_diff 6 d = (6, d)" by (simp add: numeral_eq_Suc)
  have "dbl (4294901760 / d) \<le> 0"
  proof -
    have "dbl (- x) = - dbl x" for x by (simp add: dbl_def Let_def)
    from this [of "4294901760 / (- d)"] have "dbl (4294901760 / d) = - dbl (4294901760 / (- d))" by simp
    moreover have "\<bar>dbl (4294901760 / (- d)) - 4294901760 / (- d)\<bar> \<le> 4294901760 / (- d) / 2 ^ 53"
      using d by (intro dbl_error) (simp add: divide_pos_neg)
    moreover have "0 < 4294901760 / (- d)" using d by (simp add: divide_pos_neg)
    ultimately show ?thesis by (simp add: abs_le_iff)
  qed
  then show "diff_to_target d \<in> {None, Some (replicate 8 0xffffffff)}"
    by (auto simp: diff_to_target_def sc Let_def)
qed

lemma dbl_one: "dbl 1 = 1"
proof -
  have "dbl_exp 1 = - 52" by (rule dbl_exp_unique) (simp_all add: power_int_def)
  then show ?thesis by (simp add: dbl_def Let_def round_even_def)
qed

lemma diff_to_target_correct_witness:
  "\<exists>t. diff_to_target 1 = Some t \<and> \<bar>of_nat (words_val t) - 0xffff * 2 ^ 208\<bar> \<le> (0xffff * 2 ^ 208 / 2 ^ 31 :: rat)"
  using diff_to_target_correct [OF dbl_one] by auto

end
