(* ===== verification/StratumJob.thy ===== *)
theory StratumJob
  imports StratumLine Difficulty Gbt
begin

text \<open>
  The Stratum job: \<open>stratum_notify\<close> and \<open>stratum_set_difficulty\<close> of \<open>util.c\<close> and
  \<open>stratum_gen_work\<close> of \<open>cpu-miner.c\<close>. The pointer to the extra nonce is its offset into the
  coinbase; memory that an allocation leaves unset is read from a parameter.
\<close>

section \<open>The job\<close>

record stratum_job =
  j_job_id :: "string option"
  j_prevhash :: "byte list"
  j_coinbase :: "byte list"
  j_xnonce2 :: nat
  j_merkle :: "byte list list"
  j_version :: "byte list"
  j_nbits :: "byte list"
  j_ntime :: "byte list"
  j_clean :: bool
  j_diff :: rat

record sctx = conn +
  s_next_diff :: rat
  s_session_id :: "string option"
  s_xnonce1 :: "byte list"
  s_xnonce2_size :: nat
  s_job :: stratum_job

text \<open>\<open>malloc\<close> and \<open>realloc\<close>: what is new is unset.\<close>

definition fresh :: "(nat \<Rightarrow> byte) \<Rightarrow> nat \<Rightarrow> byte list" where
  "fresh junk n = map junk [0..<n]"

definition realloc :: "(nat \<Rightarrow> byte) \<Rightarrow> byte list \<Rightarrow> nat \<Rightarrow> byte list" where
  "realloc junk old n = take n old @ drop (length old) (fresh junk n)"

lemma length_fresh [simp]: "length (fresh junk n) = n"
  by (simp add: fresh_def)

lemma length_realloc [simp]: "length (realloc junk old n) = n"
  by (simp add: realloc_def)

text \<open>The branch of the notification: each of its members has 64 characters. That they are
  hexadecimal digits is not looked at.\<close>

fun notify_merkle :: "(nat \<Rightarrow> byte) \<Rightarrow> json list \<Rightarrow> byte list list option" where
  "notify_merkle junk [] = Some []"
| "notify_merkle junk (v # vs) =
     (case json_string_value (Some v) of
        None \<Rightarrow> None
      | Some s \<Rightarrow>
          if length s \<noteq> 64 then None
          else (case notify_merkle junk vs of
                  None \<Rightarrow> None
                | Some ms \<Rightarrow> Some (snd (hex2bin (fresh junk 32) (Some s) 32) # ms)))"

text \<open>The part under the lock: the coinbase is put together in place, and the extra nonce is cleared
  unless the job is the one the connection has already.\<close>

definition notify_coinbase :: "(nat \<Rightarrow> byte) \<Rightarrow> sctx \<Rightarrow> string \<Rightarrow> string \<Rightarrow> string \<Rightarrow> byte list" where
  "notify_coinbase junk sctx job_id coinb1 coinb2 =
     (let coinb1_size = length coinb1 div 2;
          coinb2_size = length coinb2 div 2;
          xnonce2 = coinb1_size + length (s_xnonce1 sctx);
          coinbase = realloc junk (j_coinbase (s_job sctx)) (xnonce2 + s_xnonce2_size sctx + coinb2_size);
          coinbase = snd (hex2bin coinbase (Some coinb1) coinb1_size);
          coinbase = memcpy_at coinbase coinb1_size (s_xnonce1 sctx);
          coinbase = (if j_job_id (s_job sctx) \<noteq> Some job_id
                      then memcpy_at coinbase xnonce2 (replicate (s_xnonce2_size sctx) 0) else coinbase);
          rest = xnonce2 + s_xnonce2_size sctx
      in take rest coinbase @ snd (hex2bin (drop rest coinbase) (Some coinb2) coinb2_size))"

definition stratum_notify :: "(nat \<Rightarrow> byte) \<Rightarrow> sctx \<Rightarrow> json option \<Rightarrow> bool \<times> sctx" where
  "stratum_notify junk sctx params =
     (let arg = (\<lambda>i. json_string_value (json_array_get params i));
          merkle_arr = json_array_get params 4;
          clean = json_is_true (json_array_get params 8)
      in if \<not> json_is_array merkle_arr then (False, sctx)
         else (case (arg 0, arg 1, arg 2, arg 3, arg 5, arg 6, arg 7) of
           (Some job_id, Some prevhash, Some coinb1, Some coinb2, Some version, Some nbits, Some ntime) \<Rightarrow>
             if length prevhash \<noteq> 64 \<or> length version \<noteq> 8 \<or> length nbits \<noteq> 8 \<or> length ntime \<noteq> 8 then (False, sctx)
             else (case notify_merkle junk (json_array_elems merkle_arr) of
                     None \<Rightarrow> (False, sctx)
                   | Some merkle \<Rightarrow>
                       (True, sctx\<lparr>s_job := \<lparr>
                          j_job_id = Some job_id,
                          j_prevhash = snd (hex2bin (j_prevhash (s_job sctx)) (Some prevhash) 32),
                          j_coinbase = notify_coinbase junk sctx job_id coinb1 coinb2,
                          j_xnonce2 = length coinb1 div 2 + length (s_xnonce1 sctx),
                          j_merkle = merkle,
                          j_version = snd (hex2bin (j_version (s_job sctx)) (Some version) 4),
                          j_nbits = snd (hex2bin (j_nbits (s_job sctx)) (Some nbits) 4),
                          j_ntime = snd (hex2bin (j_ntime (s_job sctx)) (Some ntime) 4),
                          j_clean = clean,
                          j_diff = s_next_diff sctx\<rparr>\<rparr>))
         | _ \<Rightarrow> (False, sctx)))"

definition stratum_set_difficulty :: "sctx \<Rightarrow> json option \<Rightarrow> bool \<times> sctx" where
  "stratum_set_difficulty sctx params =
     (let diff = dbl (json_number_value (json_array_get params 0))
      in if diff = 0 then (False, sctx) else (True, sctx\<lparr>s_next_diff := diff\<rparr>))"

section \<open>Work from the job\<close>

text \<open>The extra nonce is a little-endian counter.\<close>

fun increment_le :: "byte list \<Rightarrow> byte list" where
  "increment_le [] = []"
| "increment_le (b # bs) = (if b + 1 = 0 then 0 # increment_le bs else (b + 1) # bs)"

definition job_merkle_root :: "stratum_job \<Rightarrow> byte list" where
  "job_merkle_root job =
     foldl (\<lambda>root node. sha256d (root @ node) 64) (sha256d (j_coinbase job) (int (length (j_coinbase job)))) (j_merkle job)"

definition job_data :: "stratum_job \<Rightarrow> u32 list" where
  "job_data job =
     [le32dec (j_version job)] @ words_of le32dec (j_prevhash job) @ words_of be32dec (job_merkle_root job)
     @ [le32dec (j_ntime job), le32dec (j_nbits job), 0, 0x80000000] @ replicate 10 0 @ [0x280]"

definition epoch_key :: "u32 \<Rightarrow> byte list" where
  "epoch_key curtime =
     (let nEpoch = curtime div 604800; s = ''Alpha/RandomX/Epoch/'' @ fmt_d nEpoch
      in sha256d (map of_char s) (int (length s)))"

text \<open>
  \<open>None\<close>: there is no job yet, the extra nonce reaches past the coinbase (its size is the one of the
  last subscription, the coinbase that of the last notification), or the target is undefined.
\<close>

definition stratum_gen_work :: "sctx \<Rightarrow> work \<Rightarrow> (sctx \<times> work) option" where
  "stratum_gen_work sctx work =
     (let job = s_job sctx; off = j_xnonce2 job; n = s_xnonce2_size sctx
      in case j_job_id job of
           None \<Rightarrow> None
         | Some job_id \<Rightarrow>
             if length (j_coinbase job) < off + n then None
             else (case diff_to_target (dbl (j_diff job / 16)) of
                     None \<Rightarrow> None
                   | Some target \<Rightarrow>
                       (let xnonce2 = take n (drop off (j_coinbase job));
                            data = job_data job
                        in Some (sctx\<lparr>s_job := job\<lparr>j_coinbase := memcpy_at (j_coinbase job) off (increment_le xnonce2)\<rparr>\<rparr>,
                                 work\<lparr>w_job_id := Some job_id, w_xnonce2 := xnonce2, w_data := data,
                                      w_seed_hash := epoch_key (swab32 (data ! 17)), w_target := target\<rparr>))))"

section \<open>Hexadecimal members\<close>

lemma length_hex2bin_loop [simp]: "length (snd (hex2bin_loop p s i)) = length p"
  by (induction p s i rule: hex2bin_loop.induct) (auto simp: Let_def split: option.splits)

lemma length_hex2bin [simp]: "n \<le> length p \<Longrightarrow> length (snd (hex2bin p s n)) = length p"
  by (cases s) (auto simp: hex2bin_def length_memcpy_at)

lemma hex2bin_exact:
  assumes "unhex s = Some bs" "length bs \<le> length p"
  shows "snd (hex2bin p (Some s) (length s div 2)) = bs @ drop (length bs) p"
proof -
  have l: "length s div 2 = length bs" using length_unhex [OF assms(1)] by simp
  have "hex2bin p (Some s) (length bs) = (True, bs @ drop (length bs) p)"
    using hex2bin_iff [of "length bs" p s] assms by auto
  then show ?thesis by (simp add: l)
qed

text \<open>A job as the server describes it: the fixed fields have their sizes.\<close>

definition job_ok :: "stratum_job \<Rightarrow> bool" where
  "job_ok j \<longleftrightarrow> length (j_prevhash j) = 32 \<and> length (j_version j) = 4 \<and> length (j_nbits j) = 4
     \<and> length (j_ntime j) = 4 \<and> nodes32 (j_merkle j)"

lemma notify_merkle_nodes: "notify_merkle junk vs = Some ms \<Longrightarrow> nodes32 ms \<and> length ms = length vs"
  by (induction vs arbitrary: ms) (auto simp: nodes32_def split: option.splits if_splits)

lemma notify_True:
  assumes "stratum_notify junk s params = (True, s')"
  obtains job_id prevhash coinb1 coinb2 version nbits ntime merkle where
    "json_string_value (json_array_get params 0) = Some job_id"
    "json_string_value (json_array_get params 1) = Some prevhash"
    "json_string_value (json_array_get params 2) = Some coinb1"
    "json_string_value (json_array_get params 3) = Some coinb2"
    "json_string_value (json_array_get params 5) = Some version"
    "json_string_value (json_array_get params 6) = Some nbits"
    "json_string_value (json_array_get params 7) = Some ntime"
    "notify_merkle junk (json_array_elems (json_array_get params 4)) = Some merkle"
    "s' = s\<lparr>s_job := \<lparr>j_job_id = Some job_id,
       j_prevhash = snd (hex2bin (j_prevhash (s_job s)) (Some prevhash) 32),
       j_coinbase = notify_coinbase junk s job_id coinb1 coinb2,
       j_xnonce2 = length coinb1 div 2 + length (s_xnonce1 s), j_merkle = merkle,
       j_version = snd (hex2bin (j_version (s_job s)) (Some version) 4),
       j_nbits = snd (hex2bin (j_nbits (s_job s)) (Some nbits) 4),
       j_ntime = snd (hex2bin (j_ntime (s_job s)) (Some ntime) 4),
       j_clean = json_is_true (json_array_get params 8), j_diff = s_next_diff s\<rparr>\<rparr>"
    "length prevhash = 64" "length version = 8" "length nbits = 8" "length ntime = 8"
  using assms unfolding stratum_notify_def Let_def
  by (simp split: if_splits option.splits)

lemma notify_job_ok:
  "stratum_notify junk s params = (True, s') \<Longrightarrow> job_ok (s_job s) \<Longrightarrow> job_ok (s_job s')"
  by (elim notify_True) (auto simp: job_ok_def dest: notify_merkle_nodes)

lemma memcpy_at_over: "length q = length p \<Longrightarrow> memcpy_at (a @ q @ r) (length a) p = a @ p @ r"
  by (simp add: memcpy_at_def)

lemma split_four:
  assumes "length m = a + (b + (c + d))"
  obtains p q y z where "m = p @ q @ y @ z" "length p = a" "length q = b" "length y = c" "length z = d"
proof (rule that)
  show "m = take a m @ take b (drop a m) @ take c (drop b (drop a m)) @ drop c (drop b (drop a m))"
    by (simp del: drop_drop)
qed (use assms in simp_all)

text \<open>The coinbase of a notification is the two halves around the extra nonces.\<close>

lemma notify_coinbase_parts:
  assumes c1: "unhex coinb1 = Some c1" and c2: "unhex coinb2 = Some c2"
  shows "\<exists>x2. notify_coinbase junk s job_id coinb1 coinb2 = c1 @ s_xnonce1 s @ x2 @ c2
    \<and> length x2 = s_xnonce2_size s
    \<and> (j_job_id (s_job s) \<noteq> Some job_id \<longrightarrow> x2 = replicate (s_xnonce2_size s) 0)"
proof -
  define n1 n2 x1 n where "n1 = length coinb1 div 2" and "n2 = length coinb2 div 2"
    and "x1 = s_xnonce1 s" and "n = s_xnonce2_size s"
  have len: "n1 = length c1" "n2 = length c2"
    using length_unhex [OF c1] length_unhex [OF c2] by (simp_all add: n1_def n2_def)
  define m where "m = realloc junk (j_coinbase (s_job s)) (n1 + length x1 + n + n2)"
  have "length m = length c1 + (length x1 + (n + length c2))" by (simp add: m_def len)
  then obtain p q y z where m: "m = p @ q @ y @ z" "length p = length c1" "length q = length x1"
    "length y = n" "length z = length c2"
    by (rule split_four)
  have h1: "snd (hex2bin m (Some coinb1) n1) = c1 @ q @ y @ z"
    using hex2bin_exact [OF c1, of m] by (simp add: m n1_def)
  have h2: "memcpy_at (c1 @ q @ y @ z) n1 x1 = c1 @ x1 @ y @ z"
    unfolding len(1) by (rule memcpy_at_over) (rule m(3))
  define x2 where "x2 = (if j_job_id (s_job s) \<noteq> Some job_id then replicate n 0 else y)"
  have l2: "length x2 = n" by (simp add: x2_def m(4))
  have h3: "(if j_job_id (s_job s) \<noteq> Some job_id then memcpy_at (c1 @ x1 @ y @ z) (n1 + length x1) (replicate n 0)
      else c1 @ x1 @ y @ z) = c1 @ x1 @ x2 @ z"
    using memcpy_at_over [of y "replicate n 0" "c1 @ x1" z] m(4) by (simp add: x2_def len)
  have t: "take (n1 + length x1 + n) (c1 @ x1 @ x2 @ z) = c1 @ x1 @ x2"
    "drop (n1 + length x1 + n) (c1 @ x1 @ x2 @ z) = z"
    by (simp_all add: len l2)
  have h4: "snd (hex2bin z (Some coinb2) n2) = c2"
    using hex2bin_exact [OF c2, of z] m(5) by (simp add: n2_def)
  have "notify_coinbase junk s job_id coinb1 coinb2 = c1 @ x1 @ x2 @ c2"
    unfolding notify_coinbase_def Let_def n1_def [symmetric] n2_def [symmetric] x1_def [symmetric]
      n_def [symmetric] m_def [symmetric] h1 h2 h3 t h4 by simp
  then show ?thesis using l2 by (auto simp: x2_def x1_def n_def)
qed

section \<open>The header of a job\<close>

fun swap4 :: "byte list \<Rightarrow> byte list" where
  "swap4 (a # b # c # d # bs) = d # c # b # a # swap4 bs"
| "swap4 bs = []"

lemma be32enc_le32dec: "length p = 4 \<Longrightarrow> be32enc (le32dec p) = rev p"
  by (simp add: le32dec_rev be32enc_be32dec)

lemma swab32_le32dec: "length p = 4 \<Longrightarrow> swab32 (le32dec p) = be32dec p"
  using be32.enc_dec [of p] le32dec_be32enc [of "be32dec p"] by simp

lemma bytes_of_words_swapped: "length p = 4 * n \<Longrightarrow> bytes_of be32enc (words_of le32dec p) = swap4 p"
proof (induction n arbitrary: p)
  case (Suc n)
  then obtain a b c d zs where "p = a # b # c # d # zs" and "length zs = 4 * n"
    by (auto simp: length_Suc_conv numeral_eq_Suc)
  with Suc.IH [of zs] show ?case by (simp add: be32enc_le32dec)
qed simp

lemma job_root:
  assumes "nodes32 (j_merkle j)" "length (j_coinbase j) < 2 ^ 28"
  shows "job_merkle_root j = fold_branch (fips_sha256 (fips_sha256 (j_coinbase j))) (j_merkle j)"
    and "length (job_merkle_root j) = 32"
proof -
  have "foldl (\<lambda>root node. sha256d (root @ node) 64) r ms = fold_branch r ms \<and> length (fold_branch r ms) = 32"
    if "nodes32 ms" "length r = 32" for r ms
    using that
  proof (induction ms arbitrary: r)
    case (Cons m ms)
    have "length (hash_pair r m) = 32" by (simp add: hash_pair_def layout_simps)
    then show ?case using Cons sha256d_pair [of r m] by (simp add: fold_branch_def nodes32_def)
  qed (simp add: fold_branch_def)
  moreover have "sha256d (j_coinbase j) (int (length (j_coinbase j))) = fips_sha256 (fips_sha256 (j_coinbase j))"
    using sha256d_fips [of "length (j_coinbase j)" "j_coinbase j"] assms(2) by simp
  ultimately show "job_merkle_root j = fold_branch (fips_sha256 (fips_sha256 (j_coinbase j))) (j_merkle j)"
    "length (job_merkle_root j) = 32"
    using assms(1) by (simp_all add: job_merkle_root_def layout_simps)
qed

lemma job_data_bytes:
  assumes "job_ok j" "length (j_coinbase j) < 2 ^ 28"
  shows "bytes_of be32enc (take 20 (job_data j))
      = rev (j_version j) @ swap4 (j_prevhash j) @ job_merkle_root j @ rev (j_ntime j) @ rev (j_nbits j) @ replicate 4 0"
    and "drop 20 (job_data j) = 0x80000000 # replicate 10 0 @ [0x280]"
    and "job_data j ! 17 = le32dec (j_ntime j)"
proof -
  have r: "length (job_merkle_root j) = 32" using assms job_root(2) by (simp add: job_ok_def)
  have p: "bytes_of be32enc (words_of le32dec (j_prevhash j)) = swap4 (j_prevhash j)"
    using assms(1) by (intro bytes_of_words_swapped [where n = 8]) (simp add: job_ok_def)
  have m: "bytes_of be32enc (words_of be32dec (job_merkle_root j)) = job_merkle_root j"
    by (rule be32.bytes_of_words_of [where n = 8]) (simp add: r)
  have z: "be32enc 0 = replicate 4 0" by (simp add: be32enc_def numeral_eq_Suc)
  have l: "length (words_of le32dec (j_prevhash j)) = 8" "length (words_of be32dec (job_merkle_root j)) = 8"
    using assms(1) r by (simp_all add: job_ok_def layout_simps)
  have "take 20 (job_data j) = [le32dec (j_version j)] @ words_of le32dec (j_prevhash j)
      @ words_of be32dec (job_merkle_root j) @ [le32dec (j_ntime j), le32dec (j_nbits j), 0]"
    by (simp add: job_data_def l)
  then show "bytes_of be32enc (take 20 (job_data j))
      = rev (j_version j) @ swap4 (j_prevhash j) @ job_merkle_root j @ rev (j_ntime j) @ rev (j_nbits j) @ replicate 4 0"
    using assms(1) by (simp add: p m z be32enc_le32dec job_ok_def)
  show "drop 20 (job_data j) = 0x80000000 # replicate 10 0 @ [0x280]" by (simp add: job_data_def l)
  show "job_data j ! 17 = le32dec (j_ntime j)" by (simp add: job_data_def l nth_append)
qed

section \<open>The extra nonce counts\<close>

lemma le_val_less: "le_val bs < 256 ^ length bs"
  using be_val_less [of "rev bs"] by (simp add: le_val_def)

lemma length_increment_le [simp]: "length (increment_le bs) = length bs"
  by (induction bs) auto

lemma le_val_increment: "le_val (increment_le bs) = (le_val bs + 1) mod 256 ^ length bs"
proof (induction bs)
  case (Cons b bs)
  have less: "le_val bs < 256 ^ length bs" by (rule le_val_less)
  show ?case
  proof (cases "b + 1 = 0")
    case True
    then have "b = - 1" by (simp add: eq_neg_iff_add_eq_0)
    then have b: "unat b = 255" by (simp add: unsigned_minus_1_eq_mask mask_eq_exp_minus_1)
    have "le_val (b # bs) + 1 = 256 * (le_val bs + 1)" by (simp add: le_val_Cons b)
    then show ?thesis using True Cons by (simp add: le_val_Cons mult_mod_right)
  next
    case False
    then have "unat (b + 1) = unat b + 1" by (simp add: unatSuc add.commute)
    moreover have "unat b + 1 < 256"
      using unsigned_less [of "b + 1", where ?'a = nat] calculation by simp
    moreover have "unat b + 256 * le_val bs + 1 < 256 * 256 ^ length bs"
    proof -
      have "unat b + 1 + 256 * le_val bs < 256 * (le_val bs + 1)" using calculation(2) by simp
      also have "\<dots> \<le> 256 * 256 ^ length bs" using less by simp
      finally show ?thesis by simp
    qed
    ultimately show ?thesis using False by (simp add: le_val_Cons)
  qed
qed simp

section \<open>Properties\<close>

text \<open>C7: after a notification whose hexadecimal members are well formed, the coinbase is the first
  half, the connection's extra nonce, the miner's extra nonce and the second half; the miner's extra
  nonce is zero for a new job; the difficulty is the last one the server set; and nothing outside
  the job changes.\<close>

theorem stratum_notify_correct:
  assumes "stratum_notify junk s params = (True, s')"
    and "json_string_value (json_array_get params 0) = Some job_id"
    and "json_string_value (json_array_get params 2) = Some coinb1" "unhex coinb1 = Some c1"
    and "json_string_value (json_array_get params 3) = Some coinb2" "unhex coinb2 = Some c2"
  shows "\<exists>x2. j_coinbase (s_job s') = c1 @ s_xnonce1 s @ x2 @ c2 \<and> length x2 = s_xnonce2_size s
    \<and> j_xnonce2 (s_job s') = length (c1 @ s_xnonce1 s)
    \<and> (j_job_id (s_job s) \<noteq> Some job_id \<longrightarrow> x2 = replicate (s_xnonce2_size s) 0)
    \<and> j_job_id (s_job s') = Some job_id \<and> j_diff (s_job s') = s_next_diff s
    \<and> length (j_merkle (s_job s')) = json_array_size (json_array_get params 4)
    \<and> s'\<lparr>s_job := s_job s\<rparr> = s"
  using assms(1)
proof (rule notify_True)
  fix id' prevhash cb1 cb2 version nbits ntime merkle
  assume v: "json_string_value (json_array_get params 0) = Some id'"
    "json_string_value (json_array_get params 2) = Some cb1" "json_string_value (json_array_get params 3) = Some cb2"
    and m: "notify_merkle junk (json_array_elems (json_array_get params 4)) = Some merkle"
    and s': "s' = s\<lparr>s_job := \<lparr>j_job_id = Some id',
       j_prevhash = snd (hex2bin (j_prevhash (s_job s)) (Some prevhash) 32),
       j_coinbase = notify_coinbase junk s id' cb1 cb2,
       j_xnonce2 = length cb1 div 2 + length (s_xnonce1 s), j_merkle = merkle,
       j_version = snd (hex2bin (j_version (s_job s)) (Some version) 4),
       j_nbits = snd (hex2bin (j_nbits (s_job s)) (Some nbits) 4),
       j_ntime = snd (hex2bin (j_ntime (s_job s)) (Some ntime) 4),
       j_clean = json_is_true (json_array_get params 8), j_diff = s_next_diff s\<rparr>\<rparr>"
  have eq: "id' = job_id" "cb1 = coinb1" "cb2 = coinb2" using v assms(2,3,5) by simp_all
  have "length coinb1 div 2 = length c1" using length_unhex [OF assms(4)] by simp
  moreover have "length merkle = json_array_size (json_array_get params 4)"
    using notify_merkle_nodes [OF m] by (simp add: json_array_elems_get)
  ultimately show ?thesis
    using notify_coinbase_parts [OF assms(4,6), of junk s job_id] by (simp add: s' eq)
qed

definition sample_sctx :: sctx where
  "sample_sctx = \<lparr>s_url = [], s_curl = True, s_curl_url = [], s_sockbuf = [], s_sockbuf_size = 2048,
     s_next_diff = 1, s_session_id = None, s_xnonce1 = [0xaa, 0xbb], s_xnonce2_size = 2,
     s_job = \<lparr>j_job_id = None, j_prevhash = replicate 32 0, j_coinbase = [], j_xnonce2 = 0, j_merkle = [],
       j_version = replicate 4 0, j_nbits = replicate 4 0, j_ntime = replicate 4 0, j_clean = False, j_diff = 0\<rparr>\<rparr>"

definition sample_params :: "json option" where
  "sample_params = Some (JArray [JString ''j1'', JString (replicate 64 (CHR ''0'')), JString ''0102'', JString ''0304'',
     JArray [], JString ''20000000'', JString ''1d00ffff'', JString ''5a5a5a5a'', JTrue])"

lemma stratum_notify_correct_witness:
  "\<exists>s'. stratum_notify (\<lambda>_. 0) sample_sctx sample_params = (True, s')
    \<and> j_coinbase (s_job s') = [1, 2, 0xaa, 0xbb, 0, 0, 3, 4]"
proof -
  obtain s' where n: "stratum_notify (\<lambda>_. 0) sample_sctx sample_params = (True, s')"
    by (simp add: stratum_notify_def sample_params_def)
  have h: "unhex ''0102'' = Some [1, 2]" "unhex ''0304'' = Some [3, 4]" by (simp_all add: hex_nibble_def)
  have "\<exists>x2. j_coinbase (s_job s') = [1, 2] @ s_xnonce1 sample_sctx @ x2 @ [3, 4]
      \<and> x2 = replicate (s_xnonce2_size sample_sctx) 0"
    using stratum_notify_correct [OF n _ _ h(1) _ h(2)] by (auto simp: sample_params_def sample_sctx_def)
  then show ?thesis using n by (simp add: sample_sctx_def numeral_2_eq_2)
qed

text \<open>C6: the work made from a job has the job's header: its 80 bytes are the version, the previous
  hash, the root of the branch folded over the hash of the coinbase, the time, the bits and a zero
  nonce; the root is the Merkle root of every transaction list with that left branch; the target is
  that of a sixteenth of the difficulty; and the extra nonce of the work is that in the coinbase,
  which is then counted up by one, modulo its size.\<close>

theorem stratum_gen_work_correct:
  assumes "stratum_gen_work s w = Some (s', w')" "job_ok (s_job s)" "length (j_coinbase (s_job s)) < 2 ^ 28"
  shows "\<exists>pre post root. j_coinbase (s_job s) = pre @ w_xnonce2 w' @ post
    \<and> length (w_xnonce2 w') = s_xnonce2_size s
    \<and> bytes_of be32enc (take 20 (w_data w'))
      = rev (j_version (s_job s)) @ swap4 (j_prevhash (s_job s)) @ root
        @ rev (j_ntime (s_job s)) @ rev (j_nbits (s_job s)) @ replicate 4 0
    \<and> drop 20 (w_data w') = 0x80000000 # replicate 10 0 @ [0x280]
    \<and> root = fold_branch (fips_sha256 (fips_sha256 (pre @ w_xnonce2 w' @ post))) (j_merkle (s_job s))
    \<and> (\<forall>x leaves. left_branch (x # leaves) = j_merkle (s_job s) \<longrightarrow>
        root = merkle_root (fips_sha256 (fips_sha256 (pre @ w_xnonce2 w' @ post)) # leaves))
    \<and> diff_to_target (dbl (j_diff (s_job s) / 16)) = Some (w_target w')
    \<and> w_seed_hash w' = epoch_key (be32dec (j_ntime (s_job s)))
    \<and> w_job_id w' = j_job_id (s_job s)
    \<and> (\<exists>x2. s' = s\<lparr>s_job := (s_job s)\<lparr>j_coinbase := pre @ x2 @ post\<rparr>\<rparr> \<and> length x2 = s_xnonce2_size s
        \<and> le_val x2 = (le_val (w_xnonce2 w') + 1) mod 256 ^ s_xnonce2_size s)"
proof -
  define j off n where "j = s_job s" and "off = j_xnonce2 j" and "n = s_xnonce2_size s"
  define x where "x = take n (drop off (j_coinbase j))"
  obtain job_id target where g: "j_job_id j = Some job_id" "off + n \<le> length (j_coinbase j)"
    "diff_to_target (dbl (j_diff j / 16)) = Some target"
    "s' = s\<lparr>s_job := j\<lparr>j_coinbase := memcpy_at (j_coinbase j) off (increment_le x)\<rparr>\<rparr>"
    "w' = w\<lparr>w_job_id := Some job_id, w_xnonce2 := x, w_data := job_data j,
       w_seed_hash := epoch_key (swab32 (job_data j ! 17)), w_target := target\<rparr>"
    using assms(1) unfolding stratum_gen_work_def Let_def
    by (auto simp: j_def off_def n_def x_def split: option.splits if_splits)
  define pre post where "pre = take off (j_coinbase j)" and "post = drop (off + n) (j_coinbase j)"
  have len: "length pre = off" "length x = n" using g(2) by (simp_all add: pre_def x_def)
  have cb: "j_coinbase j = pre @ x @ post"
    unfolding pre_def post_def x_def using append_take_drop_id by (metis add.commute drop_drop)
  have "memcpy_at (j_coinbase j) off (increment_le x) = pre @ increment_le x @ post"
    unfolding cb using memcpy_at_over [of x "increment_le x" pre post] len by simp
  moreover have "le_val (increment_le x) = (le_val x + 1) mod 256 ^ n" using le_val_increment [of x] by (simp add: len)
  moreover have ok: "job_ok j" "length (j_coinbase j) < 2 ^ 28" using assms(2,3) by (simp_all add: j_def)
  moreover have "job_merkle_root j = fold_branch (fips_sha256 (fips_sha256 (pre @ x @ post))) (j_merkle j)"
    using job_root(1) [of j] ok cb by (simp add: job_ok_def)
  moreover have "fold_branch h (j_merkle j) = merkle_root (h # leaves)" if "left_branch (y # leaves) = j_merkle j" for h y leaves
    using merkle_root_fold [of "h # leaves"] left_branch_first [of y leaves h] that by simp
  moreover have "swab32 (le32dec (j_ntime j)) = be32dec (j_ntime j)"
    using ok(1) by (intro swab32_le32dec) (simp add: job_ok_def)
  moreover have "w_xnonce2 w' = x" "w_data w' = job_data j" "w_target w' = target" "w_job_id w' = Some job_id"
    "w_seed_hash w' = epoch_key (swab32 (job_data j ! 17))"
    by (simp_all add: g(5))
  ultimately show ?thesis
    using job_data_bytes [OF ok] g(1,3,4) len cb unfolding j_def [symmetric] n_def [symmetric]
    by (intro exI [of _ pre] exI [of _ post] exI [of _ "job_merkle_root j"] conjI allI impI exI [of _ "increment_le x"])
      simp_all
qed

lemma stratum_gen_work_correct_witness:
  "\<exists>s' w'. stratum_gen_work (sample_sctx\<lparr>s_job := (s_job sample_sctx)\<lparr>j_job_id := Some ''j1'',
        j_coinbase := [1, 2, 0xaa, 0xbb, 0xff, 0, 3, 4], j_xnonce2 := 4, j_diff := 16\<rparr>\<rparr>) work_zero = Some (s', w')
    \<and> drop 20 (w_data w') = 0x80000000 # replicate 10 0 @ [0x280]"
proof -
  define s where "s = sample_sctx\<lparr>s_job := (s_job sample_sctx)\<lparr>j_job_id := Some ''j1'',
        j_coinbase := [1, 2, 0xaa, 0xbb, 0xff, 0, 3, 4], j_xnonce2 := 4, j_diff := 16\<rparr>\<rparr>"
  obtain t where "diff_to_target (dbl (16 / 16)) = Some t" using target_exists [OF dbl_one] by (auto simp: dbl_one)
  then obtain s' w' where g: "stratum_gen_work s work_zero = Some (s', w')"
    by (simp add: stratum_gen_work_def s_def sample_sctx_def Let_def)
  have "job_ok (s_job s)" "length (j_coinbase (s_job s)) < 2 ^ 28"
    by (simp_all add: s_def sample_sctx_def job_ok_def nodes32_def)
  from stratum_gen_work_correct [OF g this] g show ?thesis by (auto simp: s_def)
qed

section \<open>No extra nonce comes twice\<close>

fun gen_works :: "nat \<Rightarrow> sctx \<Rightarrow> work \<Rightarrow> (work list \<times> sctx) option" where
  "gen_works 0 s w = Some ([], s)"
| "gen_works (Suc k) s w =
     (case stratum_gen_work s w of
        None \<Rightarrow> None
      | Some (s, w) \<Rightarrow> (case gen_works k s w of None \<Rightarrow> None | Some (ws, s) \<Rightarrow> Some (w # ws, s)))"

lemma gen_work_counts:
  assumes "stratum_gen_work s w = Some (s', w')"
  shows "w_xnonce2 w' = take (s_xnonce2_size s) (drop (j_xnonce2 (s_job s)) (j_coinbase (s_job s)))"
    and "take (s_xnonce2_size s') (drop (j_xnonce2 (s_job s')) (j_coinbase (s_job s'))) = increment_le (w_xnonce2 w')"
    and "s_xnonce2_size s' = s_xnonce2_size s" "length (w_xnonce2 w') = s_xnonce2_size s"
  using assms unfolding stratum_gen_work_def Let_def
  by (auto simp: memcpy_at_def split: option.splits if_splits)

lemma length_gen_works: "gen_works k s w = Some (ws, s') \<Longrightarrow> length ws = k"
  by (induction k arbitrary: s w ws) (auto split: option.splits)

lemma gen_works_counts:
  assumes "gen_works k s w = Some (ws, s')" "i < k"
  shows "length ws = k \<and> length (w_xnonce2 (ws ! i)) = s_xnonce2_size s
    \<and> le_val (w_xnonce2 (ws ! i))
      = (le_val (take (s_xnonce2_size s) (drop (j_xnonce2 (s_job s)) (j_coinbase (s_job s)))) + i) mod 256 ^ s_xnonce2_size s"
  using assms
proof (induction k arbitrary: s w ws s' i)
  case (Suc k)
  obtain s1 w1 ws1 where g: "stratum_gen_work s w = Some (s1, w1)" "gen_works k s1 w1 = Some (ws1, s')" "ws = w1 # ws1"
    using Suc.prems(1) by (auto split: option.splits)
  note C = gen_work_counts [OF g(1)]
  have len: "length ws1 = k" by (rule length_gen_works [OF g(2)])
  show ?case
  proof (cases i)
    case 0
    then show ?thesis using C len g(3) le_val_less [of "w_xnonce2 w1"] by simp
  next
    case (Suc i')
    then have "i' < k" using Suc.prems(2) by simp
    from Suc.IH [OF g(2) this] show ?thesis
      using Suc g(3) C le_val_increment [of "w_xnonce2 w1"] by (simp add: mod_simps)
  qed
qed simp

text \<open>C8: the works made one after the other from one job have pairwise different extra nonces, as
  long as there are no more of them than values of the extra nonce.\<close>

theorem gen_works_distinct:
  assumes "gen_works k s w = Some (ws, s')" "k \<le> 256 ^ s_xnonce2_size s"
  shows "length ws = k \<and> distinct (map w_xnonce2 ws)"
proof -
  define v where "v = le_val (take (s_xnonce2_size s) (drop (j_xnonce2 (s_job s)) (j_coinbase (s_job s))))"
  have len: "length ws = k" by (rule length_gen_works [OF assms(1)])
  have "w_xnonce2 (ws ! i) \<noteq> w_xnonce2 (ws ! j)" if "i < j" "j < k" for i j
  proof
    assume "w_xnonce2 (ws ! i) = w_xnonce2 (ws ! j)"
    then have "(v + i) mod 256 ^ s_xnonce2_size s = (v + j) mod 256 ^ s_xnonce2_size s"
      using gen_works_counts [OF assms(1), of i] gen_works_counts [OF assms(1) that(2)] that by (simp add: v_def)
    then have "256 ^ s_xnonce2_size s dvd (v + j) - (v + i)" using that(1) by (intro mod_eq_dvd_iff_nat [THEN iffD1]) simp_all
    then show False using that assms(2) by (auto dest!: dvd_imp_le)
  qed
  then have "distinct (map w_xnonce2 ws)"
    by (simp add: distinct_conv_nth len) (metis linorder_neqE_nat)
  with len show ?thesis ..
qed

lemma gen_works_distinct_witness:
  "\<exists>ws s'. gen_works 1 (sample_sctx\<lparr>s_job := (s_job sample_sctx)\<lparr>j_job_id := Some ''j1'',
        j_coinbase := [1, 2, 0xaa, 0xbb, 0xff, 0, 3, 4], j_xnonce2 := 4, j_diff := 16\<rparr>\<rparr>) work_zero = Some (ws, s')
    \<and> distinct (map w_xnonce2 ws)"
proof -
  define s where "s = sample_sctx\<lparr>s_job := (s_job sample_sctx)\<lparr>j_job_id := Some ''j1'',
        j_coinbase := [1, 2, 0xaa, 0xbb, 0xff, 0, 3, 4], j_xnonce2 := 4, j_diff := 16\<rparr>\<rparr>"
  obtain t where "diff_to_target (dbl (16 / 16)) = Some t" using target_exists [OF dbl_one] by (auto simp: dbl_one)
  then obtain ws s' where "gen_works 1 s work_zero = Some (ws, s')"
    by (simp add: stratum_gen_work_def s_def sample_sctx_def Let_def)
  moreover have "1 \<le> (256 :: nat) ^ s_xnonce2_size s" by simp
  ultimately show ?thesis using gen_works_distinct unfolding s_def by blast
qed

end
