(* ===== verification/Stratum.thy ===== *)
theory Stratum
  imports StratumJob
begin

text \<open>
  The Stratum protocol of \<open>util.c\<close>: subscription, authorization and the server's calls
  (\<open>stratum_subscribe\<close>, \<open>stratum_authorize\<close>, \<open>stratum_handle_method\<close>). Reading and printing JSON
  texts, the user agent, the redirect option and unset memory are parameters.
\<close>

record stratum_env =
  a_loads :: "string \<Rightarrow> json option"
  a_dumps :: "json \<Rightarrow> string"
  a_agent :: string
  a_redirect :: bool
  a_junk :: "nat \<Rightarrow> byte"

section \<open>C library functions\<close>

text \<open>\<open>atoi\<close> keeps the low 32 bits of \<open>strtol\<close>.\<close>

definition atoi :: "string \<Rightarrow> int" where
  "atoi s = int32 (strtol s)"

definition fmt_int :: "int \<Rightarrow> string" where
  "fmt_int i = (if i < 0 then CHR ''-'' # fmt_nat (nat (- i)) else fmt_nat (nat i))"

section \<open>Calls from the server\<close>

text \<open>The scheme of the new address is the one of the old; without one \<open>strstr\<close> finds nothing.\<close>

fun upto_scheme :: "string \<Rightarrow> string option" where
  "upto_scheme [] = None"
| "upto_scheme (c # cs) =
     (if take 3 (c # cs) = ''://'' then Some ''://''
      else (case upto_scheme cs of None \<Rightarrow> None | Some p \<Rightarrow> Some (c # p)))"

definition stratum_reconnect :: "stratum_env \<Rightarrow> sctx \<Rightarrow> json option \<Rightarrow> (bool \<times> sctx) io" where
  "stratum_reconnect env sctx params =
     (let host = json_string_value (json_array_get params 0);
          port_val = json_array_get params 1;
          port = (case json_string_value port_val of Some s \<Rightarrow> atoi s | None \<Rightarrow> int32 (json_integer_value port_val))
      in case host of
           None \<Rightarrow> Done (False, sctx)
         | Some host \<Rightarrow>
             if port = 0 then Done (False, sctx)
             else (case upto_scheme (take 15 (s_url sctx)) of
                     None \<Rightarrow> Broken
                   | Some scheme \<Rightarrow>
                       (let url = scheme @ host @ '':'' @ fmt_int port
                        in if \<not> a_redirect env then Done (True, sctx)
                           else Done (True, stratum_disconnect (sctx\<lparr>s_url := url\<rparr>)))))"

definition reply_line :: "stratum_env \<Rightarrow> json \<Rightarrow> json \<Rightarrow> string" where
  "reply_line env idv result = a_dumps env (JObject [(''id'', idv), (''error'', JNull), (''result'', result)])"

definition stratum_get_version :: "stratum_env \<Rightarrow> json option \<Rightarrow> net \<Rightarrow> (bool \<times> net) io" where
  "stratum_get_version env idv net =
     (case idv of
        None \<Rightarrow> Done (False, net)
      | Some j \<Rightarrow> if json_is_null idv then Done (False, net)
                  else stratum_send_line (reply_line env j (JString (a_agent env))) net)"

definition stratum_show_message :: "stratum_env \<Rightarrow> json option \<Rightarrow> net \<Rightarrow> (bool \<times> net) io" where
  "stratum_show_message env idv net =
     (case idv of
        None \<Rightarrow> Done (True, net)
      | Some j \<Rightarrow> if json_is_null idv then Done (True, net)
                  else stratum_send_line (reply_line env j JTrue) net)"

definition stratum_handle_method :: "stratum_env \<Rightarrow> sctx \<Rightarrow> string \<Rightarrow> net \<Rightarrow> (bool \<times> sctx \<times> net) io" where
  "stratum_handle_method env sctx s net =
     (let val = a_loads env s
      in case json_string_value (json_object_get val ''method'') of
           None \<Rightarrow> Done (False, sctx, net)
         | Some method \<Rightarrow>
             (let idv = json_object_get val ''id''; params = json_object_get val ''params''
              in if strcaseeq method ''mining.notify''
                 then (case stratum_notify (a_junk env) sctx params of (ret, sctx) \<Rightarrow> Done (ret, sctx, net))
                 else if strcaseeq method ''mining.set_difficulty''
                 then (case stratum_set_difficulty sctx params of (ret, sctx) \<Rightarrow> Done (ret, sctx, net))
                 else if strcaseeq method ''client.reconnect''
                 then io_bind (stratum_reconnect env sctx params) (\<lambda>(ret, sctx). Done (ret, sctx, net))
                 else if strcaseeq method ''client.get_version''
                 then io_bind (stratum_get_version env idv net) (\<lambda>(ret, net). Done (ret, sctx, net))
                 else if strcaseeq method ''client.show_message''
                 then io_bind (stratum_show_message env idv net) (\<lambda>(ret, net). Done (ret, sctx, net))
                 else Done (False, sctx, net)))"

section \<open>Subscription\<close>

text \<open>The session id is beside the first \<open>mining.notify\<close>; an entry that is no array ends the search.\<close>

fun find_session_id :: "json list \<Rightarrow> string option" where
  "find_session_id [] = None"
| "find_session_id (arr # arrs) =
     (if \<not> json_is_array (Some arr) then None
      else (case json_string_value (json_array_get (Some arr) 0) of
              None \<Rightarrow> find_session_id arrs
            | Some notify \<Rightarrow>
                if strcaseeq notify ''mining.notify'' then json_string_value (json_array_get (Some arr) 1)
                else find_session_id arrs))"

definition get_stratum_session_id :: "json option \<Rightarrow> string option" where
  "get_stratum_session_id val = find_session_id (json_array_elems (json_array_get val 0))"

definition subscribe_request :: "stratum_env \<Rightarrow> bool \<Rightarrow> string option \<Rightarrow> string" where
  "subscribe_request env retry session_id =
     ''{\"id\": 1, \"method\": \"mining.subscribe\", \"params\": ['' @
     (if retry then ''''
      else (case session_id of
              Some sid \<Rightarrow> ''\"'' @ a_agent env @ ''\", \"'' @ sid @ ''\"''
            | None \<Rightarrow> ''\"'' @ a_agent env @ ''\"''))
     @ '']}''"

text \<open>How an attempt ends: subscribed; given up before an answer was read as JSON; with an answer that is
  no JSON; or with an answer that was refused, which is then freed but still pointed to.\<close>

datatype attempt = Subscribed | NoAnswer | BadJson | Refused

definition subscribe_answer :: "stratum_env \<Rightarrow> sctx \<Rightarrow> json option \<Rightarrow> attempt \<times> sctx" where
  "subscribe_answer env sctx val =
     (let res_val = json_object_get val ''result'';
          err_val = json_object_get val ''error''
      in if val = None then (BadJson, sctx)
         else if res_val = None \<or> json_is_null res_val \<or> (err_val \<noteq> None \<and> \<not> json_is_null err_val) then (Refused, sctx)
         else (case json_string_value (json_array_get res_val 1) of
                 None \<Rightarrow> (Refused, sctx)
               | Some xnonce1 \<Rightarrow>
                   (let xn2_size = int32 (json_integer_value (json_array_get res_val 2))
                    in if xn2_size = 0 \<or> xn2_size < 0 \<or> 100 < xn2_size then (Refused, sctx)
                       else (let n = length xnonce1 div 2
                             in (Subscribed, sctx\<lparr>s_session_id := get_stratum_session_id res_val,
                                   s_xnonce1 := snd (hex2bin (fresh (a_junk env) n) (Some xnonce1) n),
                                   s_xnonce2_size := nat xn2_size, s_next_diff := 1\<rparr>)))))"

definition subscribe_attempt :: "stratum_env \<Rightarrow> bool \<Rightarrow> sctx \<Rightarrow> net \<Rightarrow> (attempt \<times> sctx \<times> net) io" where
  "subscribe_attempt env retry sctx net =
     io_bind (stratum_send_line (subscribe_request env retry (s_session_id sctx)) net) (\<lambda>(sent, net).
       if \<not> sent then Done (NoAnswer, sctx, net)
       else io_bind (socket_full net) (\<lambda>(full, net).
         if \<not> full then Done (NoAnswer, sctx, net)
         else io_bind (stratum_recv_line sctx net) (\<lambda>(sret, sctx, net).
           case sret of
             None \<Rightarrow> Done (NoAnswer, sctx, net)
           | Some line \<Rightarrow>
               (case subscribe_answer env sctx (a_loads env line) of (r, sctx) \<Rightarrow> Done (r, sctx, net)))))"

definition stratum_subscribe :: "stratum_env \<Rightarrow> sctx \<Rightarrow> net \<Rightarrow> (bool \<times> sctx \<times> net) io" where
  "stratum_subscribe env sctx net =
     io_bind (subscribe_attempt env False sctx net) (\<lambda>(first, sctx, net).
       case first of
         Subscribed \<Rightarrow> Done (True, sctx, net)
       | NoAnswer \<Rightarrow> Done (False, sctx, net)
       | _ \<Rightarrow>
           io_bind (subscribe_attempt env True sctx net) (\<lambda>(second, sctx, net).
             case second of
               Subscribed \<Rightarrow> Done (True, sctx, net)
             | NoAnswer \<Rightarrow> if first = Refused then Broken else Done (False, sctx, net)
             | _ \<Rightarrow> Done (False, sctx, net)))"

section \<open>What a call can use up\<close>

fun chunk_size :: "recv_result \<Rightarrow> nat" where
  "chunk_size (Received c) = length c"
| "chunk_size _ = 0"

definition pending :: "'a conn_scheme \<Rightarrow> net \<Rightarrow> nat" where
  "pending sctx net = length (s_sockbuf sctx) + sum_list (map (chunk_size \<circ> fst) (n_recv net))"

lemma io_bind_cong [fundef_cong]:
  "m = m' \<Longrightarrow> (\<And>x. m' = Done x \<Longrightarrow> f x = g x) \<Longrightarrow> io_bind m f = io_bind m' g"
  by (cases m') auto

lemma recv_loop_pending:
  "recv_loop s ready rs = Done (ok, s', ready', rs') \<Longrightarrow>
   length (s_sockbuf s') + sum_list (map (chunk_size \<circ> fst) rs')
     \<le> length (s_sockbuf s) + sum_list (map (chunk_size \<circ> fst) rs)"
proof (induction rs arbitrary: s ready)
  case (Cons rl rs)
  obtain r late where rl: "rl = (r, late)" by (cases rl)
  show ?case
  proof (cases r)
    case (Received c)
    define s1 where "s1 = stratum_buffer_append s (cstr (take 2044 c))"
    have "length (cstr x) \<le> length x" for x by (simp add: cstr_def length_takeWhile_le)
    from this [of "take 2044 c"] have "length (s_sockbuf s1) \<le> length (s_sockbuf s) + length c"
      by (simp add: s1_def stratum_buffer_append_def Let_def)
    moreover have "(if late \<or> NL \<in> set (s_sockbuf s1) then Done (True, s1, ready, rs) else recv_loop s1 ready rs)
        = Done (ok, s', ready', rs')"
      using Cons.prems(1) rl Received by (simp add: Let_def flip: s1_def)
    ultimately show ?thesis using Cons.IH [of s1 ready] by (auto simp: rl Received split: if_splits)
  next
    case RecvAgain
    show ?thesis
    proof (cases ready)
      case (Cons b bs)
      then show ?thesis using Cons.IH [of s bs] Cons.prems rl RecvAgain by (auto split: if_splits)
    qed (use Cons.prems rl RecvAgain in simp)
  qed (use Cons.prems rl in auto)
qed simp

lemma recv_line_pending:
  assumes "stratum_recv_line s net = Done (Some l, s', net')"
  shows "pending s' net' < pending s net"
proof -
  obtain ok s1 net1 where one: "(if NL \<in> set (s_sockbuf s) then Done (True, s, net)
        else io_bind (socket_full net) (\<lambda>(full, net).
          if \<not> full then Done (False, s, net)
          else io_bind (recv_loop s (n_ready net) (n_recv net)) (\<lambda>(ok, s, ready, rs).
            Done (ok, s, net\<lparr>n_ready := ready, n_recv := rs\<rparr>)))) = Done (ok, s1, net1)"
    and rest: "(if \<not> ok then Done (None, s1, net1)
          else (case take_token (s_sockbuf s1) of
                  None \<Rightarrow> Done (None, s1, net1)
                | Some (tok, rest) \<Rightarrow> Done (Some tok, s1\<lparr>s_sockbuf := rest\<rparr>, net1))) = Done (Some l, s', net')"
    using assms unfolding stratum_recv_line_def io_bind_Done by auto
  have "pending s1 net1 \<le> pending s net"
  proof (cases "NL \<in> set (s_sockbuf s)")
    case False
    then show ?thesis using one recv_loop_pending [of s]
      by (auto simp: io_bind_Done socket_full_def pending_def split: if_splits list.splits)
  qed (use one in simp)
  moreover have "pending s' net' < pending s1 net1"
    using rest take_token_shorter [of "s_sockbuf s1"] by (auto simp: pending_def split: if_splits option.splits)
  ultimately show ?thesis by simp
qed

lemma Done_io_bind: "Done y = io_bind m f \<longleftrightarrow> (\<exists>x. m = Done x \<and> f x = Done y)"
  by (cases m) auto

lemma send_line_frame: "stratum_send_line s net = Done (ok, net') \<Longrightarrow> \<exists>x y. net' = net\<lparr>n_send := x, n_out := y\<rparr>"
  by (auto simp: stratum_send_line_def io_bind_Done)

lemma set_difficulty_frame: "stratum_set_difficulty s params = (ret, s') \<Longrightarrow> \<exists>d. s' = s\<lparr>s_next_diff := d\<rparr>"
  by (auto intro: exI [of _ "s_next_diff s"] simp: stratum_set_difficulty_def Let_def split: if_splits)

lemma reconnect_frame:
  "stratum_reconnect env s params = Done (ret, s') \<Longrightarrow>
   s' = s \<or> (\<exists>url. s' = stratum_disconnect (s\<lparr>s_url := url\<rparr>))"
  by (auto simp: stratum_reconnect_def Let_def split: option.splits if_splits)

lemma notify_frame: "stratum_notify junk s params = (ret, s') \<Longrightarrow> (\<exists>j. s' = s\<lparr>s_job := j\<rparr>) \<and> (ret \<or> s' = s)"
  unfolding stratum_notify_def Let_def by (auto intro: exI [of _ "s_job s"] split: if_splits option.splits)

lemma net_self: "\<exists>x y. net = net\<lparr>n_send := x, n_out := y\<rparr>"
  by (intro exI [of _ "n_send net"] exI [of _ "n_out net"]) simp

text \<open>What a call from the server can do to the state.\<close>

lemma handle_method_cases:
  assumes "stratum_handle_method env s line net = Done (ret, s', net')"
  shows "(\<exists>x y. net' = net\<lparr>n_send := x, n_out := y\<rparr>) \<and>
    (s' = s \<or> (\<exists>params. stratum_notify (a_junk env) s params = (True, s') \<and> ret)
     \<or> (\<exists>d. s' = s\<lparr>s_next_diff := d\<rparr>) \<or> (\<exists>url. s' = stratum_disconnect (s\<lparr>s_url := url\<rparr>)))"
proof (cases "json_string_value (json_object_get (a_loads env line) ''method'')")
  case (Some m)
  define params idv where "params = json_object_get (a_loads env line) ''params''"
    and "idv = json_object_get (a_loads env line) ''id''"
  have "stratum_handle_method env s line net =
      (if strcaseeq m ''mining.notify''
                 then (case stratum_notify (a_junk env) s params of (ret, sctx) \<Rightarrow> Done (ret, sctx, net))
                 else if strcaseeq m ''mining.set_difficulty''
                 then (case stratum_set_difficulty s params of (ret, sctx) \<Rightarrow> Done (ret, sctx, net))
                 else if strcaseeq m ''client.reconnect''
                 then io_bind (stratum_reconnect env s params) (\<lambda>(ret, sctx). Done (ret, sctx, net))
                 else if strcaseeq m ''client.get_version''
                 then io_bind (stratum_get_version env idv net) (\<lambda>(ret, net). Done (ret, s, net))
                 else if strcaseeq m ''client.show_message''
                 then io_bind (stratum_show_message env idv net) (\<lambda>(ret, net). Done (ret, s, net))
                 else Done (False, s, net))"
    by (simp add: stratum_handle_method_def Some params_def idv_def)
  then consider (a) "stratum_notify (a_junk env) s params = (ret, s')" "net' = net"
    | (b) "stratum_set_difficulty s params = (ret, s')" "net' = net"
    | (c) "stratum_reconnect env s params = Done (ret, s')" "net' = net"
    | (d) "stratum_get_version env idv net = Done (ret, net')" "s' = s"
    | (e) "stratum_show_message env idv net = Done (ret, net')" "s' = s"
    | (f) "s' = s" "net' = net"
    using assms by (auto simp: io_bind_Done Done_io_bind split: if_splits prod.splits)
  then show ?thesis
  proof cases
    case a
    then show ?thesis using notify_frame [of "a_junk env" s params ret s'] by (cases ret) (auto intro!: net_self)
  next
    case b
    then show ?thesis using set_difficulty_frame by (auto intro!: net_self)
  next
    case c
    then show ?thesis using reconnect_frame [of env s params ret s'] by (auto intro!: net_self)
  next
    case d
    then show ?thesis
      using send_line_frame by (fastforce simp: stratum_get_version_def intro!: net_self split: option.splits if_splits)
  next
    case e
    then show ?thesis
      using send_line_frame by (fastforce simp: stratum_show_message_def intro!: net_self split: option.splits if_splits)
  qed (auto intro!: net_self)
next
  case None
  then show ?thesis
    using assms by (auto simp: stratum_handle_method_def intro!: net_self)
qed

lemma handle_method_pending:
  assumes "stratum_handle_method env s line net = Done (ret, s', net')"
  shows "pending s' net' \<le> pending s net"
proof -
  note H = handle_method_cases [OF assms]
  have "n_recv net' = n_recv net" using H by auto
  moreover have "length (s_sockbuf s') \<le> length (s_sockbuf s)"
    using H notify_frame [of "a_junk env" s] by (fastforce simp: stratum_disconnect_def)
  ultimately show ?thesis by (simp add: pending_def)
qed

section \<open>Authorization\<close>

definition authorize_request :: "string \<Rightarrow> string \<Rightarrow> string" where
  "authorize_request user pass =
     ''{\"id\": 2, \"method\": \"mining.authorize\", \"params\": [\"'' @ user @ ''\", \"'' @ pass @ ''\"]}''"

text \<open>Lines that are calls from the server are handled until one is not.\<close>

function authorize_loop :: "stratum_env \<Rightarrow> sctx \<Rightarrow> net \<Rightarrow> (string option \<times> sctx \<times> net) io" where
  "authorize_loop env sctx net =
     io_bind (stratum_recv_line sctx net) (\<lambda>(sret, sctx, net).
       case sret of
         None \<Rightarrow> Done (None, sctx, net)
       | Some line \<Rightarrow>
           io_bind (stratum_handle_method env sctx line net) (\<lambda>(handled, sctx, net).
             if handled then authorize_loop env sctx net else Done (Some line, sctx, net)))"
  by pat_completeness auto
termination
  by (relation "measure (\<lambda>(env, sctx, net). pending sctx net)")
    (auto dest!: recv_line_pending handle_method_pending)

declare authorize_loop.simps [simp del]

definition stratum_authorize :: "stratum_env \<Rightarrow> sctx \<Rightarrow> string \<Rightarrow> string \<Rightarrow> net \<Rightarrow> (bool \<times> sctx \<times> net) io" where
  "stratum_authorize env sctx user pass net =
     io_bind (stratum_send_line (authorize_request user pass) net) (\<lambda>(sent, net).
       if \<not> sent then Done (False, sctx, net)
       else io_bind (authorize_loop env sctx net) (\<lambda>(sret, sctx, net).
         case sret of
           None \<Rightarrow> Done (False, sctx, net)
         | Some line \<Rightarrow>
             (let val = a_loads env line;
                  res_val = json_object_get val ''result'';
                  err_val = json_object_get val ''error''
              in Done (\<not> (val = None \<or> res_val = None \<or> json_is_false res_val
                          \<or> (err_val \<noteq> None \<and> \<not> json_is_null err_val)), sctx, net))))"

section \<open>The state of a session\<close>

text \<open>The numbers a connection works with stay in range whatever the server sends.\<close>

definition session_ok :: "sctx \<Rightarrow> bool" where
  "session_ok s \<longleftrightarrow> sockbuf_ok s \<and> job_ok (s_job s) \<and> s_xnonce2_size s \<le> 100"

definition session_start :: sctx where
  "session_start = \<lparr>s_url = [], s_curl = False, s_curl_url = [], s_sockbuf = [], s_sockbuf_size = 0,
     s_next_diff = 0, s_session_id = None, s_xnonce1 = [], s_xnonce2_size = 0,
     s_job = \<lparr>j_job_id = None, j_prevhash = replicate 32 0, j_coinbase = [], j_xnonce2 = 0, j_merkle = [],
       j_version = replicate 4 0, j_nbits = replicate 4 0, j_ntime = replicate 4 0, j_clean = False, j_diff = 0\<rparr>\<rparr>"

text \<open>The operations the miner applies to the connection.\<close>

inductive session_step :: "stratum_env \<Rightarrow> sctx \<Rightarrow> sctx \<Rightarrow> bool" for env where
  connect: "stratum_connect s url net = Done (ok, s', net') \<Longrightarrow> session_step env s s'"
| disconnect: "session_step env s (stratum_disconnect s)"
| subscribe: "s_curl s \<Longrightarrow> stratum_subscribe env s net = Done (ok, s', net') \<Longrightarrow> session_step env s s'"
| authorize: "s_curl s \<Longrightarrow> stratum_authorize env s user pass net = Done (ok, s', net') \<Longrightarrow> session_step env s s'"
| receive: "s_curl s \<Longrightarrow> stratum_recv_line s net = Done (l, s', net') \<Longrightarrow> session_step env s s'"
| handle: "stratum_handle_method env s line net = Done (ret, s', net') \<Longrightarrow> session_step env s s'"
| gen_work: "stratum_gen_work s w = Some (s', w') \<Longrightarrow> session_step env s s'"

lemma recv_loop_frame:
  "recv_loop s ready rs = Done (ok, s', ready', rs') \<Longrightarrow> \<exists>b n. s' = s\<lparr>s_sockbuf_size := n, s_sockbuf := b\<rparr>"
proof (induction rs arbitrary: s ready)
  case (Cons rl rs)
  obtain r late where rl: "rl = (r, late)" by (cases rl)
  have self: "\<exists>b n. s = s\<lparr>s_sockbuf_size := n, s_sockbuf := b\<rparr>" for s :: "'a conn_scheme"
    by (intro exI [of _ "s_sockbuf s"] exI [of _ "s_sockbuf_size s"]) simp
  show ?case
  proof (cases r)
    case (Received c)
    define s1 where "s1 = stratum_buffer_append s (cstr (take 2044 c))"
    obtain b n where s1: "s1 = s\<lparr>s_sockbuf_size := n, s_sockbuf := b\<rparr>"
      unfolding s1_def stratum_buffer_append_def Let_def by auto
    have "(if late \<or> NL \<in> set (s_sockbuf s1) then Done (True, s1, ready, rs) else recv_loop s1 ready rs)
        = Done (ok, s', ready', rs')"
      using Cons.prems(1) rl Received by (simp add: Let_def flip: s1_def)
    then consider "s' = s1" | "\<exists>b n. s' = s1\<lparr>s_sockbuf_size := n, s_sockbuf := b\<rparr>"
      using Cons.IH [of s1 ready] by (auto split: if_splits)
    then show ?thesis by cases (auto simp: s1)
  next
    case RecvAgain
    show ?thesis
    proof (cases ready)
      case (Cons b bs)
      then show ?thesis using Cons.IH [of s bs] Cons.prems rl RecvAgain self by (auto split: if_splits)
    qed (use Cons.prems rl RecvAgain in simp)
  qed (use Cons.prems rl self in auto)
qed simp

lemma recv_line_frame:
  assumes "stratum_recv_line s net = Done (l, s', net')"
  shows "\<exists>b n. s' = s\<lparr>s_sockbuf_size := n, s_sockbuf := b\<rparr>"
proof -
  have self: "\<exists>b n. s = s\<lparr>s_sockbuf_size := n, s_sockbuf := b\<rparr>"
    by (intro exI [of _ "s_sockbuf s"] exI [of _ "s_sockbuf_size s"]) simp
  obtain ok s1 net1 where one: "(if NL \<in> set (s_sockbuf s) then Done (True, s, net)
        else io_bind (socket_full net) (\<lambda>(full, net).
          if \<not> full then Done (False, s, net)
          else io_bind (recv_loop s (n_ready net) (n_recv net)) (\<lambda>(ok, s, ready, rs).
            Done (ok, s, net\<lparr>n_ready := ready, n_recv := rs\<rparr>)))) = Done (ok, s1, net1)"
    and rest: "(if \<not> ok then Done (None, s1, net1)
          else (case take_token (s_sockbuf s1) of
                  None \<Rightarrow> Done (None, s1, net1)
                | Some (tok, rest) \<Rightarrow> Done (Some tok, s1\<lparr>s_sockbuf := rest\<rparr>, net1))) = Done (l, s', net')"
    using assms unfolding stratum_recv_line_def io_bind_Done by auto
  have "\<exists>b n. s1 = s\<lparr>s_sockbuf_size := n, s_sockbuf := b\<rparr>"
    using one self recv_loop_frame [of s] by (auto simp: io_bind_Done split: if_splits)
  then show ?thesis using rest by (auto split: if_splits option.splits)
qed

lemma recv_line_session: "stratum_recv_line s net = Done (l, s', net') \<Longrightarrow> session_ok s \<Longrightarrow> session_ok s'"
  using recv_line_ok [of s net l s' net'] recv_line_frame [of s net l s' net'] by (auto simp: session_ok_def)

lemma disconnect_session: "session_ok s \<Longrightarrow> session_ok (stratum_disconnect s)"
  by (auto simp: session_ok_def stratum_disconnect_def sockbuf_ok_def)

lemma handle_method_session:
  "stratum_handle_method env s line net = Done (ret, s', net') \<Longrightarrow> session_ok s \<Longrightarrow> session_ok s'"
proof -
  assume h: "stratum_handle_method env s line net = Done (ret, s', net')" and s: "session_ok s"
  have "session_ok (s\<lparr>s_url := url\<rparr>)" for url using s by (simp add: session_ok_def sockbuf_ok_def)
  moreover have "session_ok (s\<lparr>s_next_diff := d\<rparr>)" for d using s by (simp add: session_ok_def sockbuf_ok_def)
  moreover have "session_ok s'" if "stratum_notify (a_junk env) s params = (True, s')" for params
    using notify_job_ok [OF that] notify_frame [OF that] s by (auto simp: session_ok_def sockbuf_ok_def)
  ultimately show ?thesis using handle_method_cases [OF h] s disconnect_session by blast
qed

lemma subscribe_answer_session:
  "subscribe_answer env s val = (r, s') \<Longrightarrow> session_ok s \<Longrightarrow>
   session_ok s' \<and> (r = Subscribed \<longrightarrow> 1 \<le> s_xnonce2_size s' \<and> s_next_diff s' = 1) \<and> s_job s' = s_job s"
  unfolding subscribe_answer_def Let_def
  by (auto simp: session_ok_def sockbuf_ok_def split: if_splits option.splits)

lemma subscribe_attempt_session:
  assumes "subscribe_attempt env retry s net = Done (r, s', net')" "session_ok s"
  shows "session_ok s' \<and> (r = Subscribed \<longrightarrow> 1 \<le> s_xnonce2_size s' \<and> s_next_diff s' = 1) \<and> s_job s' = s_job s"
proof -
  have job: "s_job s1 = s_job s" if "stratum_recv_line s n = Done (l, s1, n')" for n l s1 n'
    using recv_line_frame [OF that] by auto
  have pair: "(case p of (r, sctx) \<Rightarrow> Done (r, sctx, n)) = Done (r, s', n') \<longleftrightarrow> p = (r, s') \<and> n = n'" for p n n'
    by (cases p) auto
  consider (a) "r = NoAnswer" "s' = s" | (b) n l n' where "stratum_recv_line s n = Done (l, s', n')" "r = NoAnswer"
    | (c) n l s1 n' where "stratum_recv_line s n = Done (Some l, s1, n')" "subscribe_answer env s1 (a_loads env l) = (r, s')"
    using assms(1) unfolding subscribe_attempt_def
    by (auto simp: io_bind_Done pair split: if_splits option.splits)
  then show ?thesis
  proof cases
    case a
    then show ?thesis using assms(2) by simp
  next
    case b
    then show ?thesis using recv_line_session [OF b(1) assms(2)] job by simp
  next
    case c
    then show ?thesis using subscribe_answer_session [OF c(2)] recv_line_session [OF c(1) assms(2)] job [OF c(1)] by simp
  qed
qed

lemma subscribe_session:
  assumes "stratum_subscribe env s net = Done (ok, s', net')" "session_ok s"
  shows "session_ok s' \<and> (ok \<longrightarrow> 1 \<le> s_xnonce2_size s' \<and> s_next_diff s' = 1) \<and> s_job s' = s_job s"
proof -
  obtain r1 s1 n1 where first: "subscribe_attempt env False s net = Done (r1, s1, n1)"
    using assms(1) by (auto simp: stratum_subscribe_def io_bind_Done)
  note A = subscribe_attempt_session [OF first assms(2)]
  show ?thesis
  proof (cases "r1 = Subscribed \<or> r1 = NoAnswer")
    case True
    then show ?thesis using assms(1) first A by (auto simp: stratum_subscribe_def)
  next
    case False
    then obtain r2 s2 n2 where second: "subscribe_attempt env True s1 n1 = Done (r2, s2, n2)"
      using assms(1) first by (cases r1) (auto simp: stratum_subscribe_def io_bind_Done)
    then have "s' = s2 \<and> (ok \<longleftrightarrow> r2 = Subscribed)"
      using assms(1) first False
      by (cases r1; cases r2) (auto simp: stratum_subscribe_def split: if_splits)
    then show ?thesis using subscribe_attempt_session [OF second] A by auto
  qed
qed

lemma authorize_loop_session:
  "authorize_loop env s net = Done (l, s', net') \<Longrightarrow> session_ok s \<Longrightarrow> session_ok s'"
proof (induction env s net rule: authorize_loop.induct)
  case (1 env s net)
  obtain l1 s1 n1 where r: "stratum_recv_line s net = Done (l1, s1, n1)"
    using 1(2) by (subst (asm) authorize_loop.simps) (auto simp: io_bind_Done)
  have ok: "session_ok s1" by (rule recv_line_session [OF r 1(3)])
  show ?case
  proof (cases l1)
    case None
    then show ?thesis using 1(2) r ok by (subst (asm) authorize_loop.simps) simp
  next
    case (Some line)
    then obtain h s2 n2 where h: "stratum_handle_method env s1 line n1 = Done (h, s2, n2)"
      using 1(2) r by (subst (asm) authorize_loop.simps) (auto simp: io_bind_Done)
    then have ok2: "session_ok s2" using handle_method_session ok by blast
    show ?thesis
    proof (cases h)
      case True
      then have "authorize_loop env s2 n2 = Done (l, s', net')"
        using 1(2) r Some h by (subst (asm) authorize_loop.simps) simp
      then show ?thesis using 1(1) [OF r refl refl Some h refl refl True] ok2 by simp
    next
      case False
      then show ?thesis using 1(2) r Some h ok2 by (subst (asm) authorize_loop.simps) simp
    qed
  qed
qed

lemma authorize_session: "stratum_authorize env s user pass net = Done (ok, s', net') \<Longrightarrow> session_ok s \<Longrightarrow> session_ok s'"
  unfolding stratum_authorize_def
  by (auto simp: io_bind_Done Let_def split: if_splits option.splits dest: authorize_loop_session)

lemma gen_work_session: "stratum_gen_work s w = Some (s', w') \<Longrightarrow> session_ok s \<Longrightarrow> session_ok s'"
  unfolding stratum_gen_work_def Let_def
  by (auto simp: session_ok_def job_ok_def sockbuf_ok_def split: option.splits if_splits)

lemma connect_session: "stratum_connect s url net = Done (ok, s', net') \<Longrightarrow> session_ok s \<Longrightarrow> session_ok s'"
  by (auto simp: stratum_connect_def session_ok_def sockbuf_ok_def Let_def split: list.splits prod.splits if_splits)

text \<open>C9: whatever the server sends, in every state a session can reach the receive buffer is not
  overrun, the fields of the job have their sizes, and the extra nonce is at most 100 bytes.\<close>

theorem session_invariant:
  assumes "(session_step env)\<^sup>*\<^sup>* session_start s"
  shows "session_ok s"
  using assms
proof (induction rule: rtranclp_induct)
  case base
  then show ?case by (simp add: session_start_def session_ok_def job_ok_def sockbuf_ok_def nodes32_def)
next
  case (step s s')
  from step.hyps(2) step.IH show ?case
    by (cases rule: session_step.cases)
      (auto dest: connect_session subscribe_session authorize_session recv_line_session
        handle_method_session gen_work_session intro: disconnect_session)
qed

definition notify_env :: stratum_env where
  "notify_env = \<lparr>a_loads = (\<lambda>s. if s = ''notify'' then Some (JObject [(''method'', JString ''mining.Notify''), (''params'', the sample_params)])
       else if s = ''reply'' then Some (JObject [(''result'', JArray [JArray [], JString ''f000'', JInteger 8])])
       else if s = ''no'' then Some (JObject [(''error'', JString ''x'')])
       else None),
     a_dumps = (\<lambda>_. []), a_agent = ''miner'', a_redirect = True, a_junk = (\<lambda>_. 0)\<rparr>"

lemma notify_in_any_case: "strcaseeq ''mining.Notify'' ''mining.notify''"
  by code_simp

lemma sample_notify: "\<exists>s'. stratum_handle_method notify_env session_start ''notify'' net = Done (True, s', net)
    \<and> j_job_id (s_job s') = Some ''j1''"
  by (simp add: stratum_handle_method_def notify_env_def notify_in_any_case sample_params_def stratum_notify_def)

lemma session_invariant_witness:
  "\<exists>s. j_job_id (s_job s) = Some ''j1'' \<and> session_ok s"
proof -
  obtain s where h: "stratum_handle_method notify_env session_start ''notify''
      \<lparr>n_ready = [], n_recv = [], n_send = [], n_conn = [], n_out = []\<rparr>
      = Done (True, s, \<lparr>n_ready = [], n_recv = [], n_send = [], n_conn = [], n_out = []\<rparr>)"
    and j: "j_job_id (s_job s) = Some ''j1''"
    using sample_notify by blast
  have "session_ok s"
    by (rule session_invariant [of notify_env], rule r_into_rtranclp, rule session_step.handle [OF h])
  with j show ?thesis by blast
qed

section \<open>A job needs the extra nonce it was made for\<close>

definition job_fits :: "sctx \<Rightarrow> bool" where
  "job_fits s \<longleftrightarrow> j_xnonce2 (s_job s) + s_xnonce2_size s \<le> length (j_coinbase (s_job s))"

lemma length_notify_coinbase:
  "length (notify_coinbase junk s job_id coinb1 coinb2)
    = length coinb1 div 2 + length (s_xnonce1 s) + s_xnonce2_size s + length coinb2 div 2"
  by (simp add: notify_coinbase_def Let_def length_memcpy_at)

lemma notify_fits: "stratum_notify junk s params = (True, s') \<Longrightarrow> job_fits s'"
  by (elim notify_True) (simp add: job_fits_def length_notify_coinbase)

text \<open>C10: a job from the server has room for the extra nonce, and calls from the server and making
  work keep it so; but a new subscription with a longer extra nonce leaves the old job as it is, and
  making work from it then reads and writes past the coinbase.\<close>

theorem job_needs_its_subscription:
  shows "(stratum_handle_method env s line net = Done (ret, s', net') \<longrightarrow> job_fits s \<longrightarrow> job_fits s')
    \<and> (stratum_gen_work s w = Some (s', w') \<longrightarrow> job_fits s')
    \<and> (stratum_subscribe env s net = Done (True, s', net') \<longrightarrow> j_job_id (s_job s) \<noteq> None \<longrightarrow> session_ok s \<longrightarrow>
        length (j_coinbase (s_job s)) < j_xnonce2 (s_job s) + s_xnonce2_size s' \<longrightarrow> stratum_gen_work s' w = None)"
proof (intro conjI impI)
  assume h: "stratum_handle_method env s line net = Done (ret, s', net')" and s: "job_fits s"
  show "job_fits s'"
    using handle_method_cases [OF h] s notify_fits by (auto simp: job_fits_def stratum_disconnect_def)
next
  assume "stratum_gen_work s w = Some (s', w')"
  then show "job_fits s'"
    unfolding stratum_gen_work_def Let_def
    by (auto simp: job_fits_def length_memcpy_at split: option.splits if_splits)
next
  assume sub: "stratum_subscribe env s net = Done (True, s', net')" and s: "session_ok s" "j_job_id (s_job s) \<noteq> None"
    and short: "length (j_coinbase (s_job s)) < j_xnonce2 (s_job s) + s_xnonce2_size s'"
  have "s_job s' = s_job s" using subscribe_session [OF sub s(1)] by simp
  then show "stratum_gen_work s' w = None" using short by (auto simp: stratum_gen_work_def Let_def split: option.splits)
qed

lemma job_needs_its_subscription_witness:
  "\<exists>s net s' net'. job_fits s \<and> stratum_subscribe notify_env s net = Done (True, s', net') \<and> stratum_gen_work s' work_zero = None"
proof -
  define s where "s = session_start\<lparr>s_curl := True, s_sockbuf := ''reply'' @ [NL], s_sockbuf_size := 2048,
      s_job := (s_job session_start)\<lparr>j_job_id := Some ''j1'', j_coinbase := [1, 2, 3], j_xnonce2 := 2\<rparr>\<rparr>"
  define net where "net = \<lparr>n_ready = [True], n_recv = [], n_send = [(True, Sent 200)], n_conn = [], n_out = []\<rparr>"
  have tok: "take_token (''reply'' @ [NL]) = Some (''reply'', [])" by (simp add: take_token_def)
  have "\<exists>net1. stratum_send_line (subscribe_request notify_env False None) net = Done (True, net1) \<and> n_ready net1 = [True]"
    by (simp add: stratum_send_line_def subscribe_request_def notify_env_def net_def)
  then obtain net1 where net1: "stratum_send_line (subscribe_request notify_env False None) net = Done (True, net1)"
    "n_ready net1 = [True]"
    by blast
  have "\<exists>s' net'. stratum_subscribe notify_env s net = Done (True, s', net') \<and> s_xnonce2_size s' = 8"
    using net1 tok
    by (simp add: stratum_subscribe_def subscribe_attempt_def s_def session_start_def socket_full_def stratum_recv_line_def
        subscribe_answer_def notify_env_def int32_def Let_def)
  then obtain s' net' where sub: "stratum_subscribe notify_env s net = Done (True, s', net')" "s_xnonce2_size s' = 8"
    by blast
  have "session_ok s" "j_job_id (s_job s) \<noteq> None" "job_fits s"
    by (simp_all add: s_def session_start_def session_ok_def sockbuf_ok_def job_ok_def nodes32_def job_fits_def)
  moreover have "length (j_coinbase (s_job s)) < j_xnonce2 (s_job s) + s_xnonce2_size s'"
    by (simp add: sub(2)) (simp add: s_def session_start_def)
  ultimately have "stratum_gen_work s' work_zero = None"
    using job_needs_its_subscription sub(1) by blast
  then show ?thesis using sub(1) \<open>job_fits s\<close> by blast
qed

section \<open>Answers that are freed twice\<close>

lemma send_line_not_Broken: "stratum_send_line s net \<noteq> Broken"
proof -
  have "send_loop s steps out \<noteq> Broken" for s steps out
  proof (induction steps arbitrary: s out)
    case Nil
    then show ?case by (cases s) auto
  next
    case (Cons st steps)
    obtain writable r where "st = (writable, r)" by (cases st)
    then show ?case using Cons by (cases s; cases r) auto
  qed
  then show ?thesis by (cases "send_loop (s @ [NL]) (n_send net) (n_out net)") (auto simp: stratum_send_line_def)
qed

lemma recv_loop_not_Broken: "recv_loop s ready rs \<noteq> Broken"
proof (induction rs arbitrary: s ready)
  case (Cons rl rs)
  obtain r late where "rl = (r, late)" by (cases rl)
  then show ?case using Cons by (cases r; cases ready) (auto simp: Let_def)
qed simp

lemma io_bind_Broken: "io_bind m f = Broken \<longleftrightarrow> m = Broken \<or> (\<exists>x. m = Done x \<and> f x = Broken)"
  by (cases m) auto

lemma socket_full_not_Broken: "socket_full net \<noteq> Broken"
  by (simp add: socket_full_def split: list.splits)

lemma recv_line_not_Broken: "stratum_recv_line s net \<noteq> Broken"
  unfolding stratum_recv_line_def
  using recv_loop_not_Broken socket_full_not_Broken
  by (auto simp: io_bind_Broken split: if_splits option.splits)

lemma attempt_not_Broken: "subscribe_attempt env retry s net \<noteq> Broken"
  unfolding subscribe_attempt_def
  by (auto simp: io_bind_Broken send_line_not_Broken socket_full_not_Broken recv_line_not_Broken split: if_splits option.splits prod.splits)

text \<open>C11: \<open>stratum_subscribe\<close> leaves the connection with an extra nonce of 1 to 100 bytes and
  difficulty one when it returns true, and never changes the job; it frees an answer twice exactly
  when the server refuses the first request and the second one gets no answer.\<close>

theorem subscribe_correct:
  shows "(stratum_subscribe env s net = Done (ok, s', net') \<longrightarrow> session_ok s \<longrightarrow>
      session_ok s' \<and> (ok \<longrightarrow> 1 \<le> s_xnonce2_size s' \<and> s_xnonce2_size s' \<le> 100 \<and> s_next_diff s' = 1)
      \<and> s_job s' = s_job s)
    \<and> (stratum_subscribe env s net = Broken \<longleftrightarrow>
      (\<exists>s1 net1 s2 net2. subscribe_attempt env False s net = Done (Refused, s1, net1)
        \<and> subscribe_attempt env True s1 net1 = Done (NoAnswer, s2, net2)))"
proof (intro conjI impI)
  assume a: "stratum_subscribe env s net = Done (ok, s', net')" "session_ok s"
  note S = subscribe_session [OF a]
  show "session_ok s'" "s_job s' = s_job s" using S by simp_all
  show "1 \<le> s_xnonce2_size s'" "s_xnonce2_size s' \<le> 100" "s_next_diff s' = 1" if ok
    using S that by (simp_all add: session_ok_def)
next
  show "stratum_subscribe env s net = Broken \<longleftrightarrow>
      (\<exists>s1 net1 s2 net2. subscribe_attempt env False s net = Done (Refused, s1, net1)
        \<and> subscribe_attempt env True s1 net1 = Done (NoAnswer, s2, net2))"
  proof
    assume broken: "stratum_subscribe env s net = Broken"
    obtain r1 s1 n1 where first: "subscribe_attempt env False s net = Done (r1, s1, n1)"
      using broken attempt_not_Broken by (auto simp: stratum_subscribe_def io_bind_Broken)
    obtain r2 s2 n2 where second: "subscribe_attempt env True s1 n1 = Done (r2, s2, n2)"
      using broken first attempt_not_Broken by (cases r1) (auto simp: stratum_subscribe_def io_bind_Broken)
    have "r1 = Refused \<and> r2 = NoAnswer"
      using broken first second by (cases r1; cases r2) (simp_all add: stratum_subscribe_def)
    then show "\<exists>s1 net1 s2 net2. subscribe_attempt env False s net = Done (Refused, s1, net1)
        \<and> subscribe_attempt env True s1 net1 = Done (NoAnswer, s2, net2)"
      using first second by blast
  qed (auto simp: stratum_subscribe_def)
qed

lemma subscribe_correct_witness:
  "\<exists>s' net'. stratum_subscribe notify_env session_start \<lparr>n_ready = [], n_recv = [], n_send = [(False, SendError)], n_conn = [], n_out = []\<rparr>
      = Done (False, s', net') \<and> session_ok s'"
proof -
  have "\<exists>s' net'. stratum_subscribe notify_env session_start \<lparr>n_ready = [], n_recv = [], n_send = [(False, SendError)], n_conn = [], n_out = []\<rparr>
      = Done (False, s', net')"
    by (simp add: stratum_subscribe_def subscribe_attempt_def stratum_send_line_def subscribe_request_def)
  then obtain s' net' where d: "stratum_subscribe notify_env session_start \<lparr>n_ready = [], n_recv = [], n_send = [(False, SendError)], n_conn = [], n_out = []\<rparr>
      = Done (False, s', net')"
    by blast
  have "session_ok session_start"
    by (simp add: session_start_def session_ok_def sockbuf_ok_def job_ok_def nodes32_def)
  then show ?thesis using subscribe_correct [of notify_env session_start _ False s' net'] d by blast
qed

end
