(* ===== verification/AddressFile.thy ===== *)
theory AddressFile
  imports Address CString
begin

text \<open>
  The payout addresses of \<open>cpu-miner.c\<close>: \<open>load_addresses_from_file\<close> and
  \<open>select_random_address\<close>. A file is its text, or \<open>None\<close> when it cannot be opened; whether the
  memory for the \<open>i\<close>-th address is given is a parameter.
\<close>

section \<open>Lines\<close>

text \<open>\<open>fgets\<close> into 256 bytes: at most 255 characters, the newline the last of them.\<close>

definition fgets_count :: "string \<Rightarrow> nat" where
  "fgets_count s = (let k = length (takeWhile (\<lambda>c. c \<noteq> NL) s) in min 255 (if k < length s then k + 1 else k))"

lemma fgets_count_pos: "s \<noteq> [] \<Longrightarrow> 0 < fgets_count s"
  by (cases s) (auto simp: fgets_count_def Let_def)

function file_lines :: "string \<Rightarrow> string list" where
  "file_lines s = (if s = [] then [] else take (fgets_count s) s # file_lines (drop (fgets_count s) s))"
  by pat_completeness auto
termination by (relation "measure length") (auto simp: fgets_count_pos)

declare file_lines.simps [simp del]

text \<open>The newline, a comment and the white space around are removed.\<close>

definition clean_line :: "string \<Rightarrow> string" where
  "clean_line line =
     (let line = takeWhile (\<lambda>c. c \<noteq> NL) (cstr line);
          line = takeWhile (\<lambda>c. c \<noteq> CHR ''#'') line;
          start = dropWhile is_space line
      in rev (dropWhile is_space (rev start)))"

section \<open>Loading\<close>

text \<open>\<open>None\<close>: \<open>address_to_script\<close> reads past the decoded address.\<close>

fun load_lines :: "(nat \<Rightarrow> bool) \<Rightarrow> string list \<Rightarrow> string list \<Rightarrow> (int \<times> string list) option" where
  "load_lines mem [] addrs = Some (int (length addrs), addrs)"
| "load_lines mem (line # lines) addrs =
     (let start = clean_line line
      in if start = [] then load_lines mem lines addrs
         else (case address_to_script (replicate 128 0) 128 start of
                 None \<Rightarrow> None
               | Some (script_size, script) \<Rightarrow>
                   if script_size = 0 then load_lines mem lines addrs
                   else if \<not> mem (length addrs) then Some (- 2, addrs)
                   else load_lines mem lines (addrs @ [start])))"

definition load_addresses_from_file :: "(nat \<Rightarrow> bool) \<Rightarrow> string option \<Rightarrow> string list \<Rightarrow> (int \<times> string list) option" where
  "load_addresses_from_file mem file addrs =
     (case file of
        None \<Rightarrow> Some (- 1, addrs)
      | Some content \<Rightarrow> load_lines mem (file_lines content) [])"

section \<open>Selection\<close>

record payout =
  p_script_size :: nat
  p_script :: "byte list"

text \<open>\<open>r\<close> is what \<open>rand\<close> returns.\<close>

definition select_random_address :: "nat \<Rightarrow> string list \<Rightarrow> payout \<Rightarrow> payout option" where
  "select_random_address r addrs p =
     (if addrs = [] then Some p
      else (let random_index = r mod length addrs
            in case address_to_script (p_script p) 42 (addrs ! random_index) of
                 None \<Rightarrow> None
               | Some (n, out) \<Rightarrow> Some \<lparr>p_script_size = n, p_script = out\<rparr>))"

section \<open>Lemmas\<close>

lemma concat_file_lines: "concat (file_lines s) = s \<and> (\<forall>l \<in> set (file_lines s). l \<noteq> [] \<and> length l \<le> 255)"
proof (induction s rule: file_lines.induct)
  case (1 s)
  show ?case
  proof (cases "s = []")
    case False
    have "fgets_count s \<le> 255" by (simp add: fgets_count_def Let_def)
    then show ?thesis
      using 1 False fgets_count_pos [OF False] by (subst (1 2) file_lines.simps) (auto simp: min_def)
  qed (simp add: file_lines.simps)
qed

definition pays :: "string \<Rightarrow> bool" where
  "pays addr \<longleftrightarrow> address_kind_of addr \<noteq> None"

text \<open>An address of ones alone is left to the decoder's checksum.\<close>

definition not_ones :: "string \<Rightarrow> bool" where
  "not_ones addr \<longleftrightarrow> (\<exists>c \<in> set addr. c \<noteq> CHR ''1'')"

lemma script_128:
  assumes "not_ones addr"
  shows "\<exists>n out. address_to_script (replicate 128 0) 128 addr = Some (n, out) \<and> (n \<noteq> 0 \<longleftrightarrow> pays addr)"
proof (cases "address_kind_of addr")
  case None
  then show ?thesis
    using address_to_script_spec [of 128 "replicate 128 0" addr] assms by (simp add: pays_def not_ones_def)
next
  case (Some k)
  have "4 \<le> length (kind_script k)" "length (kind_script k) \<le> 42" using length_kind_script [OF Some] by auto
  then show ?thesis
    using address_to_script_spec [of 128 "replicate 128 0" addr] assms Some by (auto simp: pays_def not_ones_def)
qed

lemma load_lines_filter:
  assumes "\<forall>l \<in> set lines. clean_line l = [] \<or> not_ones (clean_line l)" "\<forall>i. mem i"
  shows "load_lines mem lines addrs =
    (let all = addrs @ filter pays (filter (\<lambda>l. l \<noteq> []) (map clean_line lines)) in Some (int (length all), all))"
  using assms(1)
proof (induction lines arbitrary: addrs)
  case (Cons line lines)
  show ?case
  proof (cases "clean_line line = []")
    case False
    then obtain n out where "address_to_script (replicate 128 0) 128 (clean_line line) = Some (n, out)"
      "n \<noteq> 0 \<longleftrightarrow> pays (clean_line line)"
      using Cons.prems script_128 [of "clean_line line"] by auto
    then show ?thesis using Cons assms(2) False by (auto simp: Let_def)
  qed (use Cons in simp)
qed simp

text \<open>C27: the pieces \<open>fgets\<close> reads make up the file; each has at most 255 characters, so that a longer
  line is read as several. The addresses loaded are the valid ones among the cleaned lines, in the
  order of the file, and their number is returned.\<close>

theorem load_addresses_correct:
  assumes "\<forall>l \<in> set (file_lines content). clean_line l = [] \<or> not_ones (clean_line l)" "\<forall>i. mem i"
  shows "load_addresses_from_file mem (Some content) addrs =
      (let all = filter pays (filter (\<lambda>l. l \<noteq> []) (map clean_line (file_lines content))) in Some (int (length all), all))
    \<and> load_addresses_from_file mem None addrs = Some (- 1, addrs)
    \<and> concat (file_lines content) = content \<and> (\<forall>l \<in> set (file_lines content). length l \<le> 255)"
  using load_lines_filter [OF assms, of "[]"] concat_file_lines [of content]
  by (simp add: load_addresses_from_file_def)

definition sample_file :: string where
  "sample_file = ''# mine'' @ [NL] @ ''  BC1QW508D6QEJXTDG4Y5R3ZARVARY0C5XW7KV8F3T4 # first'' @ [NL] @ ''0x'' @ [NL]"

lemma sample_file_lines:
  "map clean_line (file_lines sample_file) = [[], ''BC1QW508D6QEJXTDG4Y5R3ZARVARY0C5XW7KV8F3T4'', ''0x'']"
  "address_kind_of ''BC1QW508D6QEJXTDG4Y5R3ZARVARY0C5XW7KV8F3T4'' \<noteq> None" "address_kind_of ''0x'' = None"
  by code_simp+

lemma sample_not_ones: "\<forall>l \<in> set (file_lines sample_file). clean_line l = [] \<or> not_ones (clean_line l)"
proof -
  have "\<forall>l \<in> set (map clean_line (file_lines sample_file)). l = [] \<or> not_ones l"
    unfolding sample_file_lines(1) by (simp add: not_ones_def)
  then show ?thesis by simp
qed

lemma load_addresses_correct_witness:
  "load_addresses_from_file (\<lambda>_. True) (Some sample_file) [] = Some (1, [''BC1QW508D6QEJXTDG4Y5R3ZARVARY0C5XW7KV8F3T4''])"
  using load_addresses_correct [OF sample_not_ones, of "\<lambda>_. True" "[]"]
  by (simp add: sample_file_lines pays_def)

lemma selected_script:
  assumes "load_addresses_from_file mem (Some content) old = Some (n, addrs)" "addrs \<noteq> []" "length (p_script p) = 42"
    and "\<forall>l \<in> set (file_lines content). clean_line l = [] \<or> not_ones (clean_line l)"
  shows "\<exists>p' addr k. select_random_address r addrs p = Some p' \<and> addr \<in> clean_line ` set (file_lines content)
    \<and> address_kind_of addr = Some k \<and> take (p_script_size p') (p_script p') = kind_script k
    \<and> 4 \<le> p_script_size p' \<and> p_script_size p' \<le> 42 \<and> length (p_script p') = 42"
proof -
  have loaded: "\<forall>a \<in> set addrs. a \<in> clean_line ` set (file_lines content) \<and> pays a \<and> not_ones a"
  proof -
    have "load_lines mem lines acc = Some (n, addrs) \<Longrightarrow>
        \<forall>l \<in> set lines. clean_line l = [] \<or> not_ones (clean_line l) \<Longrightarrow>
        \<forall>a \<in> set addrs. a \<in> set acc \<or> a \<in> clean_line ` set lines \<and> pays a \<and> not_ones a" for lines acc
    proof (induction lines arbitrary: acc)
      case (Cons line lines)
      show ?case
      proof (cases "clean_line line = []")
        case False
        then have no: "not_ones (clean_line line)" using Cons.prems(2) by simp
        then obtain m out where a: "address_to_script (replicate 128 0) 128 (clean_line line) = Some (m, out)"
          "m \<noteq> 0 \<longleftrightarrow> pays (clean_line line)"
          using script_128 by blast
        consider "load_lines mem lines acc = Some (n, addrs)" | "addrs = acc"
          | "load_lines mem lines (acc @ [clean_line line]) = Some (n, addrs)" "pays (clean_line line)"
          using Cons.prems(1) False a by (auto simp: Let_def split: if_splits)
        then show ?thesis
        proof cases
          case 1
          then show ?thesis using Cons by auto
        next
          case 3
          then show ?thesis using Cons.IH [OF 3(1)] Cons.prems(2) no by auto
        qed simp
      qed (use Cons in auto)
    qed simp
    from this [of "file_lines content" "[]"] show ?thesis
      using assms(1,4) by (simp add: load_addresses_from_file_def)
  qed
  define addr where "addr = addrs ! (r mod length addrs)"
  have "addr \<in> set addrs" using assms(2) by (simp add: addr_def)
  then have a: "addr \<in> clean_line ` set (file_lines content)" "not_ones addr" "pays addr" using loaded by auto
  then obtain k where k: "address_kind_of addr = Some k" by (auto simp: pays_def)
  have len: "4 \<le> length (kind_script k)" "length (kind_script k) \<le> 42" using length_kind_script [OF k] by auto
  have "address_to_script (p_script p) 42 addr = Some (length (kind_script k), memcpy_at (p_script p) 0 (kind_script k))"
    using address_to_script_spec [of 42 "p_script p" addr] assms(3) a(2) k len by (simp add: not_ones_def)
  then have "select_random_address r addrs p
      = Some \<lparr>p_script_size = length (kind_script k), p_script = memcpy_at (p_script p) 0 (kind_script k)\<rparr>"
    using assms(2) by (simp add: select_random_address_def addr_def)
  then show ?thesis
    using a(1) k len assms(3)
    by (intro exI [of _ "\<lparr>p_script_size = length (kind_script k), p_script = memcpy_at (p_script p) 0 (kind_script k)\<rparr>"]
        exI [of _ addr] exI [of _ k]) (simp add: memcpy_at_def)
qed

text \<open>Whatever file was loaded, the address selected for the next block is one of its valid
  addresses, and \<open>pk_script\<close> then holds the script that pays it, of at most 42 bytes.\<close>

theorem selected_address_pays:
  assumes "load_addresses_from_file mem (Some content) old = Some (n, addrs)" "addrs \<noteq> []" "length (p_script p) = 42"
    and "\<forall>l \<in> set (file_lines content). clean_line l = [] \<or> not_ones (clean_line l)"
  shows "\<exists>p' addr k. select_random_address r addrs p = Some p' \<and> addr \<in> clean_line ` set (file_lines content)
    \<and> address_kind_of addr = Some k \<and> take (p_script_size p') (p_script p') = kind_script k
    \<and> 4 \<le> p_script_size p' \<and> p_script_size p' \<le> 42 \<and> length (p_script p') = 42"
  using assms by (rule selected_script)

lemma selected_address_pays_witness:
  "\<exists>p'. select_random_address 7 [''BC1QW508D6QEJXTDG4Y5R3ZARVARY0C5XW7KV8F3T4''] \<lparr>p_script_size = 0, p_script = replicate 42 0\<rparr>
      = Some p' \<and> 4 \<le> p_script_size p'"
proof -
  have l: "load_addresses_from_file (\<lambda>_. True) (Some sample_file) [] = Some (1, [''BC1QW508D6QEJXTDG4Y5R3ZARVARY0C5XW7KV8F3T4''])"
    using load_lines_filter [OF sample_not_ones, of "\<lambda>_. True" "[]"]
    by (simp add: load_addresses_from_file_def sample_file_lines pays_def)
  from selected_address_pays [OF l _ _ sample_not_ones, of "\<lparr>p_script_size = 0, p_script = replicate 42 0\<rparr>" 7]
  show ?thesis by auto
qed

end
