(* ===== verification/WorkIO.thy ===== *)
theory WorkIO
  imports Stratum AddressFile
begin

text \<open>
  The work queue thread of \<open>cpu-miner.c\<close>: \<open>submit_upstream_work\<close>, \<open>get_upstream_work\<close>, the handlers
  and the loop of \<open>workio_thread\<close>, and the miners' side of it. The results of the coming JSON-RPC
  calls are a script; a call for which it holds no result has not returned. A queue between threads is
  the list of its items and whether it is frozen.
\<close>

section \<open>State\<close>

text \<open>The result of a JSON-RPC call: the answer, the error code, and whether the server offered Stratum
  in its headers, upon which the call sets \<open>have_stratum\<close>.\<close>

record rpc_result =
  r_val :: "json option"
  r_err :: int
  r_stratum :: bool

record miner =
  m_cfg :: gbt_cfg
  m_env :: gbt_env
  m_have_stratum :: bool
  m_submit_old :: bool
  m_g_work :: work
  m_accepted :: u64
  m_rejected :: u64
  m_addresses :: "string list"
  m_payout :: payout
  m_rand :: "nat list"
  m_rpc_user :: string
  m_stratum :: sctx
  m_net :: net
  m_rpc :: "rpc_result list"
  m_sent :: "string list"
  m_queue :: "nat \<Rightarrow> work list"
  m_frozen :: "nat \<Rightarrow> bool"
  m_restart :: "nat \<Rightarrow> bool"

definition json_rpc :: "string \<Rightarrow> miner \<Rightarrow> (rpc_result \<times> miner) io" where
  "json_rpc req m =
     (case m_rpc m of
        [] \<Rightarrow> Blocked
      | r # rs \<Rightarrow> Done (r, m\<lparr>m_rpc := rs, m_sent := m_sent m @ [req],
                            m_have_stratum := (m_have_stratum m \<or> r_stratum r)\<rparr>))"

definition restart_threads :: "miner \<Rightarrow> miner" where
  "restart_threads m = m\<lparr>m_restart := (\<lambda>_. True)\<rparr>"

section \<open>Shares\<close>

text \<open>The count, and a new payout address after an accepted block.\<close>

definition share_result :: "bool \<Rightarrow> miner \<Rightarrow> miner io" where
  "share_result result m =
     (let m = (if result then m\<lparr>m_accepted := m_accepted m + 1\<rparr> else m\<lparr>m_rejected := m_rejected m + 1\<rparr>)
      in if result \<and> \<not> m_have_stratum m
         then (case m_rand m of
                 [] \<Rightarrow> (if m_addresses m = [] then Done m else Blocked)
               | r # rs \<Rightarrow>
                   (case select_random_address r (m_addresses m) (m_payout m) of
                      None \<Rightarrow> Broken
                    | Some p \<Rightarrow> Done (m\<lparr>m_payout := p, m_rand := (if m_addresses m = [] then m_rand m else rs)\<rparr>)))
         else Done m)"

section \<open>Submitting\<close>

definition stale :: "miner \<Rightarrow> work \<Rightarrow> bool" where
  "stale m work \<longleftrightarrow> \<not> m_submit_old m \<and> take 8 (drop 1 (w_data work)) \<noteq> take 8 (drop 1 (w_data (m_g_work m)))"

definition stratum_submit_request :: "string \<Rightarrow> string \<Rightarrow> work \<Rightarrow> string" where
  "stratum_submit_request user job_id work =
     ''{\"method\": \"mining.submit\", \"params\": [\"'' @ user @ ''\", \"'' @ job_id @ ''\", \"''
     @ bin2hex (w_xnonce2 work) (length (w_xnonce2 work)) @ ''\", \"''
     @ bin2hex (le32enc (w_data work ! 17)) 4 @ ''\", \"'' @ bin2hex (le32enc (w_data work ! 19)) 4 @ ''\"], \"id\":4}''"

text \<open>The data in the byte order of a block, in place, with the RandomX hash behind the header.\<close>

definition block_data :: "work \<Rightarrow> u32 list" where
  "block_data work =
     (let data = map swab32 (w_data work)
      in take 20 data @ words_of le32dec (w_rx_hash work) @ drop 28 data)"

definition CRLF :: string where
  "CRLF = [CHR 0x0D, CHR 0x0A]"

definition submitblock_request :: "(json \<Rightarrow> string) \<Rightarrow> u32 list \<Rightarrow> string \<Rightarrow> string option \<Rightarrow> string" where
  "submitblock_request dumps data txs workid =
     ''{\"method\": \"submitblock\", \"params\": [\"''
     @ bin2hex (bytes_of le32enc data) 112 @ txs @
     (case workid of
        Some wid \<Rightarrow> ''\", '' @ dumps (JObject [(''workid'', JString wid)]) @ ''], \"id\":1}''
      | None \<Rightarrow> ''\"], \"id\":1}'')
     @ CRLF"

definition getwork_submit_request :: "u32 list \<Rightarrow> string" where
  "getwork_submit_request data =
     ''{\"method\": \"getwork\", \"params\": [ \"'' @ bin2hex (bytes_of le32enc data) 128 @ ''\" ], \"id\":1}'' @ CRLF"

definition block_accepted :: "json option \<Rightarrow> bool" where
  "block_accepted res =
     (if json_is_object res then list_ex (\<lambda>v. json_is_null (Some v)) (json_object_values res) else json_is_null res)"

definition submit_upstream_work :: "(json \<Rightarrow> string) \<Rightarrow> work \<Rightarrow> miner \<Rightarrow> (bool \<times> work \<times> miner) io" where
  "submit_upstream_work dumps work m =
     (if stale m work then Done (True, work, m)
      else if m_have_stratum m
      then (case w_job_id work of
              None \<Rightarrow> Broken
            | Some job_id \<Rightarrow>
                io_bind (stratum_send_line (stratum_submit_request (m_rpc_user m) job_id work) (m_net m)) (\<lambda>(rc, net).
                  Done (rc, work, m\<lparr>m_net := net\<rparr>)))
      else (case w_txs work of
              Some txs \<Rightarrow>
                (let work = work\<lparr>w_data := block_data work\<rparr>
                 in io_bind (json_rpc (submitblock_request dumps (w_data work) txs (w_workid work)) m) (\<lambda>(r, m).
                      case r_val r of
                        None \<Rightarrow> Done (False, work, m)
                      | Some val \<Rightarrow>
                          io_bind (share_result (block_accepted (json_object_get (Some val) ''result'')) m) (\<lambda>m.
                            Done (True, work, m))))
            | None \<Rightarrow>
                io_bind (json_rpc (getwork_submit_request (w_data work)) m) (\<lambda>(r, m).
                  case r_val r of
                    None \<Rightarrow> Done (False, work, m)
                  | Some val \<Rightarrow>
                      io_bind (share_result (json_is_true (json_object_get (Some val) ''result'')) m) (\<lambda>m.
                        Done (True, work, m)))))"

section \<open>Getting work\<close>

definition getwork_req :: string where
  "getwork_req = ''{\"method\": \"getwork\", \"params\": [], \"id\":0}'' @ CRLF"

definition gbt_req :: string where
  "gbt_req =
     ''{\"method\": \"getblocktemplate\", \"params\": [{\"capabilities\": ''
     @ ''[\"coinbasetxn\", \"coinbasevalue\", \"longpoll\", \"workid\"]'' @ '', \"rules\": '' @ ''[\"segwit\"]''
     @ ''}], \"id\":0}'' @ CRLF"

text \<open>The settings with the payout script of the moment.\<close>

definition gbt_settings :: "miner \<Rightarrow> gbt_cfg" where
  "gbt_settings m = (m_cfg m)\<lparr>c_pk_script := take (p_script_size (m_payout m)) (p_script (m_payout m))\<rparr>"

lemma json_rpc_shorter: "json_rpc req m = Done (r, m') \<Longrightarrow> length (m_rpc m') < length (m_rpc m)"
  by (auto simp: json_rpc_def split: list.splits)

text \<open>One request and what is done with the answer; \<open>None\<close> is the jump back to the start.\<close>

definition get_upstream_once :: "work \<Rightarrow> miner \<Rightarrow> (bool option \<times> work \<times> miner) io" where
  "get_upstream_once work m =
     io_bind (json_rpc (if e_have_gbt (m_env m) then gbt_req else getwork_req) m) (\<lambda>(r, m).
       let have_gbt = e_have_gbt (m_env m); allow_getwork = c_allow_getwork (m_cfg m)
       in if m_have_stratum m then Done (Some True, work, m)
          else if \<not> have_gbt \<and> \<not> allow_getwork then Done (Some False, work, m)
          else if have_gbt \<and> allow_getwork \<and> r_val r = None \<and> r_err r = 0
          then Done (None, work, m\<lparr>m_env := (m_env m)\<lparr>e_have_gbt := False\<rparr>\<rparr>)
          else if r_val r = None then Done (Some False, work, m)
          else (let result = json_object_get (r_val r) ''result''
                in if have_gbt
                   then (case gbt_work_decode (gbt_settings m) result work (m_env m) of
                           None \<Rightarrow> Broken
                         | Some (rc, work, env) \<Rightarrow>
                             Done (if e_have_gbt env then Some rc else None, work, m\<lparr>m_env := env\<rparr>))
                   else (case work_decode result work of (rc, work) \<Rightarrow> Done (Some rc, work, m))))"

lemma get_upstream_once_shorter:
  "get_upstream_once work m = Done (r, work', m') \<Longrightarrow> length (m_rpc m') < length (m_rpc m)"
  unfolding get_upstream_once_def Let_def
  by (auto simp: io_bind_Done dest!: json_rpc_shorter split: if_splits option.splits prod.splits)

function get_upstream_work :: "work \<Rightarrow> miner \<Rightarrow> (bool \<times> work \<times> miner) io" where
  "get_upstream_work work m =
     io_bind (get_upstream_once work m) (\<lambda>(r, work, m).
       case r of Some rc \<Rightarrow> Done (rc, work, m) | None \<Rightarrow> get_upstream_work work m)"
  by pat_completeness auto
termination
  by (relation "measure (\<lambda>(work, m). length (m_rpc m))") (auto dest!: get_upstream_once_shorter)

declare get_upstream_work.simps [simp del]

lemma get_upstream_work_shorter:
  "get_upstream_work work m = Done (rc, work', m') \<Longrightarrow> length (m_rpc m') < length (m_rpc m)"
proof (induction work m rule: get_upstream_work.induct)
  case (1 work m)
  obtain r w1 m1 where o: "get_upstream_once work m = Done (r, w1, m1)"
    using 1(2) by (subst (asm) get_upstream_work.simps) (auto simp: io_bind_Done)
  note S = get_upstream_once_shorter [OF o]
  show ?case
  proof (cases r)
    case None
    then have "get_upstream_work w1 m1 = Done (rc, work', m')"
      using 1(2) o by (subst (asm) get_upstream_work.simps) simp
    from 1(1) [OF o refl refl None this] show ?thesis using S by simp
  next
    case (Some b)
    then show ?thesis using 1(2) o S by (subst (asm) get_upstream_work.simps) simp
  qed
qed

section \<open>The handlers of the queue\<close>

text \<open>The limit on the number of failures, none when negative.\<close>

definition gives_up :: "int \<Rightarrow> nat \<Rightarrow> bool" where
  "gives_up retries failures \<longleftrightarrow> 0 \<le> retries \<and> retries < int failures"

function get_work_loop :: "int \<Rightarrow> nat \<Rightarrow> work \<Rightarrow> miner \<Rightarrow> (work option \<times> miner) io" where
  "get_work_loop retries failures work m =
     io_bind (get_upstream_work work m) (\<lambda>(rc, work, m).
       if rc then Done (Some work, m)
       else if gives_up retries (Suc failures) then Done (None, m)
       else get_work_loop retries (Suc failures) work m)"
  by pat_completeness auto
termination
  by (relation "measure (\<lambda>(retries, failures, work, m). length (m_rpc m))") (auto dest!: get_upstream_work_shorter)

declare get_work_loop.simps [simp del]

definition workio_get_work :: "int \<Rightarrow> nat \<Rightarrow> miner \<Rightarrow> (bool \<times> miner) io" where
  "workio_get_work retries thr m =
     io_bind (get_work_loop retries 0 work_zero m) (\<lambda>(res, m).
       case res of
         None \<Rightarrow> Done (False, m)
       | Some work \<Rightarrow>
           Done (True, if m_frozen m thr then m
                       else m\<lparr>m_queue := (m_queue m)(thr := m_queue m thr @ [work])\<rparr>))"

lemma send_loop_False: "send_loop s steps out = Done (False, steps', out') \<Longrightarrow> length steps' < length steps"
proof (induction steps arbitrary: s out)
  case Nil
  then show ?case by (cases s) auto
next
  case (Cons st steps)
  obtain writable r where "st = (writable, r)" by (cases st)
  then show ?case
    using Cons.prems by (cases s; cases r) (auto split: if_splits dest!: Cons.IH)
qed

lemma send_line_False: "stratum_send_line s net = Done (False, net') \<Longrightarrow> length (n_send net') < length (n_send net)"
  by (auto simp: stratum_send_line_def io_bind_Done dest!: send_loop_False)

lemma submit_False:
  assumes "submit_upstream_work dumps work m = Done (False, work', m')"
  shows "length (m_rpc m') + length (n_send (m_net m')) < length (m_rpc m) + length (n_send (m_net m))"
proof -
  have j: "length (m_rpc m1) + length (n_send (m_net m1)) < length (m_rpc m) + length (n_send (m_net m))"
    if "json_rpc req m = Done (r, m1)" for req r m1
    using that by (auto simp: json_rpc_def split: list.splits)
  show ?thesis
    using assms unfolding submit_upstream_work_def Let_def
    by (auto simp: io_bind_Done split: if_splits option.splits dest!: j send_line_False)
qed

function submit_work_loop :: "(json \<Rightarrow> string) \<Rightarrow> int \<Rightarrow> nat \<Rightarrow> work \<Rightarrow> miner \<Rightarrow> (bool \<times> miner) io" where
  "submit_work_loop dumps retries failures work m =
     io_bind (submit_upstream_work dumps work m) (\<lambda>(rc, work, m).
       if rc then Done (True, m)
       else if gives_up retries (Suc failures) then Done (False, m)
       else submit_work_loop dumps retries (Suc failures) work m)"
  by pat_completeness auto
termination
  by (relation "measure (\<lambda>(dumps, retries, failures, work, m). length (m_rpc m) + length (n_send (m_net m)))")
    (auto dest!: submit_False)

declare submit_work_loop.simps [simp del]

definition workio_submit_work :: "(json \<Rightarrow> string) \<Rightarrow> int \<Rightarrow> work \<Rightarrow> miner \<Rightarrow> (bool \<times> miner) io" where
  "workio_submit_work dumps retries work m = submit_work_loop dumps retries 0 work m"

text \<open>
  The loop over the commands; a null pointer ends it, and so does a handler that gives up. The thread
  then freezes its queue. With no command left it waits.
\<close>

datatype workio_cmd = WC_GET_WORK nat | WC_SUBMIT_WORK nat work

fun workio_thread :: "(json \<Rightarrow> string) \<Rightarrow> int \<Rightarrow> workio_cmd option list \<Rightarrow> miner \<Rightarrow> (workio_cmd option list \<times> miner) io" where
  "workio_thread dumps retries [] m = Blocked"
| "workio_thread dumps retries (None # q) m = Done (q, m)"
| "workio_thread dumps retries (Some (WC_GET_WORK thr) # q) m =
     io_bind (workio_get_work retries thr m) (\<lambda>(ok, m).
       if ok then workio_thread dumps retries q m else Done (q, m))"
| "workio_thread dumps retries (Some (WC_SUBMIT_WORK thr work) # q) m =
     io_bind (workio_submit_work dumps retries work m) (\<lambda>(ok, m).
       let m = (if ok \<and> \<not> e_have_longpoll (m_env m) then restart_threads m else m)
       in if ok then workio_thread dumps retries q m else Done (q, m))"

section \<open>The miners' side\<close>

text \<open>Work for the benchmark; \<open>now\<close> is the time.\<close>

definition benchmark_work :: "u32 \<Rightarrow> work \<Rightarrow> work" where
  "benchmark_work now work = work\<lparr>
     w_data := (replicate 17 0x55555555 @ [swab32 now, 0x55555555] @ replicate 13 0)[20 := 0x80000000, 31 := 0x280],
     w_target := replicate 8 0\<rparr>"

text \<open>The request of \<open>get_work\<close> and the taking of its answer; the last is null on a spurious wakeup.\<close>

definition get_work_request :: "nat \<Rightarrow> bool \<Rightarrow> workio_cmd option list \<Rightarrow> bool \<times> workio_cmd option list" where
  "get_work_request thr frozen q = (if frozen then (False, q) else (True, q @ [Some (WC_GET_WORK thr)]))"

definition get_work_answer :: "nat \<Rightarrow> miner \<Rightarrow> (work option \<times> miner) io" where
  "get_work_answer thr m =
     (case m_queue m thr of
        [] \<Rightarrow> Blocked
      | w # ws \<Rightarrow> Done (Some w, m\<lparr>m_queue := (m_queue m)(thr := ws)\<rparr>))"

definition submit_work :: "nat \<Rightarrow> work \<Rightarrow> bool \<Rightarrow> workio_cmd option list \<Rightarrow> bool \<times> workio_cmd option list" where
  "submit_work thr work_in frozen q = (if frozen then (False, q) else (True, q @ [Some (WC_SUBMIT_WORK thr work_in)]))"

section \<open>Properties\<close>

lemma submit_block_sent:
  assumes "\<not> stale m work" "\<not> m_have_stratum m" "w_txs work = Some txs" "w_workid work = None"
    and "length (w_data work) = 32" "length (w_rx_hash work) = 32" "m_rpc m = r # rs"
    and "submit_upstream_work dumps work m = Done (ok, work', m')"
  shows "m_sent m' = m_sent m @ [''{\"method\": \"submitblock\", \"params\": [\"''
      @ bin2hex (bytes_of be32enc (take 20 (w_data work)) @ w_rx_hash work) 112 @ txs @ ''\"], \"id\":1}'' @ CRLF]
    \<and> (ok \<longleftrightarrow> r_val r \<noteq> None)"
proof (rule conjI)
  have swap: "le32enc (swab32 v) = be32enc v" for v
    by (simp add: le32enc_rev be32enc_swab32)
  have b: "bytes_of le32enc (map swab32 ws) = bytes_of be32enc ws" for ws
    by (induction ws) (simp_all add: swap)
  have h: "bytes_of le32enc (words_of le32dec (w_rx_hash work)) = w_rx_hash work"
    by (rule le32.bytes_of_words_of [where n = 8]) (simp add: assms(6))
  define d where "d = bytes_of be32enc (take 20 (w_data work)) @ w_rx_hash work"
  have bytes: "bytes_of le32enc (block_data work) = d @ bytes_of le32enc (drop 28 (map swab32 (w_data work)))"
    by (simp add: block_data_def Let_def take_map b h d_def)
  have "length d = 112" using assms(5,6) by (simp add: d_def be32.length_bytes_of)
  then have req: "bin2hex (bytes_of le32enc (block_data work)) 112 = bin2hex d 112"
    unfolding bytes bin2hex_def by (intro arg_cong [where f = concat] map_cong) (simp_all add: nth_append)
  have frame: "m_sent m1 = m_sent m0" if "share_result b m0 = Done m1" for b m0 m1
    using that by (auto simp: share_result_def Let_def split: if_splits list.splits option.splits)
  show "m_sent m' = m_sent m @ [''{\"method\": \"submitblock\", \"params\": [\"''
      @ bin2hex (bytes_of be32enc (take 20 (w_data work)) @ w_rx_hash work) 112 @ txs @ ''\"], \"id\":1}'' @ CRLF]"
    using assms unfolding submit_upstream_work_def
    by (auto simp: io_bind_Done json_rpc_def Let_def submitblock_request_def req d_def split: option.splits dest!: frame)
  show "ok \<longleftrightarrow> r_val r \<noteq> None"
    using assms unfolding submit_upstream_work_def
    by (auto simp: io_bind_Done json_rpc_def Let_def split: option.splits)
qed

text \<open>A block found with getblocktemplate is sent as its 80-byte header, in the byte order the
  hash was computed over, the RandomX hash and the transactions of the template.\<close>

theorem submitblock_sends_block:
  assumes "\<not> stale m work" "\<not> m_have_stratum m" "w_txs work = Some txs" "w_workid work = None"
    and "length (w_data work) = 32" "length (w_rx_hash work) = 32" "m_rpc m = r # rs"
    and "submit_upstream_work dumps work m = Done (ok, work', m')"
  shows "m_sent m' = m_sent m @ [''{\"method\": \"submitblock\", \"params\": [\"''
      @ bin2hex (bytes_of be32enc (take 20 (w_data work)) @ w_rx_hash work) 112 @ txs @ ''\"], \"id\":1}'' @ CRLF]
    \<and> (ok \<longleftrightarrow> r_val r \<noteq> None)"
  using assms by (rule submit_block_sent)

definition sample_found :: work where
  "sample_found = work_zero\<lparr>w_data := 1 # replicate 31 2, w_txs := Some ''00''\<rparr>"

definition sample_miner :: miner where
  "sample_miner = \<lparr>m_cfg = \<lparr>c_pk_script = [], c_allow_getwork = True, c_want_longpoll = False, c_coinbase_sig = [], c_rpc_url = []\<rparr>,
     m_env = \<lparr>e_have_gbt = True, e_have_longpoll = False, e_lp_id = None, e_longpoll_queue = []\<rparr>,
     m_have_stratum = False, m_submit_old = False, m_g_work = sample_found, m_accepted = 0, m_rejected = 0,
     m_addresses = [], m_payout = \<lparr>p_script_size = 0, p_script = replicate 42 0\<rparr>, m_rand = [], m_rpc_user = [],
     m_stratum = session_start, m_net = \<lparr>n_ready = [], n_recv = [], n_send = [], n_conn = [], n_out = []\<rparr>,
     m_rpc = [\<lparr>r_val = None, r_err = 7, r_stratum = False\<rparr>], m_sent = [],
     m_queue = (\<lambda>_. []), m_frozen = (\<lambda>_. False), m_restart = (\<lambda>_. False)\<rparr>"

lemma submitblock_sends_block_witness:
  "\<exists>work' m'. submit_upstream_work (\<lambda>_. []) sample_found sample_miner = Done (False, work', m')
    \<and> m_sent m' = [''{\"method\": \"submitblock\", \"params\": [\"''
      @ bin2hex (bytes_of be32enc (take 20 (w_data sample_found)) @ w_rx_hash sample_found) 112 @ ''00'' @ ''\"], \"id\":1}'' @ CRLF]"
proof -
  have a: "\<not> stale sample_miner sample_found" "\<not> m_have_stratum sample_miner" "w_txs sample_found = Some ''00''"
    "w_workid sample_found = None" "length (w_data sample_found) = 32" "length (w_rx_hash sample_found) = 32"
    "m_rpc sample_miner = \<lparr>r_val = None, r_err = 7, r_stratum = False\<rparr> # []" "m_sent sample_miner = []"
    by (simp_all add: stale_def sample_miner_def sample_found_def work_zero_def)
  then obtain work' m' where s: "submit_upstream_work (\<lambda>_. []) sample_found sample_miner = Done (False, work', m')"
    by (simp add: submit_upstream_work_def json_rpc_def Let_def)
  from submitblock_sends_block [OF a(1-7) s] s a(8) show ?thesis by simp
qed

text \<open>C16: when the call that submits a block fails, the work has already been put into the block's byte
  order in place, so that the retry takes it for stale and reports success: the block is dropped
  after a single request, and no share is counted. A getwork submission is left as it is.\<close>

theorem submit_retry_discards:
  assumes "\<not> stale m work" "\<not> m_submit_old m" "\<not> m_have_stratum m" "m_rpc m = r # rs" "r_val r = None" "\<not> r_stratum r"
    and "length (w_data work) = 32" "map swab32 (take 8 (drop 1 (w_data work))) \<noteq> take 8 (drop 1 (w_data work))"
    and "\<not> gives_up retries 1"
  shows "(w_txs work \<noteq> None \<longrightarrow> (\<exists>m'. workio_submit_work dumps retries work m = Done (True, m')
        \<and> length (m_sent m') = length (m_sent m) + 1
        \<and> m_accepted m' = m_accepted m \<and> m_rejected m' = m_rejected m))
    \<and> (w_txs work = None \<longrightarrow> (\<exists>m'. submit_upstream_work dumps work m = Done (False, work, m')))"
proof (intro conjI impI)
  assume "w_txs work \<noteq> None"
  then obtain txs where txs: "w_txs work = Some txs" by blast
  define work1 where "work1 = work\<lparr>w_data := block_data work\<rparr>"
  obtain m1 where one: "submit_upstream_work dumps work m = Done (False, work1, m1)"
    and m1: "m_submit_old m1 = m_submit_old m" "m_g_work m1 = m_g_work m" "length (m_sent m1) = length (m_sent m) + 1"
      "m_accepted m1 = m_accepted m" "m_rejected m1 = m_rejected m"
    using assms txs by (simp add: submit_upstream_work_def json_rpc_def Let_def work1_def)
  have "take 8 (drop 1 (block_data work)) = map swab32 (take 8 (drop 1 (w_data work)))"
    using assms(7) by (simp add: block_data_def Let_def take_map drop_map drop_take)
  then have "stale m1 work1"
    using assms(1,2,8) m1(1,2) by (auto simp: stale_def work1_def)
  then have "submit_upstream_work dumps work1 m1 = Done (True, work1, m1)" by (simp add: submit_upstream_work_def)
  then have "submit_work_loop dumps retries 1 work1 m1 = Done (True, m1)" by (simp add: submit_work_loop.simps [of _ _ "Suc 0"])
  then have "workio_submit_work dumps retries work m = Done (True, m1)"
    using one assms(9) by (simp add: workio_submit_work_def submit_work_loop.simps [of _ _ 0])
  then show "\<exists>m'. workio_submit_work dumps retries work m = Done (True, m') \<and> length (m_sent m') = length (m_sent m) + 1
      \<and> m_accepted m' = m_accepted m \<and> m_rejected m' = m_rejected m"
    using m1 by blast
next
  assume "w_txs work = None"
  then show "\<exists>m'. submit_upstream_work dumps work m = Done (False, work, m')"
    using assms by (simp add: submit_upstream_work_def json_rpc_def Let_def)
qed

lemma submit_retry_discards_witness:
  "\<exists>m'. workio_submit_work (\<lambda>_. []) (- 1) sample_found sample_miner = Done (True, m') \<and> length (m_sent m') = 1"
proof -
  have a: "\<not> stale sample_miner sample_found" "\<not> m_submit_old sample_miner" "\<not> m_have_stratum sample_miner"
    "m_rpc sample_miner = \<lparr>r_val = None, r_err = 7, r_stratum = False\<rparr> # []" "length (w_data sample_found) = 32"
    "w_txs sample_found \<noteq> None" "m_sent sample_miner = []"
    by (simp_all add: stale_def sample_miner_def sample_found_def work_zero_def)
  have "swab32 2 \<noteq> 2" by code_simp
  then have "map swab32 (take 8 (drop 1 (w_data sample_found))) \<noteq> take 8 (drop 1 (w_data sample_found))"
    by (simp add: sample_found_def)
  moreover have "\<not> gives_up (- 1) 1" by (simp add: gives_up_def)
  ultimately show ?thesis
    using submit_retry_discards [OF a(1-4) _ _ a(5), of "- 1" "\<lambda>_. []"] a(6,7) by force
qed



end
