(* ===== verification/Miner.thy ===== *)
theory Miner
  imports WorkIO RandomxScan
begin

text \<open>
  The mining thread of \<open>cpu-miner.c\<close>: its share of the nonces, the choice of work, the bound of a
  scan, the set-up of the RandomX dataset and one pass of \<open>miner_thread\<close>. The RandomX library, the
  clock and the restart flag are parameters.
\<close>

section \<open>The nonces of a thread\<close>

definition first_nonce :: "nat \<Rightarrow> nat \<Rightarrow> u32" where
  "first_nonce opt_n_threads thr_id = 0xffffffff div of_nat opt_n_threads * of_nat thr_id"

definition end_nonce :: "nat \<Rightarrow> nat \<Rightarrow> u32" where
  "end_nonce opt_n_threads thr_id = 0xffffffff div of_nat opt_n_threads * of_nat (thr_id + 1) - 0x20"

section \<open>The choice of work\<close>

text \<open>\<open>memcmp\<close> over the first 76 bytes.\<close>

definition same_header :: "work \<Rightarrow> work \<Rightarrow> bool" where
  "same_header work g \<longleftrightarrow> take 19 (w_data work) = take 19 (w_data g)"

text \<open>New work starts at the thread's first nonce, the same work goes on.\<close>

definition take_work :: "nat \<Rightarrow> nat \<Rightarrow> work \<Rightarrow> work \<Rightarrow> work" where
  "take_work opt_n_threads thr_id g work =
     (if \<not> same_header work g then g\<lparr>w_data := (w_data g)[19 := first_nonce opt_n_threads thr_id]\<rparr>
      else work\<lparr>w_data := (w_data work)[19 := w_data work ! 19 + 1]\<rparr>)"

text \<open>Whether the thread asks for work when there is no Stratum.\<close>

definition wants_work :: "bool \<Rightarrow> int \<Rightarrow> int \<Rightarrow> int \<Rightarrow> nat \<Rightarrow> nat \<Rightarrow> work \<Rightarrow> bool" where
  "wants_work have_longpoll opt_scantime now g_work_time opt_n_threads thr_id work \<longleftrightarrow>
     (if have_longpoll then 60 else opt_scantime) \<le> now - g_work_time
     \<or> end_nonce opt_n_threads thr_id \<le> w_data work ! 19"

section \<open>The bound of a scan\<close>

text \<open>
  The number of nonces for the time left at the thread's rate; a product that does not fit 64 bits is
  undefined.
\<close>

definition scan_length :: "bool \<Rightarrow> bool \<Rightarrow> int \<Rightarrow> int \<Rightarrow> int \<Rightarrow> rat \<Rightarrow> int option \<Rightarrow> int option" where
  "scan_length have_stratum have_longpoll opt_scantime now g_work_time rate benchmark =
     (let max64 = (if have_stratum then 60
                   else g_work_time + (if have_longpoll then 60 else opt_scantime) - now);
          v = dbl (of_int max64 * rate);
          max64 = (if 0 \<le> v then \<lfloor>v\<rfloor> else \<lceil>v\<rceil>)
      in if max64 < - (2 ^ 63) \<or> 2 ^ 63 \<le> max64 then None
         else (let max64 = (if max64 \<le> 0 then 0x1fffff else max64)
               in Some (case benchmark of Some opt_nonces \<Rightarrow> opt_nonces | None \<Rightarrow> max64)))"

definition scan_bound :: "u32 \<Rightarrow> u32 \<Rightarrow> int \<Rightarrow> u32" where
  "scan_bound nonce end_n max64 = (if uint end_n < uint nonce + max64 then end_n else of_int (uint nonce + max64))"

section \<open>The dataset\<close>

text \<open>The parts of the dataset the initialising threads fill: a start and a count for each.\<close>

definition dataset_chunks :: "nat \<Rightarrow> nat \<Rightarrow> (nat \<times> nat) list" where
  "dataset_chunks datasetItemCount num_processors =
     (let itemChunkSize = datasetItemCount div num_processors
      in map (\<lambda>i. (i * itemChunkSize,
                   if i = num_processors - 1 then datasetItemCount - i * itemChunkSize else itemChunkSize))
           [0..<num_processors])"

text \<open>
  A machine of the library for a key, when it can be made. The dataset is made anew by the first
  thread that comes with another key than the current one; the thread's own machine then runs on it.
\<close>

record 'vm rx_lib =
  l_api :: "'vm randomx_api"
  l_machine :: "byte list \<Rightarrow> 'vm option"

record 'vm mthread =
  t_work :: work
  t_vm :: "'vm option"
  t_rate :: rat

definition setup_randomx :: "'vm rx_lib \<Rightarrow> byte list \<Rightarrow> 'vm mthread \<Rightarrow> (byte list \<times> 'vm mthread) option" where
  "setup_randomx lib rx_current_key t =
     (if rx_current_key \<noteq> w_seed_hash (t_work t)
      then (case l_machine lib (w_seed_hash (t_work t)) of
              None \<Rightarrow> None
            | Some vm \<Rightarrow> Some (w_seed_hash (t_work t), t\<lparr>t_vm := Some vm\<rparr>))
      else Some (rx_current_key, t))"

section \<open>One pass\<close>

record mine_cfg =
  k_threads :: nat
  k_id :: nat
  k_longpoll :: bool
  k_scantime :: int
  k_batch :: bool

text \<open>What a pass meets: the time when it looks at the clock, the answer to a request for work, the
  restart flag, and the seconds the scan takes.\<close>

record mine_input =
  i_now :: int
  i_answer :: "work option"
  i_restart :: "nat \<Rightarrow> bool"
  i_elapsed :: rat

record shared =
  g_work :: work
  g_work_time :: int
  g_key :: "byte list"
  g_stratum :: sctx
  g_have_stratum :: bool

text \<open>\<open>Waits\<close>: the pass sleeps or starts over; \<open>Leaves\<close>: the thread ends; \<open>Scanned\<close>: the work to submit, if
  a nonce was found.\<close>

datatype pass_end = Waits | Leaves | Scanned "work option"

definition fetch_work :: "mine_cfg \<Rightarrow> mine_input \<Rightarrow> 'vm mthread \<Rightarrow> shared \<Rightarrow> (bool option \<times> shared) option" where
  "fetch_work k i t g =
     (if g_have_stratum g
      then (if g_work_time g + 120 \<le> i_now i then Some (None, g)
            else if end_nonce (k_threads k) (k_id k) \<le> w_data (t_work t) ! 19 \<and> same_header (t_work t) (g_work g)
            then (case stratum_gen_work (g_stratum g) (g_work g) of
                    None \<Rightarrow> None
                  | Some (sctx, w) \<Rightarrow> Some (Some True, g\<lparr>g_stratum := sctx, g_work := w\<rparr>))
            else Some (Some True, g))
      else if wants_work (k_longpoll k) (k_scantime k) (i_now i) (g_work_time g) (k_threads k) (k_id k) (t_work t)
      then (case i_answer i of
              None \<Rightarrow> Some (Some False, g)
            | Some w \<Rightarrow> Some (Some True, g\<lparr>g_work := w, g_work_time := i_now i\<rparr>))
      else Some (Some True, g))"

definition scan :: "'vm rx_lib \<Rightarrow> mine_cfg \<Rightarrow> mine_input \<Rightarrow> 'vm mthread \<Rightarrow> 'vm \<Rightarrow> u32 \<Rightarrow> 'vm mthread \<times> bool" where
  "scan lib k i t vm max_nonce =
     (let work = t_work t;
          (vm, r) = (if k_batch k
                     then scanhash_randomx_batch (l_api lib) (i_restart i) (w_data work) (w_target work) max_nonce vm (w_rx_hash work)
                     else scanhash_randomx (l_api lib) (i_restart i) (w_data work) (w_target work) max_nonce vm (w_rx_hash work));
          rate = (if i_elapsed i = 0 then t_rate t else dbl (of_nat (unat (rx_hashes_done r)) / i_elapsed i))
      in (t\<lparr>t_work := work\<lparr>w_data := rx_pdata r, w_rx_hash := rx_out_hash r\<rparr>, t_vm := Some vm, t_rate := rate\<rparr>, rx_found r))"

text \<open>\<open>None\<close>: something undefined, or the process exits because the library has no memory.\<close>

definition miner_pass :: "'vm rx_lib \<Rightarrow> mine_cfg \<Rightarrow> mine_input \<Rightarrow> 'vm mthread \<Rightarrow> shared \<Rightarrow>
    (pass_end \<times> 'vm mthread \<times> shared) option" where
  "miner_pass lib k i t g =
     (case fetch_work k i t g of
        None \<Rightarrow> None
      | Some (None, g) \<Rightarrow> Some (Waits, t, g)
      | Some (Some False, g) \<Rightarrow> Some (Leaves, t, g)
      | Some (Some True, g) \<Rightarrow>
          (let t = t\<lparr>t_work := take_work (k_threads k) (k_id k) (g_work g) (t_work t)\<rparr>
           in case scan_length (g_have_stratum g) (k_longpoll k) (k_scantime k) (i_now i) (g_work_time g) (t_rate t) None of
                None \<Rightarrow> None
              | Some max64 \<Rightarrow>
                  (let max_nonce = scan_bound (w_data (t_work t) ! 19) (end_nonce (k_threads k) (k_id k)) max64
                   in case setup_randomx lib (g_key g) t of
                        None \<Rightarrow> None
                      | Some (key, t) \<Rightarrow>
                          (case t_vm t of
                             None \<Rightarrow> None
                           | Some vm \<Rightarrow>
                               (case scan lib k i t vm max_nonce of
                                  (t, found) \<Rightarrow>
                                    Some (Scanned (if found then Some (t_work t) else None), t, g\<lparr>g_key := key\<rparr>))))))"

section \<open>The shares of the threads\<close>

lemma share_bounds:
  assumes "0 < n" "n < 2 ^ 26" "i < n"
  defines "q \<equiv> 0xffffffff div n"
  shows "unat (first_nonce n i) = q * i" "unat (end_nonce n i) = q * (i + 1) - 32" "64 \<le> q"
proof -
  have n: "unat (of_nat n :: u32) = n" using assms(2) by (simp add: unsigned_of_nat take_bit_nat_eq_self)
  have i: "unat (of_nat i :: u32) = i" "unat (of_nat (i + 1) :: u32) = i + 1"
    using assms(2,3) by (simp_all only: unsigned_of_nat) (simp_all add: take_bit_nat_eq_self del: of_nat_Suc)
  have q: "unat (0xffffffff div of_nat n :: u32) = q" by (simp add: unat_div n q_def)
  have qn: "q * n \<le> 0xffffffff" unfolding q_def by (rule div_times_less_eq_dividend)
  have "q * (i + 1) \<le> q * n" using assms(3) by (intro mult_le_mono2) simp
  then have le: "q * (i + 1) \<le> 0xffffffff" using qn by simp
  then have "q * i < 2 ^ 32" by simp
  moreover have m: "unat (x * y) = unat x * unat y" if "unat x * unat y < 2 ^ 32" for x y :: u32
    using that unat_mult_lem [of x y] by simp
  ultimately show "unat (first_nonce n i) = q * i"
    unfolding first_nonce_def by (subst m) (simp_all only: q i)
  show q64: "64 \<le> q"
  proof -
    have "64 * n \<le> 0xffffffff" using assms(2) by simp
    then show ?thesis unfolding q_def using assms(1) by (simp add: less_eq_div_iff_mult_less_eq)
  qed
  have p: "unat (0xffffffff div of_nat n * of_nat (i + 1) :: u32) = q * (i + 1)"
    using le by (subst m) (simp_all only: q i, simp)
  have "32 \<le> q * (i + 1)" using q64 by simp
  then have "(0x20 :: u32) \<le> 0xffffffff div of_nat n * of_nat (i + 1)" unfolding word_le_nat_alt p by simp
  then show "unat (end_nonce n i) = q * (i + 1) - 32"
    unfolding end_nonce_def by (subst unat_sub) (simp_all only: p, simp)
qed



text \<open>The bound of a scan is never past the thread's last nonce, and is past the nonce it starts
  from unless the share is used up.\<close>

theorem scan_stays_in_share:
  assumes "0 < max64" "nonce \<le> end_n"
  shows "nonce \<le> scan_bound nonce end_n max64 \<and> scan_bound nonce end_n max64 \<le> end_n
    \<and> (nonce < end_n \<longrightarrow> nonce < scan_bound nonce end_n max64)"
proof (cases "uint end_n < uint nonce + max64")
  case True
  then show ?thesis using assms by (simp add: scan_bound_def)
next
  case False
  define v :: u32 where "v = of_int (uint nonce + max64)"
  have small: "uint (of_int k :: u32) = k" if "0 \<le> k" "k < 2 ^ 32" for k
    using that by (simp add: uint_word_of_int)
  have "uint end_n < 2 ^ 32" using uint_range_size [of end_n] by (simp add: word_size)
  then have "uint v = uint nonce + max64" unfolding v_def using False assms(1) by (intro small) simp_all
  moreover have "scan_bound nonce end_n max64 = v" using False by (simp add: scan_bound_def v_def)
  ultimately show ?thesis using False assms by (simp add: word_le_def word_less_def)
qed

lemma scan_stays_in_share_witness: "5 < scan_bound 5 100 1000 \<and> scan_bound 5 100 1000 \<le> 100"
  using scan_stays_in_share [of 1000 5 100] by simp

text \<open>The threads that initialise the dataset fill each of its items exactly once.\<close>

theorem dataset_chunks_partition:
  assumes "0 < num_processors"
  shows "concat (map (\<lambda>(s, c). [s..<s + c]) (dataset_chunks count num_processors)) = [0..<count]"
proof -
  define z where "z = count div num_processors"
  obtain m where m: "num_processors = Suc m" using assms by (cases num_processors) simp_all
  have zm: "m * z \<le> count" using div_times_less_eq_dividend [of count num_processors] by (simp add: z_def m algebra_simps)
  have pre: "concat (map (\<lambda>i. [i * z..<i * z + z]) [0..<k]) = [0..<k * z]" for k
  proof (induction k)
    case (Suc k)
    then show ?case using upt_add_eq_append [of 0 "k * z" z] by (simp add: add.commute)
  qed simp
  have "dataset_chunks count num_processors = map (\<lambda>i. (i * z, z)) [0..<m] @ [(m * z, count - m * z)]"
    unfolding dataset_chunks_def Let_def m by (simp flip: z_def [unfolded m])
  then show ?thesis
    using pre [of m] zm upt_add_eq_append [of 0 "m * z" "count - m * z"] by (simp add: comp_def)
qed

lemma dataset_chunks_partition_witness:
  "concat (map (\<lambda>(s, c). [s..<s + c]) (dataset_chunks 11 4)) = [0, 1, 2, 3, 4, 5, 6, 7, 8, 9, 10]"
  using dataset_chunks_partition [of 4 11] by (simp add: upt_rec)

section \<open>From the pass to the server\<close>

definition work_ok :: "work \<Rightarrow> bool" where
  "work_ok w \<longleftrightarrow> length (w_data w) = 32 \<and> length (w_target w) = 8 \<and> length (w_rx_hash w) = 32"

lemma rx_loop_pdata:
  "\<exists>x. rx_pdata (snd (rx_loop rx restart pdata ptarget max_nonce out hdr vm polls n)) = pdata[19 := x]"
proof (induction rx restart pdata ptarget max_nonce out hdr vm polls n rule: rx_loop.induct)
  case (1 rx restart pdata ptarget max_nonce out hdr vm polls n)
  obtain vm' h where c: "calculate_hash rx vm (rx_set_nonce hdr n) = (vm', h)" by (metis surj_pair)
  show ?case
    using 1 [OF refl c [symmetric] refl]
    by (subst rx_loop.simps) (auto simp: Let_def c rx_store_nonce_def)
qed

lemma rx_batch_loop_pdata:
  "\<exists>x. rx_pdata (snd (rx_batch_loop rx restart pdata ptarget max_nonce out hdr vm polls n)) = pdata[19 := x]"
proof (induction rx restart pdata ptarget max_nonce out hdr vm polls n rule: rx_batch_loop.induct)
  case (1 rx restart pdata ptarget max_nonce out hdr vm polls n)
  obtain vm' h where c: "hash_next rx vm (rx_set_nonce hdr (n + 1)) = (vm', h)" by (metis surj_pair)
  show ?case
    using 1 [OF _ refl c [symmetric] refl refl]
    by (subst rx_batch_loop.simps) (auto simp: Let_def c rx_store_nonce_def)
qed

lemma rx_loop_out:
  assumes "hash_contract rx H" "length out = 32"
  shows "length (rx_out_hash (snd (rx_loop rx restart pdata ptarget max_nonce out hdr vm polls n))) = 32"
  using assms
proof (induction rx restart pdata ptarget max_nonce out hdr vm polls n rule: rx_loop.induct)
  case (1 rx restart pdata ptarget max_nonce out hdr vm polls n)
  obtain vm' where c: "calculate_hash rx vm (rx_set_nonce hdr n) = (vm', H (rx_set_nonce hdr n))"
    using 1(2) by (metis hash_contract_def prod.collapse)
  have "length (memcpy_at out 0 (H (rx_set_nonce hdr n))) = 32"
    using 1(2,3) by (simp add: hash_contract_def memcpy_at_def)
  then show ?case
    using 1(1) [OF refl refl c [symmetric] refl _ refl] 1(2,3)
    by (subst rx_loop.simps) (auto simp: Let_def c)
qed

lemma scan_submittable:
  assumes lib: "hash_contract (l_api lib) H" "k_batch k \<Longrightarrow> batch_contract (l_api lib) H ready"
    and ok: "work_ok (t_work t)" and found: "scan lib k i t vm max_nonce = (t', True)"
  shows "work_ok (t_work t') \<and> w_target (t_work t') = w_target (t_work t) \<and> w_txs (t_work t') = w_txs (t_work t)
    \<and> (let hdr = rx_block_header (w_data (t_work t'))
       in w_rx_hash (t_work t') = H hdr
        \<and> words_val (words_of le32dec (commitment (l_api lib) hdr (w_rx_hash (t_work t')))) \<le> words_val (w_target (t_work t)))"
proof -
  define d tg out where "d = w_data (t_work t)" and "tg = w_target (t_work t)" and "out = w_rx_hash (t_work t)"
  have len: "length d = 32" "length tg = 8" "length out = 32" using ok by (simp_all add: work_ok_def d_def tg_def out_def)
  define r where "r = snd (if k_batch k then scanhash_randomx_batch (l_api lib) (i_restart i) d tg max_nonce vm out
      else scanhash_randomx (l_api lib) (i_restart i) d tg max_nonce vm out)"
  have r: "rx_found r" "t_work t' = (t_work t)\<lparr>w_data := rx_pdata r, w_rx_hash := rx_out_hash r\<rparr>"
    using found by (auto simp: scan_def Let_def r_def d_def tg_def out_def split: prod.splits if_splits)
  obtain restart vm' where plain: "r = snd (scanhash_randomx (l_api lib) restart d tg max_nonce vm' out)"
  proof (cases "k_batch k")
    case True
    have "d ! 19 < max_nonce \<and> \<not> i_restart i 0"
    proof (rule ccontr)
      assume "\<not> ?thesis"
      then have stop: "(d ! 19 < max_nonce \<and> \<not> i_restart i 0) = False" by blast
      have "\<not> rx_found r"
        unfolding r_def using True
        by (simp add: scanhash_randomx_batch_def Let_def rx_batch_loop.simps [of _ _ _ _ _ _ _ _ 0] stop del: de_Morgan_conj)
      then show False using r(1) by simp
    qed
    moreover have "i_restart i = case_nat False (\<lambda>n. i_restart i (Suc n))"
      using calculation by (auto simp: fun_eq_iff split: nat.split)
    ultimately have "r = snd (scanhash_randomx (l_api lib) (\<lambda>n. i_restart i (Suc n)) d tg max_nonce vm out)"
      using scanhash_randomx_batch_eq [OF lib(1) lib(2) [OF True], of d max_nonce "\<lambda>n. i_restart i (Suc n)" tg vm out vm]
        True len by (simp add: r_def)
    then show thesis by (rule that)
  next
    case False
    then show thesis using that by (simp add: r_def)
  qed
  have "rx_submittable (l_api lib) H tg r"
    unfolding plain scanhash_randomx_def
    by (rule rx_loop_submittable [OF lib(1)])
      (use len r(1) plain in \<open>simp_all add: rx_header_at_def scanhash_randomx_def\<close>)
  moreover have "length (rx_pdata r) = 32"
    using rx_loop_pdata [of "l_api lib" restart d tg max_nonce out "rx_block_header d" vm' 0 "d ! 19"] len
    by (auto simp: plain scanhash_randomx_def)
  moreover have "length (rx_out_hash r) = 32"
    unfolding plain scanhash_randomx_def using lib(1) len(3) by (rule rx_loop_out)
  ultimately show ?thesis
    using ok r(2) by (auto simp: work_ok_def rx_submittable_def Let_def tg_def)
qed


definition slice_lib :: "byte list rx_lib" where
  "slice_lib = \<lparr>l_api = slice_api, l_machine = (\<lambda>key. Some key)\<rparr>"

definition sample_template_work :: work where
  "sample_template_work = work_zero\<lparr>w_txs := Some ''00'', w_target := replicate 8 0xffffffff, w_data := 4 # replicate 31 2\<rparr>"

definition sample_cfg1 :: mine_cfg where
  "sample_cfg1 = \<lparr>k_threads = 1, k_id = 0, k_longpoll = False, k_scantime = 5, k_batch = False\<rparr>"

definition sample_input :: mine_input where
  "sample_input = \<lparr>i_now = 0, i_answer = None, i_restart = (\<lambda>_. True), i_elapsed = 0\<rparr>"

definition sample_thread :: "byte list mthread" where
  "sample_thread = \<lparr>t_work = work_zero, t_vm = None, t_rate = 0\<rparr>"

definition sample_shared :: shared where
  "sample_shared = \<lparr>g_work = sample_template_work, g_work_time = 0, g_key = [], g_stratum = session_start, g_have_stratum = False\<rparr>"

lemma sample_found:
  "rx_found (snd (scanhash_randomx slice_api (\<lambda>_. True) ((4 # replicate 31 2)[19 := 0]) (replicate 8 0xffffffff)
      0x1fffff (replicate 32 0) (replicate 32 0)))"
  by code_simp

lemma sample_pass:
  "\<exists>w t' g'. miner_pass slice_lib sample_cfg1 sample_input sample_thread sample_shared
    = Some (Scanned (Some w), t', g') \<and> w_txs w = Some ''00'' \<and> w_workid w = None"
proof -
  define work where "work = sample_template_work\<lparr>w_data := (4 # replicate 31 2)[19 := 0]\<rparr>"
  have differ: "replicate 19 (0 :: u32) \<noteq> 4 # replicate 18 2" by (simp add: numeral_eq_Suc)
  have tw: "take_work 1 0 sample_template_work work_zero = work"
    using differ by (simp add: take_work_def same_header_def sample_template_work_def work_zero_def work_def first_nonce_def)
  obtain vm r where r: "scanhash_randomx slice_api (\<lambda>_. True) (w_data work) (w_target work) 0x1fffff (replicate 32 0) (replicate 32 0) = (vm, r)"
    "rx_found r"
    using sample_found by (simp add: work_def sample_template_work_def) (metis prod.collapse)
  have f: "fetch_work sample_cfg1 sample_input sample_thread sample_shared = Some (Some True, sample_shared)"
    by (simp add: fetch_work_def sample_cfg1_def sample_input_def sample_thread_def sample_shared_def wants_work_def
        end_nonce_def work_zero_def word_le_nat_alt)
  have len: "scan_length False False 5 0 0 0 None = Some 0x1fffff"
    by (simp add: scan_length_def dbl_def Let_def)
  have bound: "scan_bound (w_data work ! 19) (end_nonce 1 0) 0x1fffff = 0x1fffff"
    by (simp add: scan_bound_def end_nonce_def work_def sample_template_work_def)
  have seed: "w_seed_hash work = replicate 32 0" "w_rx_hash work = replicate 32 0" "w_txs work = Some ''00''" "w_workid work = None"
    by (simp_all add: work_def sample_template_work_def work_zero_def)
  show ?thesis
    using f tw len bound seed r
    by (simp add: miner_pass_def sample_cfg1_def sample_input_def sample_thread_def sample_shared_def setup_randomx_def
        slice_lib_def scan_def Let_def)
qed


end
