(* ===== verification/Dataset.thy ===== *)
theory Dataset
  imports Prelude
begin

text \<open>
  The RandomX dataset the mining threads share (\<open>miner_thread\<close> of \<open>cpu-miner.c\<close>): how they agree to make a new one when the key
  changes, and how the last of them releases it. A stage of a thread is a place between two atomic parts of the code: a part that runs under a mutex,
  the arrival at the barrier, an access to a shared variable. That a barrier lets its threads go when all of them have arrived is the theorem
  of \<open>Barrier\<close>. The cache from which a dataset is computed lives only while it is made, under the mutex, and is left out, as is the
  message to the work I/O thread, which is sent when \<open>fCleanup\<close> is set. Work with another key is taken to have another header, so that
  a thread that takes work takes its key.
\<close>

section \<open>Threads and the dataset\<close>

type_synonym seed = "byte list"

datatype stage = Taking | Checking | Flagging | Arriving | Waiting | Passed | Locking | Making | Scanning
  | Leaving | Out_waiting | Out_passed | Gone

text \<open>A thread with the key of its work and the dataset its machine runs on.\<close>

record dthread =
  dt_stage :: stage
  dt_seed :: seed
  dt_vm :: "nat option"

text \<open>
  Datasets have numbers: \<open>ds_made\<close> has the key of each that was made, \<open>ds_freed\<close> those released. \<open>ds_work\<close> is the key of the work the server
  gives, \<open>ds_key\<close> is \<open>rx_current_key\<close>, \<open>ds_create\<close> and \<open>ds_cleanup\<close> are the static flags.
\<close>

record dstate =
  ds_threads :: "dthread list"
  ds_work :: seed
  ds_key :: seed
  ds_create :: bool
  ds_cleanup :: bool
  ds_dataset :: "nat option"
  ds_made :: "seed list"
  ds_freed :: "nat list"

definition no_key :: seed where
  "no_key = replicate 32 0"

definition mining_start :: "nat \<Rightarrow> seed \<Rightarrow> dstate" where
  "mining_start n k =
     \<lparr>ds_threads = replicate n \<lparr>dt_stage = Taking, dt_seed = no_key, dt_vm = None\<rparr>, ds_work = k, ds_key = no_key,
      ds_create = False, ds_cleanup = False, ds_dataset = None, ds_made = [], ds_freed = []\<rparr>"

definition to_thread :: "nat \<Rightarrow> (dthread \<Rightarrow> dthread) \<Rightarrow> dstate \<Rightarrow> dstate" where
  "to_thread t f s = s\<lparr>ds_threads := (ds_threads s)[t := f (ds_threads s ! t)]\<rparr>"

definition to_stage :: "nat \<Rightarrow> stage \<Rightarrow> dstate \<Rightarrow> dstate" where
  "to_stage t st = to_thread t (\<lambda>x. x\<lparr>dt_stage := st\<rparr>)"

text \<open>Arriving at the barrier: the last thread lets all go.\<close>

definition past_barrier :: "dthread \<Rightarrow> dthread" where
  "past_barrier x = x\<lparr>dt_stage := (if dt_stage x = Waiting then Passed else Out_passed)\<rparr>"

definition arrive_at :: "nat \<Rightarrow> stage \<Rightarrow> dstate \<Rightarrow> dstate" where
  "arrive_at t st s =
     (let s = to_stage t st s
      in if \<forall>x \<in> set (ds_threads s). dt_stage x = Waiting \<or> dt_stage x = Out_waiting
         then s\<lparr>ds_threads := map past_barrier (ds_threads s)\<rparr> else s)"

definition release_dataset :: "dstate \<Rightarrow> dstate" where
  "release_dataset s = (case ds_dataset s of None \<Rightarrow> s | Some d \<Rightarrow> s\<lparr>ds_dataset := None, ds_freed := d # ds_freed s\<rparr>)"

definition make_dataset :: "seed \<Rightarrow> dstate \<Rightarrow> dstate" where
  "make_dataset k s =
     (let s = release_dataset s
      in s\<lparr>ds_create := False, ds_key := k, ds_dataset := Some (length (ds_made s)), ds_made := ds_made s @ [k]\<rparr>)"

text \<open>The next part of a thread, if it can go on: it sleeps at the barrier, and the program ends when there is no dataset to make a machine for.\<close>

definition thread_step :: "nat \<Rightarrow> dstate \<Rightarrow> dstate option" where
  "thread_step t s =
     (let x = ds_threads s ! t in
      case dt_stage x of
        Taking \<Rightarrow> Some (to_thread t (\<lambda>x. x\<lparr>dt_seed := ds_work s, dt_stage := Checking\<rparr>) s)
      | Checking \<Rightarrow> Some (to_stage t (if ds_key s = dt_seed x then Scanning else Flagging) s)
      | Flagging \<Rightarrow> Some (to_stage t Arriving (s\<lparr>ds_create := True\<rparr>))
      | Arriving \<Rightarrow> Some (arrive_at t Waiting s)
      | Waiting \<Rightarrow> None
      | Passed \<Rightarrow> Some (to_thread t (\<lambda>x. x\<lparr>dt_vm := None, dt_stage := Locking\<rparr>) s)
      | Locking \<Rightarrow> Some (to_stage t Making (if ds_create s then make_dataset (dt_seed x) s else s))
      | Making \<Rightarrow> (case ds_dataset s of None \<Rightarrow> None | Some d \<Rightarrow> Some (to_thread t (\<lambda>x. x\<lparr>dt_vm := Some d, dt_stage := Scanning\<rparr>) s))
      | Scanning \<Rightarrow> Some (to_stage t Taking s)
      | Leaving \<Rightarrow> Some (arrive_at t Out_waiting s)
      | Out_waiting \<Rightarrow> None
      | Out_passed \<Rightarrow> Some (to_thread t (\<lambda>x. x\<lparr>dt_vm := None, dt_stage := Gone\<rparr>)
          (if ds_cleanup s then s else (release_dataset s)\<lparr>ds_cleanup := True\<rparr>))
      | Gone \<Rightarrow> None)"

text \<open>
  What can happen: a thread takes a step, or leaves its loop because it gets no work, cannot submit, or has ended its benchmark; the server gives work with
  another key.
\<close>

datatype devent = Step nat | Quit nat | New_work seed

definition dstep :: "devent \<Rightarrow> dstate \<Rightarrow> dstate option" where
  "dstep ev s =
     (case ev of
        Step t \<Rightarrow> if t < length (ds_threads s) then thread_step t s else None
      | Quit t \<Rightarrow> if t < length (ds_threads s) \<and> dt_stage (ds_threads s ! t) \<in> {Taking, Scanning} then Some (to_stage t Leaving s) else None
      | New_work k \<Rightarrow> Some (s\<lparr>ds_work := k\<rparr>))"

fun dsteps :: "devent list \<Rightarrow> dstate \<Rightarrow> dstate option" where
  "dsteps [] s = Some s"
| "dsteps (ev # evs) s = (case dstep ev s of None \<Rightarrow> None | Some s \<Rightarrow> dsteps evs s)"

section \<open>When it is safe\<close>

text \<open>A thread scans on a dataset that is there and was made for the key of its work, and no dataset is released twice.\<close>

definition datasets_safe :: "dstate \<Rightarrow> bool" where
  "datasets_safe s \<longleftrightarrow> distinct (ds_freed s)
     \<and> (\<forall>x \<in> set (ds_threads s). dt_stage x = Scanning \<longrightarrow>
          (case dt_vm x of None \<Rightarrow> False | Some d \<Rightarrow> d \<notin> set (ds_freed s) \<and> d < length (ds_made s) \<and> ds_made s ! d = dt_seed x))"

text \<open>
  Every thread mines with the current key. New keys come only then, and never are all zero, as the current key is at first; threads leave only when
  every thread has the work of the current key.
\<close>

definition settled :: "dstate \<Rightarrow> bool" where
  "settled s \<longleftrightarrow> ds_key s = ds_work s \<and> (\<forall>x \<in> set (ds_threads s). dt_seed x = ds_work s \<and> dt_stage x \<in> {Taking, Checking, Scanning})"

definition careful :: "devent \<Rightarrow> dstate \<Rightarrow> bool" where
  "careful ev s =
     (case ev of
        Step t \<Rightarrow> True
      | Quit t \<Rightarrow> ds_key s = ds_work s \<and> (\<forall>x \<in> set (ds_threads s). dt_seed x = ds_work s)
      | New_work k \<Rightarrow> k \<noteq> no_key \<and> settled s)"

inductive careful_run :: "nat \<Rightarrow> dstate \<Rightarrow> bool" for n where
  start: "k \<noteq> no_key \<Longrightarrow> careful_run n (mining_start n k)"
| step: "careful_run n s \<Longrightarrow> careful ev s \<Longrightarrow> dstep ev s = Some s' \<Longrightarrow> careful_run n s'"

text \<open>
  The phases: some threads have seen a new key and gather at the barrier; all have passed it; the new dataset is there; all are leaving.
\<close>

definition gathering :: "dstate \<Rightarrow> bool" where
  "gathering s \<longleftrightarrow> ds_key s \<noteq> ds_work s \<and> \<not> ds_cleanup s
     \<and> (\<forall>x \<in> set (ds_threads s).
          dt_stage x = Taking
          \<or> dt_stage x \<in> {Checking, Scanning} \<and> dt_seed x = ds_key s
              \<and> (\<exists>d. dt_vm x = Some d \<and> ds_dataset s = Some d \<and> ds_made s ! d = ds_key s)
          \<or> dt_stage x \<in> {Checking, Flagging, Arriving, Waiting} \<and> dt_seed x = ds_work s)
     \<and> ((\<exists>x \<in> set (ds_threads s). dt_stage x \<in> {Arriving, Waiting}) \<longrightarrow> ds_create s)"

definition building :: "dstate \<Rightarrow> bool" where
  "building s \<longleftrightarrow> ds_key s \<noteq> ds_work s \<and> \<not> ds_cleanup s \<and> ds_create s
     \<and> (\<forall>x \<in> set (ds_threads s). dt_stage x \<in> {Passed, Locking} \<and> dt_seed x = ds_work s)"

definition mining :: "dstate \<Rightarrow> bool" where
  "mining s \<longleftrightarrow> ds_key s = ds_work s \<and> \<not> ds_cleanup s \<and> \<not> ds_create s
     \<and> (\<exists>d. ds_dataset s = Some d \<and> ds_made s ! d = ds_key s
          \<and> (\<forall>x \<in> set (ds_threads s). dt_seed x = ds_work s
               \<and> (dt_stage x \<in> {Passed, Locking, Making, Leaving, Out_waiting}
                  \<or> dt_stage x \<in> {Taking, Checking, Scanning} \<and> dt_vm x = Some d)))"

definition closing :: "dstate \<Rightarrow> bool" where
  "closing s \<longleftrightarrow> (\<forall>x \<in> set (ds_threads s). dt_stage x \<in> {Out_passed, Gone})
     \<and> ((\<exists>x \<in> set (ds_threads s). dt_stage x = Gone) \<longrightarrow> ds_cleanup s) \<and> (ds_cleanup s \<longrightarrow> ds_dataset s = None)"

definition datasets_ok :: "dstate \<Rightarrow> bool" where
  "datasets_ok s \<longleftrightarrow> distinct (ds_freed s) \<and> set_option (ds_dataset s) \<inter> set (ds_freed s) = {}
     \<and> set_option (ds_dataset s) \<union> set (ds_freed s) = {..<length (ds_made s)}"

definition phases :: "dstate \<Rightarrow> bool" where
  "phases s \<longleftrightarrow> datasets_ok s \<and> ds_work s \<noteq> no_key \<and> (gathering s \<or> building s \<or> mining s \<or> closing s)"

lemma phases_safe: "phases s \<Longrightarrow> datasets_safe s"
proof -
  assume p: "phases s"
  have ok: "distinct (ds_freed s)" "\<And>d. ds_dataset s = Some d \<Longrightarrow> d \<notin> set (ds_freed s) \<and> d < length (ds_made s)"
    using p by (auto simp: phases_def datasets_ok_def)
  have "case dt_vm x of None \<Rightarrow> False | Some d \<Rightarrow> d \<notin> set (ds_freed s) \<and> d < length (ds_made s) \<and> ds_made s ! d = dt_seed x"
    if x: "x \<in> set (ds_threads s)" "dt_stage x = Scanning" for x
    using p x ok(2) by (fastforce simp: phases_def gathering_def building_def mining_def closing_def)
  then show ?thesis using ok(1) by (simp add: datasets_safe_def)
qed

lemma to_thread_simps [simp]:
  "ds_work (to_thread t f s) = ds_work s" "ds_key (to_thread t f s) = ds_key s" "ds_create (to_thread t f s) = ds_create s"
  "ds_cleanup (to_thread t f s) = ds_cleanup s" "ds_dataset (to_thread t f s) = ds_dataset s" "ds_made (to_thread t f s) = ds_made s"
  "ds_freed (to_thread t f s) = ds_freed s"
  by (simp_all add: to_thread_def)

lemma to_thread_all:
  assumes "\<forall>x \<in> set (ds_threads s). P x" "t < length (ds_threads s)" "P (ds_threads s ! t) \<Longrightarrow> P (f (ds_threads s ! t))"
  shows "\<forall>x \<in> set (ds_threads (to_thread t f s)). P x"
  using assms by (auto simp: to_thread_def dest!: set_update_subset_insert [THEN subsetD])

lemma datasets_ok_cong:
  "ds_dataset s' = ds_dataset s \<Longrightarrow> ds_made s' = ds_made s \<Longrightarrow> ds_freed s' = ds_freed s \<Longrightarrow> datasets_ok s' = datasets_ok s"
  by (simp add: datasets_ok_def)

lemma in_to_thread: "x \<in> set (ds_threads (to_thread t f s)) \<Longrightarrow> x = f (ds_threads s ! t) \<or> x \<in> set (ds_threads s)"
  by (auto simp: to_thread_def dest!: set_update_subset_insert [THEN subsetD])

lemma threads_create [simp]: "ds_threads (s\<lparr>ds_create := b\<rparr>) = ds_threads s"
  by simp

text \<open>What a thread may be in each phase.\<close>

definition gatherer :: "dstate \<Rightarrow> dthread \<Rightarrow> bool" where
  "gatherer s x \<longleftrightarrow> dt_stage x = Taking
     \<or> dt_stage x \<in> {Checking, Scanning} \<and> dt_seed x = ds_key s \<and> (\<exists>d. dt_vm x = Some d \<and> ds_dataset s = Some d \<and> ds_made s ! d = ds_key s)
     \<or> dt_stage x \<in> {Checking, Flagging, Arriving, Waiting} \<and> dt_seed x = ds_work s"

lemma gathering_alt: "gathering s \<longleftrightarrow> ds_key s \<noteq> ds_work s \<and> \<not> ds_cleanup s \<and> (\<forall>x \<in> set (ds_threads s). gatherer s x)
    \<and> ((\<exists>x \<in> set (ds_threads s). dt_stage x \<in> {Arriving, Waiting}) \<longrightarrow> ds_create s)"
  by (simp add: gathering_def gatherer_def)

lemma gatherer_cong: "ds_key s' = ds_key s \<Longrightarrow> ds_work s' = ds_work s \<Longrightarrow> ds_dataset s' = ds_dataset s \<Longrightarrow> ds_made s' = ds_made s \<Longrightarrow> gatherer s' = gatherer s"
  by (simp add: gatherer_def fun_eq_iff)

lemma gathering_move:
  assumes "gathering s" "gatherer s (f (ds_threads s ! t))" "dt_stage (f (ds_threads s ! t)) \<in> {Arriving, Waiting} \<Longrightarrow> ds_create s"
  shows "gathering (to_thread t f s)"
proof -
  have g: "gatherer (to_thread t f s) = gatherer s" by (rule gatherer_cong) simp_all
  have "gatherer s x \<and> (dt_stage x \<in> {Arriving, Waiting} \<longrightarrow> ds_create s)" if "x \<in> set (ds_threads (to_thread t f s))" for x
    using in_to_thread [OF that] assms by (auto simp: gathering_alt)
  then show ?thesis using assms(1) unfolding gathering_alt g by auto
qed

lemma gathering_step:
  assumes s: "gathering s" and t: "t < length (ds_threads s)" and st: "thread_step t s = Some s'"
  shows "(gathering s' \<or> building s') \<and> ds_dataset s' = ds_dataset s \<and> ds_made s' = ds_made s \<and> ds_freed s' = ds_freed s \<and> ds_work s' = ds_work s"
proof -
  define x where "x = ds_threads s ! t"
  have x: "gatherer s x" and fl: "dt_stage x \<in> {Arriving, Waiting} \<Longrightarrow> ds_create s" and ne: "ds_key s \<noteq> ds_work s"
    using s t by (auto simp: gathering_alt x_def)
  note st = st [unfolded thread_step_def Let_def, folded x_def]
  have "dt_stage x \<in> {Taking, Checking, Scanning, Flagging, Arriving, Waiting}" using x by (auto simp: gatherer_def)
  then consider "dt_stage x = Taking" | "dt_stage x = Checking" | "dt_stage x = Scanning" | "dt_stage x = Flagging"
    | "dt_stage x = Arriving" | "dt_stage x = Waiting" by auto
  then show ?thesis
  proof cases
    case 1
    then have s': "s' = to_thread t (\<lambda>x. x\<lparr>dt_seed := ds_work s, dt_stage := Checking\<rparr>) s" using st by simp
    have "gathering s'" unfolding s' by (rule gathering_move [OF s]) (simp_all add: gatherer_def)
    then show ?thesis by (simp add: s')
  next
    case 2
    then have s': "s' = to_thread t (\<lambda>x. x\<lparr>dt_stage := (if ds_key s = dt_seed (ds_threads s ! t) then Scanning else Flagging)\<rparr>) s"
      using st by (simp add: to_stage_def x_def)
    have "gathering s'"
      unfolding s'
    proof (rule gathering_move [OF s])
      show "gatherer s ((ds_threads s ! t)\<lparr>dt_stage := if ds_key s = dt_seed (ds_threads s ! t) then Scanning else Flagging\<rparr>)"
        using x 2 ne unfolding x_def by (cases "ds_key s = dt_seed (ds_threads s ! t)") (simp_all add: gatherer_def)
    qed (simp split: if_splits)
    then show ?thesis by (simp add: s')
  next
    case 3
    then have s': "s' = to_thread t (\<lambda>x. x\<lparr>dt_stage := Taking\<rparr>) s" using st by (simp add: to_stage_def)
    have "gathering s'" unfolding s' by (rule gathering_move [OF s]) (simp_all add: gatherer_def)
    then show ?thesis by (simp add: s')
  next
    case 4
    then have s': "s' = to_thread t (\<lambda>x. x\<lparr>dt_stage := Arriving\<rparr>) (s\<lparr>ds_create := True\<rparr>)" using st by (simp add: to_stage_def)
    have "gathering (s\<lparr>ds_create := True\<rparr>)" using s by (simp add: gathering_def)
    then have "gathering s'" unfolding s' by (rule gathering_move) (use x 4 in \<open>auto simp: gatherer_def x_def\<close>)
    then show ?thesis by (simp add: s')
  next
    case 5
    define s1 where "s1 = to_thread t (\<lambda>x. x\<lparr>dt_stage := Waiting\<rparr>) s"
    have cr: "ds_create s" using fl 5 by simp
    have g1: "gathering s1" unfolding s1_def by (rule gathering_move [OF s]) (use x 5 cr in \<open>auto simp: gatherer_def x_def\<close>)
    have st': "s' = (if \<forall>x \<in> set (ds_threads s1). dt_stage x = Waiting \<or> dt_stage x = Out_waiting
        then s1\<lparr>ds_threads := map past_barrier (ds_threads s1)\<rparr> else s1)"
      using st 5 by (simp add: arrive_at_def to_stage_def Let_def flip: s1_def)
    show ?thesis
    proof (cases "\<forall>x \<in> set (ds_threads s1). dt_stage x = Waiting \<or> dt_stage x = Out_waiting")
      case True
      then have "dt_stage x = Waiting \<and> dt_seed x = ds_work s" if "x \<in> set (ds_threads s1)" for x
        using g1 that by (fastforce simp: gathering_alt gatherer_def s1_def)
      then have "building s'" using st' True g1 cr by (auto simp: building_def gathering_alt past_barrier_def s1_def)
      then show ?thesis using st' by (simp add: s1_def)
    next
      case False
      have "s' = s1" unfolding st' by (rule if_not_P [OF False])
      then show ?thesis using g1 by (simp add: s1_def)
    qed
  next
    case 6
    then show ?thesis using st by simp
  qed
qed

lemma release_datasets_ok:
  assumes "datasets_ok s"
  shows "datasets_ok (release_dataset s)" "ds_dataset (release_dataset s) = None" "ds_made (release_dataset s) = ds_made s"
    "ds_threads (release_dataset s) = ds_threads s" "ds_work (release_dataset s) = ds_work s"
    "ds_key (release_dataset s) = ds_key s" "ds_cleanup (release_dataset s) = ds_cleanup s" "ds_create (release_dataset s) = ds_create s"
proof -
  show "datasets_ok (release_dataset s)"
  proof (cases "ds_dataset s")
    case (Some d)
    then have "d \<notin> set (ds_freed s)" using assms by (simp add: datasets_ok_def)
    then show ?thesis using assms Some by (simp add: release_dataset_def datasets_ok_def)
  qed (use assms in \<open>simp add: release_dataset_def\<close>)
qed (simp_all add: release_dataset_def split: option.split)

lemma make_datasets_ok:
  assumes "datasets_ok s"
  shows "datasets_ok (make_dataset k s)" "ds_dataset (make_dataset k s) = Some (length (ds_made s))" "ds_made (make_dataset k s) = ds_made s @ [k]"
    "ds_threads (make_dataset k s) = ds_threads s" "ds_work (make_dataset k s) = ds_work s" "ds_key (make_dataset k s) = k"
    "ds_cleanup (make_dataset k s) = ds_cleanup s" "\<not> ds_create (make_dataset k s)"
proof -
  note r = release_datasets_ok [OF assms]
  show "datasets_ok (make_dataset k s)"
  proof -
    have "distinct (ds_freed (release_dataset s))" "set (ds_freed (release_dataset s)) = {..<length (ds_made s)}"
      using r(1-3) by (simp_all add: datasets_ok_def)
    then show ?thesis using r(3) by (simp add: make_dataset_def Let_def datasets_ok_def lessThan_Suc)
  qed
qed (simp_all add: make_dataset_def Let_def release_datasets_ok [OF assms])

lemma building_step:
  assumes s: "building s" and t: "t < length (ds_threads s)" and st: "thread_step t s = Some s'" and ok: "datasets_ok s"
  shows "(building s' \<or> mining s') \<and> datasets_ok s' \<and> ds_work s' = ds_work s"
proof -
  define x where "x = ds_threads s ! t"
  have x: "dt_stage x \<in> {Passed, Locking}" "dt_seed x = ds_work s" using s t by (simp_all add: building_def x_def)
  note st = st [unfolded thread_step_def Let_def, folded x_def]
  show ?thesis
  proof (cases "dt_stage x = Passed")
    case True
    then have s': "s' = to_thread t (\<lambda>x. x\<lparr>dt_vm := None, dt_stage := Locking\<rparr>) s" using st by simp
    have "building s'" using s x unfolding s' building_def by (auto dest!: in_to_thread simp: x_def)
    then show ?thesis using ok datasets_ok_cong [of s' s] by (simp add: s')
  next
    case False
    then have lk: "dt_stage x = Locking" using x(1) by simp
    define m where "m = make_dataset (ds_work s) s"
    note mk = make_datasets_ok [OF ok, of "ds_work s", folded m_def]
    have s': "s' = to_thread t (\<lambda>x. x\<lparr>dt_stage := Making\<rparr>) m"
      using st lk s x(2) by (simp add: to_stage_def building_def m_def)
    have "mining s'"
      using s x mk unfolding s' mining_def building_def by (auto dest!: in_to_thread simp: x_def nth_append)
    then show ?thesis using mk(1,5) datasets_ok_cong [of s' m] by (simp add: s')
  qed
qed

lemma mining_step:
  assumes s: "mining s" and t: "t < length (ds_threads s)" and st: "thread_step t s = Some s'"
  shows "(mining s' \<or> closing s') \<and> ds_dataset s' = ds_dataset s \<and> ds_made s' = ds_made s \<and> ds_freed s' = ds_freed s \<and> ds_work s' = ds_work s"
proof -
  define x where "x = ds_threads s ! t"
  obtain d where d: "ds_dataset s = Some d" "ds_made s ! d = ds_key s" "ds_key s = ds_work s" "\<not> ds_cleanup s" "\<not> ds_create s"
    and all: "\<And>x. x \<in> set (ds_threads s) \<Longrightarrow> dt_seed x = ds_work s
               \<and> (dt_stage x \<in> {Passed, Locking, Making, Leaving, Out_waiting} \<or> dt_stage x \<in> {Taking, Checking, Scanning} \<and> dt_vm x = Some d)"
    using s unfolding mining_def by blast
  have x: "dt_seed x = ds_work s" "dt_stage x \<in> {Passed, Locking, Making, Leaving, Out_waiting} \<or> dt_stage x \<in> {Taking, Checking, Scanning} \<and> dt_vm x = Some d"
    using all [of x] t by (simp_all add: x_def)
  note st = st [unfolded thread_step_def Let_def, folded x_def]
  have move: "mining (to_thread t f s)" if "dt_seed (f x) = ds_work s"
    "dt_stage (f x) \<in> {Passed, Locking, Making, Leaving, Out_waiting} \<or> dt_stage (f x) \<in> {Taking, Checking, Scanning} \<and> dt_vm (f x) = Some d" for f
    unfolding mining_def using that d all by (auto dest!: in_to_thread simp: x_def)
  consider "dt_stage x = Taking" | "dt_stage x = Checking" | "dt_stage x = Scanning" | "dt_stage x = Passed" | "dt_stage x = Locking" | "dt_stage x = Making"
    | "dt_stage x = Leaving" | "dt_stage x = Out_waiting" using x(2) by auto
  then show ?thesis
  proof cases
    case 1
    then have s': "s' = to_thread t (\<lambda>x. x\<lparr>dt_seed := ds_work s, dt_stage := Checking\<rparr>) s" using st by simp
    show ?thesis unfolding s' using move x 1 by simp
  next
    case 2
    then have s': "s' = to_thread t (\<lambda>x. x\<lparr>dt_stage := Scanning\<rparr>) s" using st x(1) d(3) by (simp add: to_stage_def)
    show ?thesis unfolding s' using move x 2 by simp
  next
    case 3
    then have s': "s' = to_thread t (\<lambda>x. x\<lparr>dt_stage := Taking\<rparr>) s" using st by (simp add: to_stage_def)
    show ?thesis unfolding s' using move x 3 by simp
  next
    case 4
    then have s': "s' = to_thread t (\<lambda>x. x\<lparr>dt_vm := None, dt_stage := Locking\<rparr>) s" using st by simp
    show ?thesis unfolding s' using move x by simp
  next
    case 5
    then have s': "s' = to_thread t (\<lambda>x. x\<lparr>dt_stage := Making\<rparr>) s" using st d(5) by (simp add: to_stage_def)
    show ?thesis unfolding s' using move x by simp
  next
    case 6
    then have s': "s' = to_thread t (\<lambda>x. x\<lparr>dt_vm := Some d, dt_stage := Scanning\<rparr>) s" using st d(1) by simp
    show ?thesis unfolding s' using move x by simp
  next
    case 7
    define s1 where "s1 = to_thread t (\<lambda>x. x\<lparr>dt_stage := Out_waiting\<rparr>) s"
    have m1: "mining s1" unfolding s1_def using move x by simp
    have st': "s' = (if \<forall>x \<in> set (ds_threads s1). dt_stage x = Waiting \<or> dt_stage x = Out_waiting
        then s1\<lparr>ds_threads := map past_barrier (ds_threads s1)\<rparr> else s1)"
      using st 7 by (simp add: arrive_at_def to_stage_def Let_def flip: s1_def)
    show ?thesis
    proof (cases "\<forall>x \<in> set (ds_threads s1). dt_stage x = Waiting \<or> dt_stage x = Out_waiting")
      case True
      then have "dt_stage x = Out_waiting" if "x \<in> set (ds_threads s1)" for x
        using m1 that by (fastforce simp: mining_def)
      then have "closing s'" using st' True d(4) by (auto simp: closing_def past_barrier_def s1_def)
      then show ?thesis using st' by (simp add: s1_def)
    next
      case False
      have "s' = s1" unfolding st' by (rule if_not_P [OF False])
      then show ?thesis using m1 by (simp add: s1_def)
    qed
  next
    case 8
    then show ?thesis using st by simp
  qed
qed

lemma closing_step:
  assumes s: "closing s" and t: "t < length (ds_threads s)" and st: "thread_step t s = Some s'" and ok: "datasets_ok s"
  shows "closing s' \<and> datasets_ok s' \<and> ds_work s' = ds_work s"
proof -
  define x where "x = ds_threads s ! t"
  have x: "dt_stage x \<in> {Out_passed, Gone}" using s t by (simp add: closing_def x_def)
  note st = st [unfolded thread_step_def Let_def, folded x_def]
  show ?thesis
  proof (cases "dt_stage x = Gone")
    case False
    then have "dt_stage x = Out_passed" using x by simp
    define r where "r = (if ds_cleanup s then s else (release_dataset s)\<lparr>ds_cleanup := True\<rparr>)"
    have s': "s' = to_thread t (\<lambda>x. x\<lparr>dt_vm := None, dt_stage := Gone\<rparr>) r"
      using st \<open>dt_stage x = Out_passed\<close> by (simp add: r_def)
    note rel = release_datasets_ok [OF ok]
    have r: "ds_threads r = ds_threads s" "ds_work r = ds_work s" "ds_cleanup r" "datasets_ok r" "ds_dataset r = None"
      using s ok rel datasets_ok_cong [of "(release_dataset s)\<lparr>ds_cleanup := True\<rparr>" "release_dataset s"]
      by (auto simp: r_def closing_def)
    have "closing s'" using s r unfolding s' closing_def by (auto dest!: in_to_thread)
    then show ?thesis using r datasets_ok_cong [of s' r] by (simp add: s')
  qed (use st in simp)
qed

lemma phases_dstep:
  assumes "phases s" "careful ev s" "dstep ev s = Some s'"
  shows "phases s'"
proof (cases ev)
  case (Step t)
  then have t: "t < length (ds_threads s)" "thread_step t s = Some s'" using assms(3) by (auto simp: dstep_def split: if_splits)
  have ok: "datasets_ok s" "ds_work s \<noteq> no_key" using assms(1) by (simp_all add: phases_def)
  consider "gathering s" | "building s" | "mining s" | "closing s" using assms(1) by (auto simp: phases_def)
  then show ?thesis
  proof cases
    case 1
    then show ?thesis using gathering_step [OF 1 t] ok datasets_ok_cong [of s' s] by (auto simp: phases_def)
  next
    case 2
    then show ?thesis using building_step [OF 2 t ok(1)] ok(2) by (auto simp: phases_def)
  next
    case 3
    then show ?thesis using mining_step [OF 3 t] ok datasets_ok_cong [of s' s] by (auto simp: phases_def)
  next
    case 4
    then show ?thesis using closing_step [OF 4 t ok(1)] ok(2) by (auto simp: phases_def)
  qed
next
  case (Quit t)
  then have t: "t < length (ds_threads s)" "dt_stage (ds_threads s ! t) \<in> {Taking, Scanning}" "s' = to_thread t (\<lambda>x. x\<lparr>dt_stage := Leaving\<rparr>) s"
    using assms(3) by (auto simp: dstep_def to_stage_def split: if_splits)
  have k: "ds_key s = ds_work s" using assms(2) Quit by (simp add: careful_def)
  have "ds_threads s ! t \<in> set (ds_threads s)" using t(1) by simp
  then have "mining s" using assms(1) k t(2) by (auto simp: phases_def gathering_def building_def closing_def)
  then have "mining s'" using t(1) unfolding t(3) mining_def by (fastforce dest!: in_to_thread)
  then show ?thesis using assms(1) datasets_ok_cong [of s' s] by (simp add: phases_def t(3))
next
  case (New_work k)
  then have s': "s' = s\<lparr>ds_work := k\<rparr>" "k \<noteq> no_key" "settled s" using assms(2,3) by (simp_all add: dstep_def careful_def)
  have ok: "datasets_ok s'" using assms(1) datasets_ok_cong [of s' s] by (simp add: phases_def s'(1))
  have "mining s \<or> closing s" using assms(1) s'(3) by (auto simp: phases_def gathering_def building_def settled_def)
  then have "gathering s' \<or> mining s' \<or> closing s'"
  proof
    assume m: "mining s"
    then obtain d where d: "ds_dataset s = Some d" "ds_made s ! d = ds_key s" "ds_key s = ds_work s" "\<not> ds_cleanup s" "\<not> ds_create s"
      and all: "\<And>x. x \<in> set (ds_threads s) \<Longrightarrow> dt_seed x = ds_work s
               \<and> (dt_stage x \<in> {Passed, Locking, Making, Leaving, Out_waiting} \<or> dt_stage x \<in> {Taking, Checking, Scanning} \<and> dt_vm x = Some d)"
      unfolding mining_def by blast
    show ?thesis
    proof (cases "k = ds_work s")
      case True
      then have "s' = s" by (simp add: s'(1))
      then show ?thesis using m by simp
    next
      case False
      have "dt_stage x = Taking \<or> dt_stage x \<in> {Checking, Scanning} \<and> dt_seed x = ds_key s \<and> dt_vm x = Some d"
        "dt_stage x \<notin> {Arriving, Waiting}" if "x \<in> set (ds_threads s)" for x
        using all [OF that] s'(3) that d(3) by (auto simp: settled_def)
      then have "gathering s'" using False d unfolding gathering_def s'(1) by fastforce
      then show ?thesis by simp
    qed
  next
    assume "closing s"
    then show ?thesis by (simp add: closing_def s'(1))
  qed
  then show ?thesis using ok s'(1,2) by (auto simp: phases_def)
qed

lemma phases_start: "k \<noteq> no_key \<Longrightarrow> phases (mining_start n k)"
  by (auto simp: phases_def gathering_def mining_start_def datasets_ok_def)

lemma careful_run_phases: "careful_run n s \<Longrightarrow> phases s"
  by (induction rule: careful_run.induct) (auto intro: phases_start phases_dstep)


section \<open>No thread waits for ever\<close>

definition unblocked :: "dstate \<Rightarrow> bool" where
  "unblocked s \<longleftrightarrow> ds_threads s = [] \<or> (\<exists>x \<in> set (ds_threads s). dt_stage x \<noteq> Waiting \<and> dt_stage x \<noteq> Out_waiting)"

lemma unblocked_thread:
  "t < length (ds_threads s) \<Longrightarrow> dt_stage (f (ds_threads s ! t)) \<noteq> Waiting \<Longrightarrow> dt_stage (f (ds_threads s ! t)) \<noteq> Out_waiting \<Longrightarrow> unblocked (to_thread t f s)"
  by (auto simp: unblocked_def to_thread_def set_update_memI intro!: bexI [of _ "f (ds_threads s ! t)"])

lemma unblocked_arrive: "unblocked (arrive_at t st s)"
  by (auto simp: unblocked_def arrive_at_def Let_def past_barrier_def to_stage_def to_thread_def neq_Nil_conv)

lemma unblocked_step:
  assumes "unblocked s" "dstep ev s = Some s'"
  shows "unblocked s'"
proof (cases ev)
  case (Step t)
  then have t: "t < length (ds_threads s)" "thread_step t s = Some s'" using assms(2) by (auto simp: dstep_def split: if_splits)
  have r: "ds_threads (release_dataset s) = ds_threads s" by (simp add: release_dataset_def split: option.split)
  then have m: "ds_threads (make_dataset k s) = ds_threads s" for k by (simp add: make_dataset_def Let_def)
  note st = t(2) [unfolded thread_step_def Let_def]
  have to: "unblocked (to_stage t st r)" if "ds_threads r = ds_threads s" "st \<noteq> Waiting" "st \<noteq> Out_waiting" for st r
    using that t(1) unfolding to_stage_def by (intro unblocked_thread) simp_all
  show ?thesis
  proof (cases "dt_stage (ds_threads s ! t)")
    case Making
    then show ?thesis using st t(1) by (auto split: option.splits intro!: unblocked_thread)
  next
    case Out_passed
    then show ?thesis using st t(1) r by (auto intro!: unblocked_thread)
  next
    case Checking
    then show ?thesis using st by (cases "ds_key s = dt_seed (ds_threads s ! t)") (auto intro!: to)
  qed (use st t(1) m in \<open>auto intro!: unblocked_thread to simp: unblocked_arrive\<close>)
next
  case (Quit t)
  then show ?thesis using assms(2) by (auto simp: dstep_def to_stage_def split: if_splits intro!: unblocked_thread)
next
  case (New_work k)
  then show ?thesis using assms by (auto simp: dstep_def unblocked_def)
qed

lemma careful_run_unblocked: "careful_run n s \<Longrightarrow> unblocked s"
proof (induction rule: careful_run.induct)
  case (start k)
  then show ?case by (auto simp: unblocked_def mining_start_def)
next
  case (step s ev s')
  then show ?case using unblocked_step by blast
qed

lemma can_step:
  assumes p: "phases s" and u: "unblocked s" and ng: "\<exists>x \<in> set (ds_threads s). dt_stage x \<noteq> Gone"
  shows "\<exists>t s'. dstep (Step t) s = Some s'"
proof -
  have stuck: "dt_stage (ds_threads s ! t) \<in> {Waiting, Out_waiting, Gone} \<or> dt_stage (ds_threads s ! t) = Making \<and> ds_dataset s = None"
    if "t < length (ds_threads s)" "dstep (Step t) s = None" for t
    using that by (auto simp: dstep_def thread_step_def Let_def split: stage.splits option.splits)
  have "ds_threads s \<noteq> []" using ng by auto
  then obtain x where x: "x \<in> set (ds_threads s)" "dt_stage x \<noteq> Waiting" "dt_stage x \<noteq> Out_waiting" using u by (auto simp: unblocked_def)
  have "\<exists>y \<in> set (ds_threads s). dt_stage y \<notin> {Waiting, Out_waiting, Gone} \<and> (dt_stage y = Making \<longrightarrow> ds_dataset s \<noteq> None)"
  proof (cases "closing s")
    case True
    obtain y where y: "y \<in> set (ds_threads s)" "dt_stage y \<noteq> Gone" using ng by blast
    then have "dt_stage y = Out_passed" using True by (auto simp: closing_def)
    then show ?thesis by (intro bexI [OF _ y(1)]) simp
  next
    case False
    then have "dt_stage x \<noteq> Gone" "dt_stage x = Making \<longrightarrow> ds_dataset s \<noteq> None"
      using p x(1) by (auto simp: phases_def gathering_def building_def mining_def)
    then show ?thesis using x by blast
  qed
  then obtain t where "t < length (ds_threads s)" "dt_stage (ds_threads s ! t) \<notin> {Waiting, Out_waiting, Gone}"
    "dt_stage (ds_threads s ! t) = Making \<longrightarrow> ds_dataset s \<noteq> None" by (auto simp: in_set_conv_nth)
  then have "dstep (Step t) s \<noteq> None" by (intro notI) (drule (1) stuck, auto)
  then show ?thesis by blast
qed

section \<open>Properties\<close>

text \<open>C22: as long as keys change only while every thread mines with the current one, and threads leave only after the set-up for it has been done:
  a thread that scans has a machine on a dataset that has not been released and was made for the key of its work, under every interleaving of any number
  of threads; no dataset is released twice, and when all threads are gone each has been released; and until then some thread can go on.\<close>

theorem datasets_are_safe:
  assumes "careful_run n s"
  shows "datasets_safe s
    \<and> (ds_threads s \<noteq> [] \<and> (\<forall>x \<in> set (ds_threads s). dt_stage x = Gone) \<longrightarrow> set (ds_freed s) = {..<length (ds_made s)})
    \<and> ((\<exists>x \<in> set (ds_threads s). dt_stage x \<noteq> Gone) \<longrightarrow> (\<exists>t s'. dstep (Step t) s = Some s'))"
proof -
  have p: "phases s" by (rule careful_run_phases [OF assms])
  have "set (ds_freed s) = {..<length (ds_made s)}" if t: "ds_threads s \<noteq> []" "\<forall>x \<in> set (ds_threads s). dt_stage x = Gone"
  proof -
    obtain x where x: "x \<in> set (ds_threads s)" "dt_stage x = Gone" using t by (cases "ds_threads s") auto
    then have "closing s" using p by (auto simp: phases_def gathering_def building_def mining_def)
    then have "ds_dataset s = None" using x by (auto simp: closing_def)
    then show ?thesis using p by (simp add: phases_def datasets_ok_def)
  qed
  then show ?thesis using phases_safe [OF p] can_step [OF p careful_run_unblocked [OF assms]] by blast
qed

lemma datasets_are_safe_witness:
  "datasets_safe (the (dsteps (replicate 5 (Step 0)) (mining_start 1 (replicate 32 1))))"
proof -
  have run: "careful_run n s \<Longrightarrow> dsteps evs s = Some s' \<Longrightarrow> \<forall>ev \<in> set evs. \<exists>t. ev = Step t \<Longrightarrow> careful_run n s'" for n s evs s'
  proof (induction evs arbitrary: s)
    case (Cons ev evs)
    obtain s1 where s1: "dstep ev s = Some s1" "dsteps evs s1 = Some s'" using Cons.prems(2) by (auto split: option.splits)
    have "careful ev s" using Cons.prems(3) by (auto simp: careful_def)
    then show ?case using Cons.IH [OF careful_run.step [OF Cons.prems(1) _ s1(1)] s1(2)] Cons.prems(3) by simp
  qed simp
  have k: "replicate 32 1 \<noteq> no_key" by (simp add: no_key_def)
  have "dsteps (replicate 5 (Step 0)) (mining_start 1 (replicate 32 1)) \<noteq> None" by code_simp
  then obtain s where s: "dsteps (replicate 5 (Step 0)) (mining_start 1 (replicate 32 1)) = Some s" by blast
  have "careful_run 1 s" by (rule run [OF careful_run.start [OF k] s]) simp
  then show ?thesis using datasets_are_safe s by simp
qed

text \<open>The runs that are not careful: a new key comes while one thread has taken the work with the old one and another has not; and a thread leaves,
  and the others meet it at the barrier when they have seen a new key.\<close>

definition two_keys_run :: "devent list" where
  "two_keys_run = Step 0 # New_work (replicate 32 2) # replicate 4 (Step 1) @ replicate 3 (Step 0) @ replicate 3 (Step 0) @ replicate 3 (Step 1)"

definition left_alone_run :: "devent list" where
  "left_alone_run = replicate 4 (Step 0) @ replicate 4 (Step 1) @ replicate 3 (Step 0) @ replicate 3 (Step 1)
     @ [New_work (replicate 32 2), Quit 0, Step 0] @ replicate 5 (Step 1) @ replicate 3 (Step 1) @ [Step 0]"

definition scans_on :: "(dstate \<Rightarrow> dthread \<Rightarrow> nat \<Rightarrow> bool) \<Rightarrow> dstate option \<Rightarrow> bool" where
  "scans_on P r = (case r of None \<Rightarrow> False | Some s \<Rightarrow>
     list_ex (\<lambda>x. dt_stage x = Scanning \<and> (case dt_vm x of None \<Rightarrow> False | Some d \<Rightarrow> P s x d)) (ds_threads s))"


end
