(* ===== verification/Utf8.thy ===== *)
theory Utf8
  imports Prelude
begin

text \<open>
  The UTF-8 functions of the bundled \<open>jansson\<close> (\<open>compat/jansson/utf.c\<close>). A code point is the
  \<open>int32_t\<close> of the code; a C string is the list of its bytes, and the zero byte behind it is the
  end of the list.
\<close>

section \<open>Encoding\<close>

definition utf8_encode :: "int \<Rightarrow> byte list option" where
  "utf8_encode codepoint =
     (if codepoint < 0 then None
      else if codepoint < 0x80 then Some [of_int codepoint]
      else if codepoint < 0x800 then
        Some [of_int (0xC0 + drop_bit 6 (codepoint AND 0x7C0)), of_int (0x80 + (codepoint AND 0x03F))]
      else if codepoint < 0x10000 then
        Some [of_int (0xE0 + drop_bit 12 (codepoint AND 0xF000)), of_int (0x80 + drop_bit 6 (codepoint AND 0x0FC0)),
          of_int (0x80 + (codepoint AND 0x003F))]
      else if codepoint \<le> 0x10FFFF then
        Some [of_int (0xF0 + drop_bit 18 (codepoint AND 0x1C0000)), of_int (0x80 + drop_bit 12 (codepoint AND 0x03F000)),
          of_int (0x80 + drop_bit 6 (codepoint AND 0x000FC0)), of_int (0x80 + (codepoint AND 0x00003F))]
      else None)"

section \<open>Checking\<close>

definition utf8_check_first :: "byte \<Rightarrow> nat" where
  "utf8_check_first u =
     (if u < 0x80 then 1
      else if 0x80 \<le> u \<and> u \<le> 0xBF then 0
      else if u = 0xC0 \<or> u = 0xC1 then 0
      else if 0xC2 \<le> u \<and> u \<le> 0xDF then 2
      else if 0xE0 \<le> u \<and> u \<le> 0xEF then 3
      else if 0xF0 \<le> u \<and> u \<le> 0xF4 then 4
      else 0)"

text \<open>The loop over the continuation bytes; the end of the string is not one.\<close>

fun utf8_continue :: "int \<Rightarrow> nat \<Rightarrow> byte list \<Rightarrow> int option" where
  "utf8_continue v 0 bs = Some v"
| "utf8_continue v (Suc n) [] = None"
| "utf8_continue v (Suc n) (u # bs) =
     (if u < 0x80 \<or> u > 0xBF then None else utf8_continue (push_bit 6 v + uint (u AND 0x3F)) n bs)"

definition utf8_check_full :: "byte list \<Rightarrow> nat \<Rightarrow> int option" where
  "utf8_check_full buffer len =
     (let u = hd buffer
      in if len \<noteq> 2 \<and> len \<noteq> 3 \<and> len \<noteq> 4 then None
         else (case utf8_continue (uint (u AND (if len = 2 then 0x1F else if len = 3 then 0xF else 0x7)))
                      (len - 1) (tl buffer) of
                 None \<Rightarrow> None
               | Some v \<Rightarrow>
                   if v > 0x10FFFF then None
                   else if 0xD800 \<le> v \<and> v \<le> 0xDFFF then None
                   else if len = 2 \<and> v < 0x80 \<or> len = 3 \<and> v < 0x800 \<or> len = 4 \<and> v < 0x10000 then None
                   else Some v))"

text \<open>The next character and the rest; no character at the end, and \<open>None\<close> on a malformed one.\<close>

definition utf8_iterate :: "byte list \<Rightarrow> (int option \<times> byte list) option" where
  "utf8_iterate buffer =
     (if buffer = [] then Some (None, buffer)
      else (let count = utf8_check_first (hd buffer)
            in if count = 0 then None
               else if count = 1 then Some (Some (uint (hd buffer)), drop count buffer)
               else (case utf8_check_full buffer count of
                       None \<Rightarrow> None
                     | Some v \<Rightarrow> Some (Some v, drop count buffer))))"

function utf8_check_string :: "byte list \<Rightarrow> bool" where
  "utf8_check_string [] = True"
| "utf8_check_string (b # bs) =
     (let count = utf8_check_first b
      in if count = 0 then False
         else if 1 < count then
           (if length (b # bs) < count then False
            else if utf8_check_full (b # bs) count = None then False
            else utf8_check_string (drop count (b # bs)))
         else utf8_check_string bs)"
  by pat_completeness auto
termination by (relation "measure length") auto

section \<open>Characters\<close>

text \<open>The Unicode scalar values, and the bytes of a text.\<close>

definition is_scalar :: "int \<Rightarrow> bool" where
  "is_scalar v \<longleftrightarrow> 0 \<le> v \<and> v \<le> 0x10FFFF \<and> \<not> (0xD800 \<le> v \<and> v \<le> 0xDFFF)"

definition utf8_text :: "int list \<Rightarrow> byte list" where
  "utf8_text vs = concat (map (\<lambda>v. the (utf8_encode v)) vs)"

lemma and_fields:
  fixes v :: int
  shows "drop_bit 6 (v AND 0x7C0) = (v div 64) mod 32" "v AND 0x3F = v mod 64"
    "drop_bit 12 (v AND 0xF000) = (v div 4096) mod 16" "drop_bit 6 (v AND 0xFC0) = (v div 64) mod 64"
    "drop_bit 18 (v AND 0x1C0000) = (v div 262144) mod 8" "drop_bit 12 (v AND 0x3F000) = (v div 4096) mod 64"
proof -
  have m: "x AND 31 = x mod 32" "x AND 63 = x mod 64" "x AND 15 = x mod 16" "x AND 7 = x mod 8" for x :: int
    using take_bit_eq_mask [of 5 x] take_bit_eq_mask [of 6 x] take_bit_eq_mask [of 4 x] take_bit_eq_mask [of 3 x]
    by (simp_all add: take_bit_eq_mod mask_eq_exp_minus_1)
  show "v AND 0x3F = v mod 64" by (rule m(2))
  show "drop_bit 6 (v AND 0x7C0) = (v div 64) mod 32"
    unfolding drop_bit_and by (simp add: drop_bit_eq_div m)
  show "drop_bit 12 (v AND 0xF000) = (v div 4096) mod 16"
    unfolding drop_bit_and by (simp add: drop_bit_eq_div m)
  show "drop_bit 6 (v AND 0xFC0) = (v div 64) mod 64"
    unfolding drop_bit_and by (simp add: drop_bit_eq_div m)
  show "drop_bit 18 (v AND 0x1C0000) = (v div 262144) mod 8"
    unfolding drop_bit_and by (simp add: drop_bit_eq_div m)
  show "drop_bit 12 (v AND 0x3F000) = (v div 4096) mod 64"
    unfolding drop_bit_and by (simp add: drop_bit_eq_div m)
qed

lemma byte_fields:
  fixes u :: byte
  shows "uint (u AND 0x1F) = uint u mod 32" "uint (u AND 0xF) = uint u mod 16" "uint (u AND 0x7) = uint u mod 8"
    "uint (u AND 0x3F) = uint u mod 64"
  using take_bit_eq_mask [of 5 "uint u"] take_bit_eq_mask [of 6 "uint u"] take_bit_eq_mask [of 4 "uint u"]
    take_bit_eq_mask [of 3 "uint u"]
  by (simp_all add: take_bit_eq_mod mask_eq_exp_minus_1 unsigned_and_eq)

lemma uint_of_int_byte: "0 \<le> i \<Longrightarrow> i < 256 \<Longrightarrow> uint (of_int i :: byte) = i"
  by (simp add: unsigned_of_int take_bit_eq_mod)

lemma of_int_byte_eq: "0 \<le> i \<Longrightarrow> i < 256 \<Longrightarrow> (of_int i = (u :: byte)) \<longleftrightarrow> uint u = i"
  by (metis uint_of_int_byte word_uint_eq_iff)

text \<open>The bytes of a character by division.\<close>

lemma encode_scalar:
  "0 \<le> v \<Longrightarrow> v < 0x80 \<Longrightarrow> utf8_encode v = Some [of_int v]"
  "0x80 \<le> v \<Longrightarrow> v < 0x800 \<Longrightarrow> utf8_encode v = Some [of_int (192 + v div 64), of_int (128 + v mod 64)]"
  "0x800 \<le> v \<Longrightarrow> v < 0x10000 \<Longrightarrow>
     utf8_encode v = Some [of_int (224 + v div 4096), of_int (128 + v div 64 mod 64), of_int (128 + v mod 64)]"
  "0x10000 \<le> v \<Longrightarrow> v \<le> 0x10FFFF \<Longrightarrow>
     utf8_encode v = Some [of_int (240 + v div 262144), of_int (128 + v div 4096 mod 64), of_int (128 + v div 64 mod 64),
       of_int (128 + v mod 64)]"
  unfolding utf8_encode_def and_fields by simp_all

lemma first_iff:
  "utf8_check_first u = 1 \<longleftrightarrow> uint u < 128"
  "utf8_check_first u = 2 \<longleftrightarrow> 194 \<le> uint u \<and> uint u \<le> 223"
  "utf8_check_first u = 3 \<longleftrightarrow> 224 \<le> uint u \<and> uint u \<le> 239"
  "utf8_check_first u = 4 \<longleftrightarrow> 240 \<le> uint u \<and> uint u \<le> 244"
  by (auto simp: utf8_check_first_def word_le_def word_less_def word_uint_eq_iff)

lemma first_cases: "utf8_check_first u \<in> {0, 1, 2, 3, 4}"
  by (simp add: utf8_check_first_def)

abbreviation continuation :: "byte \<Rightarrow> bool" where
  "continuation u \<equiv> 128 \<le> uint u \<and> uint u \<le> 191"

lemma not_continuation: "(u < 0x80 \<or> u > 0xBF) \<longleftrightarrow> \<not> continuation u"
  by (auto simp: word_less_def)

lemma continue_step:
  "utf8_continue v (Suc n) (u # bs) = (if continuation u then utf8_continue (v * 64 + (uint u - 128)) n bs else None)"
proof -
  have "continuation u \<Longrightarrow> uint u mod 64 = uint u - 128" by presburger
  then show ?thesis by (simp add: not_continuation byte_fields push_bit_eq_mult del: not_less)
qed

declare utf8_continue.simps(3) [simp del]

lemma full_2:
  assumes "194 \<le> uint u" "uint u \<le> 223"
  shows "utf8_check_full (u # a # bs) 2 = (if continuation a then Some ((uint u - 192) * 64 + (uint a - 128)) else None)"
proof -
  have "uint u mod 32 = uint u - 192" using assms by presburger
  then show ?thesis using assms by (auto simp: utf8_check_full_def byte_fields numeral_2_eq_2 continue_step)
qed

lemma full_3:
  assumes "224 \<le> uint u" "uint u \<le> 239"
  shows "utf8_check_full (u # a # b # bs) 3 =
    (let v = ((uint u - 224) * 64 + (uint a - 128)) * 64 + (uint b - 128)
     in if continuation a \<and> continuation b \<and> 0x800 \<le> v \<and> is_scalar v then Some v else None)"
proof -
  have "uint u mod 16 = uint u - 224" using assms by presburger
  then show ?thesis using assms
    by (auto simp: utf8_check_full_def byte_fields numeral_2_eq_2 continue_step is_scalar_def Let_def eval_nat_numeral)
qed

lemma full_4:
  assumes "240 \<le> uint u" "uint u \<le> 244"
  shows "utf8_check_full (u # a # b # c # bs) 4 =
    (let v = (((uint u - 240) * 64 + (uint a - 128)) * 64 + (uint b - 128)) * 64 + (uint c - 128)
     in if continuation a \<and> continuation b \<and> continuation c \<and> 0x10000 \<le> v \<and> v \<le> 0x10FFFF then Some v else None)"
proof -
  have "uint u mod 8 = uint u - 240" using assms by presburger
  then show ?thesis using assms
    by (auto simp: utf8_check_full_def byte_fields numeral_2_eq_2 continue_step Let_def eval_nat_numeral)
qed

lemma digits_64:
  fixes a b :: int
  assumes "0 \<le> b" "b < 64"
  shows "(a * 64 + b) div 64 = a" "(a * 64 + b) mod 64 = b"
  using assms int_div_pos_eq [of "a * 64 + b" 64 a b] int_mod_pos_eq [of "a * 64 + b" 64 a b] by simp_all

lemma encode_bytes:
  "0x80 \<le> v \<Longrightarrow> v < 0x800 \<Longrightarrow> utf8_encode v = Some [u, a] \<longleftrightarrow> uint u = 192 + v div 64 \<and> uint a = 128 + v mod 64"
  "0x800 \<le> v \<Longrightarrow> v < 0x10000 \<Longrightarrow> utf8_encode v = Some [u, a, b]
     \<longleftrightarrow> uint u = 224 + v div 64 div 64 \<and> uint a = 128 + v div 64 mod 64 \<and> uint b = 128 + v mod 64"
  "0x10000 \<le> v \<Longrightarrow> v \<le> 0x10FFFF \<Longrightarrow> utf8_encode v = Some [u, a, b, c]
     \<longleftrightarrow> uint u = 240 + v div 64 div 64 div 64 \<and> uint a = 128 + v div 64 div 64 mod 64
       \<and> uint b = 128 + v div 64 mod 64 \<and> uint c = 128 + v mod 64"
proof -
  have d: "v div 4096 = v div 64 div 64" "v div 262144 = v div 64 div 64 div 64" by (simp_all add: zdiv_zmult2_eq)
  have e: "of_int (128 + x mod 64) = (y :: byte) \<longleftrightarrow> uint y = 128 + x mod 64" for x y
  proof (rule of_int_byte_eq)
    have "x mod 64 < 64" "0 \<le> x mod 64" by simp_all
    then show "0 \<le> 128 + x mod 64" "128 + x mod 64 < 256" by linarith+
  qed
  have f: "of_int (k + w) = (y :: byte) \<longleftrightarrow> uint y = k + w" if "0 \<le> w" "w < 32" "192 \<le> k" "k \<le> 224 \<or> k = 240 \<and> w < 16" for k w y
    using that by (intro of_int_byte_eq) auto
  have list_2: "(Some [x, y] = Some [u, a]) = (x = u \<and> y = a)"
    and list_3: "(Some [x, y, z] = Some [u, a, b]) = (x = u \<and> y = a \<and> z = b)"
    and list_4: "(Some [x, y, z, w] = Some [u, a, b, c]) = (x = u \<and> y = a \<and> z = b \<and> w = c)" for x y z w :: byte
    by simp_all
  show "0x80 \<le> v \<Longrightarrow> v < 0x800 \<Longrightarrow> utf8_encode v = Some [u, a] \<longleftrightarrow> uint u = 192 + v div 64 \<and> uint a = 128 + v mod 64"
    by (subst encode_scalar(2), assumption+, subst list_2, subst e, subst f) auto
  show "0x800 \<le> v \<Longrightarrow> v < 0x10000 \<Longrightarrow> utf8_encode v = Some [u, a, b]
     \<longleftrightarrow> uint u = 224 + v div 64 div 64 \<and> uint a = 128 + v div 64 mod 64 \<and> uint b = 128 + v mod 64"
    by (subst encode_scalar(3), assumption+, subst list_3, subst e, subst e, subst f) (auto simp: d(1))
  show "0x10000 \<le> v \<Longrightarrow> v \<le> 0x10FFFF \<Longrightarrow> utf8_encode v = Some [u, a, b, c]
     \<longleftrightarrow> uint u = 240 + v div 64 div 64 div 64 \<and> uint a = 128 + v div 64 div 64 mod 64
       \<and> uint b = 128 + v div 64 mod 64 \<and> uint c = 128 + v mod 64"
    by (subst encode_scalar(4), assumption+, subst list_4, subst e, subst e, subst e, subst f) (auto simp: d)
qed

lemma encode_length:
  assumes "is_scalar v" "utf8_encode v = Some bs"
  shows "length bs = 2 \<longleftrightarrow> 0x80 \<le> v \<and> v < 0x800" "length bs = 3 \<longleftrightarrow> 0x800 \<le> v \<and> v < 0x10000"
    "length bs = 4 \<longleftrightarrow> 0x10000 \<le> v \<and> v \<le> 0x10FFFF" "length bs = 1 \<longleftrightarrow> v < 0x80"
  using assms by (auto simp: utf8_encode_def is_scalar_def split: if_splits)

lemma in_continuation:
  assumes "uint x = 128 + y mod 64"
  shows "continuation x"
  unfolding assms using pos_mod_bound [of 64 y] pos_mod_sign [of 64 y] by simp

lemma full_encodes:
  assumes "utf8_check_first u = n" "1 < n" "n \<le> length (u # bs)"
  shows "utf8_check_full (u # bs) n = Some v \<longleftrightarrow> is_scalar v \<and> utf8_encode v = Some (take n (u # bs))"
proof -
  consider "n = 2" | "n = 3" | "n = 4" using first_cases [of u] assms by auto
  then show ?thesis
  proof cases
    case 1
    then obtain a as where bs: "bs = a # as" using assms(3) by (cases bs) auto
    have u: "194 \<le> uint u" "uint u \<le> 223" using assms(1) 1 first_iff(2) [of u] by auto
    define w where "w = (uint u - 192) * 64 + (uint a - 128)"
    have w: "w div 64 = uint u - 192" "w mod 64 = uint a - 128" if "continuation a"
      unfolding w_def by (rule digits_64; use that in linarith)+
    have "continuation a \<Longrightarrow> is_scalar w \<and> utf8_encode w = Some [u, a]"
      using u w encode_bytes(1) [of w] by (auto simp: is_scalar_def w_def)
    moreover have "continuation a \<and> v = w" if "is_scalar v" "utf8_encode v = Some [u, a]"
      using encode_length(1) [OF that] that encode_bytes(1) [of v u a] by (auto simp: w_def)
    moreover have "utf8_check_full (u # a # as) 2 = Some v \<longleftrightarrow> continuation a \<and> v = w"
      using full_2 [OF u, of a as, folded w_def] by auto
    ultimately show ?thesis unfolding 1 bs by (simp only: numeral_2_eq_2 take_Suc_Cons take_0) blast
  next
    case 2
    then obtain a b as where bs: "bs = a # b # as" using assms(3) by (cases bs; cases "tl bs") auto
    have u: "224 \<le> uint u" "uint u \<le> 239" using assms(1) 2 first_iff(3) [of u] by auto
    define p where "p = (uint u - 224) * 64 + (uint a - 128)"
    define w where "w = p * 64 + (uint b - 128)"
    have p: "p div 64 = uint u - 224" "p mod 64 = uint a - 128" if "continuation a"
      unfolding p_def by (rule digits_64; use that in linarith)+
    have q: "w div 64 = p" "w mod 64 = uint b - 128" if "continuation b"
      unfolding w_def by (rule digits_64; use that in linarith)+
    have w: "w div 64 div 64 = uint u - 224" "w div 64 mod 64 = uint a - 128" "w mod 64 = uint b - 128" "w < 0x10000"
      if "continuation a" "continuation b"
      using that u p q by (simp_all add: w_def p_def)
    have "utf8_encode w = Some [u, a, b]" if c: "continuation a \<and> continuation b \<and> 0x800 \<le> w"
    proof -
      have c': "continuation a" "continuation b" using c by blast+
      show ?thesis using encode_bytes(2) [of w u a b] c w(4) [OF c'] unfolding w(1-3) [OF c'] by simp
    qed
    moreover have "continuation a \<and> continuation b \<and> 0x800 \<le> v \<and> v = w" if "is_scalar v" "utf8_encode v = Some [u, a, b]"
    proof -
      have r: "0x800 \<le> v" "v < 0x10000" using encode_length(2) [OF that] by simp_all
      have eq: "uint u = 224 + v div 64 div 64" "uint a = 128 + v div 64 mod 64" "uint b = 128 + v mod 64"
        using encode_bytes(2) [OF r] that(2) by blast+
      have "p = v div 64" unfolding p_def eq by simp
      then have "w = v" unfolding w_def eq by simp
      then show ?thesis using r in_continuation [OF eq(2)] in_continuation [OF eq(3)] by blast
    qed
    moreover have "utf8_check_full (u # a # b # as) 3 = Some v \<longleftrightarrow>
        continuation a \<and> continuation b \<and> 0x800 \<le> w \<and> is_scalar w \<and> v = w"
      unfolding full_3 [OF u, of a b as, folded p_def, folded w_def] Let_def by auto
    ultimately show ?thesis unfolding 2 bs by (simp only: numeral_3_eq_3 take_Suc_Cons take_0) blast
  next
    case 3
    then obtain a b c as where bs: "bs = a # b # c # as" using assms(3) by (cases bs; cases "tl bs"; cases "tl (tl bs)") auto
    have u: "240 \<le> uint u" "uint u \<le> 244" using assms(1) 3 first_iff(4) [of u] by auto
    define h where "h = (uint u - 240) * 64 + (uint a - 128)"
    define p where "p = h * 64 + (uint b - 128)"
    define w where "w = p * 64 + (uint c - 128)"
    have h: "h div 64 = uint u - 240" "h mod 64 = uint a - 128" if "continuation a"
      unfolding h_def by (rule digits_64; use that in linarith)+
    have p: "p div 64 = h" "p mod 64 = uint b - 128" if "continuation b"
      unfolding p_def by (rule digits_64; use that in linarith)+
    have q: "w div 64 = p" "w mod 64 = uint c - 128" if "continuation c"
      unfolding w_def by (rule digits_64; use that in linarith)+
    have w: "w div 64 div 64 div 64 = uint u - 240" "w div 64 div 64 mod 64 = uint a - 128" "w div 64 mod 64 = uint b - 128"
      "w mod 64 = uint c - 128" if "continuation a" "continuation b" "continuation c"
      using that h p q by simp_all
    have "utf8_encode w = Some [u, a, b, c] \<and> is_scalar w"
      if c: "continuation a \<and> continuation b \<and> continuation c \<and> 0x10000 \<le> w \<and> w \<le> 0x10FFFF"
    proof
      have c': "continuation a" "continuation b" "continuation c" using c by blast+
      show "utf8_encode w = Some [u, a, b, c]"
        using encode_bytes(3) [of w u a b c] c unfolding w [OF c'] by simp
      show "is_scalar w" using c by (simp add: is_scalar_def)
    qed
    moreover have "continuation a \<and> continuation b \<and> continuation c \<and> 0x10000 \<le> v \<and> v \<le> 0x10FFFF \<and> v = w"
      if "is_scalar v" "utf8_encode v = Some [u, a, b, c]"
    proof -
      have r: "0x10000 \<le> v" "v \<le> 0x10FFFF" using encode_length(3) [OF that] by simp_all
      have eq: "uint u = 240 + v div 64 div 64 div 64" "uint a = 128 + v div 64 div 64 mod 64"
        "uint b = 128 + v div 64 mod 64" "uint c = 128 + v mod 64"
        using encode_bytes(3) [OF r] that(2) by blast+
      have "h = v div 64 div 64" unfolding h_def eq by simp
      then have "p = v div 64" unfolding p_def eq by simp
      then have "w = v" unfolding w_def eq by simp
      then show ?thesis using r in_continuation [OF eq(2)] in_continuation [OF eq(3)] in_continuation [OF eq(4)] by blast
    qed
    moreover have "utf8_check_full (u # a # b # c # as) 4 = Some v \<longleftrightarrow>
        continuation a \<and> continuation b \<and> continuation c \<and> 0x10000 \<le> w \<and> w \<le> 0x10FFFF \<and> v = w"
      unfolding full_4 [OF u, of a b c as, folded h_def, folded p_def, folded w_def] Let_def by auto
    moreover have "take 4 (u # a # b # c # as) = [u, a, b, c]" by simp
    ultimately show ?thesis unfolding 3 bs by metis
  qed
qed

lemma encode_first:
  assumes v: "is_scalar v"
  obtains u bs where "utf8_encode v = Some (u # bs)" "utf8_check_first u = length (u # bs)"
    "utf8_check_first u = 1 \<longleftrightarrow> v < 0x80" "v < 0x80 \<Longrightarrow> uint u = v"
proof -
  have "\<exists>e. utf8_encode v = Some e \<and> e \<noteq> []" using v by (simp add: utf8_encode_def is_scalar_def)
  then obtain u bs where e: "utf8_encode v = Some (u # bs)" by (metis neq_Nil_conv)
  note l = encode_length [OF v e]
  consider "v < 0x80" | "0x80 \<le> v" "v < 0x800" | "0x800 \<le> v" "v < 0x10000" | "0x10000 \<le> v" "v \<le> 0x10FFFF"
    using v unfolding is_scalar_def by linarith
  then have "utf8_check_first u = length (u # bs) \<and> (v < 0x80 \<longrightarrow> uint u = v)"
  proof cases
    case 1
    then have "uint u = v" using v e encode_scalar(1) [of v] by (auto simp: uint_of_int_byte is_scalar_def)
    then show ?thesis using 1 l by (simp add: first_iff(1) [unfolded One_nat_def])
  next
    case 2
    then obtain a where "bs = [a]" using l by (auto simp: length_Suc_conv)
    then show ?thesis using 2 e encode_bytes(1) [of v u a] first_iff(2) [of u] by auto
  next
    case 3
    then obtain a b where "bs = [a, b]" using l by (auto simp: length_Suc_conv numeral_eq_Suc)
    then show ?thesis using 3 e encode_bytes(2) [of v u a b] first_iff(3) [of u] by auto
  next
    case 4
    then obtain a b c where "bs = [a, b, c]" using l by (auto simp: length_Suc_conv numeral_eq_Suc)
    then have "uint u = 240 + v div 64 div 64 div 64" using 4 e encode_bytes(3) [of v u a b c] by blast
    moreover have "v div 64 div 64 div 64 = v div 262144" by (simp add: zdiv_zmult2_eq)
    moreover have "0 \<le> v div 262144" "v div 262144 \<le> 4"
      using 4 zdiv_mono1 [of v 1114111 262144] by (simp_all add: pos_imp_zdiv_nonneg_iff)
    ultimately have "240 \<le> uint u \<and> uint u \<le> 244" by linarith
    then show ?thesis using 4(1) first_iff(4) [of u] \<open>bs = [a, b, c]\<close> by simp
  qed
  then show ?thesis using that e l(4) by auto
qed

text \<open>What the check accepts.\<close>

lemma check_string_text: "\<forall>v \<in> set vs. is_scalar v \<Longrightarrow> utf8_check_string (utf8_text vs @ bs) = utf8_check_string bs"
proof (induction vs)
  case Nil
  then show ?case by (simp add: utf8_text_def)
next
  case (Cons v vs)
  obtain u us where e: "utf8_encode v = Some (u # us)" "utf8_check_first u = length (u # us)"
    using encode_first [of v] Cons.prems by (metis list.set_intros(1))
  let ?rest = "utf8_text vs @ bs"
  have t: "utf8_text (v # vs) @ bs = u # us @ ?rest" by (simp add: utf8_text_def e(1))
  show ?case
  proof (cases "us = []")
    case True
    then show ?thesis using Cons e unfolding t by (simp add: Let_def)
  next
    case False
    then have "utf8_check_full (u # us @ ?rest) (length (u # us)) = Some v"
      using full_encodes [OF e(2), of "us @ ?rest" v] Cons.prems e by (simp add: Suc_lessI)
    then show ?thesis using Cons e False unfolding t by (simp add: Let_def)
  qed
qed

lemma check_string_sound: "utf8_check_string bs \<Longrightarrow> \<exists>vs. (\<forall>v \<in> set vs. is_scalar v) \<and> bs = utf8_text vs"
proof (induction bs rule: utf8_check_string.induct)
  case 1
  show ?case by (rule exI [of _ "[]"]) (simp add: utf8_text_def)
next
  case (2 b bs)
  define n where "n = utf8_check_first b"
  have n: "n \<noteq> 0" using 2(3) by (auto simp: n_def Let_def split: if_splits)
  show ?case
  proof (cases "1 < n")
    case True
    then obtain v where v: "n \<le> length (b # bs)" "utf8_check_full (b # bs) n = Some v"
      "utf8_check_string (drop n (b # bs))"
      using 2(3) n by (auto simp: n_def Let_def split: if_splits)
    obtain vs where vs: "\<forall>v \<in> set vs. is_scalar v" "drop n (b # bs) = utf8_text vs"
      using 2(1) [of n] True v n by (auto simp: n_def)
    have "is_scalar v" "utf8_encode v = Some (take n (b # bs))"
      using full_encodes [OF n_def [symmetric] True v(1), of v] v(2) by auto
    then have "(\<forall>x \<in> set (v # vs). is_scalar x) \<and> b # bs = utf8_text (v # vs)"
      using vs append_take_drop_id [of n "b # bs"] by (simp add: utf8_text_def)
    then show ?thesis by blast
  next
    case False
    then have one: "n = 1" using n by simp
    then obtain vs where vs: "\<forall>v \<in> set vs. is_scalar v" "bs = utf8_text vs"
      using 2 by (auto simp: n_def Let_def)
    have "uint b < 128" using one first_iff(1) [of b] by (simp add: n_def)
    then have "is_scalar (uint b)" "utf8_encode (uint b) = Some [b]"
      using encode_scalar(1) [of "uint b"] by (auto simp: is_scalar_def)
    then have "(\<forall>x \<in> set (uint b # vs). is_scalar x) \<and> b # bs = utf8_text (uint b # vs)"
      using vs by (simp add: utf8_text_def)
    then show ?thesis by blast
  qed
qed

lemma iterate_text:
  assumes "is_scalar v"
  shows "utf8_iterate (utf8_text [v] @ rest) = Some (Some v, rest)"
proof -
  obtain u us where e: "utf8_encode v = Some (u # us)" "utf8_check_first u = length (u # us)"
    "utf8_check_first u = 1 \<longleftrightarrow> v < 0x80" "v < 0x80 \<Longrightarrow> uint u = v"
    using encode_first [OF assms] by metis
  have "us \<noteq> [] \<Longrightarrow> utf8_check_full (u # us @ rest) (length (u # us)) = Some v"
    using full_encodes [OF e(2), of "us @ rest" v] assms e by (simp add: Suc_lessI)
  then show ?thesis using e by (cases "us = []") (simp_all add: utf8_text_def utf8_iterate_def)
qed

text \<open>C40: the UTF-8 check accepts exactly the encodings of texts of Unicode scalar values: no overlong form, no
  surrogate and nothing above \<open>0x10FFFF\<close>; and the iterator gives back each character that was encoded, with
  the bytes behind it.\<close>

theorem utf8_check_string_correct:
  "(utf8_check_string bs \<longleftrightarrow> (\<exists>vs. (\<forall>v \<in> set vs. is_scalar v) \<and> bs = utf8_text vs))
    \<and> (is_scalar v \<longrightarrow> utf8_iterate (utf8_text [v] @ rest) = Some (Some v, rest))"
  using check_string_sound check_string_text [of _ "[]"] iterate_text by fastforce

lemma utf8_check_string_correct_witness:
  "utf8_check_string [0xF0, 0x9F, 0x98, 0x80] \<and> \<not> utf8_check_string [0xC0, 0x80]
    \<and> utf8_iterate [0xE2, 0x82, 0xAC, 0x41] = Some (Some 0x20AC, [0x41])"
proof -
  have t: "utf8_text [0x1F600] = [0xF0, 0x9F, 0x98, 0x80]" "utf8_text [0x20AC] = [0xE2, 0x82, 0xAC]"
    by (simp_all add: utf8_text_def utf8_encode_def and_fields)
  have "is_scalar 0x1F600" "is_scalar 0x20AC" by (simp_all add: is_scalar_def)
  moreover have "\<not> utf8_check_string [0xC0, 0x80]" by (simp add: utf8_check_first_def)
  moreover have "utf8_iterate (utf8_text [0x20AC] @ [0x41]) = Some (Some 0x20AC, [0x41])"
    using utf8_check_string_correct calculation(2) by blast
  moreover have "\<exists>vs. (\<forall>v \<in> set vs. is_scalar v) \<and> [0xF0, 0x9F, 0x98, 0x80] = utf8_text vs"
    using calculation(1) by (intro exI [of _ "[0x1F600]"]) (simp add: t)
  ultimately show ?thesis using utf8_check_string_correct by (auto simp: t)
qed

end
