(* ===== verification/Http.thy ===== *)
theory Http
  imports Utf8 Json CString "HOL-Library.AList"
begin

text \<open>
  The HTTP side of the miner in \<open>util.c\<close>: the repair of large numbers in an answer, the callbacks that
  collect an answer's body and its headers, and \<open>json_rpc_call\<close>. The transfer itself belongs to
  \<open>libcurl\<close>: what it delivers to the callbacks and the code it returns are inputs. So are the outcome of
  each allocation and the parser \<open>json_loads\<close>, which the build may take from the system.
\<close>

section \<open>Large numbers\<close>

text \<open>
  The test on a finished number: \<open>strtol\<close> consumes all of it and overflows, or passes \<open>INT_MAX\<close> where the
  library keeps integers in an \<open>int\<close> (\<open>long_long\<close> is \<open>JSON_INTEGER_IS_LONG_LONG\<close>).
\<close>

definition number_overflows :: "bool \<Rightarrow> string \<Rightarrow> bool" where
  "number_overflows long_long s \<longleftrightarrow>
     list_all is_digit s \<and> (if long_long then decimal s > 2 ^ 63 - 1 else decimal s > 2 ^ 63 - 1 \<or> strtol s > 0x7fffffff)"

definition number_char :: "char \<Rightarrow> bool" where
  "number_char c \<longleftrightarrow> c = CHR ''.'' \<or> c = CHR ''e'' \<or> c = CHR ''E'' \<or> c = CHR ''+'' \<or> c = CHR ''-''"

text \<open>The loop over the input; \<open>out\<close> is what has been written.\<close>

fun hack_loop :: "bool \<Rightarrow> nat \<Rightarrow> bool \<Rightarrow> bool \<Rightarrow> string \<Rightarrow> string \<Rightarrow> string" where
  "hack_loop ll intoff in_str in_int out [] = out"
| "hack_loop ll intoff in_str in_int out (c # cs) =
     (if c = CHR 0x22 then hack_loop ll intoff (\<not> in_str) in_int (out @ [c]) cs
      else if c = CHR 0x5C then
        (case cs of
           [] \<Rightarrow> out @ [c]
         | d # ds \<Rightarrow> hack_loop ll intoff in_str in_int (out @ [c, d]) ds)
      else if \<not> in_str \<and> \<not> in_int \<and> is_digit c then hack_loop ll (length out) in_str True (out @ [c]) cs
      else if in_int \<and> \<not> is_digit c \<and> \<not> number_char c then
        hack_loop ll intoff in_str False
          ((if 4 < length out - intoff \<and> number_overflows ll (drop intoff out) then out @ ''.0'' else out) @ [c]) cs
      else hack_loop ll intoff in_str in_int (out @ [c]) cs)"

definition hack_json_numbers :: "bool \<Rightarrow> bool \<Rightarrow> string \<Rightarrow> string option" where
  "hack_json_numbers ll calloc_ok s = (if calloc_ok then Some (hack_loop ll 0 False False [] s) else None)"

text \<open>The lexemes that matter to the loop.\<close>

datatype lexeme = Text string | Number string | Other char

fun text_body :: "string \<Rightarrow> bool" where
  "text_body [] = True"
| "text_body (c # cs) =
     (if c = CHR 0x5C then (case cs of [] \<Rightarrow> False | d # ds \<Rightarrow> text_body ds) else c \<noteq> CHR 0x22 \<and> text_body cs)"

fun lexeme_ok :: "lexeme \<Rightarrow> bool" where
  "lexeme_ok (Text s) = text_body s"
| "lexeme_ok (Number s) = (s \<noteq> [] \<and> is_digit (hd s) \<and> list_all (\<lambda>c. is_digit c \<or> number_char c) s)"
| "lexeme_ok (Other c) = (\<not> is_digit c \<and> c \<noteq> CHR 0x22 \<and> c \<noteq> CHR 0x5C)"

text \<open>A number is followed by a character that ends it.\<close>

fun lexemes_ok :: "lexeme list \<Rightarrow> bool" where
  "lexemes_ok [] = True"
| "lexemes_ok (Number s # ls) =
     (lexeme_ok (Number s) \<and> (case ls of Other c # _ \<Rightarrow> \<not> number_char c | _ \<Rightarrow> False) \<and> lexemes_ok ls)"
| "lexemes_ok (l # ls) = (lexeme_ok l \<and> lexemes_ok ls)"

fun lexeme_text :: "lexeme \<Rightarrow> string" where
  "lexeme_text (Text s) = CHR 0x22 # s @ [CHR 0x22]"
| "lexeme_text (Number s) = s"
| "lexeme_text (Other c) = [c]"

fun lexeme_fixed :: "bool \<Rightarrow> lexeme \<Rightarrow> string" where
  "lexeme_fixed ll (Number s) = (if number_overflows ll s then s @ ''.0'' else s)"
| "lexeme_fixed ll l = lexeme_text l"

lemma hack_loop_length:
  "length (hack_loop ll intoff in_str in_int out cs) \<le> length out + 2 * length cs + (if in_int then 1 else 0)"
proof (induction ll intoff in_str in_int out cs rule: hack_loop.induct)
  case IH: (2 ll intoff in_str in_int out c cs)
  consider "c = CHR 0x22" | "c = CHR 0x5C" | "c \<noteq> CHR 0x22" "c \<noteq> CHR 0x5C" "\<not> in_str \<and> \<not> in_int \<and> is_digit c"
    | "c \<noteq> CHR 0x22" "c \<noteq> CHR 0x5C" "in_int \<and> \<not> is_digit c \<and> \<not> number_char c"
    | "c \<noteq> CHR 0x22" "c \<noteq> CHR 0x5C" "\<not> (\<not> in_str \<and> \<not> in_int \<and> is_digit c)" "\<not> (in_int \<and> \<not> is_digit c \<and> \<not> number_char c)"
    by blast
  then show ?case
  proof cases
    case 1
    then show ?thesis using IH(1) by (simp split: if_splits)
  next
    case 2
    then show ?thesis using IH(2) by (cases cs) (simp_all split: if_splits)
  next
    case 3
    then show ?thesis using IH(3) by simp
  next
    case 4
    then have "\<not> (\<not> in_str \<and> \<not> in_int \<and> is_digit c)" by blast
    let ?out = "(if 4 < length out - intoff \<and> number_overflows ll (drop intoff out) then out @ ''.0'' else out) @ [c]"
    have "hack_loop ll intoff in_str in_int out (c # cs) = hack_loop ll intoff in_str False ?out cs"
      using 4 by (subst hack_loop.simps) (simp only: if_False if_True simp_thms)
    moreover have "length ?out \<le> length out + 3" by simp
    ultimately show ?thesis using IH(4) 4 \<open>\<not> (\<not> in_str \<and> \<not> in_int \<and> is_digit c)\<close> by fastforce
  next
    case 5
    then have eq: "hack_loop ll intoff in_str in_int out (c # cs) = hack_loop ll intoff in_str in_int (out @ [c]) cs"
      by (subst hack_loop.simps) (simp only: if_False simp_thms)
    show ?thesis unfolding eq using IH(5) 5 by simp
  qed
qed simp

lemma digit_not_special: "is_digit c \<Longrightarrow> c \<noteq> CHR 0x22 \<and> c \<noteq> CHR 0x5C" 
  by (auto simp: is_digit_def)

lemma number_char_not_special: "number_char c \<Longrightarrow> c \<noteq> CHR 0x22 \<and> c \<noteq> CHR 0x5C \<and> \<not> is_digit c"
  by (auto simp: number_char_def is_digit_def)

lemma hack_text:
  "text_body s \<Longrightarrow> hack_loop ll intoff True False out (s @ CHR 0x22 # cs) = hack_loop ll intoff False False (out @ s @ [CHR 0x22]) cs"
proof (induction s arbitrary: out rule: text_body.induct)
  case (2 c s)
  then show ?case by (cases "c = CHR 0x5C"; cases s) auto
qed simp

lemma hack_number:
  "list_all (\<lambda>c. is_digit c \<or> number_char c) s \<Longrightarrow>
   hack_loop ll intoff False True out (s @ cs) = hack_loop ll intoff False True (out @ s) cs"
proof (induction s arbitrary: out)
  case (Cons c s)
  then have "c \<noteq> CHR 0x22 \<and> c \<noteq> CHR 0x5C" using digit_not_special number_char_not_special by auto
  then show ?case using Cons by auto
qed simp

lemma decimal_digits: "list_all is_digit s \<Longrightarrow> 0 \<le> decimal s \<and> decimal s < 10 ^ length s"
proof (induction s rule: rev_induct)
  case (snoc c s)
  have "takeWhile is_digit s = s" "takeWhile is_digit (s @ [c]) = s @ [c]"
    using snoc.prems by (simp_all add: takeWhile_eq_all_conv list_all_iff)
  then have "decimal (s @ [c]) = 10 * decimal s + (of_char c - 48)"
    unfolding decimal_def by (simp only: foldl_append foldl.simps)
  moreover have "0 \<le> (of_char c :: int) - 48 \<and> (of_char c :: int) - 48 \<le> 9"
    using snoc.prems of_nat_of_char [of c, where 'a = int] by (auto simp: is_digit_def Let_def)
  moreover have "0 \<le> decimal s \<and> decimal s < 10 ^ length s" using snoc by simp
  ultimately show ?case by simp
qed (simp add: decimal_def)

lemma number_overflows_long:
  assumes "number_overflows ll s"
  shows "4 < length s"
proof (rule ccontr)
  assume "\<not> 4 < length s"
  then have "(10 :: int) ^ length s \<le> 10 ^ 4" by (intro power_increasing) simp_all
  moreover have d: "list_all is_digit s" using assms by (simp add: number_overflows_def)
  ultimately have "0 \<le> decimal s" "decimal s < 10000" using decimal_digits [OF d] by simp_all
  moreover have "strtol s \<le> max 0 (decimal s)"
  proof (cases s)
    case (Cons c cs)
    then have c: "is_digit c" using d by simp
    then have "\<not> is_space c" by (auto simp: is_digit_def is_space_def Let_def)
    then have "dropWhile is_space s = s" "c \<noteq> CHR ''-''" "c \<noteq> CHR ''+''"
      using Cons c by (auto simp: is_digit_def)
    then show ?thesis using Cons by (simp add: strtol_def max_def min_def Let_def)
  qed (simp add: strtol_def)
  ultimately show False using assms by (auto simp: number_overflows_def split: if_splits)
qed

lemma hack_lexemes:
  "lexemes_ok ls \<Longrightarrow> hack_loop ll intoff False False out (concat (map lexeme_text ls))
     = out @ concat (map (lexeme_fixed ll) ls)"
proof (induction ls arbitrary: out intoff)
  case (Cons l ls)
  show ?case
  proof (cases l)
    case (Number s)
    note Cons = Cons [unfolded Number]
    then obtain c ls' where ls: "ls = Other c # ls'" "\<not> number_char c" "\<not> is_digit c" "c \<noteq> CHR 0x22" "c \<noteq> CHR 0x5C"
      by (auto split: list.splits lexeme.splits)
    obtain d ds where s: "s = d # ds" "is_digit d" "list_all (\<lambda>c. is_digit c \<or> number_char c) ds"
      using Cons(2) by (cases s) auto
    have "hack_loop ll intoff False False out (concat (map lexeme_text (Number s # ls)))
        = hack_loop ll (length out) False True (out @ s) (c # concat (map lexeme_text ls'))"
      using s digit_not_special [of d] hack_number [OF s(3), of ll "length out" "out @ [d]"] by (simp add: ls(1))
    also have "\<dots> = hack_loop ll (length out) False False (out @ lexeme_fixed ll (Number s) @ [c]) (concat (map lexeme_text ls'))"
      using ls number_overflows_long [of ll s] by simp
    also have "\<dots> = hack_loop ll (length out) False False (out @ lexeme_fixed ll (Number s)) (concat (map lexeme_text ls))"
      using ls by simp
    also have "\<dots> = out @ concat (map (lexeme_fixed ll) (Number s # ls))"
      using Cons by simp
    finally show ?thesis unfolding Number .
  next
    case (Text s)
    then show ?thesis using Cons hack_text [of s ll intoff "out @ [CHR 0x22]"] by simp
  next
    case (Other c)
    then show ?thesis using Cons by simp
  qed
qed simp



section \<open>The body\<close>

text \<open>What the header callback keeps (\<open>struct header_info\<close>) and the growing buffer (\<open>struct data_buffer\<close>).\<close>

record header_info =
  h_lp_path :: "string option"
  h_reason :: "string option"
  h_stratum_url :: "string option"
  h_content_length :: u64

record data_buffer =
  db_buf :: "string option"
  db_len :: u64
  db_allocated :: u64

text \<open>The size to allocate when \<open>reqalloc\<close> bytes are needed and \<open>content_length\<close> is known or zero.\<close>

definition new_allocation :: "u64 \<Rightarrow> data_buffer \<Rightarrow> u64 \<Rightarrow> u64" where
  "new_allocation content_length db reqalloc =
     (let newalloc = (if db_len db > 0 then db_allocated db * 2
                      else if content_length > 0 then content_length + 1 else 16 * 1024);
          newalloc = (if content_length = 0 \<and> newalloc - db_allocated db > 8 * 1024 * 1024
                      then db_allocated db + 8 * 1024 * 1024 else newalloc)
      in if reqalloc > newalloc then reqalloc else newalloc)"

text \<open>
  \<open>all_data_cb\<close>: the bytes taken and the buffer; \<open>None\<close> is a write outside the buffer. New memory holds
  anything: \<open>junk\<close>.
\<close>

definition all_data_cb :: "bool \<Rightarrow> (nat \<Rightarrow> char) \<Rightarrow> u64 \<Rightarrow> string \<Rightarrow> data_buffer \<Rightarrow> (u64 \<times> data_buffer) option" where
  "all_data_cb realloc_ok junk content_length ptr db =
     (let len = of_nat (length ptr); reqalloc = db_len db + len + 1
      in if reqalloc > db_allocated db \<and> \<not> realloc_ok then Some (0, db)
         else (let db = (if reqalloc > db_allocated db
                         then (let newalloc = new_allocation content_length db reqalloc;
                                   old = (case db_buf db of None \<Rightarrow> [] | Some m \<Rightarrow> m)
                               in db\<lparr>db_buf := Some (take (unat newalloc) old @ map junk [length old..<unat newalloc]),
                                     db_allocated := newalloc\<rparr>)
                         else db)
               in (case db_buf db of
                     None \<Rightarrow> None
                   | Some m \<Rightarrow>
                       if length m < unat (db_len db) + length ptr + 1 then None
                       else Some (len, db\<lparr>db_buf := Some (memcpy_at m (unat (db_len db)) (ptr @ [NUL])),
                                          db_len := db_len db + len\<rparr>))))"

text \<open>The buffer holds the text \<open>s\<close> received so far and the zero byte behind it.\<close>

definition db_ok :: "data_buffer \<Rightarrow> string \<Rightarrow> bool" where
  "db_ok db s \<longleftrightarrow> length s < 2 ^ 63 \<and> db_len db = of_nat (length s) \<and>
     (case db_buf db of
        None \<Rightarrow> s = [] \<and> db_allocated db = 0
      | Some m \<Rightarrow> length m = unat (db_allocated db) \<and> length s < length m \<and> take (length s) m = s \<and> m ! length s = NUL)"

lemma unat_of_nat_u64: "n < 2 ^ 64 \<Longrightarrow> unat (of_nat n :: u64) = n"
  by (simp add: unsigned_of_nat take_bit_nat_eq_self)

lemma new_allocation_enough: "reqalloc \<le> new_allocation content_length db reqalloc"
  by (auto simp: new_allocation_def Let_def not_less)

lemma write_text:
  "\<lbrakk>length s + length ptr < length m; take (length s) m = s\<rbrakk> \<Longrightarrow>
   take (length s + length ptr) (memcpy_at m (length s) (ptr @ [NUL])) = s @ ptr
   \<and> memcpy_at m (length s) (ptr @ [NUL]) ! (length s + length ptr) = NUL"
  by (simp add: memcpy_at_def nth_append)

lemma all_data_cb_step:
  assumes db: "db_ok db s" and len: "length s + length ptr < 2 ^ 63"
  shows "\<exists>db'. all_data_cb True junk content_length ptr db = Some (of_nat (length ptr), db') \<and> db_ok db' (s @ ptr)"
    and "\<exists>n db'. all_data_cb False junk content_length ptr db = Some (n, db')
      \<and> (n = of_nat (length ptr) \<and> db_ok db' (s @ ptr) \<or> n = 0 \<and> db' = db)"
proof -
  have l: "unat (db_len db) = length s" using db len by (simp add: db_ok_def unat_of_nat_u64)
  have r: "unat (db_len db + of_nat (length ptr) + 1) = length s + length ptr + 1"
  proof -
    have "db_len db + of_nat (length ptr) + 1 = of_nat (length s + length ptr + 1)" using db by (simp add: db_ok_def)
    moreover have "unat (of_nat (length s + length ptr + 1) :: u64) = length s + length ptr + 1"
      using len by (intro unat_of_nat_u64) simp
    ultimately show ?thesis by metis
  qed
  have ok: "db_ok (d\<lparr>db_buf := Some (memcpy_at m (length s) (ptr @ [NUL])), db_len := db_len db + of_nat (length ptr)\<rparr>) (s @ ptr)"
    if "length m = unat (db_allocated d)" "length s + length ptr < length m" "take (length s) m = s" for d m
    using that db len write_text [of s ptr m] by (simp add: db_ok_def length_memcpy_at)
  show "\<exists>db'. all_data_cb True junk content_length ptr db = Some (of_nat (length ptr), db') \<and> db_ok db' (s @ ptr)"
  proof (cases "db_len db + of_nat (length ptr) + 1 > db_allocated db")
    case True
    let ?n = "new_allocation content_length db (db_len db + of_nat (length ptr) + 1)"
    let ?old = "case db_buf db of None \<Rightarrow> [] | Some m \<Rightarrow> m"
    let ?m = "take (unat ?n) ?old @ map junk [length ?old..<unat ?n]"
    have "length s + length ptr + 1 \<le> unat ?n"
      using new_allocation_enough [of "db_len db + of_nat (length ptr) + 1" content_length db] r by (simp add: word_le_nat_alt)
    moreover have "length ?m = unat ?n" by simp
    moreover have "take (length s) ?m = s"
    proof (cases "db_buf db")
      case None
      then show ?thesis using db by (simp add: db_ok_def)
    next
      case (Some m)
      then have "length s < length m" "take (length s) m = s" using db by (simp_all add: db_ok_def)
      moreover have "length s \<le> unat ?n" using \<open>length s + length ptr + 1 \<le> unat ?n\<close> by simp
      ultimately show ?thesis using Some by (simp add: min_def)
    qed
    ultimately show ?thesis
      using True ok [of ?m "db\<lparr>db_buf := Some ?m, db_allocated := ?n\<rparr>"] l by (simp add: all_data_cb_def Let_def)
  next
    case False
    then have a: "length s + length ptr < unat (db_allocated db)"
      using r by (simp add: word_less_nat_alt)
    then obtain m where "db_buf db = Some m" using db by (cases "db_buf db") (auto simp: db_ok_def)
    then show ?thesis using False a l ok [of m db] db by (simp add: all_data_cb_def Let_def db_ok_def)
  qed
  moreover have "all_data_cb False junk content_length ptr db = all_data_cb True junk content_length ptr db"
    if "\<not> db_len db + of_nat (length ptr) + 1 > db_allocated db"
    using that by (simp add: all_data_cb_def Let_def)
  moreover have "all_data_cb False junk content_length ptr db = Some (0, db)"
    if "db_len db + of_nat (length ptr) + 1 > db_allocated db"
    using that by (simp add: all_data_cb_def Let_def)
  ultimately show "\<exists>n db'. all_data_cb False junk content_length ptr db = Some (n, db')
      \<and> (n = of_nat (length ptr) \<and> db_ok db' (s @ ptr) \<or> n = 0 \<and> db' = db)"
    by (cases "db_len db + of_nat (length ptr) + 1 > db_allocated db") auto
qed

section \<open>The headers\<close>

text \<open>\<open>strtoul\<close> in base 10: a minus sign negates in \<open>unsigned long\<close>, and a number that is too large is the largest.\<close>

definition strtoul :: "string \<Rightarrow> u64" where
  "strtoul s =
     (let s = dropWhile is_space s;
          neg = (s \<noteq> [] \<and> hd s = CHR ''-'');
          v = decimal (if s \<noteq> [] \<and> (hd s = CHR ''-'' \<or> hd s = CHR ''+'') then tl s else s)
      in if v > 2 ^ 64 - 1 then - 1 else if neg then - of_int v else of_int v)"

text \<open>The key and the trimmed value of a header line, unless one is empty.\<close>

definition header_parts :: "string \<Rightarrow> (string \<times> string) option" where
  "header_parts line =
     (let slen = length (takeWhile (\<lambda>c. c \<noteq> CHR '':'') line)
      in if slen = length line \<or> slen = 0 then None
         else if slen + 1 = length line then None
         else (let key = cstr (take slen line);
                   rem = dropWhile is_space (drop (slen + 1) line);
                   val = rev (dropWhile is_space (rev (cstr rem)))
               in if val = [] then None else Some (key, val)))"

definition resp_hdr_cb :: "bool \<Rightarrow> string \<Rightarrow> header_info \<Rightarrow> header_info" where
  "resp_hdr_cb calloc_ok line hi =
     (if \<not> calloc_ok then hi
      else (case header_parts line of
              None \<Rightarrow> hi
            | Some (key, val) \<Rightarrow>
                (let hi = (if strcaseeq ''X-Long-Polling'' key then hi\<lparr>h_lp_path := Some val\<rparr> else hi);
                     hi = (if strcaseeq ''X-Reject-Reason'' key then hi\<lparr>h_reason := Some val\<rparr> else hi);
                     hi = (if strcaseeq ''X-Stratum'' key then hi\<lparr>h_stratum_url := Some val\<rparr> else hi)
                 in if strcaseeq ''Content-Length'' key then hi\<lparr>h_content_length := strtoul val\<rparr> else hi)))"

section \<open>The call\<close>

text \<open>What the transfer delivers, in order, with the outcome of the callback's allocation.\<close>

datatype http_event =
    Header bool string
  | Body bool "nat \<Rightarrow> char" string

text \<open>A body callback that takes less than it was given ends the transfer.\<close>

fun transfer :: "http_event list \<Rightarrow> header_info \<Rightarrow> data_buffer \<Rightarrow> (bool \<times> header_info \<times> data_buffer) option" where
  "transfer [] hi db = Some (True, hi, db)"
| "transfer (Header ok line # es) hi db = transfer es (resp_hdr_cb ok line hi) db"
| "transfer (Body ok junk ptr # es) hi db =
     (case all_data_cb ok junk (h_content_length hi) ptr db of
        None \<Rightarrow> None
      | Some (n, db) \<Rightarrow> if n = of_nat (length ptr) then transfer es hi db else Some (False, hi, db))"

record rpc_env =
  p_want_stratum :: bool
  p_have_stratum :: bool
  p_want_longpoll :: bool
  p_have_longpoll :: bool
  p_have_gbt :: bool
  p_allow_getwork :: bool
  p_stratum_q :: "string list"
  p_longpoll_q :: "string list"

definition header_info_zero :: header_info where
  "header_info_zero = \<lparr>h_lp_path = None, h_reason = None, h_stratum_url = None, h_content_length = 0\<rparr>"

definition data_buffer_zero :: data_buffer where
  "data_buffer_zero = \<lparr>db_buf = None, db_len = 0, db_allocated = 0\<rparr>"

text \<open>A header can switch the miner to Stratum or start long polling.\<close>

definition stratum_prefix :: "string \<Rightarrow> bool" where
  "stratum_prefix url \<longleftrightarrow> strcaseeq (take 14 url) ''stratum+tcp://''"

definition header_switches :: "header_info \<Rightarrow> rpc_env \<Rightarrow> rpc_env" where
  "header_switches hi env =
     (let env = (case h_stratum_url hi of
                   Some url \<Rightarrow>
                     if p_want_stratum env \<and> stratum_prefix url
                     then env\<lparr>p_have_stratum := True, p_stratum_q := p_stratum_q env @ [url]\<rparr> else env
                 | None \<Rightarrow> env)
      in case h_lp_path hi of
           Some path \<Rightarrow>
             if \<not> p_have_longpoll env \<and> p_want_longpoll env \<and> \<not> p_have_gbt env \<and> p_allow_getwork env \<and> \<not> p_have_stratum env
             then env\<lparr>p_have_longpoll := True, p_longpoll_q := p_longpoll_q env @ [path]\<rparr> else env
         | None \<Rightarrow> env)"

text \<open>\<open>json_string\<close> and \<open>json_object_set_new\<close>: text that is not UTF-8 makes no string, and a null value sets nothing.\<close>

definition json_string :: "string \<Rightarrow> json option" where
  "json_string s = (if utf8_check_string (map of_char s) then Some (JString s) else None)"

fun json_object_set_new :: "json \<Rightarrow> string \<Rightarrow> json option \<Rightarrow> json" where
  "json_object_set_new (JObject ms) key (Some v) =
     (if utf8_check_string (map of_char key) then JObject (AList.update key v ms) else JObject ms)"
| "json_object_set_new j key v = j"

text \<open>The answer is used when it has a result and no error.\<close>

definition rpc_answer :: "string option \<Rightarrow> json \<Rightarrow> json option" where
  "rpc_answer reason val =
     (let res_val = json_object_get (Some val) ''result''; err_val = json_object_get (Some val) ''error''
      in if res_val = None \<or> (err_val \<noteq> None \<and> \<not> json_is_null err_val) then None
         else Some (case reason of None \<Rightarrow> val | Some r \<Rightarrow> json_object_set_new val ''reject-reason'' (json_string r)))"

text \<open>
  \<open>json_rpc_call\<close>: the answer, the error code for the caller and the changed settings. A failed write ends
  the transfer with \<open>CURLE_WRITE_ERROR\<close>, which is 23.
\<close>

definition json_rpc_call :: "(string option \<Rightarrow> json option) \<Rightarrow> bool \<Rightarrow> bool \<Rightarrow> bool \<Rightarrow> http_event list \<Rightarrow> int \<Rightarrow> int
    \<Rightarrow> rpc_env \<Rightarrow> (json option \<times> int \<times> rpc_env) option" where
  "json_rpc_call loads long_long calloc_ok quiet_404 events curl_rc http_rc env =
     (case transfer events header_info_zero data_buffer_zero of
        None \<Rightarrow> None
      | Some (whole, hi, db) \<Rightarrow>
          (let rc = (if whole then curl_rc else 23)
           in if rc \<noteq> 0 then Some (None, if quiet_404 \<and> http_rc = 404 then 0 else rc, env)
              else (let env = header_switches hi env
                    in case db_buf db of
                         None \<Rightarrow> Some (None, rc, env)
                       | Some m \<Rightarrow>
                           (case loads (hack_json_numbers long_long calloc_ok (cstr m)) of
                              None \<Rightarrow> Some (None, rc, env)
                            | Some val \<Rightarrow> Some (rpc_answer (h_reason hi) val, rc, env)))))"

fun event_ok :: "http_event \<Rightarrow> bool" where
  "event_ok (Header ok line) = ok"
| "event_ok (Body ok junk ptr) = (ok \<and> NUL \<notin> set ptr)"

fun event_body :: "http_event \<Rightarrow> string" where
  "event_body (Body ok junk ptr) = ptr"
| "event_body _ = []"

fun event_line :: "http_event \<Rightarrow> string list" where
  "event_line (Header ok line) = [line]"
| "event_line _ = []"

definition has_body :: "http_event list \<Rightarrow> bool" where
  "has_body es \<longleftrightarrow> list_ex (\<lambda>e. case e of Body _ _ _ \<Rightarrow> True | _ \<Rightarrow> False) es"

lemma transfer_collects:
  "\<lbrakk>list_all event_ok es; db_ok db s; length s + length (concat (map event_body es)) < 2 ^ 63; NUL \<notin> set s\<rbrakk> \<Longrightarrow>
   \<exists>db'. transfer es hi db = Some (True, fold (resp_hdr_cb True) (concat (map event_line es)) hi, db')
     \<and> db_ok db' (s @ concat (map event_body es)) \<and> (db_buf db' = None \<longleftrightarrow> db_buf db = None \<and> \<not> has_body es)"
proof (induction es hi db arbitrary: s rule: transfer.induct)
  case (1 hi db)
  then show ?case by (simp add: has_body_def)
next
  case (2 ok line es hi db)
  then show ?case by (simp add: has_body_def)
next
  case (3 ok junk ptr es hi db)
  then have len: "length s + length ptr < 2 ^ 63" and ok: "ok" "NUL \<notin> set ptr" by auto
  obtain db1 where db1: "all_data_cb True junk (h_content_length hi) ptr db = Some (of_nat (length ptr), db1)"
    "db_ok db1 (s @ ptr)"
    using all_data_cb_step(1) [OF 3(3) len, of junk "h_content_length hi"] by blast
  have "db_buf db1 \<noteq> None"
    using db1(1) by (auto simp: all_data_cb_def Let_def split: if_splits option.splits)
  then show ?case
    using 3(1) [of "(of_nat (length ptr), db1)" "of_nat (length ptr)" db1 "s @ ptr"] 3(2-5) db1 ok
    by (auto simp: has_body_def)
qed

lemma db_ok_cstr: "\<lbrakk>db_ok db s; db_buf db = Some m; NUL \<notin> set s\<rbrakk> \<Longrightarrow> cstr m = s"
proof -
  assume a: "db_ok db s" "db_buf db = Some m" "NUL \<notin> set s"
  then have "take (length s) m = s" "m ! length s = NUL" "length s < length m" by (simp_all add: db_ok_def)
  then have "m = s @ NUL # drop (Suc (length s)) m" by (metis id_take_nth_drop)
  then show "cstr m = s" using cstr_cut [OF a(3)] by metis
qed

lemma transfer_safe:
  "\<lbrakk>db_ok db s; length s + length (concat (map event_body es)) < 2 ^ 63\<rbrakk> \<Longrightarrow> transfer es hi db \<noteq> None"
proof (induction es hi db arbitrary: s rule: transfer.induct)
  case (3 ok junk ptr es hi db)
  then have len: "length s + length ptr < 2 ^ 63" by simp
  obtain n db1 where db1: "all_data_cb ok junk (h_content_length hi) ptr db = Some (n, db1)"
    "n = of_nat (length ptr) \<and> db_ok db1 (s @ ptr) \<or> n = 0 \<and> db1 = db"
    using all_data_cb_step [OF 3(2) len, of junk "h_content_length hi"] by (cases ok) auto
  show ?case
  proof (cases "n = of_nat (length ptr) \<and> db_ok db1 (s @ ptr)")
    case True
    then show ?thesis using 3(1) [of "(n, db1)" n db1 "s @ ptr"] 3(3) db1 by simp
  next
    case False
    then have n: "n = 0" "db1 = db" using db1(2) by auto
    show ?thesis
    proof (cases "ptr = []")
      case True
      then show ?thesis using 3(1) [of "(n, db1)" n db1 s] 3 db1 n by simp
    next
      case False
      then have "(0 :: u64) \<noteq> of_nat (length ptr)" using len unat_of_nat_u64 [of "length ptr"] by auto
      then show ?thesis using db1 n by simp
    qed
  qed
qed simp_all

text \<open>A header line as servers write it.\<close>

lemma header_parts_line:
  assumes "key \<noteq> []" "CHR '':'' \<notin> set key" "NUL \<notin> set key" "NUL \<notin> set val" "val \<noteq> []"
    and "\<not> is_space (hd val)" "\<not> is_space (last val)" "list_all is_space before" "list_all is_space after"
  shows "header_parts (key @ CHR '':'' # before @ val @ after) = Some (key, val)"
proof -
  let ?line = "key @ CHR '':'' # before @ val @ after"
  have t: "takeWhile (\<lambda>c. c \<noteq> CHR '':'') ?line = key"
    using assms(2) by (induction key) auto
  have k: "cstr (take (length key) ?line) = key" using cstr_id [OF assms(3)] by simp
  have d: "dropWhile is_space (drop (length key + 1) ?line) = val @ after"
    using assms(5,6,8) by (induction before) (auto simp: neq_Nil_conv)
  have z: "NUL \<notin> set after" using assms(9) by (auto simp: list_all_iff is_space_def)
  have "cstr (val @ after) = val @ after" using assms(4) z by (intro cstr_id) auto
  moreover have "dropWhile is_space (rev (val @ after)) = rev val"
  proof -
    have "dropWhile is_space (rev after @ rev val) = dropWhile is_space (rev val)"
      using assms(9) by (intro dropWhile_append2) (auto simp: list_all_iff)
    moreover have "dropWhile is_space (rev val) = rev val"
      using assms(5,7) by (cases val rule: rev_cases) simp_all
    ultimately show ?thesis by simp
  qed
  ultimately show ?thesis using t k d assms(1,5) hd_in_set [OF assms(5)] assms(6) by (auto simp: header_parts_def Let_def)
qed

text \<open>C32: the callbacks never write outside the buffer, whatever the server sends and whichever allocation fails.
  An undisturbed transfer gives the caller the parsed text of the whole body, repaired, when it has a
  result and no error, and acts on the headers received; a failed one gives nothing and changes nothing.\<close>

theorem json_rpc_call_correct:
  assumes "length (concat (map event_body es)) < 2 ^ 63"
  shows "json_rpc_call loads ll calloc_ok quiet es rc http env \<noteq> None
    \<and> (rc \<noteq> 0 \<longrightarrow> (\<exists>err. json_rpc_call loads ll calloc_ok quiet es rc http env = Some (None, err, env)))
    \<and> (list_all event_ok es \<and> has_body es \<longrightarrow>
        (let hi = fold (resp_hdr_cb True) (concat (map event_line es)) header_info_zero;
             text = hack_loop ll 0 False False [] (concat (map event_body es))
         in json_rpc_call loads ll True quiet es 0 http env
           = Some (case loads (Some text) of None \<Rightarrow> None | Some val \<Rightarrow> rpc_answer (h_reason hi) val, 0, header_switches hi env)))"
proof -
  have start: "db_ok data_buffer_zero []" by (simp add: db_ok_def data_buffer_zero_def)
  have safe: "transfer es header_info_zero data_buffer_zero \<noteq> None"
    using transfer_safe [OF start] assms by simp
  then have 1: "json_rpc_call loads ll calloc_ok quiet es rc http env \<noteq> None"
    by (auto simp: json_rpc_call_def Let_def split: option.splits)
  have 2: "rc \<noteq> 0 \<longrightarrow> (\<exists>err. json_rpc_call loads ll calloc_ok quiet es rc http env = Some (None, err, env))"
    using safe by (auto simp: json_rpc_call_def Let_def)
  have 3: "json_rpc_call loads ll True quiet es 0 http env
        = Some (case loads (Some (hack_loop ll 0 False False [] (concat (map event_body es)))) of
                  None \<Rightarrow> None
                | Some val \<Rightarrow> rpc_answer (h_reason (fold (resp_hdr_cb True) (concat (map event_line es)) header_info_zero)) val,
            0, header_switches (fold (resp_hdr_cb True) (concat (map event_line es)) header_info_zero) env)"
    if es: "list_all event_ok es" "has_body es"
  proof -
    let ?hi = "fold (resp_hdr_cb True) (concat (map event_line es)) header_info_zero"
    obtain db where db: "transfer es header_info_zero data_buffer_zero = Some (True, ?hi, db)"
      "db_ok db (concat (map event_body es))" "db_buf db \<noteq> None"
      using transfer_collects [OF es(1) start, of header_info_zero] assms es(2) by auto
    then obtain m where m: "db_buf db = Some m" by blast
    have "NUL \<notin> set (concat (map event_body es))"
    proof
      assume "NUL \<in> set (concat (map event_body es))"
      then obtain e where "e \<in> set es" "NUL \<in> set (event_body e)" by auto
      moreover from this have "event_ok e" using es(1) by (simp add: list_all_iff)
      ultimately show False by (cases e rule: http_event.exhaust) simp_all
    qed
    then have "cstr m = concat (map event_body es)" using db_ok_cstr [OF db(2) m] by blast
    then show ?thesis using db m by (simp add: json_rpc_call_def hack_json_numbers_def split: option.split)
  qed
  show ?thesis using 1 2 3 by (simp add: Let_def)
qed

definition sample_events :: "http_event list" where
  "sample_events = [Header True ''X-Stratum: stratum+tcp://pool:3333'', Body True (\<lambda>_. NUL) ''[12345'', Body True (\<lambda>_. NUL) ''678901]'']"

definition sample_rpc_env :: rpc_env where
  "sample_rpc_env = \<lparr>p_want_stratum = True, p_have_stratum = False, p_want_longpoll = True, p_have_longpoll = False,
     p_have_gbt = True, p_allow_getwork = True, p_stratum_q = [], p_longpoll_q = []\<rparr>"

lemma json_rpc_call_correct_witness:
  "json_rpc_call (\<lambda>s. if s = Some ''[12345678901.0]'' then Some (JObject [(''result'', JTrue)]) else None) False True False sample_events 0 200 sample_rpc_env
    = Some (Some (JObject [(''result'', JTrue)]), 0,
        sample_rpc_env\<lparr>p_have_stratum := True, p_stratum_q := [''stratum+tcp://pool:3333'']\<rparr>)"
proof -
  have ev: "length (concat (map event_body sample_events)) < 2 ^ 63" "list_all event_ok sample_events \<and> has_body sample_events"
    by (simp_all add: sample_events_def has_body_def)
  have "header_parts (''X-Stratum'' @ CHR '':'' # '' '' @ ''stratum+tcp://pool:3333'' @ []) = Some (''X-Stratum'', ''stratum+tcp://pool:3333'')"
    by (rule header_parts_line) (simp_all add: is_space_def)
  then have "fold (resp_hdr_cb True) (concat (map event_line sample_events)) header_info_zero
      = header_info_zero\<lparr>h_stratum_url := Some ''stratum+tcp://pool:3333''\<rparr>"
    by (simp add: sample_events_def resp_hdr_cb_def strcaseeq_def ascii_lower_def)
  moreover have "hack_loop False 0 False False [] (concat (map event_body sample_events)) = ''[12345678901.0]''"
    unfolding sample_events_def by code_simp
  moreover have "header_switches (header_info_zero\<lparr>h_stratum_url := Some ''stratum+tcp://pool:3333''\<rparr>) sample_rpc_env
      = sample_rpc_env\<lparr>p_have_stratum := True, p_stratum_q := [''stratum+tcp://pool:3333'']\<rparr>"
    by (simp add: header_switches_def header_info_zero_def sample_rpc_env_def stratum_prefix_def strcaseeq_def)
  moreover have "rpc_answer None (JObject [(''result'', JTrue)]) = Some (JObject [(''result'', JTrue)])"
    by (simp add: rpc_answer_def)
  ultimately show ?thesis
    using json_rpc_call_correct [OF ev(1), of "\<lambda>s. if s = Some ''[12345678901.0]'' then Some (JObject [(''result'', JTrue)]) else None"
        False True False 0 200 sample_rpc_env] ev(2)
    by (simp add: Let_def header_info_zero_def)
qed

end
