(* ===== verification/Threads.thy ===== *)
theory Threads
  imports Options
begin

text \<open>
  The long-polling thread and the Stratum thread of \<open>cpu-miner.c\<close>: \<open>longpoll_thread\<close>, \<open>stratum_thread\<close>,
  \<open>stratum_handle_response\<close>, and the release and copy of work. Each loop is given as its iterations, with the clock an
  input of each; the threads share the state \<open>server\<close>.
\<close>

section \<open>Shared state\<close>

text \<open>
  The pointers of a work; a pointer that has been released but not replaced is in \<open>v_freed\<close>, while the work still
  holds its old text.
\<close>

datatype work_ptr = Ptr_txs | Ptr_workid | Ptr_job_id | Ptr_xnonce2

record server =
  v_miner :: miner
  v_work_time :: int
  v_freed :: "work_ptr set"
  v_have_longpoll :: bool
  v_workio_stopped :: bool

definition work_ptrs :: "work \<Rightarrow> work_ptr set" where
  "work_ptrs w = (if w_txs w \<noteq> None then {Ptr_txs} else {}) \<union> (if w_workid w \<noteq> None then {Ptr_workid} else {})
     \<union> (if w_job_id w \<noteq> None then {Ptr_job_id} else {}) \<union> (if w_xnonce2 w \<noteq> [] then {Ptr_xnonce2} else {})"

text \<open>\<open>work_free\<close>: \<open>None\<close> when a pointer is released a second time.\<close>

definition work_free :: "work \<Rightarrow> work_ptr set \<Rightarrow> work_ptr set option" where
  "work_free w freed = (if work_ptrs w \<inter> freed \<noteq> {} then None else Some (work_ptrs w))"

text \<open>\<open>work_copy\<close>: \<open>None\<close> when a released pointer is read.\<close>

definition work_copy :: "work \<Rightarrow> work_ptr set \<Rightarrow> work option" where
  "work_copy src freed = (if work_ptrs src \<inter> freed \<noteq> {} then None else Some src)"

text \<open>
  A decoder writes into a released work \<open>old\<close>: \<open>new\<close> is what it makes of the work without pointers. Pointers it does
  not replace keep pointing to released memory.
\<close>

definition clear_ptrs :: "work \<Rightarrow> work" where
  "clear_ptrs w = w\<lparr>w_txs := None, w_workid := None, w_job_id := None, w_xnonce2 := []\<rparr>"

definition keep_ptrs :: "work \<Rightarrow> work \<Rightarrow> work" where
  "keep_ptrs old new =
     new\<lparr>w_txs := (if w_txs new = None then w_txs old else w_txs new),
         w_workid := (if w_workid new = None then w_workid old else w_workid new),
         w_job_id := (if w_job_id new = None then w_job_id old else w_job_id new),
         w_xnonce2 := (if w_xnonce2 new = [] then w_xnonce2 old else w_xnonce2 new)\<rparr>"

section \<open>Long polling\<close>

text \<open>The address to poll: a path is taken relative to the server. \<open>None\<close>: the byte before an empty address is read.\<close>

definition lp_url :: "string \<Rightarrow> string \<Rightarrow> string option" where
  "lp_url rpc_url hdr_path =
     (if strstr hdr_path ''://'' \<noteq> None then Some hdr_path
      else if rpc_url = [] then None
      else (let copy_start = (if hdr_path \<noteq> [] \<and> hd hdr_path = CHR ''/'' then tl hdr_path else hdr_path);
                need_slash = (last rpc_url \<noteq> CHR ''/'')
            in Some (rpc_url @ (if need_slash then ''/'' else []) @ copy_start)))"

definition gbt_lp_req :: "string \<Rightarrow> string" where
  "gbt_lp_req lp_id =
     ''{\"method\": \"getblocktemplate\", \"params\": [{\"capabilities\": ''
     @ ''[\"coinbasetxn\", \"coinbasevalue\", \"longpoll\", \"workid\"]'' @ '', \"rules\": '' @ ''[\"segwit\"]''
     @ '', \"longpollid\": \"'' @ lp_id @ ''\"}], \"id\":0}'' @ CRLF"

text \<open>New work was pushed: the old one is released, and the answer decoded in its place.\<close>

definition longpoll_push :: "int \<Rightarrow> json option \<Rightarrow> server \<Rightarrow> server io" where
  "longpoll_push now res v =
     (let m = v_miner v; g = m_g_work m
      in case work_free g (v_freed v) of
           None \<Rightarrow> Broken
         | Some freed \<Rightarrow>
             (case (if e_have_gbt (m_env m)
                    then gbt_work_decode (gbt_settings m) res (clear_ptrs g) (m_env m)
                    else (case work_decode res (clear_ptrs g) of (rc, w) \<Rightarrow> Some (rc, w, m_env m))) of
                None \<Rightarrow> Broken
              | Some (rc, new, env) \<Rightarrow>
                  (let v = v\<lparr>v_miner := m\<lparr>m_g_work := keep_ptrs g new, m_env := env\<rparr>, v_freed := freed - work_ptrs new\<rparr>
                   in Done (if rc then v\<lparr>v_work_time := now, v_miner := restart_threads (v_miner v)\<rparr> else v))))"

datatype lp_end = Lp_again | Lp_start | Lp_out

text \<open>
  One pass of the loop. A time-out of the call (\<open>CURLE_OPERATION_TIMEDOUT\<close>, 28) polls again; any other failure waits for
  a new path.
\<close>

definition longpoll_pass :: "int \<Rightarrow> server \<Rightarrow> (lp_end \<times> server) io" where
  "longpoll_pass now v =
     (let m = v_miner v
      in io_bind (if e_have_gbt (m_env m)
                  then (case e_lp_id (m_env m) of None \<Rightarrow> Broken | Some lp_id \<Rightarrow> Done (gbt_lp_req lp_id))
                  else Done getwork_req) (\<lambda>req.
         io_bind (json_rpc req m) (\<lambda>(r, m).
           let v = v\<lparr>v_miner := m\<rparr>
           in if m_have_stratum m then Done (Lp_out, v)
              else (case r_val r of
                      Some val \<Rightarrow>
                        (let res = json_object_get (Some val) ''result'';
                             soval = json_object_get res ''submitold'';
                             m = m\<lparr>m_submit_old := (soval \<noteq> None \<and> json_is_true soval)\<rparr>
                         in io_bind (longpoll_push now res (v\<lparr>v_miner := m\<rparr>)) (\<lambda>v. Done (Lp_again, v)))
                    | None \<Rightarrow>
                        (let v = v\<lparr>v_work_time := v_work_time v - 60, v_miner := restart_threads m\<rparr>
                         in if r_err r = 28 then Done (Lp_again, v)
                            else Done (Lp_start, v\<lparr>v_have_longpoll := False\<rparr>))))))"

section \<open>Stratum\<close>

text \<open>An answer to a submission: the reason for a rejection is only printed.\<close>

definition stratum_handle_response :: "stratum_env \<Rightarrow> string \<Rightarrow> miner \<Rightarrow> (bool \<times> miner) io" where
  "stratum_handle_response env buf m =
     (let val = a_loads env buf;
          res_val = json_object_get val ''result'';
          id_val = json_object_get val ''id''
      in if val = None \<or> id_val = None \<or> json_is_null id_val \<or> res_val = None then Done (False, m)
         else io_bind (share_result (json_is_true res_val) m) (\<lambda>m. Done (True, m)))"

text \<open>The state of the thread: connecting, after a number of failures, serving a connection, or ended.\<close>

datatype st_phase = Connecting nat | Serving | Ended

text \<open>One attempt to connect, with what is done when it fails.\<close>

definition stratum_open :: "stratum_env \<Rightarrow> string \<Rightarrow> string \<Rightarrow> sctx \<Rightarrow> net \<Rightarrow> (bool \<times> sctx \<times> net) io" where
  "stratum_open env user pass s net =
     io_bind (stratum_connect s (s_url s) net) (\<lambda>(ok, s, net).
       if \<not> ok then Done (False, s, net)
       else io_bind (stratum_subscribe env s net) (\<lambda>(ok, s, net).
         if \<not> ok then Done (False, s, net) else stratum_authorize env s user pass net))"

definition stratum_attempt :: "stratum_env \<Rightarrow> opts \<Rightarrow> nat \<Rightarrow> server \<Rightarrow> (st_phase \<times> server) io" where
  "stratum_attempt env opt failures v =
     (let m = restart_threads (v_miner v); v = v\<lparr>v_work_time := 0\<rparr>
      in io_bind (stratum_open env (o_user opt) (o_pass opt) (m_stratum m) (m_net m)) (\<lambda>(ok, s, net).
           if ok then Done (if s_curl s then Serving else Connecting failures, v\<lparr>v_miner := m\<lparr>m_stratum := s, m_net := net\<rparr>\<rparr>)
           else (let v = v\<lparr>v_miner := m\<lparr>m_stratum := stratum_disconnect s, m_net := net\<rparr>\<rparr>
                 in if 0 \<le> o_retries opt \<and> o_retries opt < int (failures + 1)
                    then Done (Ended, v\<lparr>v_workio_stopped := True\<rparr>)
                    else Done (Connecting (if 0 \<le> o_retries opt then failures + 1 else failures), v))))"

text \<open>
  New work from the job, when the job is not the one of the current work; comparing with a missing
  job name reads a null pointer.
\<close>

definition stratum_take_job :: "int \<Rightarrow> server \<Rightarrow> server io" where
  "stratum_take_job now v =
     (let m = v_miner v; s = m_stratum m
      in case j_job_id (s_job s) of
           None \<Rightarrow> Done v
         | Some job_id \<Rightarrow>
             if v_work_time v \<noteq> 0 \<and> w_job_id (m_g_work m) = None then Broken
             else if v_work_time v \<noteq> 0 \<and> w_job_id (m_g_work m) = Some job_id then Done v
             else (case stratum_gen_work s (m_g_work m) of
                     None \<Rightarrow> Broken
                   | Some (s, w) \<Rightarrow>
                       (let m = m\<lparr>m_stratum := s, m_g_work := w\<rparr>
                        in Done (v\<lparr>v_work_time := now,
                                   v_miner := (if j_clean (s_job s) then restart_threads m else m)\<rparr>))))"

text \<open>One line from the server, handled as a call or as an answer.\<close>

definition stratum_serve :: "stratum_env \<Rightarrow> server \<Rightarrow> server io" where
  "stratum_serve env v =
     (let m = v_miner v
      in io_bind (stratum_socket_full (m_stratum m) (m_net m)) (\<lambda>(full, net).
           io_bind (if full then stratum_recv_line (m_stratum m) net else Done (None, m_stratum m, net)) (\<lambda>(line, s, net).
             case line of
               None \<Rightarrow> Done (v\<lparr>v_miner := m\<lparr>m_stratum := stratum_disconnect s, m_net := net\<rparr>\<rparr>)
             | Some buf \<Rightarrow>
                 io_bind (stratum_handle_method env s buf net) (\<lambda>(ret, s, net).
                   let m = m\<lparr>m_stratum := s, m_net := net\<rparr>
                   in if ret then Done (v\<lparr>v_miner := m\<rparr>)
                      else io_bind (stratum_handle_response env buf m) (\<lambda>(_, m). Done (v\<lparr>v_miner := m\<rparr>))))))"

definition stratum_thread_pass :: "stratum_env \<Rightarrow> opts \<Rightarrow> int \<Rightarrow> st_phase \<times> server \<Rightarrow> (st_phase \<times> server) io" where
  "stratum_thread_pass env opt now pv =
     (case pv of
        (Ended, v) \<Rightarrow> Done (Ended, v)
      | (Connecting failures, v) \<Rightarrow>
          if s_curl (m_stratum (v_miner v)) then Done (Serving, v) else stratum_attempt env opt failures v
      | (Serving, v) \<Rightarrow>
          io_bind (stratum_take_job now v) (\<lambda>v.
            io_bind (stratum_serve env v) (\<lambda>v.
              Done (if s_curl (m_stratum (v_miner v)) then Serving else Connecting 0, v))))"

section \<open>The Stratum thread among the others\<close>

text \<open>The thread's passes, interleaved with mining threads that make the next work from the same job.\<close>

inductive stratum_sys_step :: "stratum_env \<Rightarrow> opts \<Rightarrow> st_phase \<times> server \<Rightarrow> st_phase \<times> server \<Rightarrow> bool" for env opt where
  thread: "stratum_thread_pass env opt now pv = Done pv' \<Longrightarrow> stratum_sys_step env opt pv pv'"
| gen: "stratum_gen_work (m_stratum (v_miner v)) (m_g_work (v_miner v)) = Some (s, w) \<Longrightarrow>
     stratum_sys_step env opt (p, v) (p, v\<lparr>v_miner := (v_miner v)\<lparr>m_stratum := s, m_g_work := w\<rparr>\<rparr>)"

inductive_cases stratum_sys_stepE: "stratum_sys_step env opt pv pv'"

definition stratum_init :: "server \<Rightarrow> bool" where
  "stratum_init v \<longleftrightarrow> session_ok (m_stratum (v_miner v)) \<and> v_work_time v = 0 \<and> \<not> v_workio_stopped v"

text \<open>
  The session is well-formed, current work has a job name, the failures counted are within the limit, and the thread has ended exactly when it
  has told the work I/O thread to stop.
\<close>

definition thread_ok :: "opts \<Rightarrow> st_phase \<times> server \<Rightarrow> bool" where
  "thread_ok opt pv \<longleftrightarrow>
     (case pv of (p, v) \<Rightarrow>
        session_ok (m_stratum (v_miner v))
        \<and> (v_work_time v \<noteq> 0 \<longrightarrow> w_job_id (m_g_work (v_miner v)) \<noteq> None)
        \<and> (v_workio_stopped v \<longleftrightarrow> p = Ended)
        \<and> (case p of Connecting failures \<Rightarrow> int failures \<le> max 0 (o_retries opt) | Serving \<Rightarrow> s_curl (m_stratum (v_miner v)) | Ended \<Rightarrow> 0 \<le> o_retries opt))"

lemma open_session:
  "stratum_open env user pass s net = Done (ok, s', net') \<Longrightarrow> session_ok s \<Longrightarrow> session_ok s'"
  unfolding stratum_open_def
  by (auto simp: io_bind_Done split: if_split_asm dest: connect_session subscribe_session authorize_session)

lemma gen_work_names: "stratum_gen_work s w = Some (s', w') \<Longrightarrow>
   (\<exists>name. j_job_id (s_job s) = Some name \<and> w_job_id w' = Some name) \<and> s_curl s' = s_curl s"
  by (auto simp: stratum_gen_work_def Let_def split: option.splits if_split_asm)

lemma restart_keeps [simp]:
  "m_stratum (restart_threads m) = m_stratum m" "m_g_work (restart_threads m) = m_g_work m" "m_net (restart_threads m) = m_net m"
  by (simp_all add: restart_threads_def)

lemma take_job_Done:
  assumes "stratum_take_job now v = Done v'" "session_ok (m_stratum (v_miner v))"
    and "v_work_time v \<noteq> 0 \<longrightarrow> w_job_id (m_g_work (v_miner v)) \<noteq> None"
  shows "session_ok (m_stratum (v_miner v')) \<and> (v_work_time v' \<noteq> 0 \<longrightarrow> w_job_id (m_g_work (v_miner v')) \<noteq> None)
    \<and> v_workio_stopped v' = v_workio_stopped v
    \<and> (j_job_id (s_job (m_stratum (v_miner v))) \<noteq> None \<longrightarrow> w_job_id (m_g_work (v_miner v')) = j_job_id (s_job (m_stratum (v_miner v))))"
  using assms unfolding stratum_take_job_def Let_def
  by (auto split: option.splits if_split_asm dest: gen_work_session gen_work_names)

lemma share_result_frame: "share_result result m = Done m' \<Longrightarrow> m_stratum m' = m_stratum m \<and> m_g_work m' = m_g_work m"
  by (auto simp: share_result_def Let_def split: if_split_asm list.splits option.splits)

lemma handle_response_frame:
  "stratum_handle_response env buf m = Done (ret, m') \<Longrightarrow> m_stratum m' = m_stratum m \<and> m_g_work m' = m_g_work m"
  by (auto simp: stratum_handle_response_def io_bind_Done Let_def split: if_split_asm dest: share_result_frame)

lemma serve_Done:
  assumes "stratum_serve env v = Done v'" "session_ok (m_stratum (v_miner v))"
  shows "session_ok (m_stratum (v_miner v')) \<and> m_g_work (v_miner v') = m_g_work (v_miner v)
    \<and> v_work_time v' = v_work_time v \<and> v_workio_stopped v' = v_workio_stopped v"
proof -
  obtain full net line s net' where r: "stratum_socket_full (m_stratum (v_miner v)) (m_net (v_miner v)) = Done (full, net)"
    "(if full then stratum_recv_line (m_stratum (v_miner v)) net else Done (None, m_stratum (v_miner v), net)) = Done (line, s, net')"
    and rest: "(case line of None \<Rightarrow> Done (v\<lparr>v_miner := (v_miner v)\<lparr>m_stratum := stratum_disconnect s, m_net := net'\<rparr>\<rparr>)
        | Some buf \<Rightarrow> io_bind (stratum_handle_method env s buf net') (\<lambda>(ret, s, net).
            let m = (v_miner v)\<lparr>m_stratum := s, m_net := net\<rparr>
            in if ret then Done (v\<lparr>v_miner := m\<rparr>)
               else io_bind (stratum_handle_response env buf m) (\<lambda>(_, m). Done (v\<lparr>v_miner := m\<rparr>)))) = Done v'"
    using assms(1) unfolding stratum_serve_def Let_def by (auto simp: io_bind_Done)
  have s: "session_ok s" using r(2) assms(2) by (auto split: if_split_asm dest: recv_line_session)
  show ?thesis
  proof (cases line)
    case None
    then show ?thesis using rest s disconnect_session by auto
  next
    case (Some buf)
    obtain ret s1 net1 where h: "stratum_handle_method env s buf net' = Done (ret, s1, net1)"
      using rest Some by (auto simp: io_bind_Done)
    then have "session_ok s1" using s handle_method_session by blast
    then show ?thesis
      using rest Some h by (auto simp: Let_def io_bind_Done split: if_split_asm dest!: handle_response_frame)
  qed
qed

lemma pass_ok:
  assumes "stratum_thread_pass env opt now pv = Done pv'" "thread_ok opt pv"
  shows "thread_ok opt pv'"
proof -
  obtain p v where pv: "pv = (p, v)" by (cases pv)
  show ?thesis
  proof (cases p)
    case (Connecting failures)
    show ?thesis
    proof (cases "s_curl (m_stratum (v_miner v))")
      case True
      then show ?thesis using assms Connecting by (auto simp: pv stratum_thread_pass_def thread_ok_def)
    next
      case False
      then have a: "stratum_attempt env opt failures v = Done pv'"
        using assms(1) Connecting by (simp add: pv stratum_thread_pass_def)
      obtain ok s net where at: "stratum_open env (o_user opt) (o_pass opt) (m_stratum (v_miner v)) (m_net (v_miner v)) = Done (ok, s, net)"
        using a by (auto simp: stratum_attempt_def io_bind_Done Let_def)
      have "session_ok (m_stratum (v_miner v))" using assms(2) by (simp add: pv thread_ok_def)
      then have "session_ok s" "session_ok (stratum_disconnect s)" using open_session [OF at] disconnect_session by blast+
      then show ?thesis
        using a at assms(2) Connecting
        by (cases ok) (auto simp: pv stratum_attempt_def thread_ok_def Let_def split: if_split_asm)
    qed
  next
    case Serving
    obtain v1 v2 where t: "stratum_take_job now v = Done v1" and r: "stratum_serve env v1 = Done v2"
      and e: "pv' = (if s_curl (m_stratum (v_miner v2)) then Serving else Connecting 0, v2)"
      using assms(1) Serving by (auto simp: pv stratum_thread_pass_def io_bind_Done)
    show ?thesis
      using take_job_Done [OF t] serve_Done [OF r] assms(2) Serving by (auto simp: pv e thread_ok_def)
  next
    case Ended
    then show ?thesis using assms by (simp add: pv stratum_thread_pass_def)
  qed
qed

lemma reachable_ok:
  assumes "(stratum_sys_step env opt)\<^sup>*\<^sup>* (Connecting 0, v0) pv" "stratum_init v0"
  shows "thread_ok opt pv"
  using assms(1)
proof (induction rule: rtranclp_induct)
  case base
  then show ?case using assms(2) by (simp add: thread_ok_def stratum_init_def)
next
  case (step pv pv')
  from step.hyps(2) show ?case
  proof (cases rule: stratum_sys_step.cases)
    case (thread now)
    then show ?thesis using pass_ok step.IH by blast
  next
    case (gen v s w p)
    then show ?thesis using step.IH gen_work_session [OF gen(3)] gen_work_names [OF gen(3)]
      by (auto simp: thread_ok_def split: st_phase.splits)
  qed
qed


lemma take_job_outcome:
  assumes "thread_ok opt (p, v)" "j_job_id (s_job (m_stratum (v_miner v))) = Some name"
  shows "stratum_take_job now v = Broken \<longleftrightarrow>
      \<not> (v_work_time v \<noteq> 0 \<and> w_job_id (m_g_work (v_miner v)) = Some name)
      \<and> stratum_gen_work (m_stratum (v_miner v)) (m_g_work (v_miner v)) = None"
    and "stratum_take_job now v = Done v' \<Longrightarrow> w_job_id (m_g_work (v_miner v')) = Some name"
proof -
  have "v_work_time v \<noteq> 0 \<longrightarrow> w_job_id (m_g_work (v_miner v)) \<noteq> None" using assms(1) by (simp add: thread_ok_def)
  then show "stratum_take_job now v = Broken \<longleftrightarrow>
      \<not> (v_work_time v \<noteq> 0 \<and> w_job_id (m_g_work (v_miner v)) = Some name)
      \<and> stratum_gen_work (m_stratum (v_miner v)) (m_g_work (v_miner v)) = None"
    unfolding stratum_take_job_def Let_def assms(2) by (auto split: option.splits)
  show "stratum_take_job now v = Done v' \<Longrightarrow> w_job_id (m_g_work (v_miner v')) = Some name"
    using take_job_Done [of now v v'] assms by (simp add: thread_ok_def)
qed


section \<open>Giving up\<close>

fun stratum_passes :: "stratum_env \<Rightarrow> opts \<Rightarrow> int list \<Rightarrow> st_phase \<times> server \<Rightarrow> (st_phase \<times> server) io" where
  "stratum_passes env opt [] pv = Done pv"
| "stratum_passes env opt (now # nows) pv =
     io_bind (stratum_thread_pass env opt now pv) (stratum_passes env opt nows)"

lemma open_refused:
  assumes "n_conn net = (handle, False) # cs" "11 \<le> length (s_url s)"
  shows "\<exists>s'. stratum_open env user pass s net = Done (False, s', net\<lparr>n_conn := cs\<rparr>) \<and> s_url s' = s_url s \<and> \<not> s_curl s'"
  using assms by (auto simp: stratum_open_def stratum_connect_def Let_def)

lemma passes_Ended: "stratum_passes env opt nows (Ended, v) = Done (Ended, v)"
  by (induction nows) (simp_all add: stratum_thread_pass_def)

lemma refused_passes:
  assumes "n_conn (m_net (v_miner v)) = map (\<lambda>h. (h, False)) handles" "length nows \<le> length handles"
    and "11 \<le> length (s_url (m_stratum (v_miner v)))" "\<not> s_curl (m_stratum (v_miner v))" "int failures \<le> max 0 (o_retries opt)"
    and "\<not> v_workio_stopped v"
  shows "\<exists>p v'. stratum_passes env opt nows (Connecting failures, v) = Done (p, v')
    \<and> (if 0 \<le> o_retries opt \<and> o_retries opt < int (failures + length nows) \<and> nows \<noteq> [] then p = Ended \<and> v_workio_stopped v'
       else p = Connecting (if 0 \<le> o_retries opt then failures + length nows else failures) \<and> \<not> v_workio_stopped v')"
  using assms
proof (induction nows arbitrary: failures v handles)
  case Nil
  then show ?case by simp
next
  case (Cons now nows)
  obtain h hs where handles: "handles = h # hs" using Cons.prems(2) by (cases handles) auto
  obtain s' where at: "stratum_open env (o_user opt) (o_pass opt) (m_stratum (v_miner v)) (m_net (v_miner v))
      = Done (False, s', (m_net (v_miner v))\<lparr>n_conn := map (\<lambda>h. (h, False)) hs\<rparr>)"
    "s_url s' = s_url (m_stratum (v_miner v))" "\<not> s_curl s'"
    using open_refused [of "m_net (v_miner v)" h "map (\<lambda>h. (h, False)) hs" "m_stratum (v_miner v)" env "o_user opt" "o_pass opt"]
      Cons.prems(1,3) handles by auto
  define v1 where "v1 = v\<lparr>v_work_time := 0, v_miner := (restart_threads (v_miner v))\<lparr>m_stratum := s',
      m_net := (m_net (v_miner v))\<lparr>n_conn := map (\<lambda>h. (h, False)) hs\<rparr>\<rparr>\<rparr>"
  have d: "stratum_disconnect s' = s'" using at(3) by (simp add: stratum_disconnect_def)
  have pass: "stratum_thread_pass env opt now (Connecting failures, v) =
      Done (if 0 \<le> o_retries opt \<and> o_retries opt < int (failures + 1) then (Ended, v1\<lparr>v_workio_stopped := True\<rparr>)
            else (Connecting (if 0 \<le> o_retries opt then failures + 1 else failures), v1))"
    using Cons.prems(4) at by (simp add: stratum_thread_pass_def stratum_attempt_def Let_def d v1_def)
  show ?case
  proof (cases "0 \<le> o_retries opt \<and> o_retries opt < int (failures + 1)")
    case True
    then show ?thesis using pass by (simp add: passes_Ended)
  next
    case False
    let ?f = "if 0 \<le> o_retries opt then failures + 1 else failures"
    have "\<exists>p v'. stratum_passes env opt nows (Connecting ?f, v1) = Done (p, v')
      \<and> (if 0 \<le> o_retries opt \<and> o_retries opt < int (?f + length nows) \<and> nows \<noteq> [] then p = Ended \<and> v_workio_stopped v'
         else p = Connecting (if 0 \<le> o_retries opt then ?f + length nows else ?f) \<and> \<not> v_workio_stopped v')"
      using Cons.prems False handles at by (intro Cons.IH [of v1 hs]) (auto simp: v1_def)
    then show ?thesis using pass False by (auto split: if_split_asm)
  qed
qed

text \<open>While the server refuses connections, the Stratum thread counts its failures and, with a limit of \<open>n\<close> retries,
  ends after exactly \<open>n + 1\<close> of them and stops the work I/O thread; without a limit it tries for ever.\<close>

theorem stratum_gives_up:
  assumes "n_conn (m_net (v_miner v)) = map (\<lambda>h. (h, False)) handles" "length nows \<le> length handles"
    and "11 \<le> length (s_url (m_stratum (v_miner v)))" "\<not> s_curl (m_stratum (v_miner v))" "\<not> v_workio_stopped v"
  shows "\<exists>p v'. stratum_passes env opt nows (Connecting 0, v) = Done (p, v')
    \<and> (p = Ended \<longleftrightarrow> 0 \<le> o_retries opt \<and> o_retries opt < int (length nows)) \<and> (v_workio_stopped v' \<longleftrightarrow> p = Ended)"
proof -
  obtain p v' where "stratum_passes env opt nows (Connecting 0, v) = Done (p, v')"
    "if 0 \<le> o_retries opt \<and> o_retries opt < int (0 + length nows) \<and> nows \<noteq> [] then p = Ended \<and> v_workio_stopped v'
       else p = Connecting (if 0 \<le> o_retries opt then 0 + length nows else 0) \<and> \<not> v_workio_stopped v'"
    using refused_passes [OF assms(1-4) _ assms(5), where failures = 0 and opt = opt and env = env] by auto
  then show ?thesis by (cases nows) (auto split: if_split_asm)
qed

definition sample_server :: server where
  "sample_server = \<lparr>v_miner = sample_miner\<lparr>m_net := \<lparr>n_ready = [], n_recv = [], n_send = [], n_conn = [(True, False), (False, False)], n_out = []\<rparr>,
       m_stratum := session_start\<lparr>s_url := ''stratum+tcp://pool:1''\<rparr>, m_g_work := work_zero\<lparr>w_txs := Some ''00''\<rparr>\<rparr>,
     v_work_time = 0, v_freed = {}, v_have_longpoll = False, v_workio_stopped = False\<rparr>"

lemma stratum_gives_up_witness:
  "\<exists>v'. stratum_passes notify_env (default_opts\<lparr>o_retries := 1\<rparr>) [7, 8] (Connecting 0, sample_server) = Done (Ended, v') \<and> v_workio_stopped v'"
  using stratum_gives_up [of sample_server "[True, False]" "[7, 8]" notify_env "default_opts\<lparr>o_retries := 1\<rparr>"]
  by (auto simp: sample_server_def session_start_def default_opts_def)


section \<open>Long polling leaves released pointers\<close>

text \<open>C29: a template pushed to the long-polling thread becomes the current work and restarts the mining threads; but the
  texts of the old work are released first, and one that the new template does not replace, because decoding failed or it has
  no \<open>workid\<close>, stays in place: a mining thread that copies the work reads released memory, and the next push
  releases it again.\<close>

theorem longpoll_push_dangles:
  assumes "e_have_gbt (m_env (v_miner v))" "v_freed v = {}" "w_job_id (m_g_work (v_miner v)) = None" "w_xnonce2 (m_g_work (v_miner v)) = []"
    and "gbt_work_decode (gbt_settings (v_miner v)) res (clear_ptrs (m_g_work (v_miner v))) (m_env (v_miner v)) = Some (rc, new, env)"
  shows "\<exists>v'. longpoll_push now res v = Done v'
    \<and> (v_freed v' = {} \<longleftrightarrow> (w_txs (m_g_work (v_miner v)) = None \<or> w_txs new \<noteq> None) \<and> (w_workid (m_g_work (v_miner v)) = None \<or> w_workid new \<noteq> None))
    \<and> (v_freed v' \<noteq> {} \<longrightarrow> work_copy (m_g_work (v_miner v')) (v_freed v') = None \<and> (\<forall>now' res'. longpoll_push now' res' v' = Broken))
    \<and> (rc \<and> v_freed v' = {} \<longrightarrow> m_g_work (v_miner v') = new \<and> v_work_time v' = now \<and> (\<forall>i. m_restart (v_miner v') i))"
proof -
  define g where "g = m_g_work (v_miner v)"
  define freed where "freed = work_ptrs g - work_ptrs new"
  define v' where "v' = (let u = v\<lparr>v_miner := (v_miner v)\<lparr>m_g_work := keep_ptrs g new, m_env := env\<rparr>, v_freed := freed\<rparr>
      in if rc then u\<lparr>v_work_time := now, v_miner := restart_threads (v_miner u)\<rparr> else u)"
  have push: "longpoll_push now res v = Done v'"
    using assms by (simp add: longpoll_push_def work_free_def g_def freed_def v'_def Let_def)
  have v': "v_freed v' = freed" "m_g_work (v_miner v') = keep_ptrs g new"
    "rc \<longrightarrow> v_work_time v' = now \<and> (\<forall>i. m_restart (v_miner v') i)"
    by (simp_all add: v'_def Let_def restart_threads_def)
  have free: "freed = {} \<longleftrightarrow> (w_txs g = None \<or> w_txs new \<noteq> None) \<and> (w_workid g = None \<or> w_workid new \<noteq> None)"
    using assms(3,4) by (auto simp: freed_def work_ptrs_def g_def)
  have "freed \<subseteq> work_ptrs (keep_ptrs g new)" by (auto simp: freed_def work_ptrs_def keep_ptrs_def split: if_split_asm)
  then have dangle: "freed \<noteq> {} \<longrightarrow> work_ptrs (keep_ptrs g new) \<inter> freed \<noteq> {}" by blast
  have same: "keep_ptrs g new = new" if "freed = {}"
    using that assms(3,4) by (intro work.equality) (auto simp: keep_ptrs_def freed_def work_ptrs_def g_def split: if_split_asm)
  show ?thesis
    using push v' free dangle same
    by (intro exI [of _ v']) (auto simp: g_def work_copy_def longpoll_push_def work_free_def Let_def)
qed

lemma longpoll_push_dangles_witness:
  "\<exists>v'. longpoll_push 7 None sample_server = Done v' \<and> work_copy (m_g_work (v_miner v')) (v_freed v') = None
    \<and> longpoll_push 8 None v' = Broken"
proof -
  have a: "e_have_gbt (m_env (v_miner sample_server))" "v_freed sample_server = {}" "w_job_id (m_g_work (v_miner sample_server)) = None"
    "w_xnonce2 (m_g_work (v_miner sample_server)) = []" "w_txs (m_g_work (v_miner sample_server)) \<noteq> None"
    by (simp_all add: sample_server_def sample_miner_def work_zero_def)
  have d: "gbt_work_decode cfg None w e = Some (False, w, e)" for cfg w e
    by (simp add: gbt_work_decode_def gbt_integer_def)
  have "w_txs (clear_ptrs w) = None" for w by (simp add: clear_ptrs_def)
  then show ?thesis
    using longpoll_push_dangles [OF a(1-4) d, of 7] a(5) by auto
qed

end
