(* ===== verification/Hashtable.thy ===== *)
theory Hashtable
  imports ListHeads "HOL-Library.Word" "HOL-Library.AList" "HOL-Library.Multiset" "HOL-Library.Monad_Syntax"
begin

text \<open>
  The hash table of the bundled \<open>jansson\<close> (\<open>compat/jansson/hashtable.c\<close>) on the explicit store of \<open>ListHeads\<close>: all pairs
  are on one cyclic list, and a bucket is the first and the last of its pairs, which are consecutive. Undefined
  behaviour (a pair that was released or never allocated, a null bucket array, an index past the end of an array) is
  \<open>None\<close>, and so is a loop that does not end.
\<close>

section \<open>The table\<close>

record ('k, 'v) pair =
  p_key :: 'k
  p_value :: 'v
  p_hash :: "32 word"

record bucket =
  bk_first :: addr
  bk_last :: addr

text \<open>
  \<open>h_list\<close> is the address of the list head inside the table, \<open>h_pairs\<close> the allocated pairs by the address of their
  links, and \<open>h_freed\<close> what has been passed to \<open>free_key\<close> and \<open>free_value\<close>.
\<close>

record ('k, 'v) hashtable =
  h_size :: nat
  h_buckets :: "bucket list option"
  h_num_buckets :: nat
  h_list :: addr
  h_links :: list_heap
  h_pairs :: "addr \<Rightarrow> ('k, 'v) pair option"
  h_freed :: "('k + 'v) list"

definition list_insert :: "addr \<Rightarrow> addr \<Rightarrow> list_heap \<Rightarrow> list_heap" where
  "list_insert list node h =
     (let h = set_next node list h;
          h = set_prev node (prv h list) h;
          h = set_next (prv h list) node h
      in set_prev list node h)"

definition list_remove :: "addr \<Rightarrow> list_heap \<Rightarrow> list_heap" where
  "list_remove list h =
     (let h = set_next (prv h list) (nxt h list) h
      in set_prev (nxt h list) (prv h list) h)"

definition bucket_is_empty :: "('k, 'v) hashtable \<Rightarrow> bucket \<Rightarrow> bool" where
  "bucket_is_empty hashtable bucket \<longleftrightarrow> bk_first bucket = h_list hashtable \<and> bk_first bucket = bk_last bucket"

definition primes :: "nat list" where
  "primes =
     [5, 13, 23, 53, 97, 193, 389, 769, 1543, 3079, 6151, 12289, 24593,
      49157, 98317, 196613, 393241, 786433, 1572869, 3145739, 6291469,
      12582917, 25165843, 50331653, 100663319, 201326611, 402653189,
      805306457, 1610612741]"

definition num_buckets :: "('k, 'v) hashtable \<Rightarrow> nat option" where
  "num_buckets hashtable =
     (if h_num_buckets hashtable < length primes then Some (primes ! h_num_buckets hashtable) else None)"

definition bucket_at :: "('k, 'v) hashtable \<Rightarrow> nat \<Rightarrow> bucket option" where
  "bucket_at hashtable index =
     (case h_buckets hashtable of
        None \<Rightarrow> None
      | Some bs \<Rightarrow> if index < length bs then Some (bs ! index) else None)"

definition set_bucket :: "nat \<Rightarrow> bucket \<Rightarrow> ('k, 'v) hashtable \<Rightarrow> ('k, 'v) hashtable" where
  "set_bucket index bucket hashtable = hashtable\<lparr>h_buckets := map_option (\<lambda>bs. bs[index := bucket]) (h_buckets hashtable)\<rparr>"

definition insert_to_bucket :: "('k, 'v) hashtable \<Rightarrow> nat \<Rightarrow> addr \<Rightarrow> ('k, 'v) hashtable option" where
  "insert_to_bucket hashtable index list = do {
     bucket \<leftarrow> bucket_at hashtable index;
     Some (if bucket_is_empty hashtable bucket
           then set_bucket index \<lparr>bk_first = list, bk_last = list\<rparr>
                  (hashtable\<lparr>h_links := list_insert (h_list hashtable) list (h_links hashtable)\<rparr>)
           else set_bucket index (bucket\<lparr>bk_first := list\<rparr>)
                  (hashtable\<lparr>h_links := list_insert (bk_first bucket) list (h_links hashtable)\<rparr>))
   }"

section \<open>Lookup\<close>

partial_function (option) find_loop ::
    "('k \<Rightarrow> 'k \<Rightarrow> bool) \<Rightarrow> ('k, 'v) hashtable \<Rightarrow> addr \<Rightarrow> addr \<Rightarrow> 'k \<Rightarrow> 32 word \<Rightarrow> addr option option" where
  "find_loop cmp_keys hashtable list end key hash = do {
     pair \<leftarrow> h_pairs hashtable list;
     if p_hash pair = hash \<and> cmp_keys (p_key pair) key then Some (Some list)
     else if list = end then Some None
     else find_loop cmp_keys hashtable (nxt (h_links hashtable) list) end key hash
   }"

definition hashtable_find_pair ::
    "('k \<Rightarrow> 'k \<Rightarrow> bool) \<Rightarrow> ('k, 'v) hashtable \<Rightarrow> bucket \<Rightarrow> 'k \<Rightarrow> 32 word \<Rightarrow> addr option option" where
  "hashtable_find_pair cmp_keys hashtable bucket key hash =
     (if bucket_is_empty hashtable bucket then Some None
      else find_loop cmp_keys hashtable (bk_first bucket) (bk_last bucket) key hash)"

text \<open>The bucket of a hash, and the pair of a key in it.\<close>

definition find_key ::
    "('k \<Rightarrow> 'k \<Rightarrow> bool) \<Rightarrow> ('k, 'v) hashtable \<Rightarrow> 'k \<Rightarrow> 32 word \<Rightarrow> (nat \<times> bucket \<times> addr option) option" where
  "find_key cmp_keys hashtable key hash = do {
     n \<leftarrow> num_buckets hashtable;
     bucket \<leftarrow> bucket_at hashtable (unat hash mod n);
     pair \<leftarrow> hashtable_find_pair cmp_keys hashtable bucket key hash;
     Some (unat hash mod n, bucket, pair)
   }"

definition hashtable_get :: "('k \<Rightarrow> 32 word) \<Rightarrow> ('k \<Rightarrow> 'k \<Rightarrow> bool) \<Rightarrow> ('k, 'v) hashtable \<Rightarrow> 'k \<Rightarrow> 'v option option" where
  "hashtable_get hash_key cmp_keys hashtable key = do {
     (index, bucket, pair) \<leftarrow> find_key cmp_keys hashtable key (hash_key key);
     case pair of
       None \<Rightarrow> Some None
     | Some a \<Rightarrow> map_option (\<lambda>p. Some (p_value p)) (h_pairs hashtable a)
   }"

section \<open>Deletion\<close>

definition hashtable_do_del ::
    "('k \<Rightarrow> 'k \<Rightarrow> bool) \<Rightarrow> ('k, 'v) hashtable \<Rightarrow> 'k \<Rightarrow> 32 word \<Rightarrow> (bool \<times> ('k, 'v) hashtable) option" where
  "hashtable_do_del cmp_keys hashtable key hash = do {
     (index, bucket, pair) \<leftarrow> find_key cmp_keys hashtable key hash;
     case pair of
       None \<Rightarrow> Some (False, hashtable)
     | Some a \<Rightarrow> do {
         p \<leftarrow> h_pairs hashtable a;
         let bucket = (if a = bk_first bucket \<and> a = bk_last bucket
                       then \<lparr>bk_first = h_list hashtable, bk_last = h_list hashtable\<rparr>
                       else if a = bk_first bucket then bucket\<lparr>bk_first := nxt (h_links hashtable) a\<rparr>
                       else if a = bk_last bucket then bucket\<lparr>bk_last := prv (h_links hashtable) a\<rparr>
                       else bucket);
         Some (True, set_bucket index bucket
           (hashtable\<lparr>h_links := list_remove a (h_links hashtable),
                      h_freed := h_freed hashtable @ [Inl (p_key p), Inr (p_value p)],
                      h_pairs := (h_pairs hashtable)(a := None),
                      h_size := h_size hashtable - 1\<rparr>))
       }
   }"

definition hashtable_del :: "('k \<Rightarrow> 32 word) \<Rightarrow> ('k \<Rightarrow> 'k \<Rightarrow> bool) \<Rightarrow> ('k, 'v) hashtable \<Rightarrow> 'k \<Rightarrow> (bool \<times> ('k, 'v) hashtable) option" where
  "hashtable_del hash_key cmp_keys hashtable key = hashtable_do_del cmp_keys hashtable key (hash_key key)"

partial_function (option) clear_loop :: "addr \<Rightarrow> ('k, 'v) hashtable \<Rightarrow> ('k, 'v) hashtable option" where
  "clear_loop list hashtable =
     (if list = h_list hashtable then Some hashtable
      else do {
        let nex = nxt (h_links hashtable) list;
        p \<leftarrow> h_pairs hashtable list;
        clear_loop nex (hashtable\<lparr>h_freed := h_freed hashtable @ [Inl (p_key p), Inr (p_value p)],
                                  h_pairs := (h_pairs hashtable)(list := None)\<rparr>)
      })"

definition hashtable_do_clear :: "('k, 'v) hashtable \<Rightarrow> ('k, 'v) hashtable option" where
  "hashtable_do_clear hashtable = clear_loop (nxt (h_links hashtable) (h_list hashtable)) hashtable"

text \<open>The buckets all empty.\<close>

definition empty_buckets :: "addr \<Rightarrow> nat \<Rightarrow> bucket list" where
  "empty_buckets head n = replicate n \<lparr>bk_first = head, bk_last = head\<rparr>"

definition hashtable_clear :: "('k, 'v) hashtable \<Rightarrow> ('k, 'v) hashtable option" where
  "hashtable_clear hashtable = do {
     hashtable \<leftarrow> hashtable_do_clear hashtable;
     n \<leftarrow> num_buckets hashtable;
     _ \<leftarrow> h_buckets hashtable;
     Some (hashtable\<lparr>h_buckets := Some (empty_buckets (h_list hashtable) n),
                     h_links := INIT_LIST_HEAD (h_list hashtable) (h_links hashtable), h_size := 0\<rparr>)
   }"

definition hashtable_close :: "('k, 'v) hashtable \<Rightarrow> ('k, 'v) hashtable option" where
  "hashtable_close hashtable = map_option (\<lambda>ht. ht\<lparr>h_buckets := None\<rparr>) (hashtable_do_clear hashtable)"

section \<open>Insertion\<close>

partial_function (option) rehash_loop :: "nat \<Rightarrow> addr \<Rightarrow> ('k, 'v) hashtable \<Rightarrow> ('k, 'v) hashtable option" where
  "rehash_loop new_size list hashtable =
     (if list = h_list hashtable then Some hashtable
      else do {
        let nex = nxt (h_links hashtable) list;
        pair \<leftarrow> h_pairs hashtable list;
        hashtable \<leftarrow> insert_to_bucket hashtable (unat (p_hash pair) mod new_size) list;
        rehash_loop new_size nex hashtable
      })"

text \<open>The result is whether the new buckets could be allocated; the old ones are released before.\<close>

definition hashtable_do_rehash :: "bool \<Rightarrow> ('k, 'v) hashtable \<Rightarrow> (bool \<times> ('k, 'v) hashtable) option" where
  "hashtable_do_rehash mem hashtable = do {
     let hashtable = hashtable\<lparr>h_buckets := None, h_num_buckets := h_num_buckets hashtable + 1\<rparr>;
     new_size \<leftarrow> num_buckets hashtable;
     if \<not> mem then Some (False, hashtable)
     else do {
       let list = nxt (h_links hashtable) (h_list hashtable);
       hashtable \<leftarrow> rehash_loop new_size list
         (hashtable\<lparr>h_buckets := Some (empty_buckets (h_list hashtable) new_size),
                    h_links := INIT_LIST_HEAD (h_list hashtable) (h_links hashtable)\<rparr>);
       Some (True, hashtable)
     }
   }"

text \<open>The new table: \<open>None\<close> when its buckets cannot be allocated.\<close>

definition hashtable_init :: "bool \<Rightarrow> addr \<Rightarrow> list_heap \<Rightarrow> ('k, 'v) hashtable option" where
  "hashtable_init mem head links =
     (if mem
      then Some \<lparr>h_size = 0, h_buckets = Some (empty_buckets head (primes ! 0)), h_num_buckets = 0, h_list = head,
                 h_links = INIT_LIST_HEAD head links, h_pairs = (\<lambda>_. None), h_freed = []\<rparr>
      else None)"

text \<open>\<open>mem\<close> and \<open>new\<close> are the results of the allocations of new buckets and of the pair.\<close>

definition hashtable_set ::
    "('k \<Rightarrow> 32 word) \<Rightarrow> ('k \<Rightarrow> 'k \<Rightarrow> bool) \<Rightarrow> bool \<Rightarrow> addr option \<Rightarrow> 'k \<Rightarrow> 'v \<Rightarrow> ('k, 'v) hashtable
     \<Rightarrow> (bool \<times> ('k, 'v) hashtable) option" where
  "hashtable_set hash_key cmp_keys mem new key val hashtable = do {
     n \<leftarrow> num_buckets hashtable;
     (ok, hashtable) \<leftarrow> (if n \<le> h_size hashtable then hashtable_do_rehash mem hashtable else Some (True, hashtable));
     if \<not> ok then Some (False, hashtable)
     else do {
       let hash = hash_key key;
       (index, bucket, pair) \<leftarrow> find_key cmp_keys hashtable key hash;
       case pair of
         Some a \<Rightarrow> do {
           p \<leftarrow> h_pairs hashtable a;
           Some (True, hashtable\<lparr>h_freed := h_freed hashtable @ [Inl key, Inr (p_value p)],
                                 h_pairs := (h_pairs hashtable)(a \<mapsto> p\<lparr>p_value := val\<rparr>)\<rparr>)
         }
       | None \<Rightarrow>
           (case new of
              None \<Rightarrow> Some (False, hashtable)
            | Some a \<Rightarrow> do {
                hashtable \<leftarrow> insert_to_bucket
                  (hashtable\<lparr>h_pairs := (h_pairs hashtable)(a \<mapsto> \<lparr>p_key = key, p_value = val, p_hash = hash\<rparr>),
                             h_links := INIT_LIST_HEAD a (h_links hashtable)\<rparr>) index a;
                Some (True, hashtable\<lparr>h_size := h_size hashtable + 1\<rparr>)
              })
     }
   }"

section \<open>Iteration\<close>

definition hashtable_iter_next :: "('k, 'v) hashtable \<Rightarrow> addr \<Rightarrow> addr option" where
  "hashtable_iter_next hashtable iter =
     (if nxt (h_links hashtable) iter = h_list hashtable then None else Some (nxt (h_links hashtable) iter))"

definition hashtable_iter :: "('k, 'v) hashtable \<Rightarrow> addr option" where
  "hashtable_iter hashtable = hashtable_iter_next hashtable (h_list hashtable)"

definition hashtable_iter_at :: "('k \<Rightarrow> 32 word) \<Rightarrow> ('k \<Rightarrow> 'k \<Rightarrow> bool) \<Rightarrow> ('k, 'v) hashtable \<Rightarrow> 'k \<Rightarrow> addr option option" where
  "hashtable_iter_at hash_key cmp_keys hashtable key =
     map_option (\<lambda>(index, bucket, pair). pair) (find_key cmp_keys hashtable key (hash_key key))"

definition hashtable_iter_key :: "('k, 'v) hashtable \<Rightarrow> addr \<Rightarrow> 'k option" where
  "hashtable_iter_key hashtable iter = map_option p_key (h_pairs hashtable iter)"

definition hashtable_iter_value :: "('k, 'v) hashtable \<Rightarrow> addr \<Rightarrow> 'v option" where
  "hashtable_iter_value hashtable iter = map_option p_value (h_pairs hashtable iter)"

definition hashtable_iter_set :: "('k, 'v) hashtable \<Rightarrow> addr \<Rightarrow> 'v \<Rightarrow> ('k, 'v) hashtable option" where
  "hashtable_iter_set hashtable iter val =
     map_option (\<lambda>p. hashtable\<lparr>h_freed := h_freed hashtable @ [Inr (p_value p)],
                               h_pairs := (h_pairs hashtable)(iter \<mapsto> p\<lparr>p_value := val\<rparr>)\<rparr>) (h_pairs hashtable iter)"

section \<open>The segments of a table\<close>

text \<open>
  A table is a list of segments, one for each bucket in use: the index of the bucket and its pairs. The list of all
  pairs is the concatenation of the segments.
\<close>

type_synonym 'a segments = "(nat \<times> 'a list) list"

definition nodes :: "'a segments \<Rightarrow> 'a list" where
  "nodes segs = concat (map snd segs)"

definition seg :: "'a segments \<Rightarrow> nat \<Rightarrow> 'a list" where
  "seg segs i = (case map_of segs i of None \<Rightarrow> [] | Some s \<Rightarrow> s)"

definition seg_bucket :: "addr \<Rightarrow> addr list \<Rightarrow> bucket" where
  "seg_bucket head s = (if s = [] then \<lparr>bk_first = head, bk_last = head\<rparr> else \<lparr>bk_first = hd s, bk_last = last s\<rparr>)"

definition seg_insert :: "nat \<Rightarrow> 'a \<Rightarrow> 'a segments \<Rightarrow> 'a segments" where
  "seg_insert i a segs = AList.update i (a # seg segs i) segs"

definition seg_delete :: "nat \<Rightarrow> 'a \<Rightarrow> 'a segments \<Rightarrow> 'a segments" where
  "seg_delete i a segs =
     (if remove1 a (seg segs i) = [] then AList.delete i segs else AList.update i (remove1 a (seg segs i)) segs)"

text \<open>Segments are those of distinct buckets below \<open>n\<close>, none is empty, and their pairs are allocated and hash there.\<close>

definition segs_ok :: "('k \<Rightarrow> 32 word) \<Rightarrow> nat \<Rightarrow> (addr \<Rightarrow> ('k, 'v) pair option) \<Rightarrow> addr segments \<Rightarrow> bool" where
  "segs_ok hash_key n pairs segs \<longleftrightarrow>
     distinct (map fst segs) \<and> (\<forall>i. map_of segs i \<noteq> Some [])
     \<and> (\<forall>i. \<forall>a \<in> set (seg segs i). i < n
          \<and> (\<exists>p. pairs a = Some p \<and> p_hash p = hash_key (p_key p) \<and> unat (p_hash p) mod n = i))"

text \<open>The links and buckets of a table with \<open>n\<close> buckets are those of its segments.\<close>

definition links_ok :: "('k \<Rightarrow> 32 word) \<Rightarrow> nat \<Rightarrow> ('k, 'v) hashtable \<Rightarrow> addr segments \<Rightarrow> bool" where
  "links_ok hash_key n ht segs \<longleftrightarrow>
     is_list (h_links ht) (h_list ht) (nodes segs) \<and> segs_ok hash_key n (h_pairs ht) segs
     \<and> h_buckets ht = Some (map (\<lambda>i. seg_bucket (h_list ht) (seg segs i)) [0..<n])"

definition keys_of :: "('k, 'v) hashtable \<Rightarrow> addr segments \<Rightarrow> 'k list" where
  "keys_of ht segs = map (\<lambda>a. p_key (the (h_pairs ht a))) (nodes segs)"

definition table_ok :: "('k \<Rightarrow> 32 word) \<Rightarrow> ('k, 'v) hashtable \<Rightarrow> addr segments \<Rightarrow> bool" where
  "table_ok hash_key ht segs \<longleftrightarrow>
     (\<exists>n. num_buckets ht = Some n \<and> links_ok hash_key n ht segs)
     \<and> dom (h_pairs ht) = set (nodes segs) \<and> h_size ht = length (nodes segs) \<and> distinct (keys_of ht segs)"

lemma nodes_simps [simp]: "nodes [] = []" "nodes (s # segs) = snd s @ nodes segs" "nodes (xs @ ys) = nodes xs @ nodes ys"
  by (simp_all add: nodes_def)

lemma update_new: "map_of segs i = None \<Longrightarrow> AList.update i s segs = segs @ [(i, s)]"
  by (induction segs) (auto split: if_split_asm)

lemma update_old:
  "map_of segs i = Some s \<Longrightarrow> \<exists>us vs. segs = us @ (i, s) # vs \<and> AList.update i s' segs = us @ (i, s') # vs \<and> map_of us i = None"
proof (induction segs)
  case (Cons x segs)
  show ?case
  proof (cases "fst x = i")
    case True
    then show ?thesis using Cons.prems by (cases x) (intro exI [of _ "[]"] exI [of _ segs]; simp)
  next
    case False
    then obtain us vs where "segs = us @ (i, s) # vs" "AList.update i s' segs = us @ (i, s') # vs" "map_of us i = None"
      using Cons by (cases x) auto
    then show ?thesis using False by (cases x) (intro exI [of _ "x # us"] exI [of _ vs]; simp)
  qed
qed simp

lemma delete_fresh: "map_of vs i = None \<Longrightarrow> AList.delete i vs = vs"
  by (simp add: map_of_eq_None_iff)

lemma seg_split:
  assumes "seg segs i \<noteq> []"
  obtains us vs where "segs = us @ (i, seg segs i) # vs" "\<And>s'. AList.update i s' segs = us @ (i, s') # vs" "map_of us i = None"
proof -
  obtain s where s: "map_of segs i = Some s" "seg segs i = s" using assms by (auto simp: seg_def split: option.splits)
  obtain us vs where a: "segs = us @ (i, s) # vs" "map_of us i = None" using update_old [OF s(1)] by blast
  have "AList.update i s' segs = us @ (i, s') # vs" for s'
    using a by (induction us arbitrary: segs) (auto split: if_split_asm)
  then have "AList.update i s' segs = us @ (i, s') # vs" for s' by blast
  then show ?thesis using that [of us vs] a unfolding s(2) by blast
qed

lemma seg_update: "seg (AList.update i s segs) j = (if i = j then s else seg segs j)"
  by (simp add: seg_def update_conv')

lemma seg_delete_same: "distinct (map fst segs) \<Longrightarrow> seg (AList.delete i segs) j = (if i = j then [] else seg segs j)"
  by (simp add: seg_def delete_conv')

lemma seg_seg_insert: "seg (seg_insert i a segs) j = (if i = j then a # seg segs i else seg segs j)"
  by (simp add: seg_insert_def seg_update)

lemma seg_seg_delete:
  "distinct (map fst segs) \<Longrightarrow> seg (seg_delete i a segs) j = (if i = j then remove1 a (seg segs i) else seg segs j)"
  by (simp add: seg_delete_def seg_update seg_delete_same)

lemma in_nodes: "distinct (map fst segs) \<Longrightarrow> a \<in> set (nodes segs) \<longleftrightarrow> (\<exists>i. a \<in> set (seg segs i))"
proof -
  assume d: "distinct (map fst segs)"
  have "a \<in> set (nodes segs) \<longleftrightarrow> (\<exists>p \<in> set segs. a \<in> set (snd p))" by (auto simp: nodes_def)
  also have "\<dots> \<longleftrightarrow> (\<exists>i s. (i, s) \<in> set segs \<and> a \<in> set s)" by force
  also have "\<dots> \<longleftrightarrow> (\<exists>i s. map_of segs i = Some s \<and> a \<in> set s)" by (simp only: map_of_eq_Some_iff [OF d])
  also have "\<dots> \<longleftrightarrow> (\<exists>i. a \<in> set (seg segs i))"
  proof -
    have "(\<exists>s. map_of segs i = Some s \<and> a \<in> set s) \<longleftrightarrow> a \<in> set (seg segs i)" for i
      by (cases "map_of segs i") (simp_all add: seg_def)
    then show ?thesis by simp
  qed
  finally show ?thesis .
qed

lemma nodes_seg_insert:
  assumes "map_of segs i \<noteq> Some []"
  shows "\<exists>xs ys. nodes segs = xs @ ys \<and> nodes (seg_insert i a segs) = xs @ a # ys
    \<and> (if seg segs i = [] then ys = [] else \<exists>us. ys = seg segs i @ us)"
proof (cases "map_of segs i")
  case None
  then show ?thesis by (simp add: seg_def seg_insert_def update_new)
next
  case (Some s)
  then have ne: "seg segs i \<noteq> []" using assms by (simp add: seg_def)
  obtain us vs where a: "segs = us @ (i, seg segs i) # vs" "\<And>s'. AList.update i s' segs = us @ (i, s') # vs"
    using seg_split [OF ne] by metis
  have "nodes segs = nodes us @ seg segs i @ nodes vs" using arg_cong [OF a(1), of nodes] by simp
  moreover have "nodes (seg_insert i a segs) = nodes us @ a # seg segs i @ nodes vs" by (simp add: seg_insert_def a(2))
  ultimately show ?thesis using ne by (intro exI [of _ "nodes us"] exI [of _ "seg segs i @ nodes vs"]) auto
qed

lemma nodes_seg_delete:
  assumes "distinct (map fst segs)" "a \<in> set (seg segs i)"
  shows "\<exists>xs s1 s2 ys. seg segs i = s1 @ a # s2 \<and> a \<notin> set s1 \<and> nodes segs = xs @ s1 @ a # s2 @ ys
    \<and> nodes (seg_delete i a segs) = xs @ s1 @ s2 @ ys"
proof -
  obtain s1 s2 where s: "seg segs i = s1 @ a # s2" "a \<notin> set s1" using assms(2) split_list_first by fast
  have ne: "seg segs i \<noteq> []" using s by simp
  obtain us vs where a: "segs = us @ (i, seg segs i) # vs" "\<And>s'. AList.update i s' segs = us @ (i, s') # vs"
    "map_of us i = None"
    using seg_split [OF ne] by metis
  have "distinct (map fst (us @ (i, seg segs i) # vs))" using assms(1) a(1) by simp
  then have "map_of vs i = None" by (auto simp: map_of_eq_None_iff)
  then have "AList.delete i (us @ (i, seg segs i) # vs) = us @ vs"
    using delete_fresh [of us i] delete_fresh [of vs i] a(3) by (simp add: AList.delete_eq)
  then have "AList.delete i segs = us @ vs" using a(1) by simp
  moreover have "nodes segs = nodes us @ seg segs i @ nodes vs" using arg_cong [OF a(1), of nodes] by simp
  moreover have "remove1 a (seg segs i) = s1 @ s2" using s by (simp add: remove1_append)
  ultimately show ?thesis
    using s by (intro exI [of _ "nodes us"] exI [of _ s1] exI [of _ s2] exI [of _ "nodes vs"])
      (auto simp: seg_delete_def a(2))
qed

lemma keys_distinct_update: "distinct (map fst segs) \<Longrightarrow> distinct (map fst (AList.update i s segs))"
  by (simp add: distinct_update)

lemma segs_ok_insert:
  assumes "segs_ok hash_key n pairs segs" "pairs a = Some p" "p_hash p = hash_key (p_key p)" "0 < n"
  shows "segs_ok hash_key n pairs (seg_insert (unat (p_hash p) mod n) a segs)"
  using assms
  by (auto simp: segs_ok_def seg_seg_insert keys_distinct_update seg_insert_def update_conv' seg_update)

lemma segs_ok_delete:
  assumes "segs_ok hash_key n pairs segs" "\<forall>b. b \<noteq> a \<longrightarrow> pairs' b = pairs b" "distinct (seg segs i)" "\<forall>j. j \<noteq> i \<longrightarrow> a \<notin> set (seg segs j)"
  shows "segs_ok hash_key n pairs' (seg_delete i a segs)"
proof -
  have d: "distinct (map fst segs)" using assms(1) by (simp add: segs_ok_def)
  have "distinct (map fst (seg_delete i a segs))" using d by (simp add: seg_delete_def keys_distinct_update distinct_delete)
  moreover have "map_of (seg_delete i a segs) j \<noteq> Some []" for j
    using assms(1) by (simp add: segs_ok_def seg_delete_def delete_conv' update_conv')
  moreover have "j < n \<and> (\<exists>p. pairs' b = Some p \<and> p_hash p = hash_key (p_key p) \<and> unat (p_hash p) mod n = j)"
    if "b \<in> set (seg (seg_delete i a segs) j)" for b j
  proof -
    have b: "b \<in> set (seg segs j)" "b \<noteq> a"
      using that assms(3,4) d by (auto simp: seg_seg_delete split: if_split_asm dest: notin_set_remove1)
    then show ?thesis using assms(1,2) by (auto simp: segs_ok_def)
  qed
  ultimately show ?thesis by (simp add: segs_ok_def)
qed

section \<open>Links and buckets\<close>

lemma list_insert_between:
  assumes "node \<noteq> list"
  shows "list_insert list node h = list_add_between node (prv h list) list h"
  using assms
  by (intro list_heap.equality)
    (auto simp: list_insert_def list_add_between_def Let_def set_next_def set_prev_def fun_eq_iff)

lemma list_remove_between:
  assumes "prv h list \<noteq> list"
  shows "list_remove list h = list_del_between (prv h list) (nxt h list) h"
  using assms
  by (intro list_heap.equality) (auto simp: list_remove_def list_del_between_def Let_def set_next_def set_prev_def fun_eq_iff)

lemma insert_before:
  assumes "is_list h head (xs @ ys)" "a \<notin> set (head # xs @ ys)" "a \<noteq> 0"
  shows "is_list (list_insert (hd (ys @ [head])) a h) head (xs @ a # ys)"
proof -
  have "hd (ys @ [head]) \<in> set (head # xs @ ys)" by (cases ys) auto
  then have "a \<noteq> hd (ys @ [head])" using assms(2) by metis
  then show ?thesis
    using add_between [OF assms] is_list_split(4) [OF assms(1)] by (simp add: list_insert_between)
qed

lemma remove_node:
  assumes "is_list h head (xs @ a # ys)"
  shows "is_list (list_remove a h) head (xs @ ys)"
proof -
  have "last (head # xs) \<in> set (head # xs)" by (intro last_in_set) simp
  moreover have "a \<notin> set (head # xs)" using assms by (auto simp: is_list_def)
  ultimately have "prv h a \<noteq> a" using del_between(2) [OF assms] by metis
  then show ?thesis using del_between(1) [OF assms] by (simp add: list_remove_between)
qed

lemma list_insert_frame:
  "nxt (list_insert list a h) x = (if x = a \<and> x \<noteq> prv h list then list else if x = prv h list then a else nxt h x)" if "a \<noteq> list"
  using that by (simp add: list_insert_between list_add_between_def Let_def)

lemma seg_pair:
  assumes "links_ok hash_key n ht segs" "a \<in> set (seg segs i)"
  shows "\<exists>p. h_pairs ht a = Some p \<and> p_hash p = hash_key (p_key p) \<and> unat (p_hash p) mod n = i"
  using assms unfolding links_ok_def segs_ok_def by blast

lemma links_ok_bucket:
  "links_ok hash_key n ht segs \<Longrightarrow> i < n \<Longrightarrow> bucket_at ht i = Some (seg_bucket (h_list ht) (seg segs i))"
  by (simp add: links_ok_def bucket_at_def)

lemma links_ok_nodes:
  assumes "links_ok hash_key n ht segs"
  shows "h_list ht \<notin> set (nodes segs)" "0 \<notin> set (nodes segs)" "distinct (nodes segs)" "h_list ht \<noteq> 0" "distinct (map fst segs)"
  using assms by (auto simp: links_ok_def is_list_def segs_ok_def)

lemma seg_in_nodes: "distinct (map fst segs) \<Longrightarrow> a \<in> set (seg segs i) \<Longrightarrow> a \<in> set (nodes segs)"
  using in_nodes by fast

lemma bucket_empty:
  assumes "links_ok hash_key n ht segs"
  shows "bucket_is_empty ht (seg_bucket (h_list ht) (seg segs i)) \<longleftrightarrow> seg segs i = []"
proof (cases "seg segs i = []")
  case False
  then have "hd (seg segs i) \<in> set (nodes segs)" using links_ok_nodes(5) [OF assms] seg_in_nodes by (metis hd_in_set)
  then have "hd (seg segs i) \<noteq> h_list ht" using links_ok_nodes(1) [OF assms] by metis
  then show ?thesis using False by (simp add: bucket_is_empty_def seg_bucket_def)
qed (simp add: bucket_is_empty_def seg_bucket_def)

lemma set_bucket_list:
  "links_ok hash_key n ht segs \<Longrightarrow> i < n \<Longrightarrow> (\<forall>j. seg segs' j = (if j = i then s else seg segs j)) \<Longrightarrow>
   (map (\<lambda>i. seg_bucket (h_list ht) (seg segs i)) [0..<n])[i := seg_bucket (h_list ht) s]
   = map (\<lambda>i. seg_bucket (h_list ht) (seg segs' i)) [0..<n]"
  by (rule nth_equalityI) (simp_all add: nth_list_update)

text \<open>Insertion puts a pair at the front of its segment, and a new segment at the end.\<close>

lemma insert_to_bucket_ok:
  assumes L: "links_ok hash_key n ht segs" and a: "a \<notin> set (h_list ht # nodes segs)" "a \<noteq> 0"
    and p: "h_pairs ht a = Some p" "p_hash p = hash_key (p_key p)" "i = unat (p_hash p) mod n" "0 < n"
  shows "\<exists>h' bs'. insert_to_bucket ht i a = Some (ht\<lparr>h_links := h', h_buckets := bs'\<rparr>)
    \<and> links_ok hash_key n (ht\<lparr>h_links := h', h_buckets := bs'\<rparr>) (seg_insert i a segs)
    \<and> (\<forall>x. x \<notin> set (a # h_list ht # nodes segs) \<longrightarrow> nxt h' x = nxt (h_links ht) x)"
proof -
  let ?head = "h_list ht" and ?s = "seg segs i"
  have i: "i < n" using p by simp
  have ne: "map_of segs i \<noteq> Some []" using L by (simp add: links_ok_def segs_ok_def)
  have d: "distinct (map fst segs)" using links_ok_nodes [OF L] by simp
  obtain xs ys where n: "nodes segs = xs @ ys" "nodes (seg_insert i a segs) = xs @ a # ys"
    "if ?s = [] then ys = [] else \<exists>us. ys = ?s @ us"
    using nodes_seg_insert [OF ne] by metis
  define at where "at = hd (ys @ [?head])"
  define h' where "h' = list_insert at a (h_links ht)"
  define bs' where "bs' = Some (map (\<lambda>j. seg_bucket ?head (seg (seg_insert i a segs) j)) [0..<n])"
  have list: "is_list (h_links ht) ?head (xs @ ys)" using L n(1) by (simp add: links_ok_def)
  have b: "bucket_at ht i = Some (seg_bucket ?head ?s)" using links_ok_bucket [OF L i] .
  have bs: "h_buckets ht = Some (map (\<lambda>i. seg_bucket ?head (seg segs i)) [0..<n])" using L by (simp add: links_ok_def)
  have upd: "(map (\<lambda>i. seg_bucket ?head (seg segs i)) [0..<n])[i := seg_bucket ?head (a # ?s)]
    = map (\<lambda>j. seg_bucket ?head (seg (seg_insert i a segs) j)) [0..<n]"
    by (rule set_bucket_list [OF L i]) (auto simp: seg_seg_insert)
  have ins: "insert_to_bucket ht i a = Some (ht\<lparr>h_links := h', h_buckets := bs'\<rparr>)"
  proof (cases "?s = []")
    case True
    then have "at = ?head" using n(3) by (simp add: at_def)
    then show ?thesis
      using True b bucket_empty [OF L, of i] upd bs
      by (simp add: insert_to_bucket_def set_bucket_def h'_def bs'_def seg_bucket_def)
  next
    case False
    then obtain us where us: "ys = ?s @ us" using n(3) by auto
    then have at: "at = hd ?s" using False by (simp add: at_def)
    then show ?thesis
      using False b bucket_empty [OF L, of i] upd bs
      by (simp add: insert_to_bucket_def set_bucket_def h'_def bs'_def seg_bucket_def)
  qed
  have "is_list h' ?head (nodes (seg_insert i a segs))"
    unfolding h'_def at_def n(2) using insert_before [OF list] a n(1) by auto
  then have L': "links_ok hash_key n (ht\<lparr>h_links := h', h_buckets := bs'\<rparr>) (seg_insert i a segs)"
    using segs_ok_insert [of hash_key n "h_pairs ht" segs a p] L p by (simp add: links_ok_def bs'_def)
  have frame: "nxt h' x = nxt (h_links ht) x" if x: "x \<notin> set (a # ?head # nodes segs)" for x
  proof -
    have "at \<in> set (?head # nodes segs)" unfolding at_def n(1) by (cases ys) auto
    then have "a \<noteq> at" using a by metis
    moreover have "prv (h_links ht) at = last (?head # xs)" unfolding at_def by (rule is_list_split(4) [OF list])
    moreover have "last (?head # xs) \<in> set (?head # nodes segs)" unfolding n(1) by (simp add: last_in_set)
    ultimately show ?thesis using x by (auto simp: h'_def list_insert_frame)
  qed
  show ?thesis
    by (rule exI [of _ h'], rule exI [of _ bs']) (use ins L' frame in blast)
qed

section \<open>Finding a pair\<close>

lemma find_loop_seg:
  assumes "chain (h_links ht) s" "s \<noteq> []" "distinct s" "\<forall>a \<in> set s. h_pairs ht a \<noteq> None"
  shows "find_loop cmp_keys ht (hd s) (last s) key hash
    = Some (List.find (\<lambda>a. p_hash (the (h_pairs ht a)) = hash \<and> cmp_keys (p_key (the (h_pairs ht a))) key) s)"
  using assms
proof (induction s)
  case (Cons a s)
  obtain p where p: "h_pairs ht a = Some p" using Cons.prems(4) by auto
  show ?case
  proof (cases s)
    case Nil
    then show ?thesis using p by (subst find_loop.simps) simp
  next
    case (Cons b t)
    then have n: "nxt (h_links ht) a = b" "a \<noteq> last s" "chain (h_links ht) s"
      using Cons.prems by (auto dest: last_in_set)
    have IH: "find_loop cmp_keys ht b (last s) key hash
      = Some (List.find (\<lambda>a. p_hash (the (h_pairs ht a)) = hash \<and> cmp_keys (p_key (the (h_pairs ht a))) key) s)"
      using Cons.IH n(3) Cons.prems \<open>s = b # t\<close> by simp
    show ?thesis using p n IH Cons by (subst find_loop.simps) simp
  qed
qed simp

lemma chain_middle: "chain h (us @ s @ vs) \<Longrightarrow> chain h s"
proof (induction us)
  case Nil
  then show ?case
  proof (induction vs rule: rev_induct)
    case (snoc v vs)
    then show ?case using chain_butlast [of h "s @ vs" v] by simp
  qed simp
next
  case (Cons u us)
  then show ?case using chain_tl by simp
qed

lemma seg_chain:
  assumes "links_ok hash_key n ht segs" "seg segs i \<noteq> []"
  shows "chain (h_links ht) (seg segs i)" "distinct (seg segs i)" "\<forall>a \<in> set (seg segs i). h_pairs ht a \<noteq> None"
proof -
  obtain us vs where a: "segs = us @ (i, seg segs i) # vs" using seg_split [OF assms(2)] by metis
  have n: "nodes segs = nodes us @ seg segs i @ nodes vs" using arg_cong [OF a, of nodes] by simp
  have "chain (h_links ht) (h_list ht # nodes segs @ [h_list ht])" using assms(1) by (simp add: links_ok_def is_list_def)
  then have "chain (h_links ht) ((h_list ht # nodes us) @ seg segs i @ (nodes vs @ [h_list ht]))" using n by simp
  then show "chain (h_links ht) (seg segs i)" by (rule chain_middle)
  show "distinct (seg segs i)" using links_ok_nodes(3) [OF assms(1)] n by simp
  show "\<forall>a \<in> set (seg segs i). h_pairs ht a \<noteq> None" using seg_pair [OF assms(1)] by fastforce
qed

definition key_node :: "('k \<Rightarrow> 32 word) \<Rightarrow> nat \<Rightarrow> ('k, 'v) hashtable \<Rightarrow> addr segments \<Rightarrow> 'k \<Rightarrow> addr option" where
  "key_node hash_key n ht segs key = List.find (\<lambda>a. p_key (the (h_pairs ht a)) = key) (seg segs (unat (hash_key key) mod n))"

lemma find_key_ok:
  assumes L: "links_ok hash_key n ht segs" and n: "num_buckets ht = Some n" "0 < n"
    and cmp: "\<And>a b. cmp_keys a b \<longleftrightarrow> a = b"
  shows "find_key cmp_keys ht key (hash_key key)
    = Some (unat (hash_key key) mod n, seg_bucket (h_list ht) (seg segs (unat (hash_key key) mod n)), key_node hash_key n ht segs key)"
proof -
  let ?i = "unat (hash_key key) mod n"
  have i: "?i < n" using n by simp
  have same: "List.find (\<lambda>a. p_hash (the (h_pairs ht a)) = hash_key key \<and> cmp_keys (p_key (the (h_pairs ht a))) key) (seg segs ?i)
    = key_node hash_key n ht segs key"
    unfolding key_node_def using seg_pair [OF L] by (intro find_cong refl) (fastforce simp: cmp)
  have "hashtable_find_pair cmp_keys ht (seg_bucket (h_list ht) (seg segs ?i)) key (hash_key key) = Some (key_node hash_key n ht segs key)"
  proof (cases "seg segs ?i = []")
    case True
    then show ?thesis using bucket_empty [OF L, of ?i] by (simp add: hashtable_find_pair_def key_node_def)
  next
    case False
    then show ?thesis
      using bucket_empty [OF L, of ?i] find_loop_seg [OF seg_chain(1) [OF L False] False seg_chain(2,3) [OF L False], of cmp_keys key "hash_key key"]
      by (simp add: hashtable_find_pair_def seg_bucket_def same)
  qed
  then show ?thesis using n links_ok_bucket [OF L i] by (simp add: find_key_def)
qed

lemma key_node_ok:
  assumes "links_ok hash_key n ht segs" "distinct (keys_of ht segs)" "0 < n"
  shows "case key_node hash_key n ht segs key of
      None \<Rightarrow> key \<notin> set (keys_of ht segs)
    | Some a \<Rightarrow> a \<in> set (seg segs (unat (hash_key key) mod n)) \<and> a \<in> set (nodes segs) \<and> (\<exists>p. h_pairs ht a = Some p \<and> p_key p = key)"
proof (cases "key_node hash_key n ht segs key")
  case None
  have "p_key (the (h_pairs ht a)) \<noteq> key" if a: "a \<in> set (nodes segs)" for a
  proof
    assume k: "p_key (the (h_pairs ht a)) = key"
    obtain i where i: "a \<in> set (seg segs i)" using a in_nodes links_ok_nodes(5) [OF assms(1)] by fast
    then have "i = unat (hash_key key) mod n" using seg_pair [OF assms(1) i] k by auto
    then show False using None i k by (simp add: key_node_def find_None_iff)
  qed
  then show ?thesis using None by (auto simp: keys_of_def)
next
  case (Some a)
  then have a: "a \<in> set (seg segs (unat (hash_key key) mod n))" "p_key (the (h_pairs ht a)) = key"
    by (auto simp: key_node_def find_Some_iff)
  then have "a \<in> set (nodes segs)" using seg_in_nodes links_ok_nodes(5) [OF assms(1)] by fast
  moreover have "\<exists>p. h_pairs ht a = Some p" using seg_pair [OF assms(1) a(1)] by blast
  ultimately show ?thesis using Some a by auto
qed

section \<open>The table as a list of segments of members\<close>

text \<open>
  What a table is without addresses: the index of its size in \<open>primes\<close> and its segments of keys and values. The operations
  say in which order an iteration meets the members.
\<close>

record ('k, 'v) table =
  t_num :: nat
  t_segs :: "('k \<times> 'v) segments"

definition t_entries :: "('k, 'v) table \<Rightarrow> ('k \<times> 'v) list" where
  "t_entries t = nodes (t_segs t)"

definition t_index :: "('k \<Rightarrow> 32 word) \<Rightarrow> nat \<Rightarrow> 'k \<Rightarrow> nat" where
  "t_index hash_key num key = unat (hash_key key) mod (primes ! num)"

definition t_add :: "('k \<Rightarrow> 32 word) \<Rightarrow> nat \<Rightarrow> 'k \<times> 'v \<Rightarrow> ('k \<times> 'v) segments \<Rightarrow> ('k \<times> 'v) segments" where
  "t_add hash_key num kv = seg_insert (t_index hash_key num (fst kv)) kv"

definition t_rehash :: "('k \<Rightarrow> 32 word) \<Rightarrow> ('k, 'v) table \<Rightarrow> ('k, 'v) table" where
  "t_rehash hash_key t = \<lparr>t_num = t_num t + 1, t_segs = fold (t_add hash_key (t_num t + 1)) (t_entries t) []\<rparr>"

definition t_grow :: "('k \<Rightarrow> 32 word) \<Rightarrow> ('k, 'v) table \<Rightarrow> ('k, 'v) table" where
  "t_grow hash_key t = (if primes ! t_num t \<le> length (t_entries t) then t_rehash hash_key t else t)"

definition t_set :: "('k \<Rightarrow> 32 word) \<Rightarrow> 'k \<Rightarrow> 'v \<Rightarrow> ('k, 'v) table \<Rightarrow> ('k, 'v) table" where
  "t_set hash_key key val t =
     (let t = t_grow hash_key t; i = t_index hash_key (t_num t) key
      in if key \<in> fst ` set (seg (t_segs t) i)
         then t\<lparr>t_segs := AList.update i (AList.update key val (seg (t_segs t) i)) (t_segs t)\<rparr>
         else t\<lparr>t_segs := t_add hash_key (t_num t) (key, val) (t_segs t)\<rparr>)"

definition t_empty :: "('k, 'v) table" where
  "t_empty = \<lparr>t_num = 0, t_segs = []\<rparr>"

definition member :: "(addr \<Rightarrow> ('k, 'v) pair option) \<Rightarrow> addr \<Rightarrow> 'k \<times> 'v" where
  "member pairs a = (p_key (the (pairs a)), p_value (the (pairs a)))"

definition map_segs :: "('a \<Rightarrow> 'b) \<Rightarrow> 'a segments \<Rightarrow> 'b segments" where
  "map_segs f segs = map (\<lambda>(i, s). (i, map f s)) segs"

definition table_of :: "('k, 'v) hashtable \<Rightarrow> addr segments \<Rightarrow> ('k, 'v) table" where
  "table_of ht segs = \<lparr>t_num = h_num_buckets ht, t_segs = map_segs (member (h_pairs ht)) segs\<rparr>"

lemma map_segs_update: "map_segs f (AList.update i s segs) = AList.update i (map f s) (map_segs f segs)"
  by (induction segs) (auto simp: map_segs_def)

lemma map_segs_seg: "seg (map_segs f segs) i = map f (seg segs i)"
  by (induction segs) (auto simp: map_segs_def seg_def)

lemma map_segs_cong: "(\<And>a. a \<in> set (nodes segs) \<Longrightarrow> f a = g a) \<Longrightarrow> map_segs f segs = map_segs g segs"
  by (induction segs) (auto simp: map_segs_def)

lemma entries_table_of: "t_entries (table_of ht segs) = map (member (h_pairs ht)) (nodes segs)"
  by (induction segs) (auto simp: t_entries_def table_of_def map_segs_def)

lemma keys_of_entries: "keys_of ht segs = map fst (t_entries (table_of ht segs))"
  by (simp add: entries_table_of keys_of_def member_def)

lemma map_segs_insert:
  "unat (hash_key (fst (f a))) mod (primes ! num) = i \<Longrightarrow> map_segs f (seg_insert i a segs) = t_add hash_key num (f a) (map_segs f segs)"
  by (simp add: seg_insert_def t_add_def Let_def t_index_def map_segs_update map_segs_seg)

lemma mset_seg_insert: "map_of segs i \<noteq> Some [] \<Longrightarrow> mset (nodes (seg_insert i a segs)) = add_mset a (mset (nodes segs))"
  using nodes_seg_insert [of segs i a] by auto

section \<open>Rehashing\<close>

fun walk :: "list_heap \<Rightarrow> addr list \<Rightarrow> addr \<Rightarrow> bool" where
  "walk h [] end \<longleftrightarrow> True"
| "walk h (a # as) end \<longleftrightarrow> nxt h a = hd (as @ [end]) \<and> walk h as end"

lemma chain_walk: "chain h (us @ [end]) \<Longrightarrow> walk h us end"
proof (induction us)
  case (Cons u us)
  then show ?case by (cases us) (auto dest: chain_tl)
qed simp

lemma walk_frame: "walk h us end \<Longrightarrow> (\<And>a. a \<in> set us \<Longrightarrow> nxt h' a = nxt h a) \<Longrightarrow> walk h' us end"
  by (induction us) auto

definition rehash_segs :: "('k \<Rightarrow> 32 word) \<Rightarrow> nat \<Rightarrow> (addr \<Rightarrow> ('k, 'v) pair option) \<Rightarrow> addr list \<Rightarrow> addr segments \<Rightarrow> addr segments" where
  "rehash_segs hash_key n pairs as segs =
     fold (\<lambda>a. seg_insert (unat (hash_key (p_key (the (pairs a)))) mod n) a) as segs"

lemma links_ok_nonempty: "links_ok hash_key n ht segs \<Longrightarrow> map_of segs i \<noteq> Some []"
  by (simp add: links_ok_def segs_ok_def)

lemma rehash_loop_ok:
  assumes "links_ok hash_key n ht segs" "0 < n" "walk (h_links ht) as (h_list ht)" "distinct as"
    and "set as \<inter> set (h_list ht # nodes segs) = {}" "0 \<notin> set as"
    and "\<forall>a \<in> set as. \<exists>p. h_pairs ht a = Some p \<and> p_hash p = hash_key (p_key p)"
  shows "\<exists>h' bs'. rehash_loop n (hd (as @ [h_list ht])) ht = Some (ht\<lparr>h_links := h', h_buckets := bs'\<rparr>)
    \<and> links_ok hash_key n (ht\<lparr>h_links := h', h_buckets := bs'\<rparr>) (rehash_segs hash_key n (h_pairs ht) as segs)
    \<and> mset (nodes (rehash_segs hash_key n (h_pairs ht) as segs)) = mset as + mset (nodes segs)"
  using assms
proof (induction as arbitrary: ht segs)
  case Nil
  then have "rehash_loop n (h_list ht) ht = Some (ht\<lparr>h_links := h_links ht, h_buckets := h_buckets ht\<rparr>)"
    by (subst rehash_loop.simps) simp
  then show ?case using Nil.prems(1) by (intro exI [of _ "h_links ht"] exI [of _ "h_buckets ht"]) (simp add: rehash_segs_def)
next
  case (Cons a as)
  obtain p where p: "h_pairs ht a = Some p" "p_hash p = hash_key (p_key p)" using Cons.prems(7) by auto
  let ?i = "unat (p_hash p) mod n"
  have a: "a \<notin> set (h_list ht # nodes segs)" "a \<noteq> 0" using Cons.prems(5,6) by auto
  obtain h' bs' where ins: "insert_to_bucket ht ?i a = Some (ht\<lparr>h_links := h', h_buckets := bs'\<rparr>)"
    "links_ok hash_key n (ht\<lparr>h_links := h', h_buckets := bs'\<rparr>) (seg_insert ?i a segs)"
    "\<And>x. x \<notin> set (a # h_list ht # nodes segs) \<Longrightarrow> nxt h' x = nxt (h_links ht) x"
    using insert_to_bucket_ok [OF Cons.prems(1) a p refl Cons.prems(2)] by metis
  have m: "mset (nodes (seg_insert ?i a segs)) = add_mset a (mset (nodes segs))"
    by (rule mset_seg_insert [OF links_ok_nonempty [OF Cons.prems(1)]])
  then have nodes: "set (nodes (seg_insert ?i a segs)) = insert a (set (nodes segs))"
    by (metis set_mset_add_mset_insert set_mset_mset)
  let ?ht = "ht\<lparr>h_links := h', h_buckets := bs'\<rparr>"
  have "walk h' as (h_list ht)"
  proof (rule walk_frame)
    show "walk (h_links ht) as (h_list ht)" using Cons.prems(3) by (simp only: walk.simps)
    show "nxt h' x = nxt (h_links ht) x" if "x \<in> set as" for x using that Cons.prems(4,5) by (intro ins(3)) auto
  qed
  have "set as \<inter> set (h_list ?ht # nodes (seg_insert ?i a segs)) = {}" using Cons.prems(4,5) nodes by auto
  then have "\<exists>h2 bs2. rehash_loop n (hd (as @ [h_list ?ht])) ?ht = Some (?ht\<lparr>h_links := h2, h_buckets := bs2\<rparr>)
    \<and> links_ok hash_key n (?ht\<lparr>h_links := h2, h_buckets := bs2\<rparr>) (rehash_segs hash_key n (h_pairs ?ht) as (seg_insert ?i a segs))
    \<and> mset (nodes (rehash_segs hash_key n (h_pairs ?ht) as (seg_insert ?i a segs))) = mset as + mset (nodes (seg_insert ?i a segs))"
    using ins(2) Cons.prems(2,4,6,7) \<open>walk h' as (h_list ht)\<close> by (intro Cons.IH) simp_all
  then obtain h2 bs2 where IH: "rehash_loop n (hd (as @ [h_list ht])) ?ht = Some (?ht\<lparr>h_links := h2, h_buckets := bs2\<rparr>)"
    "links_ok hash_key n (?ht\<lparr>h_links := h2, h_buckets := bs2\<rparr>) (rehash_segs hash_key n (h_pairs ht) as (seg_insert ?i a segs))"
    "mset (nodes (rehash_segs hash_key n (h_pairs ht) as (seg_insert ?i a segs))) = mset as + mset (nodes (seg_insert ?i a segs))"
    by auto
  have "rehash_loop n a ht = rehash_loop n (hd (as @ [h_list ht])) ?ht"
    using a(1) p(1) Cons.prems(3) ins(1) by (subst rehash_loop.simps) (auto simp: Let_def)
  moreover have "rehash_segs hash_key n (h_pairs ht) (a # as) segs = rehash_segs hash_key n (h_pairs ht) as (seg_insert ?i a segs)"
    using p by (simp add: rehash_segs_def)
  ultimately show ?case using IH m by (intro exI [of _ h2] exI [of _ bs2]) simp
qed

lemma rehash_segs_table:
  "n = primes ! num \<Longrightarrow> map_segs (member pairs) (rehash_segs hash_key n pairs as segs)
    = fold (t_add hash_key num) (map (member pairs) as) (map_segs (member pairs) segs)"
proof (induction as arbitrary: segs)
  case (Cons a as)
  let ?i = "unat (hash_key (p_key (the (pairs a)))) mod n"
  have "map_segs (member pairs) (seg_insert ?i a segs) = t_add hash_key num (member pairs a) (map_segs (member pairs) segs)"
    using Cons.prems by (intro map_segs_insert) (simp add: member_def)
  then show ?case using Cons.IH [OF Cons.prems, of "seg_insert ?i a segs"] by (simp add: rehash_segs_def)
qed (simp add: rehash_segs_def)

lemma empty_buckets_seg: "empty_buckets head n = map (\<lambda>i. seg_bucket head (seg [] i)) [0..<n]"
  by (simp add: empty_buckets_def seg_def seg_bucket_def map_replicate_const)

lemma primes_pos: "num < length primes \<Longrightarrow> 0 < primes ! num"
  by (simp add: primes_def nth_Cons split: nat.splits)

lemma num_buckets_pos: "num_buckets ht = Some n \<Longrightarrow> n = primes ! h_num_buckets ht \<and> h_num_buckets ht < length primes \<and> 0 < n"
  by (auto simp: num_buckets_def primes_pos split: if_split_asm)

lemma rehash_ok:
  assumes T: "table_ok hash_key ht segs" and room: "h_num_buckets ht + 1 < length primes"
  shows "\<exists>ht' segs'. hashtable_do_rehash True ht = Some (True, ht') \<and> table_ok hash_key ht' segs'
    \<and> mset (nodes segs') = mset (nodes segs) \<and> table_of ht' segs' = t_rehash hash_key (table_of ht segs)
    \<and> h_pairs ht' = h_pairs ht \<and> h_list ht' = h_list ht \<and> h_freed ht' = h_freed ht \<and> h_num_buckets ht' = h_num_buckets ht + 1"
proof -
  obtain n0 where L0: "links_ok hash_key n0 ht segs" using T by (auto simp: table_ok_def)
  let ?num = "h_num_buckets ht + 1" and ?head = "h_list ht"
  let ?n = "primes ! ?num"
  have n: "0 < ?n" using primes_pos [OF room] .
  define h1 where "h1 = ht\<lparr>h_num_buckets := ?num, h_buckets := Some (empty_buckets ?head ?n), h_links := INIT_LIST_HEAD ?head (h_links ht)\<rparr>"
  have list: "is_list (h_links ht) ?head (nodes segs)" using L0 by (simp add: links_ok_def)
  have L1: "links_ok hash_key ?n h1 []"
    using links_ok_nodes(4) [OF L0] by (simp add: links_ok_def h1_def init_list segs_ok_def empty_buckets_seg seg_def)
  have "chain (h_links ht) ((?head # nodes segs) @ [?head])" using list by (simp add: is_list_def)
  then have w0: "walk (h_links ht) (?head # nodes segs) ?head" by (rule chain_walk)
  have w: "walk (h_links h1) (nodes segs) ?head"
  proof (rule walk_frame)
    show "walk (h_links ht) (nodes segs) ?head" using w0 by (simp only: walk.simps)
    show "nxt (h_links h1) a = nxt (h_links ht) a" if "a \<in> set (nodes segs)" for a
      using that links_ok_nodes(1) [OF L0] by (auto simp: h1_def INIT_LIST_HEAD_def)
  qed
  have pairs: "\<forall>a \<in> set (nodes segs). \<exists>p. h_pairs ht a = Some p \<and> p_hash p = hash_key (p_key p)"
    using seg_pair [OF L0] in_nodes [OF links_ok_nodes(5) [OF L0]] by metis
  define segs' where "segs' = rehash_segs hash_key ?n (h_pairs ht) (nodes segs) []"
  have h1: "h_list h1 = ?head" "h_pairs h1 = h_pairs ht" by (simp_all add: h1_def)
  have R0: "\<exists>h' bs'. rehash_loop ?n (hd (nodes segs @ [h_list h1])) h1 = Some (h1\<lparr>h_links := h', h_buckets := bs'\<rparr>)
    \<and> links_ok hash_key ?n (h1\<lparr>h_links := h', h_buckets := bs'\<rparr>) (rehash_segs hash_key ?n (h_pairs h1) (nodes segs) [])
    \<and> mset (nodes (rehash_segs hash_key ?n (h_pairs h1) (nodes segs) [])) = mset (nodes segs) + mset (nodes [])"
    using w pairs links_ok_nodes [OF L0] by (intro rehash_loop_ok [OF L1 n]) (simp_all add: h1)
  obtain h' bs' where R: "rehash_loop ?n (hd (nodes segs @ [?head])) h1 = Some (h1\<lparr>h_links := h', h_buckets := bs'\<rparr>)"
    "links_ok hash_key ?n (h1\<lparr>h_links := h', h_buckets := bs'\<rparr>) segs'" "mset (nodes segs') = mset (nodes segs)"
    using R0 by (auto simp: h1 segs'_def)
  define ht' where "ht' = h1\<lparr>h_links := h', h_buckets := bs'\<rparr>"
  have "hashtable_do_rehash True ht = Some (True, ht')"
    using room w0 R(1) by (simp add: hashtable_do_rehash_def Let_def num_buckets_def h1_def ht'_def)
  moreover have same: "h_pairs ht' = h_pairs ht" "h_size ht' = h_size ht" "h_num_buckets ht' = ?num" "h_list ht' = ?head" "h_freed ht' = h_freed ht"
    by (simp_all add: ht'_def h1_def)
  moreover have "table_of ht' segs' = t_rehash hash_key (table_of ht segs)"
    using rehash_segs_table [OF refl, of "h_pairs ht" hash_key ?num "nodes segs" "[]"]
    by (simp add: t_rehash_def entries_table_of segs'_def) (simp add: table_of_def same map_segs_def)
  moreover have "table_ok hash_key ht' segs'"
  proof -
    have "set (nodes segs') = set (nodes segs)" "length (nodes segs') = length (nodes segs)"
      using R(3) by (auto dest: mset_eq_setD mset_eq_length)
    moreover have "mset (keys_of ht' segs') = mset (keys_of ht segs)" by (simp add: keys_of_def same R(3))
    then have "distinct (keys_of ht' segs')" using T mset_eq_imp_distinct_iff by (fastforce simp: table_ok_def)
    moreover have "num_buckets ht' = Some ?n" using room by (simp add: num_buckets_def same)
    moreover have "links_ok hash_key ?n ht' segs'" using R(2) by (simp add: ht'_def)
    ultimately show ?thesis using T by (simp add: table_ok_def same)
  qed
  ultimately show ?thesis using R(3) by blast
qed

section \<open>Setting a key\<close>

lemma grow_ok:
  assumes T: "table_ok hash_key ht segs" and n: "num_buckets ht = Some n"
    and room: "n \<le> h_size ht \<longrightarrow> h_num_buckets ht + 1 < length primes"
  shows "\<exists>ht' segs'. (if n \<le> h_size ht then hashtable_do_rehash True ht else Some (True, ht)) = Some (True, ht')
    \<and> table_ok hash_key ht' segs' \<and> table_of ht' segs' = t_grow hash_key (table_of ht segs) \<and> mset (nodes segs') = mset (nodes segs)
    \<and> h_pairs ht' = h_pairs ht \<and> h_list ht' = h_list ht \<and> h_freed ht' = h_freed ht"
proof (cases "n \<le> h_size ht")
  case True
  then have "primes ! t_num (table_of ht segs) \<le> length (t_entries (table_of ht segs))"
    using T num_buckets_pos [OF n] by (simp add: entries_table_of) (simp add: table_ok_def table_of_def)
  then show ?thesis using rehash_ok [OF T] room True by (simp add: t_grow_def) blast
next
  case False
  then have "\<not> primes ! t_num (table_of ht segs) \<le> length (t_entries (table_of ht segs))"
    using T num_buckets_pos [OF n] by (simp add: entries_table_of) (simp add: table_ok_def table_of_def)
  then show ?thesis using T False by (intro exI [of _ ht] exI [of _ segs]) (simp add: t_grow_def)
qed

lemma map_update_key:
  assumes "a \<in> set s" "distinct (map (\<lambda>a. fst (f a)) s)" "fst (f a) = key"
  shows "map (f(a := (key, v))) s = AList.update key v (map f s)"
  using assms
proof (induction s)
  case (Cons b s)
  show ?case
  proof (cases "b = a")
    case True
    then have "a \<notin> set s" using Cons.prems(2) by force
    then show ?thesis using True Cons.prems(3) by (cases "f a") (simp add: map_fun_upd)
  next
    case False
    then have "fst (f b) \<noteq> key" using Cons.prems by force
    then show ?thesis using False Cons by (cases "f b") auto
  qed
qed simp

lemma map_segs_replace:
  assumes "distinct (nodes segs)" "distinct (map fst segs)" "seg segs i \<noteq> []" "\<And>a. a \<notin> set (seg segs i) \<Longrightarrow> f' a = f a"
  shows "map_segs f' segs = AList.update i (map f' (seg segs i)) (map_segs f segs)"
proof -
  obtain us vs where s: "segs = us @ (i, seg segs i) # vs" "map_of us i = None" using seg_split [OF assms(3)] by metis
  have d: "distinct (nodes us @ seg segs i @ nodes vs)" using assms(1) arg_cong [OF s(1), of nodes] by simp
  have "map_segs f' us = map_segs f us" "map_segs f' vs = map_segs f vs"
    using d by (auto intro!: map_segs_cong assms(4))
  then have "map_segs f' segs = map_segs f us @ (i, map f' (seg segs i)) # map_segs f vs"
    using arg_cong [OF s(1), of "map_segs f'"] by (simp add: map_segs_def)
  moreover have "map_segs f segs = map_segs f us @ (i, map f (seg segs i)) # map_segs f vs"
    using arg_cong [OF s(1), of "map_segs f"] by (simp add: map_segs_def)
  moreover have "AList.update i s' (map_segs f us @ (i, r) # ws) = map_segs f us @ (i, s') # ws" for s' r ws
    using s(2) by (induction us) (auto simp: map_segs_def split: if_split_asm)
  ultimately show ?thesis by simp
qed

lemma segs_ok_pairs:
  assumes "segs_ok hash_key n pairs segs"
    and "\<And>a q. a \<in> set (nodes segs) \<Longrightarrow> pairs a = Some q \<Longrightarrow> \<exists>q'. pairs' a = Some q' \<and> p_key q' = p_key q \<and> p_hash q' = p_hash q"
  shows "segs_ok hash_key n pairs' segs"
  unfolding segs_ok_def
proof (intro conjI allI ballI)
  show d: "distinct (map fst segs)" and "map_of segs i \<noteq> Some []" for i using assms(1) by (simp_all add: segs_ok_def)
  fix i a assume a: "a \<in> set (seg segs i)"
  show "i < n" using assms(1) a by (auto simp: segs_ok_def)
  obtain q where "pairs a = Some q" "p_hash q = hash_key (p_key q)" "unat (p_hash q) mod n = i"
    using assms(1) a unfolding segs_ok_def by blast
  then show "\<exists>p. pairs' a = Some p \<and> p_hash p = hash_key (p_key p) \<and> unat (p_hash p) mod n = i"
    using assms(2) [of a q] seg_in_nodes [OF d a] by auto
qed

lemma replace_ok:
  assumes T: "table_ok hash_key ht segs" and n: "num_buckets ht = Some n" and node: "key_node hash_key n ht segs key = Some a"
    and p: "h_pairs ht a = Some p"
    and ht': "ht' = ht\<lparr>h_freed := fr, h_pairs := (h_pairs ht)(a \<mapsto> p\<lparr>p_value := val\<rparr>)\<rparr>"
  shows "table_ok hash_key ht' segs
    \<and> table_of ht' segs = (table_of ht segs)\<lparr>t_segs := AList.update (unat (hash_key key) mod n)
        (AList.update key val (seg (t_segs (table_of ht segs)) (unat (hash_key key) mod n))) (t_segs (table_of ht segs))\<rparr>
    \<and> key \<in> fst ` set (seg (t_segs (table_of ht segs)) (unat (hash_key key) mod n))"
proof -
  let ?i = "unat (hash_key key) mod n"
  have L: "links_ok hash_key n ht segs" and dk: "distinct (keys_of ht segs)" using T n by (auto simp: table_ok_def)
  have a: "a \<in> set (seg segs ?i)" "p_key p = key" "a \<in> set (nodes segs)"
    using key_node_ok [OF L dk, of key] num_buckets_pos [OF n] node p by auto
  then have ne: "seg segs ?i \<noteq> []" by auto
  have pk: "p_key (the (h_pairs ht' b)) = p_key (the (h_pairs ht b))" for b using p by (simp add: ht')
  have "segs_ok hash_key n (h_pairs ht') segs"
    by (rule segs_ok_pairs [of hash_key n "h_pairs ht"]) (use L p in \<open>auto simp: links_ok_def ht'\<close>)
  then have "links_ok hash_key n ht' segs" using L by (simp add: links_ok_def ht')
  moreover have nb: "num_buckets ht' = num_buckets ht" "h_size ht' = h_size ht" by (simp_all add: ht' num_buckets_def)
  moreover have "keys_of ht' segs = keys_of ht segs" by (simp add: keys_of_def pk)
  moreover have "dom (h_pairs ht') = dom (h_pairs ht)" using p by (auto simp: ht')
  ultimately have T': "table_ok hash_key ht' segs" using T n unfolding table_ok_def by (simp add: nb)
  have f': "member (h_pairs ht') = (member (h_pairs ht))(a := (key, val))" using a(2) by (auto simp: member_def ht')
  obtain us vs where s: "segs = us @ (?i, seg segs ?i) # vs" using seg_split [OF ne] by metis
  have ns: "nodes segs = nodes us @ seg segs ?i @ nodes vs" using arg_cong [OF s, of nodes] by simp
  have "distinct (map (\<lambda>a. fst (member (h_pairs ht) a)) (seg segs ?i))"
    using dk unfolding keys_of_def ns member_def by simp
  then have "map (member (h_pairs ht')) (seg segs ?i) = AList.update key val (map (member (h_pairs ht)) (seg segs ?i))"
    unfolding f' using a p by (intro map_update_key) (simp_all add: member_def)
  moreover have "map_segs (member (h_pairs ht')) segs
      = AList.update ?i (map (member (h_pairs ht')) (seg segs ?i)) (map_segs (member (h_pairs ht)) segs)"
    using a(1) f' by (intro map_segs_replace [OF links_ok_nodes(3,5) [OF L] ne]) auto
  ultimately have "table_of ht' segs = (table_of ht segs)\<lparr>t_segs := AList.update ?i
        (AList.update key val (seg (t_segs (table_of ht segs)) ?i)) (t_segs (table_of ht segs))\<rparr>"
    by (simp add: table_of_def map_segs_seg) (simp add: ht')
  moreover have "key \<in> fst ` set (seg (t_segs (table_of ht segs)) ?i)"
    using a p by (force simp: table_of_def map_segs_seg member_def)
  ultimately show ?thesis using T' by blast
qed

lemma add_ok:
  assumes T: "table_ok hash_key ht segs" and n: "num_buckets ht = Some n" and node: "key_node hash_key n ht segs key = None"
    and a: "a \<notin> set (h_list ht # nodes segs)" "a \<noteq> 0"
    and ht1: "ht1 = ht\<lparr>h_pairs := (h_pairs ht)(a \<mapsto> \<lparr>p_key = key, p_value = val, p_hash = hash_key key\<rparr>), h_links := INIT_LIST_HEAD a (h_links ht)\<rparr>"
  shows "\<exists>h' bs' segs'. insert_to_bucket ht1 (unat (hash_key key) mod n) a = Some (ht1\<lparr>h_links := h', h_buckets := bs'\<rparr>)
    \<and> (\<forall>ht'. ht' = ht1\<lparr>h_links := h', h_buckets := bs', h_size := h_size ht + 1\<rparr> \<longrightarrow>
        table_ok hash_key ht' segs'
        \<and> table_of ht' segs' = (table_of ht segs)\<lparr>t_segs := t_add hash_key (h_num_buckets ht) (key, val) (t_segs (table_of ht segs))\<rparr>)
    \<and> mset (nodes segs') = add_mset a (mset (nodes segs))
    \<and> key \<notin> fst ` set (seg (t_segs (table_of ht segs)) (unat (hash_key key) mod n))"
proof -
  let ?i = "unat (hash_key key) mod n"
  let ?p = "\<lparr>p_key = key, p_value = val, p_hash = hash_key key\<rparr>"
  have L: "links_ok hash_key n ht segs" and dk: "distinct (keys_of ht segs)" and D: "dom (h_pairs ht) = set (nodes segs)"
    using T n by (auto simp: table_ok_def)
  have pos: "0 < n" "n = primes ! h_num_buckets ht" using num_buckets_pos [OF n] by auto
  have key: "key \<notin> set (keys_of ht segs)" using key_node_ok [OF L dk, of key] pos node by simp
  have aseg: "a \<notin> set (seg segs j)" for j using a(1) seg_in_nodes [OF links_ok_nodes(5) [OF L]] by auto
  have "is_list (h_links ht1) (h_list ht) (nodes segs)"
    by (rule is_list_frame [of "h_links ht"]) (use L a(1) in \<open>auto simp: links_ok_def ht1 INIT_LIST_HEAD_def\<close>)
  moreover have "segs_ok hash_key n (h_pairs ht1) segs"
    by (rule segs_ok_pairs [of hash_key n "h_pairs ht"]) (use L a(1) in \<open>auto simp: links_ok_def ht1\<close>)
  ultimately have L1: "links_ok hash_key n ht1 segs" using L by (simp add: links_ok_def ht1)
  obtain h' bs' where I: "insert_to_bucket ht1 ?i a = Some (ht1\<lparr>h_links := h', h_buckets := bs'\<rparr>)"
    "links_ok hash_key n (ht1\<lparr>h_links := h', h_buckets := bs'\<rparr>) (seg_insert ?i a segs)"
    using insert_to_bucket_ok [OF L1, of a ?p] a pos by (auto simp: ht1)
  define segs' where "segs' = seg_insert ?i a segs"
  have m: "mset (nodes segs') = add_mset a (mset (nodes segs))"
    unfolding segs'_def by (rule mset_seg_insert [OF links_ok_nonempty [OF L]])
  then have nodes: "set (nodes segs') = insert a (set (nodes segs))" "length (nodes segs') = Suc (length (nodes segs))"
    by (metis set_mset_add_mset_insert set_mset_mset) (metis m size_add_mset size_mset)
  have key': "key \<notin> fst ` set (seg (t_segs (table_of ht segs)) ?i)"
    using key seg_in_nodes [OF links_ok_nodes(5) [OF L]] by (auto simp: table_of_def map_segs_seg keys_of_def member_def)
  have "table_ok hash_key ht' segs'
      \<and> table_of ht' segs' = (table_of ht segs)\<lparr>t_segs := t_add hash_key (h_num_buckets ht) (key, val) (t_segs (table_of ht segs))\<rparr>"
    if ht': "ht' = ht1\<lparr>h_links := h', h_buckets := bs', h_size := h_size ht + 1\<rparr>" for ht'
  proof
    have L': "links_ok hash_key n ht' segs'" using I(2) by (simp add: links_ok_def ht' segs'_def)
    have nb: "num_buckets ht' = num_buckets ht" "h_size ht' = h_size ht + 1" "dom (h_pairs ht') = insert a (dom (h_pairs ht))"
      by (auto simp: ht' ht1 num_buckets_def)
    have old: "h_pairs ht' b = h_pairs ht b" if "b \<in> set (nodes segs)" for b using that a(1) by (auto simp: ht' ht1)
    have "mset (keys_of ht' segs') = add_mset key (mset (keys_of ht segs))"
      using old by (simp add: keys_of_def m ht' ht1 mset_map) (auto intro!: image_mset_cong simp: a)
    then have "mset (keys_of ht' segs') = mset (key # keys_of ht segs)" by simp
    then have dk': "distinct (keys_of ht' segs')" using dk key mset_eq_imp_distinct_iff by fastforce
    show "table_ok hash_key ht' segs'"
      using T n L' dk' nodes D unfolding table_ok_def by (simp add: nb)
    have mem: "member (h_pairs ht') a = (key, val)" by (simp add: member_def ht' ht1)
    have "map_segs (member (h_pairs ht')) segs' = t_add hash_key (h_num_buckets ht) (key, val) (map_segs (member (h_pairs ht')) segs)"
      unfolding segs'_def using pos mem by (metis fst_conv map_segs_insert)
    moreover have "map_segs (member (h_pairs ht')) segs = map_segs (member (h_pairs ht)) segs"
      using old by (intro map_segs_cong) (simp add: member_def)
    ultimately show "table_of ht' segs' = (table_of ht segs)\<lparr>t_segs := t_add hash_key (h_num_buckets ht) (key, val) (t_segs (table_of ht segs))\<rparr>"
      by (simp add: table_of_def) (simp add: ht' ht1)
  qed
  then show ?thesis using I(1) m key' by blast
qed

section \<open>What the table owns\<close>

text \<open>The keys and values given to the table: those it still holds and those it has released.\<close>

definition owned :: "('k, 'v) hashtable \<Rightarrow> addr segments \<Rightarrow> ('k + 'v) multiset" where
  "owned ht segs = mset (h_freed ht) + mset (map Inl (map fst (t_entries (table_of ht segs)))) + mset (map Inr (map snd (t_entries (table_of ht segs))))"

lemma owned_nodes:
  "owned ht segs = mset (h_freed ht) + image_mset (\<lambda>a. Inl (p_key (the (h_pairs ht a)))) (mset (nodes segs))
     + image_mset (\<lambda>a. Inr (p_value (the (h_pairs ht a)))) (mset (nodes segs))"
  by (simp add: owned_def entries_table_of member_def multiset.map_comp comp_def flip: mset_map)

lemma owned_replace:
  assumes "a \<in> set (nodes segs)" "distinct (nodes segs)" "h_pairs ht a = Some p" "p_key p = key"
  shows "owned (ht\<lparr>h_freed := h_freed ht @ [Inl key, Inr (p_value p)], h_pairs := (h_pairs ht)(a \<mapsto> p\<lparr>p_value := val\<rparr>)\<rparr>) segs
    = owned ht segs + {#Inl key, Inr val#}"
proof -
  obtain xs ys where n: "nodes segs = xs @ a # ys" "a \<notin> set xs" "a \<notin> set ys"
    using assms(1,2) by (metis (no_types, lifting) distinct.simps(2) distinct_append not_distinct_conv_prefix split_list_first)
  have "image_mset (\<lambda>b. f (the (if b = a then Some q else h_pairs ht b))) (mset zs) = image_mset (\<lambda>b. f (the (h_pairs ht b))) (mset zs)"
    if "a \<notin> set zs" for f :: "('a, 'b) pair \<Rightarrow> 'a + 'b" and zs q
    using that by (intro image_mset_cong) auto
  from this [OF n(2), of "Inl \<circ> p_key"] this [OF n(3), of "Inl \<circ> p_key"] this [OF n(2), of "Inr \<circ> p_value"] this [OF n(3), of "Inr \<circ> p_value"]
  show ?thesis using assms(3,4) by (simp add: owned_nodes n)
qed

section \<open>The operations\<close>

lemma set_ok:
  assumes T: "table_ok hash_key ht segs" and cmp: "\<And>a b. cmp_keys a b \<longleftrightarrow> a = b"
    and room: "h_size ht < primes ! h_num_buckets ht \<or> h_num_buckets ht + 1 < length primes"
    and a: "a \<notin> set (h_list ht # nodes segs)" "a \<noteq> 0"
  shows "\<exists>ht' segs'. hashtable_set hash_key cmp_keys True (Some a) key val ht = Some (True, ht') \<and> table_ok hash_key ht' segs'
    \<and> table_of ht' segs' = t_set hash_key key val (table_of ht segs)
    \<and> owned ht' segs' = owned ht segs + {#Inl key, Inr val#}"
proof -
  obtain n0 where n0: "num_buckets ht = Some n0" using T by (auto simp: table_ok_def)
  have "n0 \<le> h_size ht \<longrightarrow> h_num_buckets ht + 1 < length primes" using room num_buckets_pos [OF n0] by auto
  then obtain h1 segs1 where g: "(if n0 \<le> h_size ht then hashtable_do_rehash True ht else Some (True, ht)) = Some (True, h1)"
    "table_ok hash_key h1 segs1" "table_of h1 segs1 = t_grow hash_key (table_of ht segs)" "mset (nodes segs1) = mset (nodes segs)"
    "h_pairs h1 = h_pairs ht" "h_list h1 = h_list ht" "h_freed h1 = h_freed ht"
    using grow_ok [OF T n0] by metis
  have own: "owned h1 segs1 = owned ht segs" by (simp add: owned_nodes g(4,5,7))
  have a1: "a \<notin> set (h_list h1 # nodes segs1)" using a(1) g(4,6) by (auto dest: mset_eq_setD)
  obtain n where n: "num_buckets h1 = Some n" and L: "links_ok hash_key n h1 segs1" using g(2) by (auto simp: table_ok_def)
  have dk: "distinct (keys_of h1 segs1)" using g(2) by (simp add: table_ok_def)
  have pos: "0 < n" "n = primes ! h_num_buckets h1" using num_buckets_pos [OF n] by auto
  let ?i = "unat (hash_key key) mod n" and ?t = "table_of h1 segs1"
  have i: "t_index hash_key (t_num ?t) key = ?i" by (simp add: t_index_def table_of_def pos)
  note fk = find_key_ok [OF L n pos(1) cmp, of key]
  note kn = key_node_ok [OF L dk pos(1), of key]
  show ?thesis
  proof (cases "key_node hash_key n h1 segs1 key")
    case (Some b)
    obtain p where p: "h_pairs h1 b = Some p" "p_key p = key" "b \<in> set (nodes segs1)" using kn Some by auto
    define ht' where "ht' = h1\<lparr>h_freed := h_freed h1 @ [Inl key, Inr (p_value p)], h_pairs := (h_pairs h1)(b \<mapsto> p\<lparr>p_value := val\<rparr>)\<rparr>"
    have "hashtable_set hash_key cmp_keys True (Some a) key val ht = Some (True, ht')"
      using g(1) n0 fk Some p by (simp add: hashtable_set_def ht'_def)
    moreover have "owned ht' segs1 = owned ht segs + {#Inl key, Inr val#}"
      unfolding ht'_def using owned_replace [OF p(3) links_ok_nodes(3) [OF L] p(1,2)] own by simp
    ultimately show ?thesis
      using replace_ok [OF g(2) n Some p(1) ht'_def] g(3) i by (intro exI [of _ ht'] exI [of _ segs1]) (simp add: t_set_def Let_def)
  next
    case None
    define h2 where "h2 = h1\<lparr>h_pairs := (h_pairs h1)(a \<mapsto> \<lparr>p_key = key, p_value = val, p_hash = hash_key key\<rparr>), h_links := INIT_LIST_HEAD a (h_links h1)\<rparr>"
    obtain h' bs' segs' where I: "insert_to_bucket h2 ?i a = Some (h2\<lparr>h_links := h', h_buckets := bs'\<rparr>)"
      "\<And>ht'. ht' = h2\<lparr>h_links := h', h_buckets := bs', h_size := h_size h1 + 1\<rparr> \<Longrightarrow>
        table_ok hash_key ht' segs' \<and> table_of ht' segs' = ?t\<lparr>t_segs := t_add hash_key (h_num_buckets h1) (key, val) (t_segs ?t)\<rparr>"
      "mset (nodes segs') = add_mset a (mset (nodes segs1))" "key \<notin> fst ` set (seg (t_segs ?t) ?i)"
      using add_ok [OF g(2) n None a1 a(2) h2_def] by metis
    define ht' where "ht' = h2\<lparr>h_links := h', h_buckets := bs', h_size := h_size h1 + 1\<rparr>"
    have "hashtable_set hash_key cmp_keys True (Some a) key val ht = Some (True, ht')"
      using g(1) n0 fk None I(1) by (simp add: hashtable_set_def ht'_def h2_def)
    moreover have "owned ht' segs' = owned ht segs + {#Inl key, Inr val#}"
    proof -
      have "image_mset (\<lambda>b. f (the (if b = a then Some q else h_pairs h1 b))) (mset (nodes segs1)) = image_mset (\<lambda>b. f (the (h_pairs h1 b))) (mset (nodes segs1))"
        for f :: "('a, 'b) pair \<Rightarrow> 'a + 'b" and q
        using a1 by (intro image_mset_cong) auto
      from this [of "Inl \<circ> p_key"] this [of "Inr \<circ> p_value"] show ?thesis
        unfolding own [symmetric] by (simp add: owned_nodes I(3) ht'_def h2_def)
    qed
    moreover have "t_num ?t = h_num_buckets h1" by (simp add: table_of_def)
    ultimately show ?thesis
      using I(2) [OF ht'_def] I(4) g(3) i by (intro exI [of _ ht'] exI [of _ segs']) (simp add: t_set_def Let_def)
  qed
qed

lemma get_ok:
  assumes T: "table_ok hash_key ht segs" and cmp: "\<And>a b. cmp_keys a b \<longleftrightarrow> a = b"
  shows "hashtable_get hash_key cmp_keys ht key = Some (map_of (t_entries (table_of ht segs)) key)"
proof -
  obtain n where n: "num_buckets ht = Some n" and L: "links_ok hash_key n ht segs" using T by (auto simp: table_ok_def)
  have dk: "distinct (keys_of ht segs)" using T by (simp add: table_ok_def)
  have pos: "0 < n" using num_buckets_pos [OF n] by simp
  note fk = find_key_ok [OF L n pos cmp, of key] and kn = key_node_ok [OF L dk pos, of key]
  have dk': "distinct (map fst (t_entries (table_of ht segs)))" using dk by (simp add: keys_of_entries)
  show ?thesis
  proof (cases "key_node hash_key n ht segs key")
    case None
    then have "map_of (t_entries (table_of ht segs)) key = None" using kn by (simp add: keys_of_entries map_of_eq_None_iff)
    then show ?thesis using fk None by (simp add: hashtable_get_def)
  next
    case (Some a)
    then obtain p where p: "h_pairs ht a = Some p" "p_key p = key" "a \<in> set (nodes segs)" using kn by auto
    then have "(key, p_value p) \<in> set (t_entries (table_of ht segs))" by (force simp: entries_table_of member_def)
    then have "map_of (t_entries (table_of ht segs)) key = Some (p_value p)" using dk' by simp
    then show ?thesis using fk Some p by (simp add: hashtable_get_def)
  qed
qed

section \<open>Deleting a key\<close>

definition t_del :: "('k \<Rightarrow> 32 word) \<Rightarrow> 'k \<Rightarrow> ('k, 'v) table \<Rightarrow> ('k, 'v) table" where
  "t_del hash_key key t =
     (let i = t_index hash_key (t_num t) key; s = AList.delete key (seg (t_segs t) i)
      in if key \<in> fst ` set (seg (t_segs t) i)
         then t\<lparr>t_segs := if s = [] then AList.delete i (t_segs t) else AList.update i s (t_segs t)\<rparr>
         else t)"

lemma map_segs_delete: "map_segs f (AList.delete i segs) = AList.delete i (map_segs f segs)"
  by (induction segs) (auto simp: map_segs_def AList.delete_eq)

lemma map_delete_key:
  assumes "distinct (map (\<lambda>a. fst (f a)) s)" "a \<in> set s" "fst (f a) = key"
  shows "map f (remove1 a s) = AList.delete key (map f s)"
  using assms
proof (induction s)
  case (Cons b s)
  show ?case
  proof (cases "b = a")
    case True
    have "fst (f b) \<notin> set (map (\<lambda>a. fst (f a)) s)" using Cons.prems(1) by simp
    then have "\<forall>c \<in> set s. fst (f c) \<noteq> key" using True Cons.prems(3) by (auto simp: image_iff)
    then have "AList.delete key (map f s) = map f s" by (intro delete_id) (auto simp: image_iff)
    then show ?thesis using True Cons.prems(3) by (cases "f a") simp
  next
    case False
    then have "fst (f b) \<noteq> key" using Cons.prems by force
    then show ?thesis using False Cons by (cases "f b") auto
  qed
qed simp

text \<open>The bucket after a pair has been taken out of its segment \<open>s1 @ a # s2\<close>.\<close>

lemma del_bucket:
  assumes "chain h (s1 @ a # s2)" "distinct (s1 @ a # s2)"
    and "bucket = seg_bucket head (s1 @ a # s2)"
  shows "(if a = bk_first bucket \<and> a = bk_last bucket then \<lparr>bk_first = head, bk_last = head\<rparr>
          else if a = bk_first bucket then bucket\<lparr>bk_first := nxt h a\<rparr>
          else if a = bk_last bucket then bucket\<lparr>bk_last := prv h a\<rparr>
          else bucket) = seg_bucket head (s1 @ s2)"
proof -
  have f: "a = hd (s1 @ a # s2) \<longleftrightarrow> s1 = []" using assms(2) by (cases s1) auto
  have l: "a = last (s1 @ a # s2) \<longleftrightarrow> s2 = []" using assms(2) last_in_set [of s2] by (cases "s2 = []") auto
  have ends: "s1 \<noteq> [] \<longrightarrow> prv h a = last s1" "s2 \<noteq> [] \<longrightarrow> nxt h a = hd s2" using chain_ends [OF assms(1)] by auto
  have b: "bk_first bucket = hd (s1 @ a # s2)" "bk_last bucket = last (s1 @ a # s2)" by (simp_all add: assms(3) seg_bucket_def)
  show ?thesis
  proof (cases "s1 = []"; cases "s2 = []")
    show ?thesis if "s1 = []" "s2 = []" using that by (simp add: assms(3) seg_bucket_def)
    show ?thesis if "s1 = []" "s2 \<noteq> []" using that b f l ends by (simp add: assms(3) seg_bucket_def)
    show ?thesis if "s1 \<noteq> []" "s2 = []" using that b f l ends by (simp add: assms(3) seg_bucket_def)
    show ?thesis if "s1 \<noteq> []" "s2 \<noteq> []" using that b f l by (simp add: assms(3) seg_bucket_def)
  qed
qed

lemma del_ok:
  assumes T: "table_ok hash_key ht segs" and cmp: "\<And>a b. cmp_keys a b \<longleftrightarrow> a = b"
  shows "\<exists>ht' segs'. hashtable_del hash_key cmp_keys ht key = Some (key \<in> fst ` set (t_entries (table_of ht segs)), ht')
    \<and> table_ok hash_key ht' segs' \<and> table_of ht' segs' = t_del hash_key key (table_of ht segs) \<and> owned ht' segs' = owned ht segs"
proof -
  obtain n where n: "num_buckets ht = Some n" and L: "links_ok hash_key n ht segs" using T by (auto simp: table_ok_def)
  have dk: "distinct (keys_of ht segs)" and D: "dom (h_pairs ht) = set (nodes segs)" using T by (auto simp: table_ok_def)
  have pos: "0 < n" "n = primes ! h_num_buckets ht" using num_buckets_pos [OF n] by auto
  let ?i = "unat (hash_key key) mod n" and ?t = "table_of ht segs"
  have i: "t_index hash_key (t_num ?t) key = ?i" by (simp add: t_index_def table_of_def pos)
  note fk = find_key_ok [OF L n pos(1) cmp, of key] and kn = key_node_ok [OF L dk pos(1), of key]
  have in_seg: "key \<in> fst ` set (seg (t_segs ?t) ?i) \<Longrightarrow> key \<in> fst ` set (t_entries ?t)"
    using seg_in_nodes [OF links_ok_nodes(5) [OF L]] by (auto simp: table_of_def map_segs_seg t_entries_def entries_table_of [unfolded table_of_def t_entries_def, simplified])
  show ?thesis
  proof (cases "key_node hash_key n ht segs key")
    case None
    then have k: "key \<notin> fst ` set (t_entries ?t)" using kn by (simp add: keys_of_entries)
    then have "hashtable_del hash_key cmp_keys ht key = Some (False, ht)"
      using fk None by (simp add: hashtable_del_def hashtable_do_del_def)
    moreover have "t_del hash_key key ?t = ?t" using k in_seg i by (auto simp: t_del_def Let_def)
    ultimately show ?thesis using T k by auto
  next
    case (Some a)
    obtain p where p: "h_pairs ht a = Some p" "p_key p = key" "a \<in> set (seg segs ?i)" "a \<in> set (nodes segs)" using kn Some by auto
    obtain xs s1 s2 ys where s: "seg segs ?i = s1 @ a # s2" "a \<notin> set s1" "nodes segs = xs @ s1 @ a # s2 @ ys"
      "nodes (seg_delete ?i a segs) = xs @ s1 @ s2 @ ys"
      using nodes_seg_delete [OF links_ok_nodes(5) [OF L] p(3)] by metis
    have ne: "seg segs ?i \<noteq> []" using s(1) by simp
    let ?bucket = "seg_bucket (h_list ht) (seg segs ?i)" and ?segs = "seg_delete ?i a segs"
    define ht' where "ht' = set_bucket ?i (seg_bucket (h_list ht) (s1 @ s2)) (ht\<lparr>h_links := list_remove a (h_links ht),
        h_freed := h_freed ht @ [Inl key, Inr (p_value p)], h_pairs := (h_pairs ht)(a := None), h_size := h_size ht - 1\<rparr>)"
    have "chain (h_links ht) (s1 @ a # s2)" "distinct (s1 @ a # s2)" using seg_chain [OF L ne] s(1) by simp_all
    note bucket = del_bucket [OF this, of ?bucket "h_list ht", folded s(1), OF refl]
    have del: "hashtable_del hash_key cmp_keys ht key = Some (True, ht')"
      using fk Some p(1,2) bucket by (simp add: hashtable_del_def hashtable_do_del_def ht'_def Let_def)
    have ht': "h_pairs ht' = (h_pairs ht)(a := None)" "h_list ht' = h_list ht" "h_links ht' = list_remove a (h_links ht)"
      "num_buckets ht' = Some n" "h_num_buckets ht' = h_num_buckets ht" "h_size ht' = h_size ht - 1" "h_freed ht' = h_freed ht @ [Inl key, Inr (p_value p)]"
      using num_buckets_pos [OF n] by (simp_all add: ht'_def set_bucket_def num_buckets_def)
    have dn: "distinct (xs @ s1 @ a # s2 @ ys)" using links_ok_nodes(3) [OF L] s(3) by simp
    have own_seg: "j \<noteq> ?i \<Longrightarrow> a \<notin> set (seg segs j)" for j using seg_pair [OF L, of a j] seg_pair [OF L p(3)] by auto
    have "is_list (h_links ht') (h_list ht') (nodes ?segs)"
      using remove_node [of "h_links ht" "h_list ht" "xs @ s1" a "s2 @ ys"] L s(3,4) by (simp add: links_ok_def ht')
    moreover have "segs_ok hash_key n (h_pairs ht') ?segs"
      using L dn own_seg s(1) by (intro segs_ok_delete [of hash_key n "h_pairs ht"]) (auto simp: links_ok_def ht')
    moreover have "h_buckets ht' = Some (map (\<lambda>i. seg_bucket (h_list ht') (seg ?segs i)) [0..<n])"
    proof -
      have "h_buckets ht = Some (map (\<lambda>i. seg_bucket (h_list ht) (seg segs i)) [0..<n])" using L by (simp add: links_ok_def)
      moreover have "\<forall>j. seg ?segs j = (if j = ?i then s1 @ s2 else seg segs j)"
        using s(1,2) by (simp add: seg_seg_delete [OF links_ok_nodes(5) [OF L]] remove1_append)
      note set_bucket_list [OF L _ this]
      ultimately show ?thesis using pos by (simp add: ht'_def set_bucket_def)
    qed
    ultimately have L': "links_ok hash_key n ht' ?segs" by (simp add: links_ok_def)
    have same: "h_pairs ht' b = h_pairs ht b" if "b \<in> set (nodes ?segs)" for b using that dn by (auto simp: s(4) ht')
    have keys': "keys_of ht' ?segs = map (\<lambda>a. p_key (the (h_pairs ht a))) (nodes ?segs)" using same by (simp add: keys_of_def)
    have "distinct (keys_of ht' ?segs)" unfolding keys' s(4) using dk by (auto simp: keys_of_def s(3))
    moreover have "dom (h_pairs ht') = set (nodes ?segs)" using D dn by (auto simp: ht' s(3,4))
    moreover have "h_size ht' = length (nodes ?segs)" using T by (simp add: table_ok_def ht' s(3,4))
    ultimately have T': "table_ok hash_key ht' ?segs" using L' ht'(4) by (simp add: table_ok_def)
    have "map_segs (member (h_pairs ht')) ?segs = map_segs (member (h_pairs ht)) ?segs"
      using same by (intro map_segs_cong) (simp add: member_def)
    moreover have "map (member (h_pairs ht)) (remove1 a (seg segs ?i)) = AList.delete key (map (member (h_pairs ht)) (seg segs ?i))"
      using dk p by (intro map_delete_key) (auto simp: keys_of_def s(1,3) member_def)
    moreover have "key \<in> fst ` set (seg (t_segs ?t) ?i)" using p by (force simp: table_of_def map_segs_seg member_def)
    ultimately have "table_of ht' ?segs = t_del hash_key key ?t \<and> key \<in> fst ` set (t_entries ?t)"
      using in_seg i
      by (simp add: t_del_def Let_def)
        (auto simp: table_of_def ht'(5) seg_delete_def map_segs_update map_segs_delete map_segs_seg)
    moreover have "owned ht' ?segs = owned ht segs"
    proof -
      have "image_mset (\<lambda>b. f (the (h_pairs ht' b))) (mset (nodes ?segs)) = image_mset (\<lambda>b. f (the (h_pairs ht b))) (mset (nodes ?segs))"
        for f :: "('a, 'b) pair \<Rightarrow> 'a + 'b"
        using same by (intro image_mset_cong) auto
      from this [of "Inl \<circ> p_key"] this [of "Inr \<circ> p_value"] show ?thesis
        using p by (simp add: owned_nodes ht'(7) s(3,4))
    qed
    ultimately show ?thesis using del T' by auto
  qed
qed

section \<open>Clearing and iteration\<close>

lemma clear_loop_ok:
  assumes "walk (h_links ht) as (h_list ht)" "h_list ht \<notin> set as" "distinct as" "\<forall>a \<in> set as. h_pairs ht a \<noteq> None"
  shows "clear_loop (hd (as @ [h_list ht])) ht = Some (ht\<lparr>
      h_freed := h_freed ht @ concat (map (\<lambda>a. [Inl (p_key (the (h_pairs ht a))), Inr (p_value (the (h_pairs ht a)))]) as),
      h_pairs := (\<lambda>a. if a \<in> set as then None else h_pairs ht a)\<rparr>)"
  using assms
proof (induction as arbitrary: ht)
  case Nil
  then show ?case by (subst clear_loop.simps) simp
next
  case (Cons a as)
  obtain p where p: "h_pairs ht a = Some p" using Cons.prems(4) by auto
  define ht1 where "ht1 = ht\<lparr>h_freed := h_freed ht @ [Inl (p_key p), Inr (p_value p)], h_pairs := (h_pairs ht)(a := None)\<rparr>"
  have "walk (h_links ht1) as (h_list ht1)" "h_list ht1 \<notin> set as" "distinct as" "\<forall>a \<in> set as. h_pairs ht1 a \<noteq> None"
    using Cons.prems by (auto simp: ht1_def)
  note IH = Cons.IH [OF this]
  have same: "b \<in> set as \<Longrightarrow> h_pairs ht1 b = h_pairs ht b" for b using Cons.prems(3) by (auto simp: ht1_def)
  have "clear_loop a ht = clear_loop (hd (as @ [h_list ht])) ht1"
    using p Cons.prems(1,2) by (subst clear_loop.simps) (auto simp: ht1_def Let_def)
  also have "\<dots> = Some (ht1\<lparr>
      h_freed := h_freed ht1 @ concat (map (\<lambda>a. [Inl (p_key (the (h_pairs ht a))), Inr (p_value (the (h_pairs ht a)))]) as),
      h_pairs := (\<lambda>a. if a \<in> set as then None else h_pairs ht1 a)\<rparr>)"
    using IH same by (simp add: ht1_def cong: map_cong)
  finally show ?case using p by (simp add: ht1_def fun_eq_iff)
qed

lemma clear_ok:
  assumes T: "table_ok hash_key ht segs"
  shows "\<exists>ht'. hashtable_clear ht = Some ht' \<and> table_ok hash_key ht' [] \<and> owned ht' [] = owned ht segs
    \<and> h_num_buckets ht' = h_num_buckets ht"
proof -
  obtain n where n: "num_buckets ht = Some n" and L: "links_ok hash_key n ht segs" using T by (auto simp: table_ok_def)
  have D: "dom (h_pairs ht) = set (nodes segs)" using T by (simp add: table_ok_def)
  have "chain (h_links ht) ((h_list ht # nodes segs) @ [h_list ht])" using L by (simp add: links_ok_def is_list_def)
  then have w: "walk (h_links ht) (h_list ht # nodes segs) (h_list ht)" by (rule chain_walk)
  have "\<forall>a \<in> set (nodes segs). h_pairs ht a \<noteq> None" using D by auto
  note clear = clear_loop_ok [OF _ links_ok_nodes(1,3) [OF L] this]
  define fr where "fr = concat (map (\<lambda>a. [Inl (p_key (the (h_pairs ht a))), Inr (p_value (the (h_pairs ht a)))]) (nodes segs))"
  have none: "(\<lambda>a. if a \<in> set (nodes segs) then None else h_pairs ht a) = (\<lambda>_. None)"
    using D by (intro ext) (metis domIff)
  define ht' where "ht' = ht\<lparr>h_freed := h_freed ht @ fr, h_pairs := (\<lambda>_. None), h_buckets := Some (empty_buckets (h_list ht) n),
      h_links := INIT_LIST_HEAD (h_list ht) (h_links ht), h_size := 0\<rparr>"
  have "hashtable_clear ht = Some ht'"
    using w clear n L none num_buckets_pos [OF n]
    by (simp add: hashtable_clear_def hashtable_do_clear_def fr_def [symmetric] ht'_def num_buckets_def links_ok_def)
  moreover have "links_ok hash_key n ht' []"
    using links_ok_nodes(4) [OF L] by (simp add: links_ok_def ht'_def init_list segs_ok_def empty_buckets_seg seg_def)
  then have "table_ok hash_key ht' []"
    using num_buckets_pos [OF n] by (simp add: table_ok_def keys_of_def) (simp add: ht'_def num_buckets_def)
  moreover have "mset (concat (map (\<lambda>a. [Inl (f a), Inr (g a)]) xs)) = image_mset (\<lambda>a. Inl (f a)) (mset xs) + image_mset (\<lambda>a. Inr (g a)) (mset xs)"
    for f :: "addr \<Rightarrow> 'a" and g :: "addr \<Rightarrow> 'b" and xs by (induction xs) auto
  then have "mset fr = image_mset (\<lambda>a. Inl (p_key (the (h_pairs ht a)))) (mset (nodes segs))
      + image_mset (\<lambda>a. Inr (p_value (the (h_pairs ht a)))) (mset (nodes segs))"
    by (simp add: fr_def)
  then have "owned ht' [] = owned ht segs" by (simp add: owned_nodes) (simp add: ht'_def)
  ultimately show ?thesis by (auto simp: ht'_def)
qed

text \<open>The members an iterator visits.\<close>

partial_function (option) members_from :: "('k, 'v) hashtable \<Rightarrow> addr option \<Rightarrow> ('k \<times> 'v) list option" where
  "members_from hashtable iter =
     (case iter of
        None \<Rightarrow> Some []
      | Some a \<Rightarrow> do {
          key \<leftarrow> hashtable_iter_key hashtable a;
          val \<leftarrow> hashtable_iter_value hashtable a;
          rest \<leftarrow> members_from hashtable (hashtable_iter_next hashtable a);
          Some ((key, val) # rest)
        })"

lemma members_from_ok:
  assumes "walk (h_links ht) (a # as) (h_list ht)" "h_list ht \<notin> set as" "\<forall>a \<in> set as. h_pairs ht a \<noteq> None"
  shows "members_from ht (hashtable_iter_next ht a) = Some (map (member (h_pairs ht)) as)"
  using assms
proof (induction as arbitrary: a)
  case Nil
  then show ?case by (subst members_from.simps) (simp add: hashtable_iter_next_def)
next
  case (Cons b as)
  obtain p where p: "h_pairs ht b = Some p" using Cons.prems(3) by auto
  have "walk (h_links ht) (b # as) (h_list ht)" "h_list ht \<notin> set as" "\<forall>a \<in> set as. h_pairs ht a \<noteq> None" using Cons.prems by auto
  note IH = Cons.IH [OF this]
  have "hashtable_iter_next ht a = Some b" using Cons.prems(1,2) by (simp add: hashtable_iter_next_def)
  then show ?case
    using IH p by (subst members_from.simps) (simp add: hashtable_iter_key_def hashtable_iter_value_def member_def)
qed

lemma iter_ok:
  assumes "table_ok hash_key ht segs"
  shows "members_from ht (hashtable_iter ht) = Some (t_entries (table_of ht segs))"
proof -
  obtain n where L: "links_ok hash_key n ht segs" using assms by (auto simp: table_ok_def)
  have "chain (h_links ht) ((h_list ht # nodes segs) @ [h_list ht])" using L by (simp add: links_ok_def is_list_def)
  then have w: "walk (h_links ht) (h_list ht # nodes segs) (h_list ht)" by (rule chain_walk)
  have "\<forall>a \<in> set (nodes segs). h_pairs ht a \<noteq> None" using assms by (auto simp: table_ok_def)
  then show ?thesis
    using members_from_ok [OF w links_ok_nodes(1) [OF L]] by (simp add: hashtable_iter_def entries_table_of)
qed

lemma iter_at_ok:
  assumes T: "table_ok hash_key ht segs" and cmp: "\<And>a b. cmp_keys a b \<longleftrightarrow> a = b"
  shows "\<exists>iter. hashtable_iter_at hash_key cmp_keys ht key = Some iter
    \<and> (case iter of None \<Rightarrow> key \<notin> fst ` set (t_entries (table_of ht segs)) | Some a \<Rightarrow> hashtable_iter_key ht a = Some key)"
proof -
  obtain n where n: "num_buckets ht = Some n" and L: "links_ok hash_key n ht segs" using T by (auto simp: table_ok_def)
  have dk: "distinct (keys_of ht segs)" using T by (simp add: table_ok_def)
  show ?thesis
    using find_key_ok [OF L n _ cmp, of key] key_node_ok [OF L dk, of key] num_buckets_pos [OF n]
    by (auto simp: hashtable_iter_at_def hashtable_iter_key_def keys_of_entries split: option.splits)
qed

lemma init_ok:
  assumes "hashtable_init True head links = Some ht" "head \<noteq> 0"
  shows "table_ok hash_key ht [] \<and> table_of ht [] = t_empty \<and> owned ht [] = {#}"
proof -
  have ht: "ht = \<lparr>h_size = 0, h_buckets = Some (empty_buckets head (primes ! 0)), h_num_buckets = 0, h_list = head,
                 h_links = INIT_LIST_HEAD head links, h_pairs = (\<lambda>_. None), h_freed = []\<rparr>"
    using assms(1) by (simp add: hashtable_init_def)
  have "links_ok hash_key (primes ! 0) ht []" using assms(2) by (simp add: links_ok_def ht init_list segs_ok_def empty_buckets_seg seg_def)
  then show ?thesis
    by (simp add: table_ok_def keys_of_def owned_nodes table_of_def t_empty_def map_segs_def) (simp add: ht num_buckets_def primes_def)
qed

section \<open>The interface: a table of members with distinct keys\<close>

text \<open>What a client of a table relies on, and what follows for members put one after another.\<close>

locale member_table =
  fixes empty :: "'t" and put :: "'k \<Rightarrow> 'v \<Rightarrow> 't \<Rightarrow> 't" and entries :: "'t \<Rightarrow> ('k \<times> 'v) list" and inv :: "'t \<Rightarrow> bool"
  assumes inv_empty: "inv empty" and entries_empty: "entries empty = []"
    and inv_put: "inv t \<Longrightarrow> inv (put k v t)"
    and distinct_keys: "inv t \<Longrightarrow> distinct (map fst (entries t))"
    and map_put: "inv t \<Longrightarrow> map_of (entries (put k v t)) = (map_of (entries t))(k \<mapsto> v)"
begin

lemma puts:
  "inv t \<Longrightarrow> inv (fold (\<lambda>(k, v). put k v) kvs t) \<and> map_of (entries (fold (\<lambda>(k, v). put k v) kvs t)) = map_of (rev kvs @ entries t)"
proof (induction kvs arbitrary: t)
  case (Cons kv kvs)
  then show ?case by (cases kv) (simp add: inv_put map_put map_add_def fun_eq_iff split: option.split)
qed simp

lemma map_puts: "map_of (entries (fold (\<lambda>(k, v). put k v) kvs empty)) = map_of (rev kvs)"
  using puts [OF inv_empty, of kvs] by (simp add: entries_empty)

lemma puts_distinct:
  assumes "distinct (map fst kvs)"
  shows "mset (entries (fold (\<lambda>(k, v). put k v) kvs empty)) = mset kvs"
proof -
  let ?es = "entries (fold (\<lambda>(k, v). put k v) kvs empty)"
  have "distinct (map fst ?es)" using puts [OF inv_empty, of kvs] distinct_keys by blast
  moreover have "distinct (map fst (rev kvs))" using assms by (simp flip: rev_map)
  ultimately have "set ?es = set (rev kvs)" using map_puts [of kvs] map_of_inject_set by blast
  moreover have "distinct ?es" "distinct kvs" using \<open>distinct (map fst ?es)\<close> assms by (simp_all add: distinct_map)
  ultimately show ?thesis using set_eq_iff_mset_eq_distinct [of ?es kvs] by simp
qed

lemma puts_cover: "fst ` set (entries (fold (\<lambda>(k, v). put k v) kvs empty)) = fst ` set kvs"
  using map_puts [of kvs] by (metis dom_map_of_conv_image_fst set_rev)

end

definition t_ok :: "('k \<Rightarrow> 32 word) \<Rightarrow> ('k, 'v) table \<Rightarrow> bool" where
  "t_ok hash_key t \<longleftrightarrow>
     distinct (map fst (t_segs t)) \<and> (\<forall>i. map_of (t_segs t) i \<noteq> Some [])
     \<and> (\<forall>i. \<forall>kv \<in> set (seg (t_segs t) i). t_index hash_key (t_num t) (fst kv) = i)
     \<and> distinct (map fst (t_entries t))"

lemma t_ok_key:
  assumes t: "t_ok hash_key t"
  shows "key \<in> fst ` set (seg (t_segs t) (t_index hash_key (t_num t) key)) \<longleftrightarrow> key \<in> fst ` set (t_entries t)"
proof
  have d: "distinct (map fst (t_segs t))" using t by (simp add: t_ok_def)
  show "key \<in> fst ` set (t_entries t)" if "key \<in> fst ` set (seg (t_segs t) (t_index hash_key (t_num t) key))"
    using that seg_in_nodes [OF d] by (auto simp: t_entries_def)
  assume "key \<in> fst ` set (t_entries t)"
  then obtain kv where kv: "kv \<in> set (nodes (t_segs t))" "fst kv = key" by (auto simp: t_entries_def)
  then obtain i where i: "kv \<in> set (seg (t_segs t) i)" using in_nodes [OF d] by metis
  then have "i = t_index hash_key (t_num t) key" using t kv(2) by (auto simp: t_ok_def)
  then show "key \<in> fst ` set (seg (t_segs t) (t_index hash_key (t_num t) key))" using i kv(2) by blast
qed

lemma t_add_ok:
  assumes "t_ok hash_key t" "fst kv \<notin> fst ` set (t_entries t)" "t' = t\<lparr>t_segs := t_add hash_key (t_num t) kv (t_segs t)\<rparr>"
  shows "t_ok hash_key t' \<and> mset (t_entries t') = add_mset kv (mset (t_entries t))"
proof -
  let ?i = "t_index hash_key (t_num t) (fst kv)"
  have ne: "map_of (t_segs t) ?i \<noteq> Some []" using assms(1) by (simp add: t_ok_def)
  obtain xs ys where e: "t_entries t = xs @ ys" "t_entries t' = xs @ kv # ys"
    using nodes_seg_insert [OF ne, of kv] by (auto simp: t_entries_def assms(3) t_add_def)
  then have "distinct (map fst (t_entries t'))" using assms(1,2) by (auto simp: t_ok_def)
  then show ?thesis
    using assms(1) e
    by (auto simp: t_ok_def assms(3) t_add_def seg_seg_insert keys_distinct_update seg_insert_def update_conv' seg_update)
qed

lemma t_adds_ok:
  assumes "t_ok hash_key \<lparr>t_num = num, t_segs = segs\<rparr>" "distinct (map fst kvs @ map fst (nodes segs))"
  shows "t_ok hash_key \<lparr>t_num = num, t_segs = fold (t_add hash_key num) kvs segs\<rparr>
    \<and> mset (nodes (fold (t_add hash_key num) kvs segs)) = mset kvs + mset (nodes segs)"
  using assms
proof (induction kvs arbitrary: segs)
  case (Cons kv kvs)
  have "t_ok hash_key \<lparr>t_num = num, t_segs = t_add hash_key num kv segs\<rparr>" "mset (nodes (t_add hash_key num kv segs)) = add_mset kv (mset (nodes segs))"
    using t_add_ok [OF Cons.prems(1), of kv] Cons.prems(2) by (auto simp: t_entries_def)
  moreover from this(2) have "mset (map fst (nodes (t_add hash_key num kv segs))) = mset (fst kv # map fst (nodes segs))" by simp
  then have "set (map fst (nodes (t_add hash_key num kv segs))) = insert (fst kv) (set (map fst (nodes segs)))"
    "distinct (map fst (nodes (t_add hash_key num kv segs)))"
    using Cons.prems(2) by (metis list.simps(15) mset_eq_setD) (metis \<open>mset (map fst (nodes (t_add hash_key num kv segs))) = mset (fst kv # map fst (nodes segs))\<close> Cons.prems(2) distinct_append list.simps(9) mset_eq_imp_distinct_iff distinct.simps(2) append_Cons Un_iff set_append)
  ultimately show ?case using Cons.IH [of "t_add hash_key num kv segs"] Cons.prems(2) by auto
qed simp

lemma t_empty_ok: "t_ok hash_key \<lparr>t_num = num, t_segs = []\<rparr>"
  by (simp add: t_ok_def seg_def t_entries_def)

lemma t_grow_ok:
  assumes "t_ok hash_key t"
  shows "t_ok hash_key (t_grow hash_key t) \<and> mset (t_entries (t_grow hash_key t)) = mset (t_entries t)
    \<and> map_of (t_entries (t_grow hash_key t)) = map_of (t_entries t)"
proof -
  have "t_ok hash_key (t_rehash hash_key t) \<and> mset (t_entries (t_rehash hash_key t)) = mset (t_entries t)"
    using t_adds_ok [OF t_empty_ok, of "t_entries t" hash_key "t_num t + 1"] assms
    by (simp add: t_ok_def t_rehash_def t_entries_def)
  then have g: "t_ok hash_key (t_grow hash_key t)" "mset (t_entries (t_grow hash_key t)) = mset (t_entries t)"
    using assms by (auto simp: t_grow_def)
  then have "set (t_entries (t_grow hash_key t)) = set (t_entries t)" by (auto dest: mset_eq_setD)
  then have "map_of (t_entries (t_grow hash_key t)) = map_of (t_entries t)"
    using map_of_inject_set [of "t_entries (t_grow hash_key t)" "t_entries t"] g(1) assms by (simp add: t_ok_def)
  then show ?thesis using g by blast
qed

lemma nodes_update:
  assumes "seg segs i \<noteq> []"
  obtains xs ys where "nodes segs = xs @ seg segs i @ ys" "\<And>s. nodes (AList.update i s segs) = xs @ s @ ys"
proof -
  obtain us vs where a: "segs = us @ (i, seg segs i) # vs" "\<And>s'. AList.update i s' segs = us @ (i, s') # vs"
    using seg_split [OF assms] by metis
  show ?thesis using that [of "nodes us" "nodes vs"] arg_cong [OF a(1), of nodes] a(2) by simp
qed

lemma t_set_ok:
  assumes "t_ok hash_key t"
  shows "t_ok hash_key (t_set hash_key key val t) \<and> map_of (t_entries (t_set hash_key key val t)) = (map_of (t_entries t))(key \<mapsto> val)"
proof -
  define g where "g = t_grow hash_key t"
  have g: "t_ok hash_key g" "map_of (t_entries g) = map_of (t_entries t)" using t_grow_ok [OF assms] by (auto simp: g_def)
  let ?i = "t_index hash_key (t_num g) key" and ?s = "seg (t_segs g) (t_index hash_key (t_num g) key)"
  show ?thesis
  proof (cases "key \<in> fst ` set ?s")
    case True
    then have ne: "?s \<noteq> []" by auto
    define t' where "t' = g\<lparr>t_segs := AList.update ?i (AList.update key val ?s) (t_segs g)\<rparr>"
    have t': "t_set hash_key key val t = t'" using True by (simp add: t_set_def Let_def g_def t'_def)
    obtain xs ys where "nodes (t_segs g) = xs @ ?s @ ys" "\<And>s. nodes (AList.update ?i s (t_segs g)) = xs @ s @ ys"
      using nodes_update [OF ne] by blast
    then have n: "t_entries g = xs @ ?s @ ys" "t_entries t' = xs @ AList.update key val ?s @ ys"
      by (simp_all add: t_entries_def t'_def)
    have keys: "map fst (AList.update key val ?s) = map fst ?s" using True by (simp add: update_keys)
    have "distinct (map fst (t_entries t'))" using g(1) by (simp add: t_ok_def n keys)
    moreover have "t_index hash_key (t_num g) (fst kv) = ?i" if "kv \<in> set (AList.update key val ?s)" for kv
    proof -
      have "fst kv \<in> set (map fst ?s)" using that keys by (metis image_eqI list.set_map)
      then obtain kv' where "kv' \<in> set ?s" "fst kv' = fst kv" by force
      moreover have "\<forall>i. \<forall>kv \<in> set (seg (t_segs g) i). t_index hash_key (t_num g) (fst kv) = i" using g(1) unfolding t_ok_def by blast
      ultimately show ?thesis by metis
    qed
    ultimately have "t_ok hash_key t'"
      using g(1) by (auto simp: t_ok_def t'_def keys_distinct_update update_conv' seg_update)
    moreover have "key \<notin> dom (map_of xs)"
      using g(1) True by (auto simp: t_ok_def n dom_map_of_conv_image_fst)
    then have "map_of (t_entries t') = (map_of (t_entries g))(key \<mapsto> val)"
      by (simp add: n update_conv' map_add_assoc map_add_upd_left)
    ultimately show ?thesis using g(2) t' by simp
  next
    case False
    then have k: "key \<notin> fst ` set (t_entries g)" using t_ok_key [OF g(1)] by blast
    define t' where "t' = g\<lparr>t_segs := t_add hash_key (t_num g) (key, val) (t_segs g)\<rparr>"
    have t': "t_set hash_key key val t = t'" using False by (simp add: t_set_def Let_def g_def t'_def)
    have a: "t_ok hash_key t'" "mset (t_entries t') = mset ((key, val) # t_entries g)"
      using t_add_ok [OF g(1) _ t'_def] k by auto
    have "set (t_entries t') = set ((key, val) # t_entries g)" using a(2) mset_eq_setD by blast
    then have "map_of (t_entries t') = map_of ((key, val) # t_entries g)"
      using map_of_inject_set [of "t_entries t'" "(key, val) # t_entries g"] a(1) g(1) k by (simp add: t_ok_def)
    then show ?thesis using a(1) g(2) t' by simp
  qed
qed

lemma t_del_ok:
  assumes "t_ok hash_key t"
  shows "map_of (t_entries (t_del hash_key key t)) = (map_of (t_entries t))(key := None)"
proof -
  let ?i = "t_index hash_key (t_num t) key" and ?s = "seg (t_segs t) (t_index hash_key (t_num t) key)"
  show ?thesis
  proof (cases "key \<in> fst ` set ?s")
    case True
    then have ne: "?s \<noteq> []" by auto
    obtain us vs where a: "t_segs t = us @ (?i, ?s) # vs" "\<And>s'. AList.update ?i s' (t_segs t) = us @ (?i, s') # vs" "map_of us ?i = None"
      using seg_split [OF ne] by metis
    have d: "distinct (map fst (us @ (?i, ?s) # vs))" using assms a(1) by (metis t_ok_def)
    then have "map_of vs ?i = None" by (auto simp: map_of_eq_None_iff)
    then have "AList.delete ?i (us @ (?i, ?s) # vs) = us @ vs"
      using delete_fresh [of us ?i] delete_fresh [of vs ?i] a(3) by (simp add: AList.delete_eq)
    then have del: "AList.delete ?i (t_segs t) = us @ vs" using a(1) by simp
    have n: "t_entries t = nodes us @ ?s @ nodes vs" using arg_cong [OF a(1), of nodes] by (simp add: t_entries_def)
    have n': "t_entries (t_del hash_key key t) = nodes us @ AList.delete key ?s @ nodes vs"
      using True del a(2) by (simp add: t_del_def Let_def t_entries_def)
    have "key \<notin> dom (map_of (nodes us))" "key \<notin> dom (map_of (nodes vs))"
      using assms True by (auto simp: t_ok_def n dom_map_of_conv_image_fst)
    then show ?thesis by (auto simp: n n' delete_conv' map_add_def fun_eq_iff domIff split: option.splits)
  next
    case False
    then have "key \<notin> fst ` set (t_entries t)" using t_ok_key [OF assms] by blast
    then show ?thesis using False by (simp add: t_del_def Let_def fun_upd_idem map_of_eq_None_iff)
  qed
qed

interpretation members: member_table t_empty "t_set hash_key" t_entries "t_ok hash_key" for hash_key :: "'k \<Rightarrow> 32 word"
proof unfold_locales
  show "t_ok hash_key t_empty" by (simp add: t_empty_def t_empty_ok)
  show "t_entries t_empty = []" by (simp add: t_empty_def t_entries_def)
  show "distinct (map fst (t_entries t))" if "t_ok hash_key t" for t :: "('k, 'v) table" using that by (simp add: t_ok_def)
qed (simp_all add: t_set_ok)

text \<open>A table on the store is well-formed without its addresses.\<close>

lemma table_of_ok:
  assumes "table_ok hash_key ht segs"
  shows "t_ok hash_key (table_of ht segs)"
proof -
  obtain n where n: "num_buckets ht = Some n" and L: "links_ok hash_key n ht segs" using assms by (auto simp: table_ok_def)
  let ?f = "member (h_pairs ht)"
  have "map fst (map_segs ?f segs) = map fst segs" by (simp add: map_segs_def comp_def case_prod_beta)
  moreover have "map_of (map_segs ?f segs) i \<noteq> Some []" for i
  proof -
    have "map_of (map_segs ?f segs) i = map_option (map ?f) (map_of segs i)" by (induction segs) (auto simp: map_segs_def)
    then show ?thesis using links_ok_nonempty [OF L, of i] by (cases "map_of segs i") auto
  qed
  moreover have "distinct (map fst (t_entries (table_of ht segs)))"
    using assms by (simp add: table_ok_def keys_of_entries)
  moreover have "t_index hash_key (h_num_buckets ht) (fst (member (h_pairs ht) a)) = i" if "a \<in> set (seg segs i)" for a i
    using seg_pair [OF L that] num_buckets_pos [OF n] by (auto simp: t_index_def member_def)
  ultimately show ?thesis
    using links_ok_nodes(5) [OF L] unfolding t_ok_def table_of_def by (simp add: map_segs_seg)
qed

section \<open>Properties\<close>

text \<open>
  The refinement: on a well-formed table, lookup, insertion, deletion, clearing and iteration are those of a map, none
  of them reads outside the table, and each leaves a well-formed one; the order of iteration is that of the
  table without addresses.
\<close>

lemma refines:
  assumes T: "table_ok hash_key ht segs" and cmp: "\<And>a b. cmp_keys a b \<longleftrightarrow> a = b"
  shows "hashtable_get hash_key cmp_keys ht key = Some (map_of (t_entries (table_of ht segs)) key)"
    and "h_size ht < primes ! h_num_buckets ht \<or> h_num_buckets ht + 1 < length primes \<Longrightarrow> a \<notin> set (h_list ht # nodes segs) \<Longrightarrow> a \<noteq> 0 \<Longrightarrow>
      \<exists>ht' segs'. hashtable_set hash_key cmp_keys True (Some a) key val ht = Some (True, ht') \<and> table_ok hash_key ht' segs'
        \<and> map_of (t_entries (table_of ht' segs')) = (map_of (t_entries (table_of ht segs)))(key \<mapsto> val)
        \<and> table_of ht' segs' = t_set hash_key key val (table_of ht segs) \<and> owned ht' segs' = owned ht segs + {#Inl key, Inr val#}"
    and "\<exists>ht' segs'. hashtable_del hash_key cmp_keys ht key = Some (key \<in> dom (map_of (t_entries (table_of ht segs))), ht') \<and> table_ok hash_key ht' segs'
        \<and> map_of (t_entries (table_of ht' segs')) = (map_of (t_entries (table_of ht segs)))(key := None) \<and> owned ht' segs' = owned ht segs"
    and "members_from ht (hashtable_iter ht) = Some (t_entries (table_of ht segs)) \<and> distinct (map fst (t_entries (table_of ht segs)))"
proof -
  note t = table_of_ok [OF T]
  show "hashtable_get hash_key cmp_keys ht key = Some (map_of (t_entries (table_of ht segs)) key)" by (rule get_ok [OF T cmp])
  show "\<exists>ht' segs'. hashtable_set hash_key cmp_keys True (Some a) key val ht = Some (True, ht') \<and> table_ok hash_key ht' segs'
        \<and> map_of (t_entries (table_of ht' segs')) = (map_of (t_entries (table_of ht segs)))(key \<mapsto> val)
        \<and> table_of ht' segs' = t_set hash_key key val (table_of ht segs) \<and> owned ht' segs' = owned ht segs + {#Inl key, Inr val#}"
    if "h_size ht < primes ! h_num_buckets ht \<or> h_num_buckets ht + 1 < length primes" "a \<notin> set (h_list ht # nodes segs)" "a \<noteq> 0"
    using set_ok [OF T cmp that, of key val] members.map_put [OF t] by metis
  show "\<exists>ht' segs'. hashtable_del hash_key cmp_keys ht key = Some (key \<in> dom (map_of (t_entries (table_of ht segs))), ht') \<and> table_ok hash_key ht' segs'
        \<and> map_of (t_entries (table_of ht' segs')) = (map_of (t_entries (table_of ht segs)))(key := None) \<and> owned ht' segs' = owned ht segs"
    using del_ok [OF T cmp, of key] t_del_ok [OF t] by (metis dom_map_of_conv_image_fst)
  show "members_from ht (hashtable_iter ht) = Some (t_entries (table_of ht segs)) \<and> distinct (map fst (t_entries (table_of ht segs)))"
    using iter_ok [OF T] members.distinct_keys [OF t] by simp
qed

text \<open>C34: the hash table is a map: on a well-formed table \<open>hashtable_get\<close>, \<open>hashtable_set\<close>, \<open>hashtable_del\<close>, \<open>hashtable_clear\<close> and
  the iterator do what the operations on maps do, never read a pair that is not allocated, and give a well-formed table; every
  key and value given to the table is in it or has been released, once.\<close>

theorem hashtable_refines_map:
  assumes "table_ok hash_key ht segs" "\<And>a b. cmp_keys a b \<longleftrightarrow> a = b"
  defines "m \<equiv> map_of (t_entries (table_of ht segs))"
  shows "hashtable_get hash_key cmp_keys ht key = Some (m key)
    \<and> ((h_size ht < primes ! h_num_buckets ht \<or> h_num_buckets ht + 1 < length primes) \<and> a \<notin> set (h_list ht # nodes segs) \<and> a \<noteq> 0 \<longrightarrow>
        (\<exists>ht' segs'. hashtable_set hash_key cmp_keys True (Some a) key val ht = Some (True, ht') \<and> table_ok hash_key ht' segs'
          \<and> map_of (t_entries (table_of ht' segs')) = m(key \<mapsto> val) \<and> owned ht' segs' = owned ht segs + {#Inl key, Inr val#}))
    \<and> (\<exists>ht' segs'. hashtable_del hash_key cmp_keys ht key = Some (key \<in> dom m, ht') \<and> table_ok hash_key ht' segs'
        \<and> map_of (t_entries (table_of ht' segs')) = m(key := None) \<and> owned ht' segs' = owned ht segs)
    \<and> (\<exists>ht'. hashtable_clear ht = Some ht' \<and> table_ok hash_key ht' [] \<and> owned ht' [] = owned ht segs)
    \<and> (\<exists>kvs. members_from ht (hashtable_iter ht) = Some kvs \<and> map_of kvs = m \<and> distinct (map fst kvs))"
  unfolding m_def using refines [OF assms(1,2)] clear_ok [OF assms(1)] by metis

text \<open>The array of buckets is released before its replacement is allocated: when that fails the call reports it, but the
  table has no buckets any more, and the next lookup, insertion or deletion of any key reads through the null pointer.\<close>

theorem failed_rehash_breaks_table:
  assumes "table_ok hash_key ht segs" "h_size ht = primes ! h_num_buckets ht" "h_num_buckets ht + 1 < length primes"
  shows "\<exists>ht'. hashtable_set hash_key cmp_keys False new key val ht = Some (False, ht')
    \<and> hashtable_get hash_key cmp_keys ht' k = None \<and> hashtable_del hash_key cmp_keys ht' k = None
    \<and> hashtable_set hash_key cmp_keys mem new' k v ht' = None"
proof -
  obtain n where n: "num_buckets ht = Some n" using assms(1) by (auto simp: table_ok_def)
  define ht' where "ht' = ht\<lparr>h_buckets := None, h_num_buckets := h_num_buckets ht + 1\<rparr>"
  have nb: "num_buckets ht' = Some (primes ! h_num_buckets ht')" using assms(3) by (simp add: num_buckets_def ht'_def)
  have "hashtable_set hash_key cmp_keys False new key val ht = Some (False, ht')"
    using n num_buckets_pos [OF n] assms(2) nb
    by (simp add: hashtable_set_def hashtable_do_rehash_def Let_def) (simp add: ht'_def)
  moreover have none: "find_key cmp_keys ht' q h = None" for q h
    using nb by (simp add: find_key_def) (simp add: bucket_at_def ht'_def)
  moreover have "h_size ht' < primes ! h_num_buckets ht'"
  proof -
    have "\<forall>i \<in> set [0..<28]. primes ! i < primes ! (i + 1)" by (simp add: primes_def upt_rec)
    moreover have "h_num_buckets ht < 28" using assms(3) by (simp add: primes_def)
    ultimately show ?thesis using assms(2) by (simp add: ht'_def)
  qed
  ultimately show ?thesis
    using nb by (intro exI [of _ ht']) (simp add: hashtable_get_def hashtable_del_def hashtable_do_del_def hashtable_set_def Let_def)
qed

text \<open>A full table of five members, one in each bucket.\<close>

definition full_table :: "(nat, nat) hashtable" where
  "full_table = \<lparr>h_size = 5, h_buckets = Some (map (\<lambda>i. \<lparr>bk_first = i + 2, bk_last = i + 2\<rparr>) [0..<5]), h_num_buckets = 0, h_list = 1,
     h_links = \<lparr>nxt = (\<lambda>p. if p < 6 then p + 1 else 1), prv = (\<lambda>p. if p = 1 then 6 else p - 1)\<rparr>,
     h_pairs = (\<lambda>a. if a \<in> {2..6} then Some \<lparr>p_key = a - 2, p_value = 10 * a, p_hash = of_nat (a - 2)\<rparr> else None), h_freed = []\<rparr>"

lemma full_table_ok: "table_ok of_nat full_table (map (\<lambda>i. (i, [i + 2])) [0..<5])"
proof -
  let ?segs = "map (\<lambda>i. (i, [i + 2])) [0..<5] :: addr segments"
  have s: "?segs = [(0, [2]), (1, [3]), (2, [4]), (3, [5]), (4, [6])]" by (simp add: upt_rec)
  have n: "nodes ?segs = [2, 3, 4, 5, 6]" unfolding s by simp
  have seg: "seg ?segs i = (if i < 5 then [i + 2] else [])" for i unfolding s by (auto simp: seg_def)
  have "is_list (h_links full_table) (h_list full_table) (nodes ?segs)"
    unfolding n by (simp add: is_list_def full_table_def)
  moreover have "map_of ?segs i \<noteq> Some []" for i unfolding s by simp
  then have "segs_ok of_nat 5 (h_pairs full_table) ?segs"
    unfolding segs_ok_def seg by (auto simp: full_table_def unsigned_of_nat take_bit_eq_mod comp_def)
  moreover have "h_buckets full_table = Some (map (\<lambda>i. seg_bucket (h_list full_table) (seg ?segs i)) [0..<5])"
    unfolding seg by (simp add: full_table_def seg_bucket_def)
  ultimately have "links_ok of_nat 5 full_table ?segs" by (simp add: links_ok_def)
  moreover have "num_buckets full_table = Some 5" by (simp add: num_buckets_def full_table_def primes_def)
  moreover have "dom (h_pairs full_table) = set (nodes ?segs)" unfolding n by (auto simp: full_table_def split: if_split_asm)
  moreover have "h_size full_table = length (nodes ?segs)" "distinct (keys_of full_table ?segs)"
    unfolding n keys_of_def by (simp_all add: full_table_def)
  ultimately show ?thesis unfolding table_ok_def by blast
qed

lemma hashtable_refines_map_witness:
  "hashtable_get of_nat (=) full_table 3 = Some (Some 50)
    \<and> (\<exists>ht' segs'. hashtable_set of_nat (=) True (Some 7) 8 80 full_table = Some (True, ht') \<and> table_ok of_nat ht' segs'
        \<and> map_of (t_entries (table_of ht' segs')) 8 = Some 80)"
proof -
  let ?segs = "map (\<lambda>i. (i, [i + 2])) [0..<5] :: addr segments"
  have s: "?segs = [(0, [2]), (1, [3]), (2, [4]), (3, [5]), (4, [6])]" by (simp add: upt_rec)
  have e: "map_of (t_entries (table_of full_table ?segs)) 3 = Some 50"
    unfolding s entries_table_of by (simp add: member_def full_table_def)
  have f: "(7 :: nat) \<notin> set (h_list full_table # nodes ?segs)" "h_num_buckets full_table + 1 < length primes"
    unfolding s by (simp_all add: full_table_def primes_def)
  show ?thesis
    using hashtable_refines_map [OF full_table_ok, of "(=)" 3, OF refl] hashtable_refines_map [OF full_table_ok, of "(=)" 8 7 80, OF refl] e f
    by fastforce
qed

lemma failed_rehash_breaks_table_witness:
  "\<exists>ht'. hashtable_set of_nat (=) False None 8 80 full_table = Some (False, ht') \<and> hashtable_get of_nat (=) ht' 3 = None"
proof -
  have "h_size full_table = primes ! h_num_buckets full_table" "h_num_buckets full_table + 1 < length primes"
    by (simp_all add: full_table_def primes_def)
  then show ?thesis using failed_rehash_breaks_table [OF full_table_ok, of "(=)" None 8 80 3] by blast
qed


end
