(* ===== verification/JsonValue.thy ===== *)
theory JsonValue
  imports Json Utf8 Hashtable
begin

text \<open>
  The values of the bundled \<open>jansson\<close> (\<open>compat/jansson/value.c\<close>): objects as hash tables of members, arrays as tables that
  grow, equality and copies. A value whose reference count falls to zero is not modelled as deleted; \<open>unsigned int\<close> counters
  are natural numbers, as arrays of four thousand million entries do not occur.
\<close>

section \<open>Objects\<close>

definition hash_key :: "string \<Rightarrow> u32" where
  "hash_key str = foldl (\<lambda>hash c. (push_bit 5 hash + hash) + of_int (sint (of_char c :: byte))) 5381 str"

definition key_equal :: "string \<Rightarrow> string \<Rightarrow> bool" where
  "key_equal key1 key2 \<longleftrightarrow> key1 = key2"

type_synonym object = "(string, json) table"

definition json_object_set_nocheck :: "string \<Rightarrow> json \<Rightarrow> object \<Rightarrow> object" where
  "json_object_set_nocheck key val obj = t_set hash_key key val obj"

text \<open>The result is false, and the object unchanged, for a key that is not UTF-8.\<close>

definition json_object_set_checked :: "string \<Rightarrow> json \<Rightarrow> object \<Rightarrow> bool \<times> object" where
  "json_object_set_checked key val obj =
     (if utf8_check_string (map of_char key) then (True, json_object_set_nocheck key val obj) else (False, obj))"

definition json_object_del :: "string \<Rightarrow> object \<Rightarrow> bool \<times> object" where
  "json_object_del key obj = (key \<in> fst ` set (t_entries obj), t_del hash_key key obj)"

definition json_object_update :: "object \<Rightarrow> object \<Rightarrow> object" where
  "json_object_update obj other = fold (\<lambda>(key, val). json_object_set_nocheck key val) (t_entries other) obj"

text \<open>An object whose members are set one after another.\<close>

definition object_of :: "(string \<times> json) list \<Rightarrow> object" where
  "object_of members = fold (\<lambda>(key, val). json_object_set_nocheck key val) members t_empty"

interpretation json_members: member_table t_empty json_object_set_nocheck t_entries "t_ok hash_key"
  using members.member_table_axioms [of hash_key]
  by (simp add: json_object_set_nocheck_def [abs_def] member_table_def)

section \<open>Arrays\<close>

text \<open>The table has \<open>a_size\<close> slots; those from \<open>a_entries\<close> on hold no value.\<close>

record 'v json_array =
  a_size :: nat
  a_entries :: nat
  a_table :: "'v option list"

definition json_array_empty :: "'v json_array" where
  "json_array_empty = \<lparr>a_size = 8, a_entries = 0, a_table = replicate 8 None\<rparr>"

text \<open>Copies between tables; \<open>None\<close> when they leave one of them.\<close>

definition array_copy :: "'v option list \<Rightarrow> nat \<Rightarrow> 'v option list \<Rightarrow> nat \<Rightarrow> nat \<Rightarrow> 'v option list option" where
  "array_copy dest dpos src spos n =
     (if dpos + n \<le> length dest \<and> spos + n \<le> length src then Some (memcpy_at dest dpos (take n (drop spos src))) else None)"

definition array_move :: "'v json_array \<Rightarrow> nat \<Rightarrow> nat \<Rightarrow> nat \<Rightarrow> 'v json_array option" where
  "array_move array dest src n =
     map_option (\<lambda>table. array\<lparr>a_table := table\<rparr>) (array_copy (a_table array) dest (a_table array) src n)"

definition write_slot :: "nat \<Rightarrow> 'v \<Rightarrow> 'v json_array \<Rightarrow> 'v json_array option" where
  "write_slot index v array =
     (if index < length (a_table array) then Some (array\<lparr>a_table := (a_table array)[index := Some v]\<rparr>) else None)"

definition new_size :: "nat \<Rightarrow> 'v json_array \<Rightarrow> nat" where
  "new_size amount array = max (a_size array + amount) (a_size array * 2)"

text \<open>\<open>json_array_grow\<close> with \<open>copy\<close>: false when the new table cannot be allocated.\<close>

definition json_array_grow :: "bool \<Rightarrow> nat \<Rightarrow> 'v json_array \<Rightarrow> (bool \<times> 'v json_array) option" where
  "json_array_grow mem amount array =
     (if a_entries array + amount \<le> a_size array then Some (True, array)
      else if \<not> mem then Some (False, array)
      else do {
        table \<leftarrow> array_copy (replicate (new_size amount array) None) 0 (a_table array) 0 (a_entries array);
        Some (True, array\<lparr>a_size := new_size amount array, a_table := table\<rparr>)
      })"

definition json_array_set_new :: "nat \<Rightarrow> 'v \<Rightarrow> 'v json_array \<Rightarrow> (bool \<times> 'v json_array) option" where
  "json_array_set_new index v array =
     (if a_entries array \<le> index then Some (False, array) else map_option (Pair True) (write_slot index v array))"

definition json_array_append_new :: "bool \<Rightarrow> 'v \<Rightarrow> 'v json_array \<Rightarrow> (bool \<times> 'v json_array) option" where
  "json_array_append_new mem v array = do {
     (ok, array) \<leftarrow> json_array_grow mem 1 array;
     if \<not> ok then Some (False, array)
     else do {
       array \<leftarrow> write_slot (a_entries array) v array;
       Some (True, array\<lparr>a_entries := a_entries array + 1\<rparr>)
     }
   }"

definition json_array_insert_new :: "bool \<Rightarrow> nat \<Rightarrow> 'v \<Rightarrow> 'v json_array \<Rightarrow> (bool \<times> 'v json_array) option" where
  "json_array_insert_new mem index v array =
     (if a_entries array < index then Some (False, array)
      else if a_entries array + 1 \<le> a_size array
      then do {
        array \<leftarrow> array_move array (index + 1) index (a_entries array - index);
        array \<leftarrow> write_slot index v array;
        Some (True, array\<lparr>a_entries := a_entries array + 1\<rparr>)
      }
      else if \<not> mem then Some (False, array)
      else do {
        let old_table = a_table array;
        table \<leftarrow> array_copy (replicate (new_size 1 array) None) 0 old_table 0 index;
        table \<leftarrow> array_copy table (index + 1) old_table index (a_entries array - index);
        array \<leftarrow> write_slot index v (array\<lparr>a_size := new_size 1 array, a_table := table\<rparr>);
        Some (True, array\<lparr>a_entries := a_entries array + 1\<rparr>)
      })"

definition json_array_remove :: "nat \<Rightarrow> 'v json_array \<Rightarrow> (bool \<times> 'v json_array) option" where
  "json_array_remove index array =
     (if a_entries array \<le> index then Some (False, array)
      else do {
        array \<leftarrow> array_move array index (index + 1) (a_entries array - index);
        Some (True, array\<lparr>a_entries := a_entries array - 1\<rparr>)
      })"

definition json_array_clear :: "'v json_array \<Rightarrow> 'v json_array" where
  "json_array_clear array = array\<lparr>a_entries := 0\<rparr>"

definition json_array_extend :: "bool \<Rightarrow> 'v json_array \<Rightarrow> 'v json_array \<Rightarrow> (bool \<times> 'v json_array) option" where
  "json_array_extend mem other array = do {
     (ok, array) \<leftarrow> json_array_grow mem (a_entries other) array;
     if \<not> ok then Some (False, array)
     else do {
       table \<leftarrow> array_copy (a_table array) (a_entries array) (a_table other) 0 (a_entries other);
       Some (True, array\<lparr>a_table := table, a_entries := a_entries array + a_entries other\<rparr>)
     }
   }"

text \<open>The contract: the values of an array, and when its table is well-formed.\<close>

definition array_values :: "'v json_array \<Rightarrow> 'v list" where
  "array_values array = map the (take (a_entries array) (a_table array))"

definition array_ok :: "'v json_array \<Rightarrow> bool" where
  "array_ok array \<longleftrightarrow> length (a_table array) = a_size array \<and> a_entries array \<le> a_size array \<and> 0 < a_size array
     \<and> None \<notin> set (take (a_entries array) (a_table array))"

section \<open>Equality and copies\<close>

lemma size_member: "(key, v) \<in> set ms \<Longrightarrow> size v < Suc (size_list (size_prod (\<lambda>x. 0) size) ms)"
  by (induction ms) auto

lemma size_element: "j \<in> set js \<Longrightarrow> size j < Suc (size_list size js)"
  by (induction js) auto

function (sequential) json_equal :: "json \<Rightarrow> json \<Rightarrow> bool" where
  "json_equal (JObject ms1) (JObject ms2) \<longleftrightarrow>
     length ms1 = length ms2
     \<and> (\<forall>(key, value1) \<in> set ms1. case map_of ms2 key of None \<Rightarrow> False | Some value2 \<Rightarrow> json_equal value1 value2)"
| "json_equal (JArray js1) (JArray js2) \<longleftrightarrow> length js1 = length js2 \<and> (\<forall>(value1, value2) \<in> set (zip js1 js2). json_equal value1 value2)"
| "json_equal (JString s1) (JString s2) \<longleftrightarrow> s1 = s2"
| "json_equal (JInteger i1) (JInteger i2) \<longleftrightarrow> i1 = i2"
| "json_equal (JReal r1) (JReal r2) \<longleftrightarrow> r1 = r2"
| "json_equal JTrue JTrue \<longleftrightarrow> True"
| "json_equal JFalse JFalse \<longleftrightarrow> True"
| "json_equal JNull JNull \<longleftrightarrow> True"
| "json_equal _ _ \<longleftrightarrow> False"
  by pat_completeness auto
termination
  by (relation "measure (\<lambda>(a, b). size a)") (auto dest: size_member set_zip_leftD [THEN size_element])

definition json_copy :: "json \<Rightarrow> json" where
  "json_copy json = (case json of JObject ms \<Rightarrow> JObject (t_entries (object_of ms)) | _ \<Rightarrow> json)"

fun json_deep_copy :: "json \<Rightarrow> json" where
  "json_deep_copy (JObject ms) = JObject (t_entries (object_of (map (\<lambda>(key, val). (key, json_deep_copy val)) ms)))"
| "json_deep_copy (JArray js) = JArray (map json_deep_copy js)"
| "json_deep_copy json = json"

fun json_wf :: "json \<Rightarrow> bool" where
  "json_wf (JObject ms) \<longleftrightarrow> distinct (map fst ms) \<and> (\<forall>(key, val) \<in> set ms. json_wf val)"
| "json_wf (JArray js) \<longleftrightarrow> (\<forall>j \<in> set js. json_wf j)"
| "json_wf _ \<longleftrightarrow> True"

section \<open>Arrays are lists\<close>

lemma array_copy_ok:
  "dpos + n \<le> length dest \<Longrightarrow> spos + n \<le> length src \<Longrightarrow> array_copy dest dpos src spos n = Some (memcpy_at dest dpos (take n (drop spos src)))"
  by (simp add: array_copy_def)

lemma values_shape:
  assumes "array_ok array"
  obtains slack where "a_table array = map Some (array_values array) @ slack" "length (array_values array) = a_entries array"
    "length slack = a_size array - a_entries array"
proof -
  have "map Some (array_values array) = take (a_entries array) (a_table array)"
    using assms unfolding array_ok_def array_values_def by (auto intro!: map_idI simp: comp_def) (metis option.collapse)
  then have "a_table array = map Some (array_values array) @ drop (a_entries array) (a_table array)" by simp
  then show ?thesis using that [of "drop (a_entries array) (a_table array)"] assms by (simp add: array_ok_def array_values_def)
qed

lemma array_okI:
  assumes "a_table array = map Some vs @ slack" "a_entries array = length vs" "a_size array = length vs + length slack" "0 < a_size array"
  shows "array_ok array \<and> array_values array = vs"
  using assms by (simp add: array_ok_def array_values_def comp_def image_iff)

lemma grow_array_ok:
  assumes "array_ok array"
  shows "\<exists>array'. json_array_grow True n array = Some (True, array') \<and> array_ok array' \<and> array_values array' = array_values array
    \<and> a_entries array + n \<le> a_size array' \<and> a_entries array' = a_entries array"
proof (cases "a_entries array + n \<le> a_size array")
  case True
  then show ?thesis using assms by (simp add: json_array_grow_def)
next
  case False
  obtain slack where s: "a_table array = map Some (array_values array) @ slack" "length (array_values array) = a_entries array"
    "length slack = a_size array - a_entries array"
    using values_shape [OF assms] by metis
  let ?new = "map Some (array_values array) @ replicate (new_size n array - a_entries array) None"
  have le: "a_entries array \<le> a_size array" "0 < a_size array" using assms by (auto simp: array_ok_def)
  then have "array_copy (replicate (new_size n array) None) 0 (a_table array) 0 (a_entries array) = Some ?new"
    using False s by (simp add: array_copy_def new_size_def memcpy_at_def)
  then have g: "json_array_grow True n array = Some (True, array\<lparr>a_size := new_size n array, a_table := ?new\<rparr>)"
    using False by (simp add: json_array_grow_def)
  have "array_ok (array\<lparr>a_size := new_size n array, a_table := ?new\<rparr>) \<and> array_values (array\<lparr>a_size := new_size n array, a_table := ?new\<rparr>) = array_values array"
    using s(2) le by (intro array_okI) (auto simp: new_size_def)
  then show ?thesis using g False le by (auto simp: new_size_def)
qed

lemma append_array_ok:
  assumes "array_ok array"
  shows "\<exists>array'. json_array_append_new True v array = Some (True, array') \<and> array_ok array' \<and> array_values array' = array_values array @ [v]"
proof -
  obtain a where g: "json_array_grow True 1 array = Some (True, a)" "array_ok a" "array_values a = array_values array"
    "a_entries array + 1 \<le> a_size a" "a_entries a = a_entries array"
    using grow_array_ok [OF assms, of 1] by metis
  obtain slack where s: "a_table a = map Some (array_values a) @ slack" "length (array_values a) = a_entries a" "length slack = a_size a - a_entries a"
    using values_shape [OF g(2)] by metis
  then obtain x slack' where x: "slack = x # slack'" using g(4,5) by (cases slack) auto
  define a' where "a' = a\<lparr>a_table := (a_table a)[a_entries a := Some v], a_entries := a_entries a + 1\<rparr>"
  have "json_array_append_new True v array = Some (True, a')"
    using g s by (simp add: json_array_append_new_def write_slot_def a'_def)
  moreover have "array_ok a' \<and> array_values a' = array_values a @ [v]"
    using s g x by (intro array_okI [where slack = slack']) (simp_all add: a'_def list_update_append)
  ultimately show ?thesis using g(3) by auto
qed

lemma insert_array_ok:
  assumes "array_ok array" "index \<le> a_entries array"
  shows "\<exists>array'. json_array_insert_new True index v array = Some (True, array') \<and> array_ok array'
    \<and> array_values array' = take index (array_values array) @ v # drop index (array_values array)"
proof -
  let ?vs = "array_values array"
  obtain slack where s: "a_table array = map Some ?vs @ slack" "length ?vs = a_entries array" "length slack = a_size array - a_entries array"
    using values_shape [OF assms(1)] by metis
  have le: "a_entries array \<le> a_size array" "0 < a_size array" using assms by (auto simp: array_ok_def)
  define front where "front = map Some (take index ?vs)"
  define rear where "rear = map Some (drop index ?vs)"
  have fb: "map Some ?vs = front @ rear" "length front = index" "length rear = a_entries array - index"
    using assms(2) s(2) by (auto simp: front_def rear_def simp flip: map_append)
  show ?thesis
  proof (cases "a_entries array + 1 \<le> a_size array")
    case True
    then obtain x slack' where x: "slack = x # slack'" using s(3) by (cases slack) auto
    let ?t = "front @ Some v # rear @ slack'"
    obtain y where y: "memcpy_at (front @ rear @ x # slack') (index + 1) rear = front @ y # rear @ slack'"
    proof (cases rear)
      case Nil
      then show ?thesis using that [of x] fb(2) by (simp add: memcpy_at_def)
    next
      case (Cons y b)
      then show ?thesis using that [of y] fb(2) by (simp add: memcpy_at_def)
    qed
    have "array_move array (index + 1) index (a_entries array - index) = Some (array\<lparr>a_table := front @ y # rear @ slack'\<rparr>)"
      using s(1) fb x y assms(2) by (simp add: array_move_def array_copy_def)
    then have "json_array_insert_new True index v array = Some (True, array\<lparr>a_table := ?t, a_entries := a_entries array + 1\<rparr>)"
      using True assms(2) fb(2) by (simp add: json_array_insert_new_def write_slot_def list_update_append)
    moreover have "array_ok (array\<lparr>a_table := ?t, a_entries := a_entries array + 1\<rparr>)
      \<and> array_values (array\<lparr>a_table := ?t, a_entries := a_entries array + 1\<rparr>) = take index ?vs @ v # drop index ?vs"
      using s x assms(2) True by (intro array_okI [where slack = slack']) (simp_all add: front_def rear_def)
    ultimately show ?thesis by blast
  next
    case False
    let ?n = "new_size 1 array"
    have n: "a_entries array + 1 \<le> ?n" using False le by (simp add: new_size_def)
    let ?t = "front @ Some v # rear @ replicate (?n - a_entries array - 1) None"
    have "array_copy (replicate ?n None) 0 (a_table array) 0 index = Some (front @ replicate (?n - index) None)"
      using n assms(2) s(1) fb by (simp add: array_copy_def memcpy_at_def)
    moreover have "array_copy (front @ replicate (?n - index) None) (index + 1) (a_table array) index (a_entries array - index)
      = Some (front @ None # rear @ replicate (?n - a_entries array - 1) None)"
    proof -
      have "Suc (?n - index - 1) = ?n - index" using n assms(2) by simp
      then have "replicate (?n - index) (None :: 'a option) = None # replicate (?n - index - 1) None" by (metis replicate_Suc)
      moreover have "?n - index - 1 - (a_entries array - index) = ?n - a_entries array - 1" using n assms(2) by simp
      ultimately show ?thesis using n assms(2) s(1) fb Suc_diff_le [OF assms(2)] by (simp add: array_copy_def memcpy_at_def)
    qed
    ultimately have "json_array_insert_new True index v array = Some (True, array\<lparr>a_size := ?n, a_table := ?t, a_entries := a_entries array + 1\<rparr>)"
      using False assms(2) fb(2) by (simp add: json_array_insert_new_def write_slot_def list_update_append)
    moreover have "array_ok (array\<lparr>a_size := ?n, a_table := ?t, a_entries := a_entries array + 1\<rparr>)
      \<and> array_values (array\<lparr>a_size := ?n, a_table := ?t, a_entries := a_entries array + 1\<rparr>) = take index ?vs @ v # drop index ?vs"
      using s assms(2) n by (intro array_okI [where slack = "replicate (?n - a_entries array - 1) None"]) (simp_all add: front_def rear_def)
    ultimately show ?thesis by blast
  qed
qed


lemma set_array_ok:
  assumes "array_ok array" "index < a_entries array"
  shows "\<exists>array'. json_array_set_new index v array = Some (True, array') \<and> array_ok array' \<and> array_values array' = (array_values array)[index := v]"
proof -
  obtain slack where s: "a_table array = map Some (array_values array) @ slack" "length (array_values array) = a_entries array"
    "length slack = a_size array - a_entries array"
    using values_shape [OF assms(1)] by metis
  define a' where "a' = array\<lparr>a_table := (a_table array)[index := Some v]\<rparr>"
  have "json_array_set_new index v array = Some (True, a')"
    using s assms by (simp add: json_array_set_new_def write_slot_def a'_def)
  moreover have "array_ok a' \<and> array_values a' = (array_values array)[index := v]"
    using s assms by (intro array_okI [where slack = slack]) (auto simp: a'_def list_update_append map_update array_ok_def)
  ultimately show ?thesis by blast
qed

lemma remove_array:
  assumes "array_ok array" "index < a_entries array"
  shows "if a_entries array = a_size array then json_array_remove index array = None
    else \<exists>array'. json_array_remove index array = Some (True, array') \<and> array_ok array'
      \<and> array_values array' = take index (array_values array) @ drop (index + 1) (array_values array)"
proof (cases "a_entries array = a_size array")
  case True
  then show ?thesis using assms by (simp add: json_array_remove_def array_move_def array_copy_def array_ok_def)
next
  case False
  let ?vs = "array_values array"
  obtain slack where s: "a_table array = map Some ?vs @ slack" "length ?vs = a_entries array" "length slack = a_size array - a_entries array"
    using values_shape [OF assms(1)] by metis
  have "a_entries array < a_size array" using False assms(1) by (simp add: array_ok_def)
  then obtain x slack' where x: "slack = x # slack'" using s(3) by (cases slack) auto
  let ?front = "take index ?vs" and ?rear = "drop (index + 1) ?vs"
  have vs: "?vs = ?front @ ?vs ! index # ?rear" using assms(2) s(2) by (simp add: id_take_nth_drop)
  let ?t = "map Some ?front @ map Some ?rear @ x # x # slack'"
  have l: "length ?front = index" "length ?rear = a_entries array - index - 1" using assms(2) s(2) by auto
  have t: "a_table array = map Some ?front @ Some (?vs ! index) # map Some ?rear @ x # slack'"
    using s(1) vs x by (metis append.assoc append_Cons list.simps(9) map_append)
  have "take (a_entries array - index) (drop (index + 1) (a_table array)) = map Some ?rear @ [x]"
    using l assms(2) unfolding t by simp
  moreover have "index + 1 + (a_entries array - index) \<le> length (a_table array)" using l assms(2) unfolding t by simp
  moreover have "a_entries array - index = Suc (a_entries array - Suc index)" using assms(2) by simp
  then have "drop (index + (a_entries array - index)) (a_table array) = x # slack'" using l unfolding t by simp
  ultimately have "array_move array index (index + 1) (a_entries array - index) = Some (array\<lparr>a_table := ?t\<rparr>)"
    using l assms(2) by (simp add: array_move_def array_copy_def memcpy_at_def) (simp add: t)
  then have "json_array_remove index array = Some (True, array\<lparr>a_table := ?t, a_entries := a_entries array - 1\<rparr>)"
    using assms(2) by (simp add: json_array_remove_def)
  moreover have "array_ok (array\<lparr>a_table := ?t, a_entries := a_entries array - 1\<rparr>)
      \<and> array_values (array\<lparr>a_table := ?t, a_entries := a_entries array - 1\<rparr>) = ?front @ ?rear"
    using s x assms(2) l \<open>a_entries array < a_size array\<close> by (intro array_okI [where slack = "x # x # slack'"]) auto
  ultimately show ?thesis using False by auto
qed

lemma extend_array_ok:
  assumes "array_ok array" "array_ok other"
  shows "\<exists>array'. json_array_extend True other array = Some (True, array') \<and> array_ok array' \<and> array_values array' = array_values array @ array_values other"
proof -
  obtain a where g: "json_array_grow True (a_entries other) array = Some (True, a)" "array_ok a" "array_values a = array_values array"
    "a_entries array + a_entries other \<le> a_size a" "a_entries a = a_entries array"
    using grow_array_ok [OF assms(1), of "a_entries other"] by metis
  obtain slack where s: "a_table a = map Some (array_values a) @ slack" "length (array_values a) = a_entries a" "length slack = a_size a - a_entries a"
    using values_shape [OF g(2)] by metis
  obtain slack2 where o: "a_table other = map Some (array_values other) @ slack2" "length (array_values other) = a_entries other"
    using values_shape [OF assms(2)] by metis
  let ?t = "map Some (array_values a) @ map Some (array_values other) @ drop (a_entries other) slack"
  have "array_copy (a_table a) (a_entries a) (a_table other) 0 (a_entries other) = Some ?t"
    using s o g(4,5) by (simp add: array_copy_def memcpy_at_def)
  then have "json_array_extend True other array = Some (True, a\<lparr>a_table := ?t, a_entries := a_entries a + a_entries other\<rparr>)"
    using g(1) by (simp add: json_array_extend_def)
  moreover have "array_ok (a\<lparr>a_table := ?t, a_entries := a_entries a + a_entries other\<rparr>)
    \<and> array_values (a\<lparr>a_table := ?t, a_entries := a_entries a + a_entries other\<rparr>) = array_values a @ array_values other"
    using s o g by (intro array_okI [where slack = "drop (a_entries other) slack"]) (auto simp: array_ok_def)
  ultimately show ?thesis using g(3) by auto
qed


definition full_array :: "nat json_array" where
  "full_array = \<lparr>a_size = 2, a_entries = 2, a_table = [Some 5, Some 6]\<rparr>"


section \<open>Equality\<close>

lemma json_wf_members: "json_wf (JObject ms) \<Longrightarrow> map_of ms key = Some v \<Longrightarrow> json_wf v"
  by (auto dest: map_of_SomeD)

lemma equal_refl: "json_wf json \<Longrightarrow> json_equal json json"
proof (induction json)
  case (JArray js)
  then show ?case by (auto simp: set_zip)
qed auto

lemma equal_sym: "json_equal a b \<Longrightarrow> json_wf a \<Longrightarrow> json_wf b \<Longrightarrow> json_equal b a"
proof (induction a b rule: json_equal.induct)
  case (1 ms1 ms2)
  have d: "distinct (map fst ms1)" "distinct (map fst ms2)" using "1.prems" by auto
  have sub: "fst ` set ms1 \<subseteq> fst ` set ms2"
    using "1.prems"(1) by (force split: option.splits dest: map_of_SomeD)
  moreover have "card (fst ` set ms1) = card (fst ` set ms2)"
    using "1.prems"(1) d distinct_card [of "map fst ms1"] distinct_card [of "map fst ms2"] by simp
  ultimately have same: "fst ` set ms1 = fst ` set ms2" by (intro card_subset_eq) auto
  have "case map_of ms1 key of None \<Rightarrow> False | Some value1 \<Rightarrow> json_equal value2 value1" if m: "(key, value2) \<in> set ms2" for key value2
  proof -
    have "key \<in> fst ` set ms1" using m same by force
    then obtain value1 where v1: "(key, value1) \<in> set ms1" by force
    then have v: "map_of ms1 key = Some value1" "map_of ms2 key = Some value2" using m d by simp_all
    then have "json_equal value1 value2" using "1.prems"(1) v1 by fastforce
    then show ?thesis using "1.IH" [OF v1 refl v(2)] v v1 m "1.prems"(2,3) by fastforce
  qed
  then show ?case using "1.prems"(1) by auto
next
  case (2 js1 js2)
  have "json_equal y x" if "(y, x) \<in> set (zip js2 js1)" for x y
  proof -
    have z: "(x, y) \<in> set (zip js1 js2)" using that by (auto simp: set_zip)
    then show ?thesis using 2 by (fastforce dest: set_zip_leftD set_zip_rightD)
  qed
  then show ?case using "2.prems"(1) by auto
qed auto

lemma equal_trans: "json_equal a b \<Longrightarrow> json_equal b c \<Longrightarrow> json_equal a c"
proof (induction a b arbitrary: c rule: json_equal.induct)
  case (1 ms1 ms2)
  then obtain ms3 where c: "c = JObject ms3" by (cases c) auto
  have "case map_of ms3 key of None \<Rightarrow> False | Some value3 \<Rightarrow> json_equal value1 value3" if m: "(key, value1) \<in> set ms1" for key value1
  proof -
    obtain value2 where v2: "map_of ms2 key = Some value2" "json_equal value1 value2"
      using "1.prems"(1) m by (fastforce split: option.splits)
    then obtain value3 where v3: "map_of ms3 key = Some value3" "json_equal value2 value3"
      using "1.prems"(2) unfolding c by (fastforce split: option.splits dest: map_of_SomeD)
    then show ?thesis using "1.IH" [OF m refl v2(1) v2(2) v3(2)] by simp
  qed
  then show ?case using "1.prems" c by auto
next
  case (2 js1 js2)
  then obtain js3 where c: "c = JArray js3" by (cases c) auto
  have l: "length js1 = length js2" "length js2 = length js3" using "2.prems" c by auto
  have "json_equal x z" if xz: "(x, z) \<in> set (zip js1 js3)" for x z
  proof -
    obtain i where i: "i < length js1" "x = js1 ! i" "z = js3 ! i" using xz l by (auto simp: set_zip)
    then have "(js1 ! i, js2 ! i) \<in> set (zip js1 js2)" "(js2 ! i, js3 ! i) \<in> set (zip js2 js3)" using l by (auto simp: set_zip)
    then show ?thesis using "2.IH" "2.prems" i unfolding c by fastforce
  qed
  then show ?case using l c by auto
qed (auto elim: json_equal.elims)


section \<open>Copies\<close>

lemma map_of_rev_distinct: "distinct (map fst ms) \<Longrightarrow> map_of (rev ms) = map_of ms"
  using map_of_inject_set [of "rev ms" ms] by (simp flip: rev_map)

lemma object_of_map: "map_of (t_entries (object_of ms)) = map_of (rev ms)"
  unfolding object_of_def by (rule json_members.map_puts)

lemma object_of_inv: "distinct (map fst (t_entries (object_of ms)))"
  unfolding object_of_def using json_members.puts [OF json_members.inv_empty] json_members.distinct_keys by blast

lemma object_of_mset: "distinct (map fst ms) \<Longrightarrow> mset (t_entries (object_of ms)) = mset ms"
  unfolding object_of_def by (rule json_members.puts_distinct)

lemma object_of_set: "distinct (map fst ms) \<Longrightarrow> set (t_entries (object_of ms)) = set ms"
  using object_of_mset by (auto dest: mset_eq_setD)

lemma map_members: "map_of (map (\<lambda>(key, val). (key, f val)) ms) key = map_option f (map_of ms key)"
  by (induction ms) auto

lemma keys_members: "map fst (map (\<lambda>(key, val). (key, f val)) ms) = map fst ms"
  by (induction ms) auto

lemma deep_copy_get:
  assumes "distinct (map fst ms)"
  shows "map_of (t_entries (object_of (map (\<lambda>(key, val). (key, json_deep_copy val)) ms))) key = map_option json_deep_copy (map_of ms key)"
  using assms by (simp only: object_of_map map_of_rev_distinct keys_members map_members)

lemma deep_copy_wf: "json_wf json \<Longrightarrow> json_wf (json_deep_copy json)"
proof (induction json rule: json_deep_copy.induct)
  case (1 ms)
  let ?ms = "map (\<lambda>(key, val). (key, json_deep_copy val)) ms"
  have d: "distinct (map fst ?ms)" unfolding keys_members using "1.prems" by simp
  have "json_wf v" if kv: "(key, v) \<in> set ?ms" for key v
    using kv "1.IH" "1.prems" by fastforce
  then show ?case unfolding json_deep_copy.simps json_wf.simps object_of_set [OF d] using object_of_inv by blast
qed auto

lemma deep_copy_equal: "json_wf json \<Longrightarrow> json_equal json (json_deep_copy json)"
proof (induction json rule: json_deep_copy.induct)
  case (1 ms)
  let ?ms = "map (\<lambda>(key, val). (key, json_deep_copy val)) ms"
  have d: "distinct (map fst ?ms)" "distinct (map fst ms)" unfolding keys_members using "1.prems" by simp_all
  have "length (t_entries (object_of ?ms)) = length ms"
    using object_of_mset [OF d(1)] by (metis length_map mset_eq_length)
  moreover have "map_of (t_entries (object_of ?ms)) key = Some (json_deep_copy v) \<and> json_equal v (json_deep_copy v)" if kv: "(key, v) \<in> set ms" for key v
    using kv d(2) "1.IH" "1.prems" deep_copy_get [OF d(2), of key] by fastforce
  ultimately show ?case by fastforce
next
  case (2 js)
  then show ?case by (auto simp: set_zip)
qed (auto intro: equal_refl)

text \<open>\<open>json_equal\<close> is an equivalence on values, which does not look at the order of members; and a value is equal to its
  copies, whose members may come in another order because they are entered into a new table.\<close>

theorem json_equal_copies:
  assumes "json_wf a" "json_wf b"
  shows "json_equal a a \<and> (json_equal a b \<longrightarrow> json_equal b a) \<and> (json_equal a b \<and> json_equal b c \<longrightarrow> json_equal a c)
    \<and> json_wf (json_deep_copy a) \<and> json_equal a (json_deep_copy a) \<and> json_equal a (json_copy a)
    \<and> (\<forall>ms key. a = JObject ms \<longrightarrow> json_object_get (Some (json_deep_copy a)) key = map_option json_deep_copy (json_object_get (Some a) key))"
proof -
  have "json_equal a (json_copy a)"
  proof (cases a)
    case (JObject ms)
    then have d: "distinct (map fst ms)" "\<forall>(key, val) \<in> set ms. json_wf val" using assms(1) by auto
    have "length (t_entries (object_of ms)) = length ms" using object_of_mset [OF d(1)] by (metis mset_eq_length)
    moreover have "map_of (t_entries (object_of ms)) key = map_of ms key" for key
      by (simp only: object_of_map map_of_rev_distinct [OF d(1)])
    ultimately show ?thesis using d equal_refl unfolding JObject json_copy_def by fastforce
  qed (use equal_refl [OF assms(1)] in \<open>simp_all add: json_copy_def\<close>)
  moreover have "json_object_get (Some (json_deep_copy a)) key = map_option json_deep_copy (json_object_get (Some a) key)"
    if "a = JObject ms" for ms key
    using that assms(1) deep_copy_get [of ms key] by simp
  ultimately show ?thesis
    using equal_refl [OF assms(1)] equal_sym [OF _ assms] equal_trans deep_copy_wf [OF assms(1)] deep_copy_equal [OF assms(1)] by blast
qed

lemma json_equal_copies_witness:
  "json_equal (JObject [(''a'', JInteger 1), (''b'', JTrue)]) (json_deep_copy (JObject [(''a'', JInteger 1), (''b'', JTrue)]))
    \<and> json_equal (JObject [(''b'', JTrue), (''a'', JInteger 1)]) (JObject [(''a'', JInteger 1), (''b'', JTrue)])"
  using json_equal_copies [of "JObject [(''a'', JInteger 1), (''b'', JTrue)]" "JObject [(''b'', JTrue), (''a'', JInteger 1)]"] by simp

end
