(* ===== verification/JsonRef.thy ===== *)
theory JsonRef
  imports JsonValue "HOL-Library.Multiset" "HOL-Library.AList"
begin

text \<open>
  Reference counts of the values of the bundled \<open>jansson\<close> (\<open>json_incref\<close> and \<open>json_decref\<close> of \<open>jansson.h\<close>, deletion and the
  operations of \<open>value.c\<close> on values in memory). A value is a cell of a heap; a null pointer is \<open>None\<close>; reading or writing a cell
  that is not there, because it has been freed, is undefined behaviour: the result \<open>None\<close>. \<open>mk\<close>, \<open>mp\<close> and \<open>mem\<close> say whether an
  allocation succeeds. An object keeps, for each member, the serial number of its key and the address of its value.
\<close>

section \<open>Values in memory\<close>

datatype node =
    N_object nat "(string, nat \<times> addr) table"
  | N_array "addr json_array"
  | N_string string
  | N_integer int
  | N_real rat
  | N_true
  | N_false
  | N_null

record cell =
  c_count :: u64
  c_node :: node

type_synonym json_heap = "addr \<Rightarrow> cell option"

text \<open>The singletons \<open>true\<close>, \<open>false\<close> and \<open>null\<close> have the largest \<open>unsigned int\<close> as their count, which then never changes.\<close>

definition immortal :: "cell \<Rightarrow> bool" where
  "immortal c \<longleftrightarrow> c_count c = 0xFFFFFFFF"

definition json_incref :: "addr option \<Rightarrow> json_heap \<Rightarrow> json_heap option" where
  "json_incref json h =
     (case json of
        None \<Rightarrow> Some h
      | Some a \<Rightarrow> do { c \<leftarrow> h a; Some (if immortal c then h else h(a \<mapsto> c\<lparr>c_count := c_count c + 1\<rparr>)) })"

text \<open>The values a container holds, in the order in which its deletion meets them.\<close>

definition children :: "node \<Rightarrow> addr list" where
  "children n =
     (case n of
        N_object serial t \<Rightarrow> map (\<lambda>(key, serial, a). a) (t_entries t)
      | N_array array \<Rightarrow> array_values array
      | _ \<Rightarrow> [])"

text \<open>
  \<open>json_decref\<close> of one value after another: the last reference deletes a value, that is, releases what it holds and then frees it.
\<close>

partial_function (option) decref_all :: "addr list \<Rightarrow> json_heap \<Rightarrow> json_heap option" where
  "decref_all as h =
     (case as of
        [] \<Rightarrow> Some h
      | a # as \<Rightarrow> do {
          c \<leftarrow> h a;
          if immortal c then decref_all as h
          else if c_count c - 1 = 0
          then do {
            h \<leftarrow> decref_all (children (c_node c)) (h(a \<mapsto> c\<lparr>c_count := 0\<rparr>));
            decref_all as (h(a := None))
          }
          else decref_all as (h(a \<mapsto> c\<lparr>c_count := c_count c - 1\<rparr>))
        })"

definition json_decref :: "addr option \<Rightarrow> json_heap \<Rightarrow> json_heap option" where
  "json_decref json h = (case json of None \<Rightarrow> Some h | Some a \<Rightarrow> decref_all [a] h)"

section \<open>Operations\<close>

text \<open>What a pointer points at: \<open>Some None\<close> for the null pointer, and undefined for a value that has been freed.\<close>

definition node_at :: "addr option \<Rightarrow> json_heap \<Rightarrow> node option option" where
  "node_at json h = (case json of None \<Rightarrow> Some None | Some a \<Rightarrow> map_option (\<lambda>c. Some (c_node c)) (h a))"

definition store_node :: "addr \<Rightarrow> node \<Rightarrow> json_heap \<Rightarrow> json_heap option" where
  "store_node a n h = do { c \<leftarrow> h a; Some (h(a \<mapsto> c\<lparr>c_node := n\<rparr>)) }"

text \<open>A failing operation that takes over a reference gives it up.\<close>

definition refuse :: "addr \<Rightarrow> json_heap \<Rightarrow> (bool \<times> json_heap) option" where
  "refuse v h = do { h \<leftarrow> json_decref (Some v) h; Some (False, h) }"

definition json_init :: "node \<Rightarrow> cell" where
  "json_init n = \<lparr>c_count = 1, c_node = n\<rparr>"

text \<open>A new value at a free address, which the allocation chose.\<close>

definition json_create :: "addr \<Rightarrow> node \<Rightarrow> json_heap \<Rightarrow> json_heap" where
  "json_create a n h = h(a \<mapsto> json_init n)"

definition json_object_new :: node where
  "json_object_new = N_object 0 t_empty"

definition json_array_new :: node where
  "json_array_new = N_array json_array_empty"

subsection \<open>Objects\<close>

text \<open>\<open>hashtable_set\<close> with the new key, whose serial number has been taken: a member that is there keeps its key, and its old value is released
  before the new one is stored. The value is released by the caller when the member cannot be allocated.\<close>

definition object_put :: "bool \<Rightarrow> addr \<Rightarrow> nat \<Rightarrow> (string, nat \<times> addr) table \<Rightarrow> string \<Rightarrow> addr \<Rightarrow> json_heap \<Rightarrow> (bool \<times> json_heap) option" where
  "object_put mp a serial t key v h =
     (case map_of (t_entries t) key of
        Some (s, old) \<Rightarrow> do {
          h \<leftarrow> store_node a (N_object (serial + 1) (t_grow hash_key t)) h;
          h \<leftarrow> json_decref (Some old) h;
          n \<leftarrow> node_at (Some a) h;
          (case n of
             Some (N_object serial t) \<Rightarrow> do { h \<leftarrow> store_node a (N_object serial (t_set hash_key key (s, v) t)) h; Some (True, h) }
           | _ \<Rightarrow> None)
        }
      | None \<Rightarrow>
          if \<not> mp then do { h \<leftarrow> store_node a (N_object (serial + 1) (t_grow hash_key t)) h; refuse v h }
          else do { h \<leftarrow> store_node a (N_object (serial + 1) (t_set hash_key key (serial, v) t)) h; Some (True, h) })"

definition json_object_set_new_nocheck :: "bool \<Rightarrow> bool \<Rightarrow> addr option \<Rightarrow> string \<Rightarrow> addr option \<Rightarrow> json_heap \<Rightarrow> (bool \<times> json_heap) option" where
  "json_object_set_new_nocheck mk mp json key val h =
     (case val of
        None \<Rightarrow> Some (False, h)
      | Some v \<Rightarrow> do {
          n \<leftarrow> node_at json h;
          (case (json, n) of
             (Some a, Some (N_object serial t)) \<Rightarrow>
               if a = v then refuse v h
               else if \<not> mk then Some (False, h)
               else object_put mp a serial t key v h
           | _ \<Rightarrow> refuse v h)
        })"

definition json_object_set_new_ref :: "bool \<Rightarrow> bool \<Rightarrow> addr option \<Rightarrow> string \<Rightarrow> addr option \<Rightarrow> json_heap \<Rightarrow> (bool \<times> json_heap) option" where
  "json_object_set_new_ref mk mp json key val h =
     (if \<not> utf8_check_string (map of_char key) then do { h \<leftarrow> json_decref val h; Some (False, h) }
      else json_object_set_new_nocheck mk mp json key val h)"

definition json_object_del_ref :: "addr option \<Rightarrow> string \<Rightarrow> json_heap \<Rightarrow> (bool \<times> json_heap) option" where
  "json_object_del_ref json key h = do {
     n \<leftarrow> node_at json h;
     (case (json, n) of
        (Some a, Some (N_object serial t)) \<Rightarrow>
          (case map_of (t_entries t) key of
             None \<Rightarrow> Some (False, h)
           | Some (s, old) \<Rightarrow> do {
               h \<leftarrow> store_node a (N_object serial (t_del hash_key key t)) h;
               h \<leftarrow> json_decref (Some old) h;
               Some (True, h)
             })
      | _ \<Rightarrow> Some (False, h))
   }"

definition json_object_clear_ref :: "addr option \<Rightarrow> json_heap \<Rightarrow> (bool \<times> json_heap) option" where
  "json_object_clear_ref json h = do {
     n \<leftarrow> node_at json h;
     (case (json, n) of
        (Some a, Some (N_object serial t)) \<Rightarrow> do {
          h \<leftarrow> decref_all (children (N_object serial t)) h;
          h \<leftarrow> store_node a (N_object serial (t\<lparr>t_segs := []\<rparr>)) h;
          Some (True, h)
        }
      | _ \<Rightarrow> Some (False, h))
   }"

text \<open>The value of a member is replaced in its pair.\<close>

definition t_replace :: "string \<Rightarrow> addr \<Rightarrow> (string, nat \<times> addr) table \<Rightarrow> (string, nat \<times> addr) table" where
  "t_replace key v t = t\<lparr>t_segs := map_segs (\<lambda>(k, s, a). (k, s, if k = key then v else a)) (t_segs t)\<rparr>"

text \<open>The iterator is at the member with the key. A failure does not give up the reference.\<close>

definition json_object_iter_set_new :: "addr option \<Rightarrow> string option \<Rightarrow> addr option \<Rightarrow> json_heap \<Rightarrow> (bool \<times> json_heap) option" where
  "json_object_iter_set_new json iter val h = do {
     n \<leftarrow> node_at json h;
     (case (json, n, iter, val) of
        (Some a, Some (N_object serial t), Some key, Some v) \<Rightarrow>
          (case map_of (t_entries t) key of
             None \<Rightarrow> None
           | Some (s, old) \<Rightarrow> do {
               h \<leftarrow> json_decref (Some old) h;
               n \<leftarrow> node_at json h;
               (case n of
                  Some (N_object serial t) \<Rightarrow> do {
                    h \<leftarrow> store_node a (N_object serial (t_replace key v t)) h;
                    Some (True, h)
                  }
                | _ \<Rightarrow> None)
             })
      | _ \<Rightarrow> Some (False, h))
   }"

subsection \<open>Arrays\<close>

definition json_array_set_new_ref :: "addr option \<Rightarrow> nat \<Rightarrow> addr option \<Rightarrow> json_heap \<Rightarrow> (bool \<times> json_heap) option" where
  "json_array_set_new_ref json index val h =
     (case val of
        None \<Rightarrow> Some (False, h)
      | Some v \<Rightarrow> do {
          n \<leftarrow> node_at json h;
          (case (json, n) of
             (Some a, Some (N_array array)) \<Rightarrow>
               if a = v \<or> a_entries array \<le> index then refuse v h
               else do {
                 old \<leftarrow> a_table array ! index;
                 h \<leftarrow> json_decref (Some old) h;
                 n \<leftarrow> node_at json h;
                 (case n of
                    Some (N_array array) \<Rightarrow> do { array \<leftarrow> write_slot index v array; h \<leftarrow> store_node a (N_array array) h; Some (True, h) }
                  | _ \<Rightarrow> None)
               }
           | _ \<Rightarrow> refuse v h)
        })"

definition json_array_append_new_ref :: "bool \<Rightarrow> addr option \<Rightarrow> addr option \<Rightarrow> json_heap \<Rightarrow> (bool \<times> json_heap) option" where
  "json_array_append_new_ref mem json val h =
     (case val of
        None \<Rightarrow> Some (False, h)
      | Some v \<Rightarrow> do {
          n \<leftarrow> node_at json h;
          (case (json, n) of
             (Some a, Some (N_array array)) \<Rightarrow>
               if a = v then refuse v h
               else do {
                 (ok, array) \<leftarrow> json_array_append_new mem v array;
                 if \<not> ok then refuse v h else do { h \<leftarrow> store_node a (N_array array) h; Some (True, h) }
               }
           | _ \<Rightarrow> refuse v h)
        })"

definition json_array_insert_new_ref :: "bool \<Rightarrow> addr option \<Rightarrow> nat \<Rightarrow> addr option \<Rightarrow> json_heap \<Rightarrow> (bool \<times> json_heap) option" where
  "json_array_insert_new_ref mem json index val h =
     (case val of
        None \<Rightarrow> Some (False, h)
      | Some v \<Rightarrow> do {
          n \<leftarrow> node_at json h;
          (case (json, n) of
             (Some a, Some (N_array array)) \<Rightarrow>
               if a = v then refuse v h
               else do {
                 (ok, array) \<leftarrow> json_array_insert_new mem index v array;
                 if \<not> ok then refuse v h else do { h \<leftarrow> store_node a (N_array array) h; Some (True, h) }
               }
           | _ \<Rightarrow> refuse v h)
        })"

definition json_array_remove_ref :: "addr option \<Rightarrow> nat \<Rightarrow> json_heap \<Rightarrow> (bool \<times> json_heap) option" where
  "json_array_remove_ref json index h = do {
     n \<leftarrow> node_at json h;
     (case (json, n) of
        (Some a, Some (N_array array)) \<Rightarrow>
          if a_entries array \<le> index then Some (False, h)
          else do {
            old \<leftarrow> a_table array ! index;
            h \<leftarrow> json_decref (Some old) h;
            n \<leftarrow> node_at json h;
            (case n of
               Some (N_array array) \<Rightarrow> do { (ok, array) \<leftarrow> json_array_remove index array; h \<leftarrow> store_node a (N_array array) h; Some (ok, h) }
             | _ \<Rightarrow> None)
          }
      | _ \<Rightarrow> Some (False, h))
   }"

definition json_array_clear_ref :: "addr option \<Rightarrow> json_heap \<Rightarrow> (bool \<times> json_heap) option" where
  "json_array_clear_ref json h = do {
     n \<leftarrow> node_at json h;
     (case (json, n) of
        (Some a, Some (N_array array)) \<Rightarrow> do {
          h \<leftarrow> decref_all (array_values array) h;
          h \<leftarrow> store_node a (N_array (json_array_clear array)) h;
          Some (True, h)
        }
      | _ \<Rightarrow> Some (False, h))
   }"

fun incref_all :: "addr list \<Rightarrow> json_heap \<Rightarrow> json_heap option" where
  "incref_all [] h = Some h"
| "incref_all (a # as) h = do { h \<leftarrow> json_incref (Some a) h; incref_all as h }"

definition json_array_extend_ref :: "bool \<Rightarrow> addr option \<Rightarrow> addr option \<Rightarrow> json_heap \<Rightarrow> (bool \<times> json_heap) option" where
  "json_array_extend_ref mem json other h = do {
     n \<leftarrow> node_at json h;
     m \<leftarrow> node_at other h;
     (case (json, n, m) of
        (Some a, Some (N_array array), Some (N_array others)) \<Rightarrow> do {
          (ok, array) \<leftarrow> json_array_extend mem others array;
          if \<not> ok then Some (False, h)
          else do { h \<leftarrow> incref_all (array_values others) h; h \<leftarrow> store_node a (N_array array) h; Some (True, h) }
        }
      | _ \<Rightarrow> Some (False, h))
   }"

subsection \<open>Strings and numbers\<close>

text \<open>The setters, with whether they return zero. \<open>json_string_set_nocheck\<close> does not look at the type of the value.\<close>

definition json_string_set_nocheck :: "bool \<Rightarrow> addr option \<Rightarrow> string \<Rightarrow> json_heap \<Rightarrow> (bool \<times> json_heap) option" where
  "json_string_set_nocheck mem json str h =
     (if \<not> mem then Some (False, h)
      else do {
        n \<leftarrow> node_at json h;
        (case (json, n) of
           (Some a, Some (N_string old)) \<Rightarrow> do { h \<leftarrow> store_node a (N_string str) h; Some (True, h) }
         | _ \<Rightarrow> None)
      })"

definition json_string_set :: "bool \<Rightarrow> addr option \<Rightarrow> string option \<Rightarrow> json_heap \<Rightarrow> (bool \<times> json_heap) option" where
  "json_string_set mem json str h =
     (case str of
        None \<Rightarrow> Some (False, h)
      | Some str \<Rightarrow> if utf8_check_string (map of_char str) then json_string_set_nocheck mem json str h else Some (False, h))"

definition json_integer_set :: "addr option \<Rightarrow> int \<Rightarrow> json_heap \<Rightarrow> (bool \<times> json_heap) option" where
  "json_integer_set json i h = do {
     n \<leftarrow> node_at json h;
     (case (json, n) of
        (Some a, Some (N_integer old)) \<Rightarrow> do { h \<leftarrow> store_node a (N_integer i) h; Some (True, h) }
      | _ \<Rightarrow> Some (False, h))
   }"

text \<open>A value that is not a real is left alone, and zero is returned nevertheless.\<close>

definition json_real_set :: "addr option \<Rightarrow> rat \<Rightarrow> json_heap \<Rightarrow> (bool \<times> json_heap) option" where
  "json_real_set json r h = do {
     n \<leftarrow> node_at json h;
     (case (json, n) of
        (Some a, Some (N_real old)) \<Rightarrow> do { h \<leftarrow> store_node a (N_real r) h; Some (True, h) }
      | _ \<Rightarrow> Some (True, h))
   }"

text \<open>The static values, and the heap a program starts with.\<close>

definition json_true :: addr where
  "json_true = 1"

definition json_false :: addr where
  "json_false = 2"

definition json_null :: addr where
  "json_null = 3"

definition static_value :: "node \<Rightarrow> cell" where
  "static_value n = \<lparr>c_count = 0xFFFFFFFF, c_node = n\<rparr>"

definition start_heap :: json_heap where
  "start_heap = [json_true \<mapsto> static_value N_true, json_false \<mapsto> static_value N_false, json_null \<mapsto> static_value N_null]"

section \<open>The ledger\<close>

text \<open>
  \<open>ext\<close> is what the program holds: a multiset of references. \<open>kids\<close> is what each cell holds, which differs from its contents only
  while one of the operations works on it. Every count is the number of references from both; a value without any is gone. The cells of
  \<open>dying\<close> are being deleted, those of \<open>pinned\<close> worked on.
\<close>

definition refs :: "(addr \<Rightarrow> addr multiset) \<Rightarrow> json_heap \<Rightarrow> addr \<Rightarrow> nat" where
  "refs kids h a = (\<Sum>b\<in>dom h. count (kids b) a)"

definition has_count :: "cell \<Rightarrow> nat \<Rightarrow> bool" where
  "has_count c n \<longleftrightarrow> immortal c \<or> unat (c_count c) = n \<and> 0 < n \<and> n < 0xFFFFFFFF"

definition counted :: "addr set \<Rightarrow> addr set \<Rightarrow> (addr \<Rightarrow> addr multiset) \<Rightarrow> addr multiset \<Rightarrow> json_heap \<Rightarrow> bool" where
  "counted dying pinned kids ext h \<longleftrightarrow> finite (dom h) \<and> dying \<subseteq> dom h
     \<and> (\<forall>a c. h a = Some c \<and> a \<notin> dying \<longrightarrow>
          has_count c (count ext a + refs kids h a) \<and> (a \<notin> pinned \<longrightarrow> kids a = mset (children (c_node c))))
     \<and> (\<forall>a. h a = None \<or> a \<in> dying \<longrightarrow> count ext a + refs kids h a = 0)
     \<and> (\<forall>a \<in> dying. kids a = {#})"

lemma refs_cong: "(\<And>b. b \<in> dom h \<Longrightarrow> kids b = kids' b) \<Longrightarrow> refs kids h a = refs kids' h a"
  by (simp add: refs_def)

lemma counted_cong: "(\<And>b. b \<in> dom h \<Longrightarrow> kids b = kids' b) \<Longrightarrow> counted d p kids ext h \<Longrightarrow> counted d p kids' ext h"
proof -
  assume k: "\<And>b. b \<in> dom h \<Longrightarrow> kids b = kids' b"
  then have r: "refs kids h = refs kids' h" by (intro ext refs_cong)
  show "counted d p kids ext h \<Longrightarrow> counted d p kids' ext h"
    unfolding counted_def r using k by (auto simp: domI subset_eq)
qed

lemma refs_update: "h a = Some c \<Longrightarrow> refs kids (h(a \<mapsto> c')) = refs kids h"
  by (rule HOL.ext) (auto simp: refs_def insert_absorb domI)

lemma refs_remove: "finite (dom h) \<Longrightarrow> kids a = {#} \<Longrightarrow> refs kids (h(a := None)) = refs kids h"
  by (rule HOL.ext) (auto simp: refs_def intro!: sum.mono_neutral_left)

lemma refs_kids:
  assumes "finite (dom h)" "a \<in> dom h"
  shows "refs kids h x = count (kids a) x + refs (kids(a := {#})) h x"
proof -
  have "refs kids h x = count (kids a) x + (\<Sum>b\<in>dom h - {a}. count (kids b) x)"
    unfolding refs_def using assms by (simp add: sum.remove)
  also have "(\<Sum>b\<in>dom h - {a}. count (kids b) x) = (\<Sum>b\<in>dom h - {a}. count ((kids(a := {#})) b) x)" by simp
  also have "\<dots> = refs (kids(a := {#})) h x"
    unfolding refs_def using assms by (simp add: sum.remove)
  finally show ?thesis .
qed

lemma unat_pred: "c \<noteq> 0 \<Longrightarrow> unat (c - 1 :: u64) = unat c - 1"
  by (metis unat_minus_one)

text \<open>What a release leaves of a heap: fewer cells, with their contents.\<close>

definition survives :: "json_heap \<Rightarrow> json_heap \<Rightarrow> bool" where
  "survives h h' \<longleftrightarrow> (\<forall>a c'. h' a = Some c' \<longrightarrow> (\<exists>c. h a = Some c \<and> c_node c' = c_node c \<and> immortal c' = immortal c))"

lemma survives_refl: "survives h h"
  by (auto simp: survives_def)

lemma survives_trans: "survives h1 h2 \<Longrightarrow> survives h2 h3 \<Longrightarrow> survives h1 h3"
  unfolding survives_def by metis

lemma survives_dom: "survives h h' \<Longrightarrow> dom h' \<subseteq> dom h"
  by (auto simp: survives_def dest: domD)

lemma counted_at:
  assumes "counted dying pinned kids ext h" "h a = Some c" "a \<notin> dying"
  shows "has_count c (count ext a + refs kids h a)" "a \<notin> pinned \<Longrightarrow> kids a = mset (children (c_node c))"
  using assms unfolding counted_def by blast+

lemma counted_alive: "counted dying pinned kids ext h \<Longrightarrow> a \<in># ext \<Longrightarrow> a \<notin> dying \<and> (\<exists>c. h a = Some c)"
  unfolding counted_def by (metis add_is_0 count_greater_zero_iff not_Some_eq not_gr0)

lemma counted_gone: "counted dying pinned kids ext h \<Longrightarrow> h a = None \<or> a \<in> dying \<Longrightarrow> count ext a = 0 \<and> refs kids h a = 0"
  unfolding counted_def by (metis add_is_0)

text \<open>One cell changes, with its references.\<close>

lemma counted_change:
  assumes old: "counted dying pinned kids ext h" and a: "h a = Some c" "a \<notin> dying"
    and others: "\<And>b. b \<noteq> a \<Longrightarrow> count ext' b + refs kids' h b = count ext b + refs kids h b" "\<And>b. b \<noteq> a \<Longrightarrow> kids' b = kids b"
    and new: "has_count c' (count ext' a + refs kids' h a)" "a \<notin> pinned' \<Longrightarrow> kids' a = mset (children (c_node c'))"
    and pins: "pinned \<subseteq> insert a pinned'"
  shows "counted dying pinned' kids' ext' (h(a \<mapsto> c'))"
proof -
  have r: "refs kids' (h(a \<mapsto> c')) = refs kids' h" by (rule refs_update [of h, OF a(1)])
  have d: "dom (h(a \<mapsto> c')) = dom h" using a(1) by auto
  have fin: "finite (dom h)" "dying \<subseteq> dom h" "\<forall>b \<in> dying. kids' b = {#}"
    using old a(2) others(2) by (auto simp: counted_def) (metis)
  have at: "has_count d (count ext' b + refs kids' h b) \<and> (b \<notin> pinned' \<longrightarrow> kids' b = mset (children (c_node d)))"
    if "(h(a \<mapsto> c')) b = Some d" "b \<notin> dying" for b d
  proof (cases "b = a")
    case True
    then show ?thesis using that new by simp
  next
    case False
    then have "h b = Some d" "b \<notin> pinned' \<Longrightarrow> b \<notin> pinned" using that(1) pins by auto
    then show ?thesis using counted_at [OF old _ that(2)] others [OF False] by simp
  qed
  have "count ext' b + refs kids' h b = 0" if "(h(a \<mapsto> c')) b = None \<or> b \<in> dying" for b
  proof -
    have "b \<noteq> a" "h b = None \<or> b \<in> dying" using that a(2) by (auto split: if_splits)
    then show ?thesis using counted_gone [OF old, of b] others(1) by simp
  qed
  then show ?thesis unfolding counted_def d r using fin at by blast
qed

text \<open>Dropping a reference that is not the last one.\<close>

lemma counted_dec:
  assumes "counted dying pinned kids (add_mset a ext) h" "h a = Some c" "\<not> immortal c" "c_count c - 1 \<noteq> 0"
  defines "h' \<equiv> h(a \<mapsto> c\<lparr>c_count := c_count c - 1\<rparr>)"
  shows "counted dying pinned kids ext h'" "survives h h'"
proof -
  have a: "a \<notin> dying" using counted_alive [OF assms(1), of a] by simp
  have n: "unat (c_count c) = Suc (count ext a + refs kids h a)" "unat (c_count c) < 0xFFFFFFFF"
    using counted_at(1) [OF assms(1,2) a] assms(3) by (simp_all add: has_count_def)
  then have nz: "c_count c \<noteq> 0" by auto
  have u: "unat (c_count c - 1) = count ext a + refs kids h a" using unat_pred [OF nz] n by simp
  have pos: "0 < count ext a + refs kids h a" using assms(4) u by (metis neq0_conv unat_eq_zero)
  show "counted dying pinned kids ext h'"
    unfolding h'_def
    by (rule counted_change [OF assms(1,2) a]) (use u pos n counted_at(2) [OF assms(1,2) a] in \<open>auto simp: has_count_def\<close>)
  have "c_count c - 1 \<noteq> 0xFFFFFFFF" using u n by auto
  then show "survives h h'" using assms(2,3) by (auto simp: survives_def h'_def immortal_def)
qed

text \<open>The last reference: the cell is emptied and what it held is to be released.\<close>

lemma counted_dying:
  assumes "counted dying pinned kids (add_mset a ext) h" "h a = Some c" "\<not> immortal c" "c_count c - 1 = 0" "a \<notin> pinned"
  defines "h' \<equiv> h(a \<mapsto> c\<lparr>c_count := 0\<rparr>)"
  shows "counted (insert a dying) pinned (kids(a := {#})) (ext + mset (children (c_node c))) h'" "a \<notin> dying" "a \<notin># ext"
proof -
  show a: "a \<notin> dying" using counted_alive [OF assms(1), of a] by simp
  have "unat (c_count c) = Suc (count ext a + refs kids h a)"
    using counted_at(1) [OF assms(1,2) a] assms(3) by (simp add: has_count_def)
  moreover have "c_count c = 1" using assms(4) by simp
  ultimately have z: "count ext a = 0" "refs kids h a = 0" by simp_all
  show "a \<notin># ext" using z(1) by (simp add: not_in_iff)
  have k: "kids a = mset (children (c_node c))" by (rule counted_at(2) [OF assms(1,2) a assms(5)])
  have fin: "finite (dom h)" "dying \<subseteq> dom h" "\<forall>b \<in> dying. kids b = {#}" using assms(1) by (simp_all add: counted_def)
  have split: "refs kids h x = count (mset (children (c_node c))) x + refs (kids(a := {#})) h x" for x
    using refs_kids [OF fin(1), of a kids x] assms(2) k by (simp add: domI)
  have r: "refs (kids(a := {#})) h' = refs (kids(a := {#})) h" unfolding h'_def by (rule refs_update [of h, OF assms(2)])
  have d: "dom h' = dom h" using assms(2) by (auto simp: h'_def)
  have at: "has_count e (count (ext + mset (children (c_node c))) b + refs (kids(a := {#})) h' b)
      \<and> (b \<notin> pinned \<longrightarrow> (kids(a := {#})) b = mset (children (c_node e)))" if "h' b = Some e" "b \<notin> insert a dying" for b e
  proof -
    have b: "h b = Some e" "b \<noteq> a" "b \<notin> dying" using that by (auto simp: h'_def)
    show ?thesis using counted_at [OF assms(1) b(1,3)] b(2) split [of b] unfolding r by (simp add: add.assoc)
  qed
  have "count (ext + mset (children (c_node c))) b + refs (kids(a := {#})) h' b = 0" if "h' b = None \<or> b \<in> insert a dying" for b
  proof (cases "b = a")
    case True
    then show ?thesis using z split [of a] unfolding r by simp
  next
    case False
    then have "h b = None \<or> b \<in> dying" using that by (auto simp: h'_def)
    then show ?thesis using counted_gone [OF assms(1), of b] False split [of b] unfolding r by simp
  qed
  then show "counted (insert a dying) pinned (kids(a := {#})) (ext + mset (children (c_node c))) h'"
    unfolding counted_def d using fin assms(2) at by auto
qed

lemma counted_free:
  assumes "counted (insert a dying) pinned (kids(a := {#})) ext h" "a \<notin> dying"
  shows "counted dying pinned kids ext (h(a := None))"
proof -
  have fin: "finite (dom h)" "a \<in> dom h" "dying \<subseteq> dom h" "\<forall>b \<in> dying. (kids(a := {#})) b = {#}"
    using assms(1) by (auto simp: counted_def)
  have r: "refs kids (h(a := None)) = refs (kids(a := {#})) h"
    using refs_remove [OF fin(1), of "kids(a := {#})" a] refs_cong [of "h(a := None)" kids "kids(a := {#})"] by (auto simp: fun_eq_iff)
  have "has_count c (count ext b + refs (kids(a := {#})) h b) \<and> (b \<notin> pinned \<longrightarrow> kids b = mset (children (c_node c)))"
    if "(h(a := None)) b = Some c" "b \<notin> dying" for b c
  proof -
    have "h b = Some c" "b \<noteq> a" "b \<notin> insert a dying" using that by (auto split: if_splits)
    then show ?thesis using counted_at [OF assms(1)] by fastforce
  qed
  moreover have "count ext b + refs (kids(a := {#})) h b = 0" if "(h(a := None)) b = None \<or> b \<in> dying" for b
    using counted_gone [OF assms(1), of b] that by (auto split: if_splits)
  moreover have "\<forall>b \<in> dying. kids b = {#}" using fin(4) assms(2) by (auto split: if_splits)
  ultimately show ?thesis unfolding counted_def r using fin assms(2) by auto
qed

lemma decref_all_Nil [simp]: "decref_all [] h = Some h"
  by (subst decref_all.simps) simp

lemma decref_all_Cons:
  "decref_all (a # as) h = do {
     c \<leftarrow> h a;
     if immortal c then decref_all as h
     else if c_count c - 1 = 0
     then do { h \<leftarrow> decref_all (children (c_node c)) (h(a \<mapsto> c\<lparr>c_count := 0\<rparr>)); decref_all as (h(a := None)) }
     else decref_all as (h(a \<mapsto> c\<lparr>c_count := c_count c - 1\<rparr>))
   }"
  by (subst decref_all.simps) simp

text \<open>
  A release of references the program holds succeeds: nothing is freed twice or read after it was freed. The ledger without them is
  right for what is left, whose contents are untouched; the cells that are worked on or being deleted stay.
\<close>

lemma decref_all_counted:
  assumes "counted dying pinned kids (ext + mset as) h" "\<And>a. a \<in> pinned \<Longrightarrow> a \<in># ext"
  shows "\<exists>h'. decref_all as h = Some h' \<and> counted dying pinned kids ext h' \<and> survives h h' \<and> (\<forall>a \<in> dying. h' a = h a)"
  using assms
proof (induction "card (dom h - dying)" arbitrary: as h dying kids ext rule: less_induct)
  case less
  note outer = less.hyps
  show ?case using less.prems outer
  proof (induction as arbitrary: h)
    case Nil
    then show ?case by (auto intro: survives_refl)
  next
    case (Cons a as)
    have prem: "counted dying pinned kids (add_mset a (ext + mset as)) h" using Cons.prems(1) by simp
    obtain c where a: "a \<notin> dying" "h a = Some c" using counted_alive [OF prem, of a] by auto
    have fin: "finite (dom h)" using prem by (simp add: counted_def)
    show ?case
    proof (cases "immortal c")
      case True
      have "counted dying pinned kids (ext + mset as) (h(a \<mapsto> c))"
        by (rule counted_change [OF prem a(2,1)]) (use True counted_at(2) [OF prem a(2,1)] in \<open>auto simp: has_count_def\<close>)
      moreover have "h(a \<mapsto> c) = h" using a(2) by (simp add: fun_upd_idem)
      ultimately have "counted dying pinned kids (ext + mset as) h" by simp
      then show ?thesis using Cons.IH [OF _ Cons.prems(2,3)] a(2) True by (simp add: decref_all_Cons)
    next
      case im: False
      show ?thesis
      proof (cases "c_count c - 1 = 0")
        case False
        define h' where "h' = h(a \<mapsto> c\<lparr>c_count := c_count c - 1\<rparr>)"
        note dec = counted_dec [OF prem a(2) im False, folded h'_def]
        have "dom h' = dom h" using a(2) by (auto simp: h'_def)
        then obtain h'' where h'': "decref_all as h' = Some h''" "counted dying pinned kids ext h''" "survives h' h''" "\<forall>a \<in> dying. h'' a = h' a"
          using Cons.IH [OF dec(1) Cons.prems(2)] Cons.prems(3) by auto
        moreover have "decref_all (a # as) h = decref_all as h'" using a(2) im False by (simp add: decref_all_Cons h'_def)
        moreover have "\<forall>b \<in> dying. h'' b = h b" using h''(4) a(1) by (auto simp: h'_def)
        ultimately show ?thesis using survives_trans [OF dec(2)] by auto
      next
        case True
        have np: "a \<notin> pinned"
        proof
          assume "a \<in> pinned"
          then have "a \<in># ext" by (rule Cons.prems(2))
          then have "0 < count ext a" by simp
          moreover have "unat (c_count c) = Suc (count ext a + count (mset as) a + refs kids h a)"
            using counted_at(1) [OF prem a(2,1)] im by (simp add: has_count_def)
          ultimately have "2 \<le> unat (c_count c)" by linarith
          then show False using True by simp
        qed
        define h1 where "h1 = h(a \<mapsto> c\<lparr>c_count := 0\<rparr>)"
        note dy = counted_dying [OF prem a(2) im True np, folded h1_def]
        have d1: "dom h1 - insert a dying = dom h - dying - {a}" "a \<in> dom h - dying" using a by (auto simp: h1_def)
        have less1: "card (dom h1 - insert a dying) < card (dom h - dying)"
          unfolding d1(1) by (rule card_Diff1_less [OF finite_Diff [OF fin] d1(2)])
        have p1: "b \<in># ext + mset as" if "b \<in> pinned" for b using Cons.prems(2) [OF that] by simp
        obtain h2 where h2: "decref_all (children (c_node c)) h1 = Some h2"
          "counted (insert a dying) pinned (kids(a := {#})) (ext + mset as) h2" "survives h1 h2" "\<forall>b \<in> insert a dying. h2 b = h1 b"
          using Cons.prems(3) [OF less1 dy(1) p1] by blast
        define h3 where "h3 = h2(a := None)"
        have c3: "counted dying pinned kids (ext + mset as) h3" unfolding h3_def by (rule counted_free [OF h2(2) a(1)])
        have "dom h3 \<subseteq> dom h1 - {a}" using survives_dom [OF h2(3)] by (auto simp: h3_def)
        then have "dom h3 - dying \<subseteq> dom h1 - insert a dying" by auto
        then have less3: "card (dom h3 - dying) < card (dom h - dying)"
          using less1 card_mono [of "dom h1 - insert a dying"] fin d1(1) by (metis finite_Diff le_less_trans)
        obtain h4 where h4: "decref_all as h3 = Some h4" "counted dying pinned kids ext h4" "survives h3 h4" "\<forall>b \<in> dying. h4 b = h3 b"
          using Cons.prems(3) [OF less3 c3 Cons.prems(2)] by blast
        have "decref_all (a # as) h = Some h4"
          using a(2) im True h2(1) h4(1) by (simp add: decref_all_Cons h1_def h3_def)
        moreover have "survives h h3"
          unfolding survives_def
        proof (intro allI impI)
          fix b c' assume b: "h3 b = Some c'"
          then have "b \<noteq> a" "h2 b = Some c'" by (auto simp: h3_def split: if_splits)
          then show "\<exists>c. h b = Some c \<and> c_node c' = c_node c \<and> immortal c' = immortal c"
            using h2(3) unfolding survives_def h1_def by (metis fun_upd_apply)
        qed
        moreover have "\<forall>b \<in> dying. h4 b = h b" using h4(4) h2(4) a(1) by (auto simp: h3_def h1_def)
        ultimately show ?thesis using h4(2) survives_trans [OF _ h4(3)] by blast
      qed
    qed
  qed
qed

section \<open>The invariant\<close>

definition kids_of :: "json_heap \<Rightarrow> addr \<Rightarrow> addr multiset" where
  "kids_of h a = (case h a of None \<Rightarrow> {#} | Some c \<Rightarrow> mset (children (c_node c)))"

definition node_ok :: "node \<Rightarrow> bool" where
  "node_ok n = (case n of N_object serial t \<Rightarrow> t_ok hash_key t | N_array array \<Rightarrow> array_ok array | _ \<Rightarrow> True)"

text \<open>
  The program holds the references \<open>ext\<close>: every count is right, every pointer in a container leads to a value, and the containers are
  well-formed.
\<close>

definition heap_ok :: "addr multiset \<Rightarrow> json_heap \<Rightarrow> bool" where
  "heap_ok ext h \<longleftrightarrow> counted {} {} (kids_of h) ext h \<and> (\<forall>a c. h a = Some c \<longrightarrow> node_ok (c_node c))"

lemma heap_ok_alive: "heap_ok ext h \<Longrightarrow> a \<in># ext \<Longrightarrow> \<exists>c. h a = Some c \<and> node_ok (c_node c)"
  unfolding heap_ok_def using counted_alive by blast

lemma survivesE:
  assumes "survives h h'" "h' a = Some c'"
  obtains c where "h a = Some c" "c_node c' = c_node c"
  using assms by (auto simp: survives_def)

lemma survives_kids: "survives h h' \<Longrightarrow> b \<in> dom h' \<Longrightarrow> kids_of h b = kids_of h' b"
  by (auto simp: kids_of_def elim: survivesE)

lemma heap_ok_release:
  assumes "heap_ok (ext + mset as) h"
  shows "\<exists>h'. decref_all as h = Some h' \<and> heap_ok ext h' \<and> survives h h'"
proof -
  obtain h' where h': "decref_all as h = Some h'" "counted {} {} (kids_of h) ext h'" "survives h h'"
    using decref_all_counted [of "{}" "{}" "kids_of h" ext as h] assms unfolding heap_ok_def by auto
  have "counted {} {} (kids_of h') ext h'"
    by (rule counted_cong [OF _ h'(2)]) (rule survives_kids [OF h'(3)])
  moreover have "\<forall>a c. h' a = Some c \<longrightarrow> node_ok (c_node c)"
    using h'(3) assms unfolding heap_ok_def survives_def by metis
  ultimately show ?thesis using h' unfolding heap_ok_def by blast
qed

lemma json_decref_ok: "heap_ok (add_mset a ext) h \<Longrightarrow> \<exists>h'. json_decref (Some a) h = Some h' \<and> heap_ok ext h' \<and> survives h h'"
  using heap_ok_release [of ext "[a]"] by (simp add: json_decref_def)

lemma refuse_ok: "heap_ok (add_mset v ext) h \<Longrightarrow> \<exists>h'. refuse v h = Some (False, h') \<and> heap_ok ext h'"
  using json_decref_ok [of v ext h] by (auto simp: refuse_def)

text \<open>
  Work on one value: it gets the contents \<open>n\<close>, after the references \<open>as\<close> have been released, while the program holds it.
\<close>

lemma heap_ok_work:
  assumes "heap_ok ext h" "h a = Some c" "node_ok n"
    and eq: "ext' + mset as + mset (children n) = ext + mset (children (c_node c))" and held: "as = [] \<or> a \<in># ext'"
  shows "\<exists>h' c'. decref_all as h = Some h' \<and> h' a = Some c' \<and> c_node c' = c_node c \<and> survives h h' \<and> heap_ok ext' (h'(a \<mapsto> c'\<lparr>c_node := n\<rparr>))"
proof -
  let ?K = "(kids_of h)(a := mset (children n))"
  have cnt: "counted {} {} (kids_of h) ext h" and nodes: "\<And>a c. h a = Some c \<Longrightarrow> node_ok (c_node c)"
    using assms(1) unfolding heap_ok_def by blast+
  have fin: "finite (dom h)" using cnt by (simp add: counted_def)
  have total: "count (ext' + mset as) x + refs ?K h x = count ext x + refs (kids_of h) h x" for x
  proof -
    have "refs ?K h x = count (mset (children n)) x + refs ((kids_of h)(a := {#})) h x"
      using refs_kids [OF fin, of a ?K x] assms(2) by (simp add: domI)
    moreover have "refs (kids_of h) h x = count (mset (children (c_node c))) x + refs ((kids_of h)(a := {#})) h x"
      using refs_kids [OF fin, of a "kids_of h" x] assms(2) by (simp add: domI kids_of_def)
    moreover have "count (ext' + mset as) x + count (mset (children n)) x = count ext x + count (mset (children (c_node c))) x"
      using arg_cong [OF eq, of "\<lambda>m. count m x"] by simp
    ultimately show ?thesis by linarith
  qed
  have "counted {} {a} ?K (ext' + mset as) (h(a \<mapsto> c))"
    by (rule counted_change [OF cnt assms(2)]) (use total counted_at(1) [OF cnt assms(2)] in auto)
  then have c1: "counted {} {a} ?K (ext' + mset as) h" using assms(2) by (simp add: fun_upd_idem)
  have "\<exists>h'. decref_all as h = Some h' \<and> counted {} {a} ?K ext' h' \<and> survives h h' \<and> (\<exists>c'. h' a = Some c')"
  proof (cases "as = []")
    case True
    then show ?thesis using c1 assms(2) by (auto intro: survives_refl)
  next
    case False
    then have "\<And>b. b \<in> {a} \<Longrightarrow> b \<in># ext'" using held by simp
    from decref_all_counted [OF c1 this] obtain h' where
      "decref_all as h = Some h'" "counted {} {a} ?K ext' h'" "survives h h'" by auto
    then show ?thesis using counted_alive [of "{}" "{a}" ?K ext' h' a] False held by blast
  qed
  then obtain h' c' where h': "decref_all as h = Some h'" "counted {} {a} ?K ext' h'" "survives h h'" "h' a = Some c'" by blast
  have cn: "c_node c' = c_node c" using survivesE [OF h'(3,4)] assms(2) by (metis option.inject)
  define h'' where "h'' = h'(a \<mapsto> c'\<lparr>c_node := n\<rparr>)"
  have "counted {} {} ?K ext' h''"
    unfolding h''_def
    by (rule counted_change [OF h'(2,4)]) (use counted_at(1) [OF h'(2,4)] in \<open>auto simp: has_count_def immortal_def\<close>)
  moreover have "?K b = kids_of h'' b" if "b \<in> dom h''" for b
  proof (cases "b = a")
    case True
    then show ?thesis by (simp add: h''_def kids_of_def)
  next
    case False
    then have "b \<in> dom h'" using that by (auto simp: h''_def split: if_splits)
    from survives_kids [OF h'(3) this] show ?thesis using False by (simp add: h''_def kids_of_def)
  qed
  ultimately have "counted {} {} (kids_of h'') ext' h''" using counted_cong [of h'' ?K "kids_of h''"] by blast
  moreover have "node_ok (c_node d)" if "h'' b = Some d" for b d
    using that h'(3) nodes assms(3) unfolding h''_def survives_def by (metis cell.select_convs(2) cell.surjective cell.update_convs(2) fun_upd_apply option.inject)
  ultimately have "heap_ok ext' h''" unfolding heap_ok_def by blast
  then show ?thesis using h' cn unfolding h''_def by blast
qed

lemma heap_ok_store:
  assumes "heap_ok ext h" "h a = Some c" "node_ok n" "ext' + mset (children n) = ext + mset (children (c_node c))"
  shows "store_node a n h = Some (h(a \<mapsto> c\<lparr>c_node := n\<rparr>)) \<and> heap_ok ext' (h(a \<mapsto> c\<lparr>c_node := n\<rparr>))"
  using heap_ok_work [OF assms(1-3), of ext' "[]"] assms(2,4) by (simp add: store_node_def)

lemma heap_ok_incref:
  assumes "heap_ok ext h" "h a = Some c"
  shows "\<exists>h'. json_incref (Some a) h = Some h' \<and> heap_ok (add_mset a ext) h' \<and> dom h' = dom h \<and> (\<forall>b. map_option c_node (h' b) = map_option c_node (h b))"
proof -
  have cnt: "counted {} {} (kids_of h) ext h" and nodes: "\<And>a c. h a = Some c \<Longrightarrow> node_ok (c_node c)"
    using assms(1) unfolding heap_ok_def by blast+
  define c' where "c' = (if immortal c then c else c\<lparr>c_count := c_count c + 1\<rparr>)"
  define h' where "h' = h(a \<mapsto> c')"
  have node: "c_node c' = c_node c" by (simp add: c'_def)
  have "has_count c' (Suc (count ext a + refs (kids_of h) h a))"
  proof (cases "immortal c")
    case False
    then have n: "unat (c_count c) = count ext a + refs (kids_of h) h a" "unat (c_count c) < 0xFFFFFFFF"
      using counted_at(1) [OF cnt assms(2)] by (simp_all add: has_count_def)
    then have u: "unat (c_count c + 1) = Suc (unat (c_count c))" by (simp add: unat_word_ariths)
    show ?thesis
    proof (cases "Suc (unat (c_count c)) = 0xFFFFFFFF")
      case True
      then have "unat (c_count c + 1) = unat (0xFFFFFFFF :: u64)" using u by simp
      then have "c_count c + 1 = 0xFFFFFFFF" by (simp only: word_unat_eq_iff)
      then show ?thesis using False by (simp add: c'_def has_count_def immortal_def)
    next
      case neq: False
      then show ?thesis using n u False by (simp add: c'_def has_count_def)
    qed
  qed (simp add: c'_def has_count_def)
  then have "counted {} {} (kids_of h) (add_mset a ext) h'"
    unfolding h'_def by (intro counted_change [OF cnt assms(2)]) (use counted_at(2) [OF cnt assms(2)] node in auto)
  moreover have "kids_of h' = kids_of h" using assms(2) node by (auto simp: kids_of_def h'_def)
  moreover have "\<forall>b d. h' b = Some d \<longrightarrow> node_ok (c_node d)" using nodes assms(2) node by (auto simp: h'_def)
  ultimately have "heap_ok (add_mset a ext) h'" unfolding heap_ok_def by simp
  moreover have "json_incref (Some a) h = Some h'" using assms(2) by (auto simp: json_incref_def c'_def h'_def fun_upd_idem)
  moreover have "dom h' = dom h" "\<forall>b. map_option c_node (h' b) = map_option c_node (h b)" using assms(2) node by (auto simp: h'_def)
  ultimately show ?thesis by blast
qed

end
