(* ===== verification/JsonOwner.thy ===== *)
theory JsonOwner
  imports JsonRef
begin

text \<open>
  Ownership of JSON values: every operation of \<open>JsonRef\<close> keeps the ledger of references, so that a program that keeps to the rules never
  uses a value after it was freed, and frees everything in the end.
\<close>

section \<open>What the operations do to the references of a container\<close>

lemma t_del_keeps:
  assumes "t_ok hash_key t"
  shows "t_ok hash_key (t_del hash_key key t)"
proof -
  let ?i = "t_index hash_key (t_num t) key" and ?s = "seg (t_segs t) (t_index hash_key (t_num t) key)"
  show ?thesis
  proof (cases "key \<in> fst ` set ?s")
    case True
    then have ne: "?s \<noteq> []" by auto
    obtain us vs where a: "t_segs t = us @ (?i, ?s) # vs" "\<And>s'. AList.update ?i s' (t_segs t) = us @ (?i, s') # vs" "map_of us ?i = None"
      using seg_split [OF ne] by metis
    have d: "distinct (map fst (us @ (?i, ?s) # vs))" using assms a(1) by (metis t_ok_def)
    then have "map_of vs ?i = None" by (auto simp: map_of_eq_None_iff)
    then have "AList.delete ?i (us @ (?i, ?s) # vs) = us @ vs"
      using delete_fresh [of us ?i] delete_fresh [of vs ?i] a(3) by (simp add: AList.delete_eq)
    then have del: "AList.delete ?i (t_segs t) = us @ vs" using a(1) by simp
    define s where "s = AList.delete key ?s"
    have s: "set s \<subseteq> set ?s" by (auto simp: s_def AList.delete_eq)
    have t': "t_del hash_key key t = t\<lparr>t_segs := if s = [] then us @ vs else us @ (?i, s) # vs\<rparr>"
      using True del a(2) by (simp add: t_del_def Let_def s_def)
    have keys: "map fst (us @ (?i, ?s) # vs) = map fst (us @ (?i, s) # vs)" by simp
    have d': "distinct (map fst (if s = [] then us @ vs else us @ (?i, s) # vs))" using d by auto
    have old: "\<forall>j. map_of (us @ (?i, ?s) # vs) j \<noteq> Some []" "\<forall>j. \<forall>kv \<in> set (seg (us @ (?i, ?s) # vs) j). t_index hash_key (t_num t) (fst kv) = j"
      using assms a(1) unfolding t_ok_def by metis+
    have m: "map_of (if s = [] then us @ vs else us @ (?i, s) # vs) j
        = (if j = ?i then (if s = [] then None else Some s) else map_of (us @ (?i, ?s) # vs) j)" for j
      using a(3) \<open>map_of vs ?i = None\<close> by (auto simp: map_add_def split: option.splits)
    have i: "map_of (us @ (?i, ?s) # vs) ?i = Some ?s" using a(3) by (auto simp: map_add_def split: option.splits)
    have ne': "map_of (if s = [] then us @ vs else us @ (?i, s) # vs) j \<noteq> Some []" for j
      unfolding m using old(1) by auto
    have idx: "t_index hash_key (t_num t) (fst kv) = j" if "kv \<in> set (seg (if s = [] then us @ vs else us @ (?i, s) # vs) j)" for j kv
    proof (cases "j = ?i")
      case True
      then have "kv \<in> set ?s" using that s unfolding seg_def m by (auto split: if_splits)
      moreover have "seg (us @ (?i, ?s) # vs) ?i = ?s" by (simp only: a(1) [symmetric])
      ultimately show ?thesis using old(2) True by metis
    next
      case False
      have "seg (if s = [] then us @ vs else us @ (?i, s) # vs) j = seg (us @ (?i, ?s) # vs) j"
        unfolding seg_def [of _ j] m [of j] by (simp only: False if_False)
      then show ?thesis using that old(2) by metis
    qed
    have n: "t_entries t = nodes us @ ?s @ nodes vs" using arg_cong [OF a(1), of nodes] by (simp add: t_entries_def)
    have n': "t_entries (t_del hash_key key t) = nodes us @ s @ nodes vs" unfolding t' by (auto simp: t_entries_def)
    have "distinct (map fst (nodes us @ ?s @ nodes vs))" using assms n by (simp add: t_ok_def)
    then have "distinct (map fst (nodes us @ s @ nodes vs))"
      using s by (auto simp: s_def AList.delete_eq distinct_map_filter)
    then show ?thesis unfolding t_ok_def n' using d' ne' idx by (simp add: t')
  next
    case False
    then show ?thesis using assms by (simp add: t_del_def Let_def)
  qed
qed

lemma mset_distinct_keys:
  assumes "distinct (map fst xs)" "distinct (map fst ys)" "map_of xs = map_of ys"
  shows "mset xs = mset ys"
proof -
  have "set xs = set ys" using map_of_inject_set [OF assms(1,2)] assms(3) by simp
  moreover have "distinct xs" "distinct ys" using assms(1,2) by (simp_all add: distinct_map)
  ultimately show ?thesis using set_eq_iff_mset_eq_distinct by blast
qed

text \<open>The members besides one key.\<close>

definition others :: "'k \<Rightarrow> ('k \<times> 'v) list \<Rightarrow> ('k \<times> 'v) list" where
  "others k ms = filter (\<lambda>m. fst m \<noteq> k) ms"

lemma others_distinct: "distinct (map fst ms) \<Longrightarrow> distinct (map fst (others k ms))"
  by (auto simp: others_def distinct_map_filter)

lemma map_of_others: "map_of (others k ms) = (map_of ms)(k := None)"
  by (induction ms) (auto simp: others_def fun_eq_iff)

lemma others_key: "k \<notin> fst ` set (others k ms)"
  by (auto simp: others_def)

lemma mset_member: "distinct (map fst ms) \<Longrightarrow> map_of ms k = Some v \<Longrightarrow> mset ms = add_mset (k, v) (mset (others k ms))"
  using mset_distinct_keys [of ms "(k, v) # others k ms"] others_distinct [of ms k] others_key [of k ms]
  by (simp add: map_of_others fun_upd_idem)

lemma mset_no_member: "distinct (map fst ms) \<Longrightarrow> map_of ms k = None \<Longrightarrow> mset ms = mset (others k ms)"
  using mset_distinct_keys [of ms "others k ms"] others_distinct [of ms k] by (simp add: map_of_others fun_upd_idem)

lemma mset_set:
  assumes "t_ok hash_key t"
  shows "mset (t_entries (t_set hash_key key val t)) = add_mset (key, val) (mset (others key (t_entries t)))"
proof -
  have s: "t_ok hash_key (t_set hash_key key val t)" "map_of (t_entries (t_set hash_key key val t)) = (map_of (t_entries t))(key \<mapsto> val)"
    using t_set_ok [OF assms] by blast+
  have d: "distinct (map fst (t_entries t))" "distinct (map fst (t_entries (t_set hash_key key val t)))"
    using assms s(1) by (simp_all add: t_ok_def)
  have "mset (t_entries (t_set hash_key key val t)) = mset ((key, val) # others key (t_entries t))"
    using others_distinct [OF d(1), of key] others_key [of key "t_entries t"]
    by (intro mset_distinct_keys d(2)) (simp_all add: s(2) map_of_others)
  then show ?thesis by simp
qed

lemma mset_del:
  assumes "t_ok hash_key t"
  shows "mset (t_entries (t_del hash_key key t)) = mset (others key (t_entries t))"
proof -
  have "distinct (map fst (t_entries t))" "distinct (map fst (t_entries (t_del hash_key key t)))"
    using assms t_del_keeps [OF assms, of key] by (simp_all add: t_ok_def)
  then show ?thesis using others_distinct by (intro mset_distinct_keys) (simp_all add: t_del_ok [OF assms] map_of_others)
qed

abbreviation value_addr :: "string \<times> nat \<times> addr \<Rightarrow> addr" where
  "value_addr \<equiv> \<lambda>(key, serial, a). a"

lemma children_object: "mset (children (N_object s t)) = image_mset value_addr (mset (t_entries t))"
  by (simp add: children_def)

lemma children_set_new:
  assumes "t_ok hash_key t" "map_of (t_entries t) key = None"
  shows "mset (children (N_object s' (t_set hash_key key (s, v) t))) = add_mset v (mset (children (N_object s0 t)))"
  using assms(1) mset_set [OF assms(1)] mset_no_member [OF _ assms(2)] by (simp add: children_object t_ok_def)

lemma children_set_old:
  assumes "t_ok hash_key t" "map_of (t_entries t) key = Some (s, old)"
  shows "add_mset old (mset (children (N_object s' (t_set hash_key key (s'', v) t)))) = add_mset v (mset (children (N_object s0 t)))"
  using assms(1) mset_set [OF assms(1)] mset_member [OF _ assms(2)] by (simp add: children_object t_ok_def)

lemma children_del:
  assumes "t_ok hash_key t" "map_of (t_entries t) key = Some (s, old)"
  shows "mset (children (N_object s0 t)) = add_mset old (mset (children (N_object s' (t_del hash_key key t))))"
  using assms(1) mset_del [OF assms(1)] mset_member [OF _ assms(2)] by (simp add: children_object t_ok_def)

lemma children_grow:
  "t_ok hash_key t \<Longrightarrow> mset (children (N_object s' (t_grow hash_key t))) = mset (children (N_object s t))"
  using t_grow_ok [of hash_key t] by (simp add: children_object)


section \<open>Every operation keeps the ledger\<close>

text \<open>An operation returns, and afterwards the program holds \<open>ext\<close>.\<close>

definition keeps :: "addr multiset \<Rightarrow> ('a \<times> json_heap) option \<Rightarrow> bool" where
  "keeps ext r \<longleftrightarrow> (\<exists>ok h'. r = Some (ok, h') \<and> heap_ok ext h')"

lemma keeps_Some [simp]: "keeps ext (Some (ok, h)) \<longleftrightarrow> heap_ok ext h"
  by (simp add: keeps_def)

lemma keeps_refuse: "heap_ok (add_mset v ext) h \<Longrightarrow> keeps ext (refuse v h)"
  using refuse_ok [of v ext h] by (auto simp: keeps_def)

text \<open>The program holds a pointer, or it is null.\<close>

definition holds :: "addr multiset \<Rightarrow> addr option \<Rightarrow> bool" where
  "holds ext p \<longleftrightarrow> (case p of None \<Rightarrow> True | Some a \<Rightarrow> a \<in># ext)"

definition owned_ref :: "addr option \<Rightarrow> addr multiset" where
  "owned_ref p = (case p of None \<Rightarrow> {#} | Some a \<Rightarrow> {#a#})"

lemma holdsE:
  assumes "holds ext p" "heap_ok ext' h" "ext \<subseteq># ext'"
  obtains "p = None" "node_at p h = Some None"
  | a c where "p = Some a" "a \<in># ext" "h a = Some c" "node_at p h = Some (Some (c_node c))" "node_ok (c_node c)"
proof (cases p)
  case None
  then show ?thesis using that(1) by (simp add: node_at_def)
next
  case (Some a)
  then have a: "a \<in># ext" using assms(1) by (simp add: holds_def)
  then obtain c where "h a = Some c" "node_ok (c_node c)" using heap_ok_alive [OF assms(2)] assms(3) by (meson mset_subset_eqD)
  then show ?thesis using that(2) [of a c] Some a by (simp add: node_at_def)
qed

lemma object_put_ok:
  assumes "heap_ok (add_mset v ext) h" "h a = Some c" "c_node c = N_object serial t" "a \<in># ext"
  shows "keeps ext (object_put mp a serial t key v h)"
proof -
  have t: "t_ok hash_key t" using assms(1,2,3) unfolding heap_ok_def node_ok_def by fastforce
  define g where "g = t_grow hash_key t"
  have g: "t_ok hash_key g" "map_of (t_entries g) = map_of (t_entries t)" using t_grow_ok [OF t] by (simp_all add: g_def)
  have gk: "mset (children (N_object (serial + 1) g)) = mset (children (N_object serial t))" unfolding g_def by (rule children_grow [OF t])
  define h1 where "h1 = h(a \<mapsto> c\<lparr>c_node := N_object (serial + 1) g\<rparr>)"
  have "store_node a (N_object (serial + 1) g) h = Some h1 \<and> heap_ok (add_mset v ext) h1"
    unfolding h1_def by (rule heap_ok_store [OF assms(1,2)]) (use g(1) gk assms(3) in \<open>simp_all add: node_ok_def\<close>)
  then have h1: "store_node a (N_object (serial + 1) g) h = Some h1" "heap_ok (add_mset v ext) h1"
    "h1 a = Some (c\<lparr>c_node := N_object (serial + 1) g\<rparr>)" by (simp_all add: h1_def)
  show ?thesis
  proof (cases "map_of (t_entries t) key")
    case None
    define n where "n = N_object (serial + 1) (t_set hash_key key (serial, v) t)"
    have "store_node a n h = Some (h(a \<mapsto> c\<lparr>c_node := n\<rparr>)) \<and> heap_ok ext (h(a \<mapsto> c\<lparr>c_node := n\<rparr>))"
      using t_set_ok [OF t, of key "(serial, v)"] children_set_new [OF t None, of "serial + 1" serial v serial] assms(3)
      by (intro heap_ok_store [OF assms(1,2)]) (simp_all add: n_def node_ok_def)
    then show ?thesis
      using None h1 keeps_refuse by (simp add: object_put_def n_def g_def)
  next
    case (Some m)
    obtain s old where m: "m = (s, old)" by (cases m)
    then have old: "map_of (t_entries g) key = Some (s, old)" using Some g(2) by simp
    define n where "n = N_object (serial + 1) (t_set hash_key key (s, v) g)"
    have "node_ok n" using t_set_ok [OF g(1), of key "(s, v)"] by (simp add: n_def node_ok_def)
    moreover have "ext + mset [old] + mset (children n) = add_mset v ext + mset (children (N_object (serial + 1) g))"
      using children_set_old [OF g(1) old, of "serial + 1" s v "serial + 1"] by (simp add: n_def)
    ultimately obtain h2 c2 where h2: "decref_all [old] h1 = Some h2" "h2 a = Some c2" "c_node c2 = N_object (serial + 1) g"
      "heap_ok ext (h2(a \<mapsto> c2\<lparr>c_node := n\<rparr>))"
      using heap_ok_work [OF h1(2,3), of n ext "[old]"] assms(4) by auto
    then show ?thesis
      using Some m h1(1) unfolding object_put_def g_def [symmetric]
      by (simp add: json_decref_def node_at_def store_node_def n_def)
  qed
qed

lemma json_object_set_new_nocheck_ok:
  assumes "heap_ok (ext + owned_ref val) h" "holds ext json"
  shows "keeps ext (json_object_set_new_nocheck True mp json key val h)"
proof (cases val)
  case (Some v)
  then have h: "heap_ok (add_mset v ext) h" using assms(1) by (simp add: owned_ref_def)
  show ?thesis
  proof (rule holdsE [OF assms(2) h])
    fix a c assume a: "json = Some a" "a \<in># ext" "h a = Some c" "node_at json h = Some (Some (c_node c))"
    show ?thesis
    proof (cases "c_node c")
      case (N_object serial t)
      then show ?thesis using Some a keeps_refuse [OF h] object_put_ok [OF h a(3) _ a(2)] by (simp add: json_object_set_new_nocheck_def)
    qed (use Some a keeps_refuse [OF h] in \<open>simp_all add: json_object_set_new_nocheck_def\<close>)
  qed (use Some keeps_refuse [OF h] in \<open>simp_all add: json_object_set_new_nocheck_def\<close>)
qed (use assms(1) in \<open>simp add: json_object_set_new_nocheck_def owned_ref_def\<close>)

lemma json_decref_owned:
  assumes "heap_ok (ext + owned_ref p) h"
  shows "\<exists>h'. json_decref p h = Some h' \<and> heap_ok ext h'"
proof (cases p)
  case None
  then show ?thesis using assms by (simp add: owned_ref_def json_decref_def)
next
  case (Some a)
  then show ?thesis using json_decref_ok [of a ext h] assms by (auto simp: owned_ref_def)
qed

lemma json_object_set_new_ok:
  assumes "heap_ok (ext + owned_ref val) h" "holds ext json"
  shows "keeps ext (json_object_set_new_ref True mp json key val h)"
  using json_object_set_new_nocheck_ok [OF assms, of mp key] json_decref_owned [OF assms(1)]
  by (auto simp: json_object_set_new_ref_def)

lemma json_object_del_ok:
  assumes "heap_ok ext h" "holds ext json"
  shows "keeps ext (json_object_del_ref json key h)"
proof (rule holdsE [OF assms(2,1)])
  fix a c assume a: "json = Some a" "a \<in># ext" "h a = Some c" "node_at json h = Some (Some (c_node c))" "node_ok (c_node c)"
  show ?thesis
  proof (cases "c_node c")
    case (N_object serial t)
    have t: "t_ok hash_key t" using a(5) N_object by (simp add: node_ok_def)
    show ?thesis
    proof (cases "map_of (t_entries t) key")
      case (Some m)
      obtain s old where m: "m = (s, old)" by (cases m)
      define n where "n = N_object serial (t_del hash_key key t)"
      have "store_node a n h = Some (h(a \<mapsto> c\<lparr>c_node := n\<rparr>)) \<and> heap_ok (add_mset old ext) (h(a \<mapsto> c\<lparr>c_node := n\<rparr>))"
        using t_del_keeps [OF t, of key] children_del [OF t, of key s old serial serial] Some m N_object
        by (intro heap_ok_store [OF assms(1) a(3)]) (simp_all add: n_def node_ok_def)
      moreover from this obtain h' where "json_decref (Some old) (h(a \<mapsto> c\<lparr>c_node := n\<rparr>)) = Some h'" "heap_ok ext h'"
        using json_decref_ok by blast
      ultimately show ?thesis using Some m N_object a by (simp add: json_object_del_ref_def n_def)
    qed (use N_object a assms(1) in \<open>simp add: json_object_del_ref_def\<close>)
  qed (use a assms(1) in \<open>simp_all add: json_object_del_ref_def\<close>)
qed (use assms(1) in \<open>simp_all add: json_object_del_ref_def\<close>)

lemma json_object_clear_ok:
  assumes "heap_ok ext h" "holds ext json"
  shows "keeps ext (json_object_clear_ref json h)"
proof (rule holdsE [OF assms(2,1)])
  fix a c assume a: "json = Some a" "a \<in># ext" "h a = Some c" "node_at json h = Some (Some (c_node c))" "node_ok (c_node c)"
  show ?thesis
  proof (cases "c_node c")
    case (N_object serial t)
    define n where "n = N_object serial (t\<lparr>t_segs := []\<rparr>)"
    have "t_ok hash_key (t\<lparr>t_segs := []\<rparr>)" by (simp add: t_ok_def seg_def t_entries_def)
    then have n: "node_ok n" "children n = []" by (simp_all add: n_def node_ok_def children_def t_entries_def)
    obtain h' c' where "decref_all (children (c_node c)) h = Some h'" "h' a = Some c'" "heap_ok ext (h'(a \<mapsto> c'\<lparr>c_node := n\<rparr>))"
      using heap_ok_work [OF assms(1) a(3) n(1), of ext "children (c_node c)"] n(2) a(2) by auto
    then show ?thesis using N_object a by (simp add: json_object_clear_ref_def n_def store_node_def)
  qed (use a assms(1) in \<open>simp_all add: json_object_clear_ref_def\<close>)
qed (use assms(1) in \<open>simp_all add: json_object_clear_ref_def\<close>)


lemma nodes_map_segs: "nodes (map_segs f segs) = map f (nodes segs)"
  by (induction segs) (auto simp: map_segs_def nodes_def)

lemma t_replace_ok:
  assumes "t_ok hash_key t"
  shows "t_ok hash_key (t_replace key v t)"
proof -
  let ?f = "\<lambda>(k, s, a). (k, s, if k = key then v else a)"
  have f: "fst (?f m) = fst m" for m by (auto split: prod.splits)
  have keys: "map fst (map_segs ?f segs) = map fst segs" for segs by (induction segs) (auto simp: map_segs_def)
  have at: "map_of (map_segs ?f segs) i = map_option (map ?f) (map_of segs i)" for segs i
    by (induction segs) (auto simp: map_segs_def)
  have n: "t_entries (t_replace key v t) = map ?f (t_entries t)"
    by (simp add: t_entries_def t_replace_def nodes_map_segs)
  have sg: "seg (map_segs ?f segs) i = map ?f (seg segs i)" for segs i by (simp add: seg_def at split: option.split)
  have keep: "map fst (map ?f ms) = map fst ms" for ms using f by (induction ms) auto
  have "t_index hash_key (t_num t) (fst kv) = i" if "kv \<in> set (seg (map_segs ?f (t_segs t)) i)" for i kv
  proof -
    have "fst kv \<in> set (map fst (map ?f (seg (t_segs t) i)))" unfolding set_map [of fst] using that unfolding sg by (rule imageI)
    then obtain m where "m \<in> set (seg (t_segs t) i)" "fst m = fst kv" unfolding keep by auto
    then show ?thesis using assms unfolding t_ok_def by metis
  qed
  moreover have "map_of (map_segs ?f (t_segs t)) i \<noteq> Some []" for i
  proof -
    have "map_of (t_segs t) i \<noteq> Some []" using assms unfolding t_ok_def by blast
    then show ?thesis unfolding at by (cases "map_of (t_segs t) i") simp_all
  qed
  moreover have "distinct (map fst (map ?f (t_entries t)))" unfolding keep using assms by (simp add: t_ok_def)
  moreover have "distinct (map fst (map_segs ?f (t_segs t)))" unfolding keys using assms by (simp add: t_ok_def)
  ultimately show ?thesis unfolding t_ok_def n by (simp add: t_replace_def)
qed

lemma children_replace:
  assumes "t_ok hash_key t" "map_of (t_entries t) key = Some (s, old)"
  shows "add_mset old (mset (children (N_object serial (t_replace key v t)))) = add_mset v (mset (children (N_object serial t)))"
proof -
  let ?f = "\<lambda>(k, s, a). (k, s, if k = key then v else a)"
  have n: "t_entries (t_replace key v t) = map ?f (t_entries t)"
    by (simp add: t_entries_def t_replace_def nodes_map_segs)
  have m: "mset (t_entries t) = add_mset (key, s, old) (mset (others key (t_entries t)))"
    using assms by (intro mset_member) (simp_all add: t_ok_def)
  have "map value_addr (map ?f (others key ms)) = map value_addr (others key ms)" for ms
    by (induction ms) (auto simp: others_def)
  then have "image_mset value_addr (image_mset ?f (mset (others key ms))) = image_mset value_addr (mset (others key ms))" for ms
    by (metis mset_map)
  then show ?thesis by (simp add: children_object n m)
qed

lemma json_object_iter_set_new_ok:
  assumes "heap_ok (add_mset v ext) h" "h a = Some c" "a \<in># ext" "c_node c = N_object serial t" "map_of (t_entries t) key \<noteq> None"
  shows "keeps ext (json_object_iter_set_new (Some a) (Some key) (Some v) h)"
proof -
  obtain s old where m: "map_of (t_entries t) key = Some (s, old)" using assms(5) by auto
  have t: "t_ok hash_key t" using assms(1,2,4) unfolding heap_ok_def node_ok_def by fastforce
  define n where "n = N_object serial (t_replace key v t)"
  have "node_ok n" "ext + mset [old] + mset (children n) = add_mset v ext + mset (children (c_node c))"
    using t_replace_ok [OF t] children_replace [OF t m, of serial v] assms(4) by (simp_all add: n_def node_ok_def)
  then obtain h' c' where "decref_all [old] h = Some h'" "h' a = Some c'" "c_node c' = c_node c" "heap_ok ext (h'(a \<mapsto> c'\<lparr>c_node := n\<rparr>))"
    using heap_ok_work [OF assms(1,2), of n ext "[old]"] assms(3) by auto
  then show ?thesis using assms(2,4) m
    by (simp add: json_object_iter_set_new_def node_at_def json_decref_def store_node_def n_def)
qed

lemma array_slot: "array_ok array \<Longrightarrow> index < a_entries array \<Longrightarrow> a_table array ! index = Some (array_values array ! index)"
proof -
  assume a: "array_ok array" "index < a_entries array"
  then have "a_table array ! index \<in> set (take (a_entries array) (a_table array))"
    by (auto simp: array_ok_def in_set_conv_nth intro!: exI [of _ index])
  then have "a_table array ! index \<noteq> None" using a(1) by (metis array_ok_def)
  then show ?thesis using a by (auto simp: array_values_def array_ok_def)
qed

lemma array_node:
  assumes "holds ext json" "heap_ok ext' h" "ext \<subseteq># ext'"
  obtains (array) a c array where "json = Some a" "a \<in># ext" "h a = Some c" "c_node c = N_array array" "array_ok array"
    "node_at json h = Some (Some (N_array array))"
  | (other) n where "node_at json h = Some n" "\<And>array. n \<noteq> Some (N_array array)"
proof (rule holdsE [OF assms])
  show thesis if "json = None" "node_at json h = Some None" using that other [of None] by simp
  show thesis if a: "json = Some a" "a \<in># ext" "h a = Some c" "node_at json h = Some (Some (c_node c))" "node_ok (c_node c)" for a c
  proof (cases "\<exists>array. c_node c = N_array array")
    case True
    then obtain arr where "c_node c = N_array arr" by blast
    then show ?thesis using a array [of a c arr] by (simp add: node_ok_def)
  next
    case False
    then show ?thesis using a(4) other by blast
  qed
qed

lemma json_array_set_new_ok:
  assumes "heap_ok (ext + owned_ref val) h" "holds ext json"
  shows "keeps ext (json_array_set_new_ref json index val h)"
proof (cases val)
  case (Some v)
  then have h: "heap_ok (add_mset v ext) h" using assms(1) by (simp add: owned_ref_def)
  show ?thesis
  proof (rule array_node [OF assms(2) h])
    fix a c array assume a: "json = Some a" "a \<in># ext" "h a = Some c" "c_node c = N_array array" "array_ok array" "node_at json h = Some (Some (N_array array))"
    show ?thesis
    proof (cases "a = v \<or> a_entries array \<le> index")
      case False
      then have i: "index < a_entries array" by simp
      let ?old = "array_values array ! index"
      have slot: "a_table array ! index = Some ?old" by (rule array_slot [OF a(5) i])
      obtain arr where arr: "json_array_set_new index v array = Some (True, arr)" "array_ok arr" "array_values arr = (array_values array)[index := v]"
        using set_array_ok [OF a(5) i] by blast
      have len: "index < length (array_values array)" using a(5) i by (simp add: array_ok_def array_values_def)
      have "?old \<in># mset (array_values array)" using len by simp
      then have "ext + mset [?old] + mset (children (N_array arr)) = add_mset v ext + mset (children (c_node c))"
        using arr(3) a(4) len by (simp add: children_def mset_update)
      then obtain h' c' where w: "decref_all [?old] h = Some h'" "h' a = Some c'" "c_node c' = c_node c"
        "heap_ok ext (h'(a \<mapsto> c'\<lparr>c_node := N_array arr\<rparr>))"
        using heap_ok_work [OF h a(3), of "N_array arr" ext "[?old]"] a(2) arr(2) by (auto simp: node_ok_def)
      have "write_slot index v array = Some arr" using arr(1) i by (auto simp: json_array_set_new_def)
      then show ?thesis using Some False slot a w
        by (simp add: json_array_set_new_ref_def json_decref_def node_at_def store_node_def)
    qed (use Some a keeps_refuse [OF h] in \<open>simp add: json_array_set_new_ref_def\<close>)
  next
    fix n assume "node_at json h = Some n" "\<And>array. n \<noteq> Some (N_array array)"
    then show ?thesis using Some keeps_refuse [OF h] by (auto simp: json_array_set_new_ref_def split: option.split node.split)
  qed simp
qed (use assms(1) in \<open>simp add: json_array_set_new_ref_def owned_ref_def\<close>)

text \<open>An array operation that adds a value, in what it does to the heap.\<close>

lemma array_added:
  assumes "heap_ok (add_mset v ext) h" "h a = Some c" "c_node c = N_array array"
    and "ok \<Longrightarrow> array_ok arr \<and> mset (array_values arr) = add_mset v (mset (array_values array))"
  shows "keeps ext (if \<not> ok then refuse v h else do { h \<leftarrow> store_node a (N_array arr) h; Some (True, h) })"
proof (cases ok)
  case True
  then have "store_node a (N_array arr) h = Some (h(a \<mapsto> c\<lparr>c_node := N_array arr\<rparr>)) \<and> heap_ok ext (h(a \<mapsto> c\<lparr>c_node := N_array arr\<rparr>))"
    using assms(3,4) by (intro heap_ok_store [OF assms(1,2)]) (simp_all add: node_ok_def children_def)
  then show ?thesis using True by simp
qed (use keeps_refuse [OF assms(1)] in simp)

lemma append_any:
  assumes "array_ok array"
  obtains ok arr where "json_array_append_new mem v array = Some (ok, arr)"
    "ok \<Longrightarrow> array_ok arr \<and> mset (array_values arr) = add_mset v (mset (array_values array))"
proof -
  have "json_array_append_new mem v array = Some (False, array) \<or> json_array_append_new mem v array = json_array_append_new True v array"
    by (auto simp: json_array_append_new_def json_array_grow_def)
  then show ?thesis using append_array_ok [OF assms, of v] that by force
qed

lemma insert_any:
  assumes "array_ok array"
  obtains ok arr where "json_array_insert_new mem index v array = Some (ok, arr)"
    "ok \<Longrightarrow> array_ok arr \<and> mset (array_values arr) = add_mset v (mset (array_values array))"
proof (cases "index \<le> a_entries array")
  case True
  have "json_array_insert_new mem index v array = Some (False, array) \<or> json_array_insert_new mem index v array = json_array_insert_new True index v array"
    by (auto simp: json_array_insert_new_def)
  moreover obtain arr where "json_array_insert_new True index v array = Some (True, arr)" "array_ok arr"
      "array_values arr = take index (array_values array) @ v # drop index (array_values array)"
    using insert_array_ok [OF assms True] by blast
  moreover have "mset (take index xs @ v # drop index xs) = add_mset v (mset xs)" for xs
    by (metis append_take_drop_id mset_append union_mset_add_mset_right mset.simps(2))
  ultimately show ?thesis using that by force
next
  case False
  then show ?thesis using that [of False array] by (simp add: json_array_insert_new_def)
qed

lemma json_array_append_new_ok:
  assumes "heap_ok (ext + owned_ref val) h" "holds ext json"
  shows "keeps ext (json_array_append_new_ref mem json val h)"
proof (cases val)
  case (Some v)
  then have h: "heap_ok (add_mset v ext) h" using assms(1) by (simp add: owned_ref_def)
  show ?thesis
  proof (rule array_node [OF assms(2) h])
    fix a c array assume a: "json = Some a" "a \<in># ext" "h a = Some c" "c_node c = N_array array" "array_ok array" "node_at json h = Some (Some (N_array array))"
    obtain ok arr where r: "json_array_append_new mem v array = Some (ok, arr)"
      "ok \<Longrightarrow> array_ok arr \<and> mset (array_values arr) = add_mset v (mset (array_values array))"
      using append_any [OF a(5)] by metis
    show ?thesis using Some a(1,6) r(1) keeps_refuse [OF h] array_added [OF h a(3,4) r(2)]
      by (simp add: json_array_append_new_ref_def)
  next
    fix n assume "node_at json h = Some n" "\<And>array. n \<noteq> Some (N_array array)"
    then show ?thesis using Some keeps_refuse [OF h] by (auto simp: json_array_append_new_ref_def split: option.split node.split)
  qed simp
qed (use assms(1) in \<open>simp add: json_array_append_new_ref_def owned_ref_def\<close>)

lemma json_array_insert_new_ok:
  assumes "heap_ok (ext + owned_ref val) h" "holds ext json"
  shows "keeps ext (json_array_insert_new_ref mem json index val h)"
proof (cases val)
  case (Some v)
  then have h: "heap_ok (add_mset v ext) h" using assms(1) by (simp add: owned_ref_def)
  show ?thesis
  proof (rule array_node [OF assms(2) h])
    fix a c array assume a: "json = Some a" "a \<in># ext" "h a = Some c" "c_node c = N_array array" "array_ok array" "node_at json h = Some (Some (N_array array))"
    obtain ok arr where r: "json_array_insert_new mem index v array = Some (ok, arr)"
      "ok \<Longrightarrow> array_ok arr \<and> mset (array_values arr) = add_mset v (mset (array_values array))"
      using insert_any [OF a(5)] by metis
    show ?thesis using Some a(1,6) r(1) keeps_refuse [OF h] array_added [OF h a(3,4) r(2)]
      by (simp add: json_array_insert_new_ref_def)
  next
    fix n assume "node_at json h = Some n" "\<And>array. n \<noteq> Some (N_array array)"
    then show ?thesis using Some keeps_refuse [OF h] by (auto simp: json_array_insert_new_ref_def split: option.split node.split)
  qed simp
qed (use assms(1) in \<open>simp add: json_array_insert_new_ref_def owned_ref_def\<close>)


lemma json_array_remove_ok:
  assumes "heap_ok ext h" "holds ext json"
    and "\<And>array. node_at json h = Some (Some (N_array array)) \<Longrightarrow> a_entries array < a_size array"
  shows "keeps ext (json_array_remove_ref json index h)"
proof (rule array_node [OF assms(2,1)])
  fix a c array assume a: "json = Some a" "a \<in># ext" "h a = Some c" "c_node c = N_array array" "array_ok array" "node_at json h = Some (Some (N_array array))"
  show ?thesis
  proof (cases "a_entries array \<le> index")
    case False
    then have i: "index < a_entries array" by simp
    let ?old = "array_values array ! index"
    have slot: "a_table array ! index = Some ?old" by (rule array_slot [OF a(5) i])
    obtain arr where arr: "json_array_remove index array = Some (True, arr)" "array_ok arr"
      "array_values arr = take index (array_values array) @ drop (index + 1) (array_values array)"
      using remove_array [OF a(5) i] assms(3) [OF a(6)] by auto
    have "index < length (array_values array)" using a(5) i by (simp add: array_ok_def array_values_def)
    then have "mset (array_values array) = add_mset ?old (mset (array_values arr))"
      unfolding arr(3) by (metis id_take_nth_drop mset.simps(2) mset_append union_mset_add_mset_right Suc_eq_plus1)
    then have "ext + mset [?old] + mset (children (N_array arr)) = ext + mset (children (c_node c))"
      using a(4) by (simp add: children_def)
    then obtain h' c' where w: "decref_all [?old] h = Some h'" "h' a = Some c'" "c_node c' = c_node c"
      "heap_ok ext (h'(a \<mapsto> c'\<lparr>c_node := N_array arr\<rparr>))"
      using heap_ok_work [OF assms(1) a(3), of "N_array arr" ext "[?old]"] a(2) arr(2) by (auto simp: node_ok_def)
    then show ?thesis using False slot a arr(1)
      by (simp add: json_array_remove_ref_def json_decref_def node_at_def store_node_def)
  qed (use a assms(1) in \<open>simp add: json_array_remove_ref_def\<close>)
next
  fix n assume "node_at json h = Some n" "\<And>array. n \<noteq> Some (N_array array)"
  then show ?thesis using assms(1) by (auto simp: json_array_remove_ref_def split: option.split node.split)
qed simp

lemma json_array_clear_ok:
  assumes "heap_ok ext h" "holds ext json"
  shows "keeps ext (json_array_clear_ref json h)"
proof (rule array_node [OF assms(2,1)])
  fix a c array assume a: "json = Some a" "a \<in># ext" "h a = Some c" "c_node c = N_array array" "array_ok array" "node_at json h = Some (Some (N_array array))"
  have "node_ok (N_array (json_array_clear array))" "children (N_array (json_array_clear array)) = []"
    using a(5) by (simp_all add: node_ok_def children_def array_ok_def json_array_clear_def array_values_def)
  then obtain h' c' where "decref_all (array_values array) h = Some h'" "h' a = Some c'" "c_node c' = c_node c"
    "heap_ok ext (h'(a \<mapsto> c'\<lparr>c_node := N_array (json_array_clear array)\<rparr>))"
    using heap_ok_work [OF assms(1) a(3), of "N_array (json_array_clear array)" ext "array_values array"] a(2,4) by (auto simp: children_def)
  then show ?thesis using a by (simp add: json_array_clear_ref_def store_node_def)
next
  fix n assume "node_at json h = Some n" "\<And>array. n \<noteq> Some (N_array array)"
  then show ?thesis using assms(1) by (auto simp: json_array_clear_ref_def split: option.split node.split)
qed simp

lemma incref_all_ok:
  "heap_ok ext h \<Longrightarrow> set as \<subseteq> dom h \<Longrightarrow> \<exists>h'. incref_all as h = Some h' \<and> heap_ok (ext + mset as) h'
    \<and> (\<forall>b. map_option c_node (h' b) = map_option c_node (h b))"
proof (induction as arbitrary: ext h)
  case (Cons a as)
  obtain c where "h a = Some c" using Cons.prems(2) by auto
  then obtain h1 where h1: "json_incref (Some a) h = Some h1" "heap_ok (add_mset a ext) h1" "dom h1 = dom h"
    "\<forall>b. map_option c_node (h1 b) = map_option c_node (h b)"
    using heap_ok_incref [OF Cons.prems(1)] by blast
  then show ?case using Cons.IH [OF h1(2)] Cons.prems(2) by auto
qed simp

lemma heap_ok_kids: "heap_ok ext h \<Longrightarrow> h b = Some c \<Longrightarrow> set (children (c_node c)) \<subseteq> dom h"
proof
  fix x assume h: "heap_ok ext h" "h b = Some c" and x: "x \<in> set (children (c_node c))"
  have cnt: "counted {} {} (kids_of h) ext h" using h(1) by (simp add: heap_ok_def)
  then have "finite (dom h)" by (simp add: counted_def)
  from refs_kids [OF this, of b "kids_of h" x] have "refs (kids_of h) h x \<noteq> 0"
    using h(2) x by (auto simp: kids_of_def domI)
  then show "x \<in> dom h" using counted_gone [OF cnt, of x] by auto
qed

lemma json_array_extend_ok:
  assumes "heap_ok ext h" "holds ext json" "holds ext other"
  shows "keeps ext (json_array_extend_ref mem json other h)"
proof (rule array_node [OF assms(3,1)])
  fix b d others assume b: "other = Some b" "b \<in># ext" "h b = Some d" "c_node d = N_array others" "array_ok others"
    "node_at other h = Some (Some (N_array others))"
  show ?thesis
  proof (rule array_node [OF assms(2,1)])
    fix a c array assume a: "json = Some a" "a \<in># ext" "h a = Some c" "c_node c = N_array array" "array_ok array" "node_at json h = Some (Some (N_array array))"
    have "json_array_extend mem others array = Some (False, array) \<or> json_array_extend mem others array = json_array_extend True others array"
      by (auto simp: json_array_extend_def json_array_grow_def)
    moreover obtain arr where arr: "json_array_extend True others array = Some (True, arr)" "array_ok arr"
      "array_values arr = array_values array @ array_values others"
      using extend_array_ok [OF a(5) b(5)] by blast
    moreover have "set (array_values others) \<subseteq> dom h" using heap_ok_kids [OF assms(1) b(3)] b(4) by (simp add: children_def)
    from incref_all_ok [OF assms(1) this] obtain h1 where h1: "incref_all (array_values others) h = Some h1"
      "heap_ok (ext + mset (array_values others)) h1" "\<forall>x. map_option c_node (h1 x) = map_option c_node (h x)" by blast
    then obtain c1 where c1: "h1 a = Some c1" "c_node c1 = N_array array" using a(3,4) by (metis map_option_eq_Some)
    have "store_node a (N_array arr) h1 = Some (h1(a \<mapsto> c1\<lparr>c_node := N_array arr\<rparr>)) \<and> heap_ok ext (h1(a \<mapsto> c1\<lparr>c_node := N_array arr\<rparr>))"
      using arr c1(2) by (intro heap_ok_store [OF h1(2) c1(1)]) (simp_all add: node_ok_def children_def)
    ultimately show ?thesis using a(1,6) b(6) h1(1) assms(1) by (auto simp: json_array_extend_ref_def)
  next
    fix n assume "node_at json h = Some n" "\<And>array. n \<noteq> Some (N_array array)"
    then show ?thesis using b(6) assms(1) by (auto simp: json_array_extend_ref_def split: option.split node.split)
  qed simp
next
  fix m assume m: "node_at other h = Some m" "\<And>array. m \<noteq> Some (N_array array)"
  obtain n where "node_at json h = Some n" using holdsE [OF assms(2,1)] by blast
  then show ?thesis using m assms(1) by (auto simp: json_array_extend_ref_def split: option.split node.split)
qed simp

text \<open>A new value.\<close>

lemma json_create_ok:
  assumes "heap_ok ext h" "h a = None" "children n = []" "node_ok n"
  shows "heap_ok (add_mset a ext) (json_create a n h)"
proof -
  have cnt: "counted {} {} (kids_of h) ext h" using assms(1) by (simp add: heap_ok_def)
  have fin: "finite (dom h)" using cnt by (simp add: counted_def)
  define h' where "h' = json_create a n h"
  have k: "kids_of h' = kids_of h" using assms(2,3) by (auto simp: h'_def kids_of_def json_create_def json_init_def)
  have d: "dom h' = insert a (dom h)" by (auto simp: h'_def json_create_def)
  have "kids_of h a = {#}" using assms(2) by (simp add: kids_of_def)
  then have r: "refs (kids_of h) h' x = refs (kids_of h) h x" for x
    using fin assms(2) unfolding refs_def d by (simp add: domIff)
  have gone: "count ext x + refs (kids_of h) h x = 0" if "h x = None" for x using counted_gone [OF cnt, of x] that by simp
  have at: "has_count c (count (add_mset a ext) x + refs (kids_of h') h' x) \<and> kids_of h' x = mset (children (c_node c))"
    if "h' x = Some c" for x c
  proof (cases "x = a")
    case True
    then have "c = json_init n" using that by (simp add: h'_def json_create_def)
    then show ?thesis using gone [OF assms(2)] True assms(3) \<open>kids_of h a = {#}\<close> unfolding k r by (simp add: has_count_def json_init_def)
  next
    case False
    then have "h x = Some c" using that by (simp add: h'_def json_create_def)
    then show ?thesis using counted_at [OF cnt] False unfolding k r by simp
  qed
  have "count (add_mset a ext) x + refs (kids_of h') h' x = 0" if "h' x = None" for x
    using gone [of x] that unfolding k r by (auto simp: h'_def json_create_def split: if_splits)
  then have "counted {} {} (kids_of h') (add_mset a ext) h'" using at fin d unfolding counted_def by auto
  moreover have "node_ok (c_node c)" if "h' x = Some c" for x c
    using that assms(1,4) by (auto simp: h'_def json_create_def json_init_def heap_ok_def split: if_splits)
  ultimately show ?thesis unfolding heap_ok_def h'_def by blast
qed


text \<open>The setters of values that hold none.\<close>

lemma scalar_store:
  assumes "heap_ok ext h" "h a = Some c" "children (c_node c) = []" "children n = []" "node_ok n"
  shows "keeps ext (do { h \<leftarrow> store_node a n h; Some (True, h) })"
  using heap_ok_store [OF assms(1,2,5), of ext] assms(3,4) by auto

lemma scalar_children [simp]:
  "children (N_string s) = []" "children (N_integer i) = []" "children (N_real r) = []"
  "node_ok (N_string s)" "node_ok (N_integer i)" "node_ok (N_real r)"
  by (simp_all add: children_def node_ok_def)

lemma json_integer_set_ok: "heap_ok ext h \<Longrightarrow> holds ext json \<Longrightarrow> keeps ext (json_integer_set json i h)"
  by (erule holdsE [where ext' = ext and h = h]) (auto simp: json_integer_set_def scalar_store split: node.split)

lemma json_real_set_ok: "heap_ok ext h \<Longrightarrow> holds ext json \<Longrightarrow> keeps ext (json_real_set json r h)"
  by (erule holdsE [where ext' = ext and h = h]) (auto simp: json_real_set_def scalar_store split: node.split)

lemma json_string_set_ok:
  assumes "heap_ok ext h" "holds ext json" "\<exists>s. node_at json h = Some (Some (N_string s))"
  shows "keeps ext (json_string_set mem json str h)"
proof (rule holdsE [OF assms(2,1)])
  fix a c assume "json = Some a" "h a = Some c" "node_at json h = Some (Some (c_node c))"
  then show ?thesis using assms(1,3) scalar_store [OF assms(1), of a c]
    by (auto simp: json_string_set_def json_string_set_nocheck_def split: option.split)
qed (use assms(3) in auto)

section \<open>A program that uses the values\<close>

datatype json_op =
    Create addr node
  | Incref addr
  | Decref addr
  | Object_set bool "addr option" string "addr option"
  | Object_del "addr option" string
  | Object_clear "addr option"
  | Iter_set addr string addr
  | Array_set "addr option" nat "addr option"
  | Array_append bool "addr option" "addr option"
  | Array_insert bool "addr option" nat "addr option"
  | Array_remove "addr option" nat
  | Array_clear "addr option"
  | Array_extend bool "addr option" "addr option"
  | String_set bool "addr option" "string option"
  | Integer_set "addr option" int
  | Real_set "addr option" rat

definition run_op :: "json_op \<Rightarrow> json_heap \<Rightarrow> json_heap option" where
  "run_op op h =
     (case op of
        Create a n \<Rightarrow> Some (json_create a n h)
      | Incref a \<Rightarrow> json_incref (Some a) h
      | Decref a \<Rightarrow> json_decref (Some a) h
      | Object_set mp json key val \<Rightarrow> map_option snd (json_object_set_new_ref True mp json key val h)
      | Object_del json key \<Rightarrow> map_option snd (json_object_del_ref json key h)
      | Object_clear json \<Rightarrow> map_option snd (json_object_clear_ref json h)
      | Iter_set json key val \<Rightarrow> map_option snd (json_object_iter_set_new (Some json) (Some key) (Some val) h)
      | Array_set json index val \<Rightarrow> map_option snd (json_array_set_new_ref json index val h)
      | Array_append mem json val \<Rightarrow> map_option snd (json_array_append_new_ref mem json val h)
      | Array_insert mem json index val \<Rightarrow> map_option snd (json_array_insert_new_ref mem json index val h)
      | Array_remove json index \<Rightarrow> map_option snd (json_array_remove_ref json index h)
      | Array_clear json \<Rightarrow> map_option snd (json_array_clear_ref json h)
      | Array_extend mem json other \<Rightarrow> map_option snd (json_array_extend_ref mem json other h)
      | String_set mem json str \<Rightarrow> map_option snd (json_string_set mem json str h)
      | Integer_set json i \<Rightarrow> map_option snd (json_integer_set json i h)
      | Real_set json r \<Rightarrow> map_option snd (json_real_set json r h))"

text \<open>What the program holds after an operation: the setters whose name ends in \<open>new\<close> take a reference over.\<close>

definition ledger :: "json_op \<Rightarrow> addr multiset \<Rightarrow> addr multiset" where
  "ledger op ext =
     (case op of
        Create a n \<Rightarrow> add_mset a ext
      | Incref a \<Rightarrow> add_mset a ext
      | Decref a \<Rightarrow> ext - {#a#}
      | Object_set mp json key val \<Rightarrow> ext - owned_ref val
      | Iter_set json key val \<Rightarrow> ext - {#val#}
      | Array_set json index val \<Rightarrow> ext - owned_ref val
      | Array_append mem json val \<Rightarrow> ext - owned_ref val
      | Array_insert mem json index val \<Rightarrow> ext - owned_ref val
      | _ \<Rightarrow> ext)"

text \<open>
  What it may do: create values, take references to values that are there, give up or hand over references it holds, and work on values
  it holds another reference to. Strings are set where strings are, iterators set at members that are there, and nothing is
  removed from a full array.
\<close>

definition hands_over :: "addr multiset \<Rightarrow> addr option \<Rightarrow> addr option \<Rightarrow> bool" where
  "hands_over ext json val \<longleftrightarrow> owned_ref val \<subseteq># ext \<and> holds (ext - owned_ref val) json"

definition allowed :: "json_op \<Rightarrow> addr multiset \<Rightarrow> json_heap \<Rightarrow> bool" where
  "allowed op ext h =
     (case op of
        Create a n \<Rightarrow> h a = None \<and> n \<in> {json_object_new, json_array_new} \<union> range N_string \<union> range N_integer \<union> range N_real
      | Incref a \<Rightarrow> h a \<noteq> None
      | Decref a \<Rightarrow> a \<in># ext
      | Object_set mp json key val \<Rightarrow> hands_over ext json val
      | Object_del json key \<Rightarrow> holds ext json
      | Object_clear json \<Rightarrow> holds ext json
      | Iter_set json key val \<Rightarrow> hands_over ext (Some json) (Some val)
          \<and> (\<exists>c serial t. h json = Some c \<and> c_node c = N_object serial t \<and> map_of (t_entries t) key \<noteq> None)
      | Array_set json index val \<Rightarrow> hands_over ext json val
      | Array_append mem json val \<Rightarrow> hands_over ext json val
      | Array_insert mem json index val \<Rightarrow> hands_over ext json val
      | Array_remove json index \<Rightarrow> holds ext json \<and> (\<forall>array. node_at json h = Some (Some (N_array array)) \<longrightarrow> a_entries array < a_size array)
      | Array_clear json \<Rightarrow> holds ext json
      | Array_extend mem json other \<Rightarrow> holds ext json \<and> holds ext other
      | String_set mem json str \<Rightarrow> holds ext json \<and> (\<exists>s. node_at json h = Some (Some (N_string s)))
      | Integer_set json i \<Rightarrow> holds ext json
      | Real_set json r \<Rightarrow> holds ext json)"

inductive client :: "addr multiset \<Rightarrow> json_heap \<Rightarrow> bool" where
  start: "client {#} start_heap"
| step: "client ext h \<Longrightarrow> allowed op ext h \<Longrightarrow> run_op op h = Some h' \<Longrightarrow> client (ledger op ext) h'"

lemma keeps_snd: "keeps ext r \<Longrightarrow> \<exists>h'. map_option snd r = Some h' \<and> heap_ok ext h'"
  by (auto simp: keeps_def)

lemma hands_overE:
  assumes "hands_over ext json val" "heap_ok ext h"
  shows "heap_ok (ext - owned_ref val + owned_ref val) h" "holds (ext - owned_ref val) json"
  using assms by (simp_all add: hands_over_def)

lemma run_op_ok:
  assumes h: "heap_ok ext h" and a: "allowed op ext h"
  shows "\<exists>h'. run_op op h = Some h' \<and> heap_ok (ledger op ext) h'"
proof (cases op)
  case (Create x n)
  then have "h x = None" "n \<in> {json_object_new, json_array_new} \<union> range N_string \<union> range N_integer \<union> range N_real"
    using a by (simp_all add: allowed_def)
  moreover from this(2) have "children n = []" "node_ok n"
    by (auto simp: json_object_new_def json_array_new_def children_def node_ok_def t_empty_def t_empty_ok t_entries_def nodes_def
        array_values_def json_array_empty_def array_ok_def)
  ultimately show ?thesis using json_create_ok [OF h, of x n] Create by (simp add: run_op_def ledger_def)
next
  case (Incref x)
  then show ?thesis using heap_ok_incref [OF h, of x] a by (auto simp: run_op_def ledger_def allowed_def)
next
  case (Decref x)
  then have "heap_ok (add_mset x (ext - {#x#})) h" using a h by (simp add: allowed_def)
  from json_decref_ok [OF this] show ?thesis using Decref by (auto simp: run_op_def ledger_def)
next
  case (Object_set mp json key val)
  then have "hands_over ext json val" using a by (simp add: allowed_def)
  from keeps_snd [OF json_object_set_new_ok [OF hands_overE [OF this h], of mp key]] show ?thesis
    using Object_set by (simp add: run_op_def ledger_def)
next
  case (Iter_set json key val)
  then obtain c serial t where c: "hands_over ext (Some json) (Some val)" "h json = Some c" "c_node c = N_object serial t" "map_of (t_entries t) key \<noteq> None"
    using a by (auto simp: allowed_def)
  note o = hands_overE [OF c(1) h]
  have k: "keeps (ext - {#val#}) (json_object_iter_set_new (Some json) (Some key) (Some val) h)"
    using o c(2-4) by (intro json_object_iter_set_new_ok) (simp_all add: owned_ref_def holds_def)
  from keeps_snd [OF this] show ?thesis using Iter_set by (simp add: run_op_def ledger_def)
next
  case (Array_set json index val)
  then have "hands_over ext json val" using a by (simp add: allowed_def)
  from keeps_snd [OF json_array_set_new_ok [OF hands_overE [OF this h]]] show ?thesis
    using Array_set by (simp add: run_op_def ledger_def)
next
  case (Array_append mem json val)
  then have "hands_over ext json val" using a by (simp add: allowed_def)
  from keeps_snd [OF json_array_append_new_ok [OF hands_overE [OF this h]]] show ?thesis
    using Array_append by (simp add: run_op_def ledger_def)
next
  case (Array_insert mem json index val)
  then have "hands_over ext json val" using a by (simp add: allowed_def)
  from keeps_snd [OF json_array_insert_new_ok [OF hands_overE [OF this h]]] show ?thesis
    using Array_insert by (simp add: run_op_def ledger_def)
next
  case (Object_del json key)
  then have "keeps ext (json_object_del_ref json key h)" using json_object_del_ok [OF h, of json key] a by (simp add: allowed_def)
  from keeps_snd [OF this] show ?thesis using Object_del by (simp add: run_op_def ledger_def)
next
  case (Object_clear json)
  then have "keeps ext (json_object_clear_ref json h)" using json_object_clear_ok [OF h, of json] a by (simp add: allowed_def)
  from keeps_snd [OF this] show ?thesis using Object_clear by (simp add: run_op_def ledger_def)
next
  case (Array_remove json index)
  then have "keeps ext (json_array_remove_ref json index h)" using json_array_remove_ok [OF h, of json index] a by (simp add: allowed_def)
  from keeps_snd [OF this] show ?thesis using Array_remove by (simp add: run_op_def ledger_def)
next
  case (Array_clear json)
  then have "keeps ext (json_array_clear_ref json h)" using json_array_clear_ok [OF h, of json] a by (simp add: allowed_def)
  from keeps_snd [OF this] show ?thesis using Array_clear by (simp add: run_op_def ledger_def)
next
  case (Array_extend mem json other)
  then have "keeps ext (json_array_extend_ref mem json other h)" using json_array_extend_ok [OF h, of json other mem] a by (simp add: allowed_def)
  from keeps_snd [OF this] show ?thesis using Array_extend by (simp add: run_op_def ledger_def)
next
  case (String_set mem json str)
  then have "keeps ext (json_string_set mem json str h)" using json_string_set_ok [OF h, of json mem str] a by (simp add: allowed_def)
  from keeps_snd [OF this] show ?thesis using String_set by (simp add: run_op_def ledger_def)
next
  case (Integer_set json i)
  then have "keeps ext (json_integer_set json i h)" using json_integer_set_ok [OF h, of json i] a by (simp add: allowed_def)
  from keeps_snd [OF this] show ?thesis using Integer_set by (simp add: run_op_def ledger_def)
next
  case (Real_set json r)
  then have "keeps ext (json_real_set json r h)" using json_real_set_ok [OF h, of json r] a by (simp add: allowed_def)
  from keeps_snd [OF this] show ?thesis using Real_set by (simp add: run_op_def ledger_def)
qed

lemma start_ok: "heap_ok {#} start_heap"
proof -
  have "dom start_heap = {json_true, json_false, json_null}" by (auto simp: start_heap_def)
  moreover have "kids_of start_heap a = {#}" for a
    by (auto simp: kids_of_def start_heap_def static_value_def children_def)
  ultimately show ?thesis
    by (auto simp: heap_ok_def counted_def refs_def start_heap_def static_value_def has_count_def immortal_def children_def node_ok_def split: if_splits)
qed

lemma client_ok: "client ext h \<Longrightarrow> heap_ok ext h"
proof (induction rule: client.induct)
  case (step ext h op h')
  then show ?case using run_op_ok [OF step.IH step.hyps(2)] by auto
qed (rule start_ok)



lemma client_step: "client ext h \<Longrightarrow> allowed op ext h \<Longrightarrow> \<exists>h'. run_op op h = Some h' \<and> client (ledger op ext) h'"
  using run_op_ok [OF client_ok] client.step by meson


text \<open>The values that hold others, directly.\<close>

definition holders :: "json_heap \<Rightarrow> (addr \<times> addr) set" where
  "holders h = {(a, b). \<exists>c. h b = Some c \<and> a \<in> set (children (c_node c))}"

lemma holders_finite: "heap_ok ext h \<Longrightarrow> finite (holders h)"
proof -
  assume h: "heap_ok ext h"
  then have "finite (dom h)" by (simp add: heap_ok_def counted_def)
  moreover have "holders h \<subseteq> dom h \<times> dom h" using heap_ok_kids [OF h] by (force simp: holders_def)
  ultimately show ?thesis by (meson finite_SigmaI finite_subset)
qed



text \<open>\<open>json_object_set_new\<close> takes the reference to the value over, whether it succeeds or fails, with one exception: when the new key cannot
  be allocated it fails and keeps the reference, which nobody gives up.\<close>

theorem json_set_new_takes_reference:
  assumes "heap_ok (ext + owned_ref val) h" "holds ext json"
  shows "\<exists>ok h'. json_object_set_new_ref mk mp json key val h = Some (ok, h')
    \<and> heap_ok (if \<not> mk \<and> utf8_check_string (map of_char key) \<and> val \<noteq> None \<and> json \<noteq> val
          \<and> (\<exists>serial t. node_at json h = Some (Some (N_object serial t)))
        then ext + owned_ref val else ext) h'"
proof (cases "mk \<or> \<not> utf8_check_string (map of_char key)")
  case True
  then show ?thesis
    using json_object_set_new_ok [OF assms, of mp key] json_decref_owned [OF assms(1)]
    by (auto simp: keeps_def json_object_set_new_ref_def)
next
  case False
  then have r: "json_object_set_new_ref mk mp json key val h = json_object_set_new_nocheck False mp json key val h"
    by (simp add: json_object_set_new_ref_def)
  show ?thesis
  proof (cases val)
    case None
    then show ?thesis using assms(1) r by (auto simp: json_object_set_new_nocheck_def owned_ref_def)
  next
    case (Some v)
    then have h: "heap_ok (add_mset v ext) h" using assms(1) by (simp add: owned_ref_def)
    show ?thesis
    proof (rule holdsE [OF assms(2) h])
      fix a c assume a: "json = Some a" "node_at json h = Some (Some (c_node c))"
      show ?thesis
        using Some a False h refuse_ok [OF h] unfolding r
        by (cases "c_node c") (auto simp: json_object_set_new_nocheck_def owned_ref_def)
    qed (use Some False h refuse_ok [OF h] r in \<open>auto simp: json_object_set_new_nocheck_def owned_ref_def\<close>)
  qed
qed

lemma json_set_new_takes_reference_witness:
  "\<exists>h ok h'. client {#10, 11#} h \<and> json_object_set_new_ref False True (Some 10) ''a'' (Some 11) h = Some (ok, h') \<and> heap_ok {#10, 11#} h'"
proof -
  obtain h1 where h1: "run_op (Create 10 json_object_new) start_heap = Some h1" "client {#10#} h1"
    using client_step [OF client.start, of "Create 10 json_object_new"]
    by (auto simp: allowed_def ledger_def start_heap_def json_true_def json_false_def json_null_def)
  have e: "h1 11 = None"
    using h1(1) by (auto simp: run_op_def json_create_def start_heap_def json_true_def json_false_def json_null_def)
  then obtain h2 where h2: "run_op (Create 11 (N_integer 5)) h1 = Some h2" "client {#10, 11#} h2"
    using client_step [OF h1(2), of "Create 11 (N_integer 5)"] by (auto simp: allowed_def ledger_def add_mset_commute)
  have "node_at (Some 10) h2 = Some (Some json_object_new)"
    using h1(1) h2(1) by (auto simp: run_op_def json_create_def node_at_def json_init_def)
  moreover have "utf8_check_string (map of_char ''a'')" by code_simp
  moreover have "heap_ok ({#10#} + owned_ref (Some 11)) h2" using client_ok [OF h2(2)] by (simp add: owned_ref_def add_mset_commute)
  ultimately show ?thesis
    using json_set_new_takes_reference [of "{#10#}" "Some 11" h2 "Some 10" False True "''a''"] h2(2)
    by (auto simp: holds_def owned_ref_def json_object_new_def add_mset_commute)
qed


end
