(* ===== verification/StrBuffer.thy ===== *)
theory StrBuffer
  imports JsonValue "HOL-Library.Monad_Syntax"
begin

text \<open>
  The growing byte buffer of the bundled \<open>jansson\<close> (\<open>compat/jansson/strbuffer.c\<close>), into which the parser saves the text of a token and
  the printer its output. The memory of a buffer is the list of its bytes, or \<open>None\<close> for the null pointer; \<open>mem\<close> says whether an
  allocation succeeds and \<open>fresh\<close> what new memory holds. A result \<open>None\<close> is undefined behaviour: an access through the null pointer or
  outside the memory, or an overflow of the type \<open>int\<close>.
\<close>

section \<open>Operations\<close>

record strbuffer =
  sb_value :: "byte list option"
  sb_length :: int
  sb_size :: int

definition fits_int :: "int \<Rightarrow> bool" where
  "fits_int i \<longleftrightarrow> - (2 ^ 31) \<le> i \<and> i < 2 ^ 31"

definition strbuffer_min_size :: int where
  "strbuffer_min_size = 16"

definition strbuffer_factor :: int where
  "strbuffer_factor = 2"

text \<open>Storing a byte through the pointer.\<close>

definition sb_store :: "int \<Rightarrow> byte \<Rightarrow> strbuffer \<Rightarrow> strbuffer option" where
  "sb_store i b strbuff = do {
     v \<leftarrow> sb_value strbuff;
     if 0 \<le> i \<and> i < int (length v) then Some (strbuff\<lparr>sb_value := Some (v[nat i := b])\<rparr>) else None
   }"

definition strbuffer_init :: "bool \<Rightarrow> (nat \<Rightarrow> byte) \<Rightarrow> (bool \<times> strbuffer) option" where
  "strbuffer_init mem fresh =
     (if \<not> mem then Some (False, \<lparr>sb_value = None, sb_length = 0, sb_size = strbuffer_min_size\<rparr>)
      else map_option (Pair True) (sb_store 0 0
        \<lparr>sb_value = Some (map fresh [0..<nat strbuffer_min_size]), sb_length = 0, sb_size = strbuffer_min_size\<rparr>))"

definition strbuffer_close :: "strbuffer \<Rightarrow> strbuffer" where
  "strbuffer_close strbuff = \<lparr>sb_value = None, sb_length = 0, sb_size = 0\<rparr>"

definition strbuffer_clear :: "strbuffer \<Rightarrow> strbuffer option" where
  "strbuffer_clear strbuff = sb_store 0 0 (strbuff\<lparr>sb_length := 0\<rparr>)"

definition strbuffer_value :: "strbuffer \<Rightarrow> byte list option" where
  "strbuffer_value strbuff = sb_value strbuff"

definition strbuffer_steal_value :: "bool \<Rightarrow> (nat \<Rightarrow> byte) \<Rightarrow> strbuffer \<Rightarrow> (byte list option \<times> strbuffer) option" where
  "strbuffer_steal_value mem fresh strbuff = do {
     (ok, new) \<leftarrow> strbuffer_init mem fresh;
     Some (sb_value strbuff, new)
   }"

text \<open>\<open>realloc\<close> to at least the bytes there are, or from the null pointer.\<close>

definition grown :: "(nat \<Rightarrow> byte) \<Rightarrow> int \<Rightarrow> byte list option \<Rightarrow> byte list" where
  "grown fresh n v = (case v of None \<Rightarrow> map fresh [0..<nat n] | Some xs \<Rightarrow> take (nat n) xs @ map fresh [length xs..<nat n])"

definition strbuffer_copy :: "byte list \<Rightarrow> strbuffer \<Rightarrow> (bool \<times> strbuffer) option" where
  "strbuffer_copy data strbuff = do {
     v \<leftarrow> sb_value strbuff;
     if int (length v) < sb_length strbuff + int (length data) then None
     else do {
       strbuff \<leftarrow> sb_store (sb_length strbuff + int (length data)) 0
         (strbuff\<lparr>sb_value := Some (memcpy_at v (nat (sb_length strbuff)) data), sb_length := sb_length strbuff + int (length data)\<rparr>);
       Some (True, strbuff)
     }
   }"

definition strbuffer_append_bytes :: "bool \<Rightarrow> (nat \<Rightarrow> byte) \<Rightarrow> byte list \<Rightarrow> strbuffer \<Rightarrow> (bool \<times> strbuffer) option" where
  "strbuffer_append_bytes mem fresh data strbuff =
     (let need = sb_length strbuff + int (length data) in
      if \<not> fits_int (int (length data)) \<or> \<not> fits_int need then None
      else if sb_size strbuff \<le> need
      then (let new = max (sb_size strbuff * strbuffer_factor) (need + 1) in
            if \<not> fits_int (sb_size strbuff * strbuffer_factor) \<or> \<not> fits_int (need + 1) then None
            else if \<not> mem then Some (False, strbuff\<lparr>sb_size := new, sb_value := None\<rparr>)
            else strbuffer_copy data (strbuff\<lparr>sb_size := new, sb_value := Some (grown fresh new (sb_value strbuff))\<rparr>))
      else strbuffer_copy data strbuff)"

definition strbuffer_append :: "bool \<Rightarrow> (nat \<Rightarrow> byte) \<Rightarrow> byte list \<Rightarrow> strbuffer \<Rightarrow> (bool \<times> strbuffer) option" where
  "strbuffer_append mem fresh text strbuff = strbuffer_append_bytes mem fresh (takeWhile (\<lambda>b. b \<noteq> 0) text) strbuff"

definition strbuffer_append_byte :: "bool \<Rightarrow> (nat \<Rightarrow> byte) \<Rightarrow> byte \<Rightarrow> strbuffer \<Rightarrow> (bool \<times> strbuffer) option" where
  "strbuffer_append_byte mem fresh b strbuff = strbuffer_append_bytes mem fresh [b] strbuff"

definition strbuffer_pop :: "strbuffer \<Rightarrow> (byte \<times> strbuffer) option" where
  "strbuffer_pop strbuff =
     (if 0 < sb_length strbuff
      then do {
        v \<leftarrow> sb_value strbuff;
        let n = sb_length strbuff - 1;
        if int (length v) \<le> n then None
        else do {
          strbuff' \<leftarrow> sb_store n 0 (strbuff\<lparr>sb_length := n\<rparr>);
          Some (v ! nat n, strbuff')
        }
      }
      else Some (0, strbuff))"

section \<open>What a buffer holds\<close>

definition sb_bytes :: "strbuffer \<Rightarrow> byte list" where
  "sb_bytes strbuff = (case sb_value strbuff of None \<Rightarrow> [] | Some v \<Rightarrow> take (nat (sb_length strbuff)) v)"

text \<open>The memory has the size, holds the bytes and their terminator, and is never more than twice the longest text so far, \<open>peak\<close>.\<close>

definition sb_ok :: "int \<Rightarrow> strbuffer \<Rightarrow> bool" where
  "sb_ok peak strbuff \<longleftrightarrow>
     (case sb_value strbuff of None \<Rightarrow> False | Some v \<Rightarrow> int (length v) = sb_size strbuff \<and> v ! nat (sb_length strbuff) = 0)
     \<and> 0 \<le> sb_length strbuff \<and> sb_length strbuff < sb_size strbuff \<and> sb_length strbuff \<le> peak
     \<and> strbuffer_min_size \<le> sb_size strbuff \<and> sb_size strbuff \<le> max strbuffer_min_size (2 * peak)"

lemma sb_okE:
  assumes "sb_ok peak strbuff"
  obtains v where "sb_value strbuff = Some v" "int (length v) = sb_size strbuff" "v ! nat (sb_length strbuff) = 0"
    "0 \<le> sb_length strbuff" "sb_length strbuff < sb_size strbuff" "sb_length strbuff \<le> peak" "16 \<le> sb_size strbuff"
    "sb_size strbuff \<le> max 16 (2 * peak)"
  using assms by (auto simp: sb_ok_def strbuffer_min_size_def split: option.splits)

lemma length_sb_bytes: "sb_ok peak strbuff \<Longrightarrow> int (length (sb_bytes strbuff)) = sb_length strbuff"
  by (auto simp: sb_bytes_def elim!: sb_okE)

lemma strbuffer_init_ok: "\<exists>strbuff. strbuffer_init True fresh = Some (True, strbuff) \<and> sb_ok 0 strbuff \<and> sb_bytes strbuff = []"
  by (auto simp: strbuffer_init_def sb_store_def strbuffer_min_size_def sb_ok_def sb_bytes_def)

lemma strbuffer_clear_ok:
  assumes "sb_ok peak strbuff"
  shows "\<exists>strbuff'. strbuffer_clear strbuff = Some strbuff' \<and> sb_ok peak strbuff' \<and> sb_bytes strbuff' = []"
proof -
  from assms obtain v where v: "sb_value strbuff = Some v" "int (length v) = sb_size strbuff" "0 \<le> sb_length strbuff"
    "sb_length strbuff \<le> peak" "16 \<le> sb_size strbuff" "sb_size strbuff \<le> max 16 (2 * peak)"
    by (rule sb_okE)
  then have "v \<noteq> []" by auto
  then show ?thesis
    using v by (auto simp: strbuffer_clear_def sb_store_def sb_ok_def sb_bytes_def strbuffer_min_size_def)
qed

lemma strbuffer_pop_ok:
  assumes "sb_ok peak strbuff" "sb_bytes strbuff = bs @ [b]"
  shows "\<exists>strbuff'. strbuffer_pop strbuff = Some (b, strbuff') \<and> sb_ok peak strbuff' \<and> sb_bytes strbuff' = bs"
proof -
  from assms(1) obtain v where v: "sb_value strbuff = Some v" "int (length v) = sb_size strbuff" "0 \<le> sb_length strbuff"
    "sb_length strbuff < sb_size strbuff" "sb_length strbuff \<le> peak" "16 \<le> sb_size strbuff" "sb_size strbuff \<le> max 16 (2 * peak)"
    by (rule sb_okE)
  define k where "k = length bs"
  have n: "sb_length strbuff = int k + 1" using length_sb_bytes [OF assms(1)] assms(2) by (simp add: k_def)
  have t: "take (k + 1) v = bs @ [b]" using assms(2) v(1) n by (simp add: sb_bytes_def nat_add_distrib)
  have k: "k < length v" using v(2,4) n by linarith
  have b: "v ! k = b" using t k by (metis k_def Suc_eq_plus1 lessI nth_append_length nth_take)
  have bs: "take k v = bs" using t by (metis k_def append_eq_conv_conj min.absorb1 le_add1 take_take)
  show ?thesis
    using v n k b bs by (auto simp: strbuffer_pop_def sb_store_def sb_ok_def sb_bytes_def strbuffer_min_size_def Let_def)
qed

lemma strbuffer_copy_ok:
  assumes "sb_value strbuff = Some v" "int (length v) = sb_size strbuff" "0 \<le> sb_length strbuff"
    "sb_length strbuff + int (length data) < sb_size strbuff" "sb_length strbuff + int (length data) \<le> peak" "16 \<le> sb_size strbuff"
    "sb_size strbuff \<le> max 16 (2 * peak)"
  shows "\<exists>strbuff'. strbuffer_copy data strbuff = Some (True, strbuff') \<and> sb_ok peak strbuff'
    \<and> sb_bytes strbuff' = take (nat (sb_length strbuff)) v @ data \<and> sb_size strbuff' = sb_size strbuff"
proof -
  define k where "k = nat (sb_length strbuff)"
  have k: "sb_length strbuff = int k" using assms(3) by (simp add: k_def)
  have l: "k + length data < length v" using assms(2,4) k by linarith
  have m: "length (memcpy_at v k data) = length v" using l by (simp add: length_memcpy_at)
  have n: "nat (int k + int (length data)) = k + length data" by simp
  have t: "take (k + length data) (memcpy_at v k data) = take k v @ data" using l by (simp add: memcpy_at_def)
  show ?thesis
    using assms k l m n t by (auto simp: strbuffer_copy_def sb_store_def sb_ok_def sb_bytes_def strbuffer_min_size_def)
qed

lemma grown_take: "n \<le> length xs \<Longrightarrow> int (length xs) \<le> m \<Longrightarrow> take n (grown fresh m (Some xs)) = take n xs"
  by (simp add: grown_def)

lemma length_grown: "int (length xs) \<le> m \<Longrightarrow> int (length (grown fresh m (Some xs))) = m"
  by (simp add: grown_def)

lemma strbuffer_append_ok:
  assumes "sb_ok peak strbuff" "sb_length strbuff + int (length data) < 2 ^ 30" "peak < 2 ^ 30"
  shows "\<exists>strbuff'. strbuffer_append_bytes True fresh data strbuff = Some (True, strbuff')
    \<and> sb_ok (max peak (sb_length strbuff + int (length data))) strbuff' \<and> sb_bytes strbuff' = sb_bytes strbuff @ data"
proof -
  from assms(1) obtain v where v: "sb_value strbuff = Some v" "int (length v) = sb_size strbuff" "0 \<le> sb_length strbuff"
    "sb_length strbuff < sb_size strbuff" "sb_length strbuff \<le> peak" "16 \<le> sb_size strbuff" "sb_size strbuff \<le> max 16 (2 * peak)"
    by (rule sb_okE)
  define need where "need = sb_length strbuff + int (length data)"
  have fits: "fits_int (int (length data))" "fits_int need" "fits_int (need + 1)"
    using v(3) assms(2) by (simp_all add: fits_int_def need_def)
  have bytes: "sb_bytes strbuff = take (nat (sb_length strbuff)) v" using v(1) by (simp add: sb_bytes_def)
  show ?thesis
  proof (cases "sb_size strbuff \<le> need")
    case True
    define new where "new = max (sb_size strbuff * 2) (need + 1)"
    define grow where "grow = strbuff\<lparr>sb_size := new, sb_value := Some (grown fresh new (sb_value strbuff))\<rparr>"
    have new: "sb_size strbuff \<le> new" "need < new" "16 \<le> new" "new \<le> 2 * need" using True v(6) by (auto simp: new_def)
    have "fits_int (sb_size strbuff * 2)" using True assms(2) v(6) by (simp add: fits_int_def need_def)
    then have eq: "strbuffer_append_bytes True fresh data strbuff = strbuffer_copy data grow"
      using True fits by (simp add: strbuffer_append_bytes_def Let_def strbuffer_factor_def grow_def new_def flip: need_def)
    have "\<exists>strbuff'. strbuffer_copy data grow = Some (True, strbuff') \<and> sb_ok (max peak need) strbuff'
      \<and> sb_bytes strbuff' = take (nat (sb_length grow)) (grown fresh new (Some v)) @ data \<and> sb_size strbuff' = sb_size grow"
      using v new length_grown [of v new fresh] by (intro strbuffer_copy_ok) (auto simp: grow_def simp flip: need_def)
    moreover have "take (nat (sb_length grow)) (grown fresh new (Some v)) = take (nat (sb_length strbuff)) v"
      using v new by (simp add: grow_def grown_take)
    ultimately show ?thesis unfolding eq bytes need_def [symmetric] by auto
  next
    case False
    then have "strbuffer_append_bytes True fresh data strbuff = strbuffer_copy data strbuff"
      using fits by (simp add: strbuffer_append_bytes_def Let_def flip: need_def)
    moreover have "\<exists>strbuff'. strbuffer_copy data strbuff = Some (True, strbuff') \<and> sb_ok (max peak need) strbuff'
      \<and> sb_bytes strbuff' = take (nat (sb_length strbuff)) v @ data \<and> sb_size strbuff' = sb_size strbuff"
    proof (rule strbuffer_copy_ok [OF v(1,2,3) _ _ v(6)])
      show "sb_size strbuff \<le> max 16 (2 * max peak need)" using v(7) by linarith
    qed (use False need_def in auto)
    ultimately show ?thesis unfolding bytes need_def [symmetric] by auto
  qed
qed

section \<open>Sequences of operations\<close>

datatype sb_op = Append "byte list" | Append_byte byte | Pop | Clear

definition sb_step :: "(nat \<Rightarrow> byte) \<Rightarrow> sb_op \<Rightarrow> strbuffer \<Rightarrow> strbuffer option" where
  "sb_step fresh op strbuff =
     (case op of
        Append data \<Rightarrow> map_option snd (strbuffer_append_bytes True fresh data strbuff)
      | Append_byte b \<Rightarrow> map_option snd (strbuffer_append_byte True fresh b strbuff)
      | Pop \<Rightarrow> map_option snd (strbuffer_pop strbuff)
      | Clear \<Rightarrow> strbuffer_clear strbuff)"

fun sb_run :: "(nat \<Rightarrow> byte) \<Rightarrow> sb_op list \<Rightarrow> strbuffer \<Rightarrow> strbuffer option" where
  "sb_run fresh [] strbuff = Some strbuff"
| "sb_run fresh (op # ops) strbuff = do { strbuff \<leftarrow> sb_step fresh op strbuff; sb_run fresh ops strbuff }"

text \<open>The same on the bytes, with the length of the longest text so far.\<close>

definition bytes_step :: "sb_op \<Rightarrow> byte list \<Rightarrow> byte list" where
  "bytes_step op bs = (case op of Append data \<Rightarrow> bs @ data | Append_byte b \<Rightarrow> bs @ [b] | Pop \<Rightarrow> butlast bs | Clear \<Rightarrow> [])"

fun bytes_run :: "sb_op list \<Rightarrow> byte list \<times> int \<Rightarrow> byte list \<times> int" where
  "bytes_run [] (bs, peak) = (bs, peak)"
| "bytes_run (op # ops) (bs, peak) = bytes_run ops (bytes_step op bs, max peak (int (length (bytes_step op bs))))"

lemma bytes_run_peak: "peak \<le> snd (bytes_run ops (bs, peak))"
proof (induction ops arbitrary: bs peak)
  case (Cons op ops)
  show ?case using Cons [of "max peak (int (length (bytes_step op bs)))" "bytes_step op bs"] by simp
qed simp

lemma sb_ok_mono: "sb_ok peak strbuff \<Longrightarrow> peak \<le> peak' \<Longrightarrow> sb_ok peak' strbuff"
  by (auto simp: sb_ok_def)

lemma sb_step_ok:
  assumes "sb_ok peak strbuff" "max peak (int (length (bytes_step op (sb_bytes strbuff)))) < 2 ^ 30"
  shows "\<exists>strbuff'. sb_step fresh op strbuff = Some strbuff'
    \<and> sb_ok (max peak (int (length (bytes_step op (sb_bytes strbuff))))) strbuff' \<and> sb_bytes strbuff' = bytes_step op (sb_bytes strbuff)"
proof -
  note len = length_sb_bytes [OF assms(1)]
  have app: "\<exists>strbuff'. map_option snd (strbuffer_append_bytes True fresh data strbuff) = Some strbuff'
      \<and> sb_ok (max peak (int (length (sb_bytes strbuff @ data)))) strbuff' \<and> sb_bytes strbuff' = sb_bytes strbuff @ data"
    if "max peak (int (length (sb_bytes strbuff @ data))) < 2 ^ 30" for data
    using strbuffer_append_ok [OF assms(1), of data fresh] that len by auto
  show ?thesis
  proof (cases op)
    case (Append data)
    then show ?thesis using app [of data] assms(2) by (simp add: sb_step_def bytes_step_def)
  next
    case (Append_byte b)
    then show ?thesis using app [of "[b]"] assms(2) by (simp add: sb_step_def bytes_step_def strbuffer_append_byte_def)
  next
    case Pop
    show ?thesis
    proof (cases "sb_bytes strbuff" rule: rev_cases)
      case Nil
      then have "strbuffer_pop strbuff = Some (0, strbuff)" using len by (simp add: strbuffer_pop_def)
      then show ?thesis using Pop Nil assms(1) by (auto simp: sb_step_def bytes_step_def intro!: sb_ok_mono [OF _ max.cobounded1])
    next
      case (snoc bs b)
      then show ?thesis using Pop strbuffer_pop_ok [OF assms(1) snoc]
        by (auto simp: sb_step_def bytes_step_def intro!: sb_ok_mono [OF _ max.cobounded1])
    qed
  next
    case Clear
    then show ?thesis using strbuffer_clear_ok [OF assms(1)] by (auto simp: sb_step_def bytes_step_def intro!: sb_ok_mono [OF _ max.cobounded1])
  qed
qed

lemma sb_run_ok:
  "sb_ok peak strbuff \<Longrightarrow> bytes_run ops (sb_bytes strbuff, peak) = (bs, peak') \<Longrightarrow> peak' < 2 ^ 30 \<Longrightarrow>
    \<exists>strbuff'. sb_run fresh ops strbuff = Some strbuff' \<and> sb_ok peak' strbuff' \<and> sb_bytes strbuff' = bs"
proof (induction ops arbitrary: strbuff peak)
  case (Cons op ops)
  define p where "p = max peak (int (length (bytes_step op (sb_bytes strbuff))))"
  have "p \<le> peak'" using Cons.prems(2) bytes_run_peak [of p ops "bytes_step op (sb_bytes strbuff)"] by (simp add: p_def)
  then have "p < 2 ^ 30" using Cons.prems(3) by simp
  then obtain s where s: "sb_step fresh op strbuff = Some s" "sb_ok p s" "sb_bytes s = bytes_step op (sb_bytes strbuff)"
    using sb_step_ok [OF Cons.prems(1), of op fresh] unfolding p_def by blast
  then show ?case using Cons.IH [of p s] Cons.prems(2,3) by (simp add: p_def)
qed simp

text \<open>From its initialisation on, a buffer behaves like the list of its bytes under every sequence of appends, pops and clears,
  as long as memory can be had and no text reaches a gigabyte: nothing is undefined, the memory has the size the buffer records, the
  text is followed by a zero byte, and the memory is at most sixteen bytes or twice the longest text so far.\<close>

theorem strbuffer_refines_bytes:
  assumes "bytes_run ops ([], 0) = (bs, peak)" "peak < 2 ^ 30"
  shows "\<exists>start strbuff. strbuffer_init True fresh = Some (True, start) \<and> sb_run fresh ops start = Some strbuff
    \<and> sb_ok peak strbuff \<and> sb_bytes strbuff = bs"
  using strbuffer_init_ok [of fresh] sb_run_ok [OF _ _ assms(2), of 0] assms(1) by metis

lemma strbuffer_refines_bytes_witness:
  "\<exists>start strbuff. strbuffer_init True (\<lambda>i. 0xAA) = Some (True, start)
    \<and> sb_run (\<lambda>i. 0xAA) [Append (replicate 20 7), Pop, Append_byte 9, Pop, Pop] start = Some strbuff
    \<and> sb_ok 20 strbuff \<and> sb_bytes strbuff = replicate 18 7"
proof -
  have "bytes_run [Append (replicate 20 7), Pop, Append_byte 9, Pop, Pop] ([], 0) = (replicate 18 7, 20)" by code_simp
  from strbuffer_refines_bytes [OF this, of "\<lambda>i. 0xAA"] show ?thesis by simp
qed

lemma failed_append:
  assumes "sb_ok peak strbuff" "sb_size strbuff \<le> sb_length strbuff + int (length data)" "sb_length strbuff + int (length data) < 2 ^ 30"
  shows "\<exists>broken. strbuffer_append_bytes False fresh data strbuff = Some (False, broken)
    \<and> (\<forall>mem fresh b. strbuffer_append_byte mem fresh b broken = None) \<and> strbuffer_clear broken = None \<and> sb_value broken = None"
proof -
  from assms(1) obtain v where v: "sb_value strbuff = Some v" "0 \<le> sb_length strbuff"
    "sb_length strbuff < sb_size strbuff" "16 \<le> sb_size strbuff"
    by (rule sb_okE)
  define need where "need = sb_length strbuff + int (length data)"
  define new where "new = max (sb_size strbuff * 2) (need + 1)"
  define broken where "broken = strbuff\<lparr>sb_size := new, sb_value := None\<rparr>"
  have "fits_int (int (length data))" "fits_int need" "fits_int (need + 1)" "fits_int (sb_size strbuff * 2)"
    using v assms(2,3) by (simp_all add: fits_int_def need_def)
  then have "strbuffer_append_bytes False fresh data strbuff = Some (False, broken)"
    using assms(2) by (simp add: strbuffer_append_bytes_def Let_def strbuffer_factor_def broken_def new_def flip: need_def)
  moreover have "strbuffer_append_byte mem f b broken = None" for mem f b
  proof -
    have "\<not> sb_size broken \<le> sb_length broken + 1" using v by (simp add: broken_def new_def)
    then show ?thesis by (simp add: strbuffer_append_byte_def strbuffer_append_bytes_def Let_def strbuffer_copy_def broken_def)
  qed
  moreover have "strbuffer_clear broken = None" by (simp add: strbuffer_clear_def sb_store_def broken_def)
  ultimately show ?thesis by (auto simp: broken_def)
qed

text \<open>An append that cannot have its memory says so, but leaves a buffer with a null pointer that records the size it asked for:
  the next byte, or the next clearing, is stored through the null pointer. \<open>lex_save\<close> of the parser does not look at the
  result and goes on saving.\<close>

theorem strbuffer_failed_append:
  assumes "sb_ok peak strbuff" "sb_size strbuff \<le> sb_length strbuff + 1" "sb_length strbuff + 1 < 2 ^ 30"
  shows "\<exists>broken. strbuffer_append_byte False fresh b strbuff = Some (False, broken)
    \<and> (\<forall>mem fresh b. strbuffer_append_byte mem fresh b broken = None) \<and> strbuffer_clear broken = None"
  using failed_append [OF assms(1), of "[b]" fresh] assms(2,3) unfolding strbuffer_append_byte_def by auto

lemma strbuffer_failed_append_witness:
  "\<exists>broken. strbuffer_append_byte False (\<lambda>i. 0) 1 \<lparr>sb_value = Some (replicate 15 7 @ [0]), sb_length = 15, sb_size = 16\<rparr> = Some (False, broken)
    \<and> (\<forall>mem fresh b. strbuffer_append_byte mem fresh b broken = None) \<and> strbuffer_clear broken = None"
  by (rule strbuffer_failed_append [where peak = 15]) (simp_all add: sb_ok_def strbuffer_min_size_def nth_append)


end
