(* ===== verification/JsonLoad.thy ===== *)
theory JsonLoad
  imports CString Difficulty JsonValue
begin

text \<open>
  The parser of the bundled \<open>jansson\<close> (\<open>compat/jansson/load.c\<close>): the stream of characters, the lexer and the parser
  behind \<open>json_loads\<close>. A failed assertion is \<open>None\<close>. Messages and line numbers for them are left out, and allocations succeed. The state of
  \<open>errno\<close> on entry matters, so it is an argument.
\<close>

section \<open>The stream\<close>

text \<open>Characters and bytes.\<close>

definition str_bytes :: "string \<Rightarrow> byte list" where
  "str_bytes s = map of_char s"

definition text_of :: "byte list \<Rightarrow> string" where
  "text_of bs = map (\<lambda>b. char_of (unat b)) bs"

abbreviation EOF :: char where
  "EOF \<equiv> CHR 0xFF"

text \<open>The rest of the input, and the characters of \<open>buffer\<close> before its terminator.\<close>

record stream =
  st_data :: string
  st_buffer :: string
  st_pos :: nat

fun string_get :: "string \<Rightarrow> char \<times> string" where
  "string_get [] = (EOF, [])"
| "string_get (c # cs) = (c, cs)"

definition string_eof :: "stream \<Rightarrow> bool" where
  "string_eof stream \<longleftrightarrow> st_data stream = []"

fun string_gets :: "nat \<Rightarrow> string \<Rightarrow> string \<times> string" where
  "string_gets 0 data = ([], data)"
| "string_gets (Suc n) data =
     (let (c, data) = string_get data; (cs, data) = string_gets n data in (c # cs, data))"

definition stream_bad :: "string \<Rightarrow> char \<times> stream" where
  "stream_bad data = (EOF, \<lparr>st_data = data, st_buffer = [EOF], st_pos = 1\<rparr>)"

definition stream_get :: "stream \<Rightarrow> char \<times> stream" where
  "stream_get stream =
     (if st_pos stream < length (st_buffer stream)
      then (st_buffer stream ! st_pos stream, stream\<lparr>st_pos := st_pos stream + 1\<rparr>)
      else (let (c, data) = string_get (st_data stream)
            in if 0x80 \<le> (of_char c :: byte) \<and> c \<noteq> EOF
               then (let n = utf8_check_first (of_char c)
                     in if n = 0 then stream_bad data
                        else (let (cs, data) = string_gets (n - 1) data; buffer = c # cs
                              in if utf8_check_full (str_bytes buffer) n = None then stream_bad data
                                 else (c, \<lparr>st_data = data, st_buffer = buffer, st_pos = 1\<rparr>)))
               else (c, \<lparr>st_data = data, st_buffer = [c], st_pos = 1\<rparr>)))"

definition stream_unget :: "char \<Rightarrow> stream \<Rightarrow> stream option" where
  "stream_unget c stream =
     (if 0 < st_pos stream \<and> st_buffer stream ! (st_pos stream - 1) = c then Some (stream\<lparr>st_pos := st_pos stream - 1\<rparr>) else None)"

section \<open>The lexer\<close>

text \<open>A token with its value; the single-character tokens are \<open>T_char\<close>.\<close>

datatype token = T_invalid | T_eof | T_char char | T_string string | T_integer int | T_real rat | T_true | T_false | T_null

record lexer =
  lx_stream :: stream
  lx_saved :: string
  lx_token :: token
  lx_erange :: bool

definition lex_get :: "lexer \<Rightarrow> char \<times> lexer" where
  "lex_get lexer = (let (c, stream) = stream_get (lx_stream lexer) in (c, lexer\<lparr>lx_stream := stream\<rparr>))"

definition lex_save :: "char \<Rightarrow> lexer \<Rightarrow> lexer" where
  "lex_save c lexer = lexer\<lparr>lx_saved := lx_saved lexer @ [c]\<rparr>"

definition lex_get_save :: "lexer \<Rightarrow> char \<times> lexer" where
  "lex_get_save lexer = (let (c, lexer) = lex_get lexer in (c, lex_save c lexer))"

definition lex_unget_unsave :: "char \<Rightarrow> lexer \<Rightarrow> lexer option" where
  "lex_unget_unsave c lexer = do {
     stream \<leftarrow> stream_unget c (lx_stream lexer);
     if lx_saved lexer \<noteq> [] \<and> last (lx_saved lexer) = c
     then Some (lexer\<lparr>lx_stream := stream, lx_saved := butlast (lx_saved lexer)\<rparr>) else None
   }"

definition lex_save_cached :: "lexer \<Rightarrow> lexer" where
  "lex_save_cached lexer =
     (let stream = lx_stream lexer
      in lexer\<lparr>lx_saved := lx_saved lexer @ drop (st_pos stream) (st_buffer stream),
             lx_stream := stream\<lparr>st_pos := max (st_pos stream) (length (st_buffer stream))\<rparr>\<rparr>)"

text \<open>The characters left to the lexer.\<close>

definition stream_left :: "stream \<Rightarrow> nat" where
  "stream_left stream = length (st_buffer stream) - st_pos stream + length (st_data stream)"

definition lex_left :: "lexer \<Rightarrow> nat" where
  "lex_left lexer = stream_left (lx_stream lexer)"

lemma string_get_length: "string_get data = (c, data') \<Longrightarrow> length data' \<le> length data - 1 \<and> (data = [] \<longrightarrow> c = EOF)"
  by (cases data) auto

lemma string_gets_length: "string_gets n data = (cs, data') \<Longrightarrow> length cs = n \<and> length data' \<le> length data"
proof (induction n arbitrary: data cs data')
  case (Suc n)
  obtain c0 d0 where g: "string_get data = (c0, d0)" by fastforce
  obtain cs1 d1 where gs: "string_gets n d0 = (cs1, d1)" by fastforce
  have "cs = c0 # cs1" "data' = d1" using Suc.prems g gs by auto
  then show ?case using Suc.IH [OF gs] string_get_length [OF g] by (cases data) auto
qed simp

lemma string_gets_step:
  "string_gets n data = (cs, data') \<Longrightarrow> length data' + n = length data \<or> length data < n \<and> last cs = EOF \<and> cs \<noteq> []"
proof (induction n arbitrary: data cs data')
  case (Suc n)
  obtain c0 d0 where g: "string_get data = (c0, d0)" by fastforce
  obtain cs1 d1 where gs: "string_gets n d0 = (cs1, d1)" by fastforce
  have r: "cs = c0 # cs1" "data' = d1" using Suc.prems g gs by auto
  show ?case using Suc.IH [OF gs] string_gets_length [OF gs] g r by (cases data; cases n) auto
qed simp

lemma continue_bytes: "utf8_continue v n bs = Some w \<Longrightarrow> n \<le> length bs \<and> (\<forall>b \<in> set (take n bs). b \<le> 0xBF)"
proof (induction v n bs rule: utf8_continue.induct)
  case (3 v n u bs)
  then have u: "\<not> (u < 0x80 \<or> u > 0xBF)" "utf8_continue (push_bit 6 v + uint (u AND 0x3F)) n bs = Some w"
    unfolding utf8_continue.simps(3) by (metis option.distinct(1))+
  then show ?case using "3.IH" by (simp add: not_less)
qed auto

lemma check_full_bytes: "utf8_check_full (b # bs) n = Some v \<Longrightarrow> \<forall>b \<in> set (take (n - 1) bs). b \<le> 0xBF"
  using continue_bytes [of _ "n - 1" bs] by (auto simp: utf8_check_full_def Let_def split: option.splits if_splits)

text \<open>What is left shrinks with every character read, until the end.\<close>

lemma stream_get_left:
  assumes "stream_get stream = (c, stream')"
  shows "stream_left stream' < stream_left stream \<or> c = EOF \<and> stream_left stream' = 0"
proof (cases "st_pos stream < length (st_buffer stream)")
  case True
  then show ?thesis using assms by (auto simp: stream_get_def stream_left_def)
next
  case False
  obtain c0 d0 where g: "string_get (st_data stream) = (c0, d0)" by fastforce
  show ?thesis
  proof (cases "st_data stream")
    case Nil
    then show ?thesis using assms False by (auto simp: stream_get_def stream_left_def Let_def)
  next
    case (Cons a as)
    then have "c0 = a" "d0 = as" using g by auto
    let ?n = "utf8_check_first (of_char a)"
    obtain cs d1 where gs: "string_gets (?n - 1) as = (cs, d1)" by fastforce
    note l = string_gets_length [OF gs] string_gets_step [OF gs]
    show ?thesis
    proof (cases "0x80 \<le> (of_char a :: byte) \<and> a \<noteq> EOF \<and> ?n \<noteq> 0 \<and> utf8_check_full (str_bytes (a # cs)) ?n \<noteq> None")
      case True
      then have "\<forall>b \<in> set (take (?n - 1) (map of_char cs)). b \<le> (0xBF :: byte)" using check_full_bytes by (fastforce simp: str_bytes_def)
      then have b: "\<forall>c \<in> set cs. (of_char c :: byte) \<le> 0xBF" using l(1) by (auto simp: take_map)
      have "cs \<noteq> [] \<Longrightarrow> last cs \<noteq> EOF" using b last_in_set by fastforce
      then have "length d1 + (?n - 1) = length as" using l(2) by blast
      then show ?thesis
        using assms False Cons True gs l(1) by (auto simp: stream_get_def stream_left_def Let_def)
    next
      case bad: False
      then show ?thesis
        using assms False Cons gs l by (auto simp: stream_get_def stream_left_def Let_def stream_bad_def split: if_splits)
    qed
  qed
qed

lemma stream_get_unget:
  assumes "stream_get stream = (c, stream')"
  shows "stream_unget c stream' = Some (stream'\<lparr>st_pos := st_pos stream' - 1\<rparr>)"
  using assms
  by (auto simp: stream_get_def stream_unget_def stream_bad_def Let_def split: prod.splits if_splits)


definition left_measure :: "char \<Rightarrow> lexer \<Rightarrow> nat" where
  "left_measure c lexer = 2 * lex_left lexer + (if c = EOF then 0 else 1)"

lemma get_save_left:
  assumes "(c', lexer') = lex_get_save lexer"
  shows "lex_left lexer' < lex_left lexer \<or> c' = EOF \<and> lex_left lexer' = 0"
proof -
  obtain c1 s1 where g: "stream_get (lx_stream lexer) = (c1, s1)" by fastforce
  then have "c' = c1" "lex_left lexer' = stream_left s1"
    using assms by (auto simp: lex_get_save_def lex_get_def lex_save_def lex_left_def)
  then show ?thesis using stream_get_left [OF g] by (simp add: lex_left_def)
qed

lemma get_save_less [simp]: "(c', lexer') = lex_get_save lexer \<Longrightarrow> c \<noteq> EOF \<Longrightarrow> left_measure c' lexer' < left_measure c lexer"
  using get_save_left [of c' lexer' lexer] by (auto simp: left_measure_def)

lemma get_save_le: "(c', lexer') = lex_get_save lexer \<Longrightarrow> lex_left lexer' \<le> lex_left lexer"
  using get_save_left [of c' lexer' lexer] by auto

section \<open>Strings\<close>

definition is_xdigit :: "char \<Rightarrow> bool" where
  "is_xdigit c \<longleftrightarrow> is_digit c \<or> (let n = (of_char c :: nat) in 65 \<le> n \<and> n \<le> 70 \<or> 97 \<le> n \<and> n \<le> 102)"

definition is_letter :: "char \<Rightarrow> bool" where
  "is_letter c \<longleftrightarrow> (let n = (of_char c :: nat) in 65 \<le> n \<and> n \<le> 90 \<or> 97 \<le> n \<and> n \<le> 122)"

text \<open>
  The four digits behind \<open>\\u\<close>, each of which is read before it is looked at: whether they are digits, and the character
  behind them.
\<close>

fun scan_xdigits :: "nat \<Rightarrow> char \<Rightarrow> lexer \<Rightarrow> (bool \<times> char \<times> lexer) option" where
  "scan_xdigits 0 c lexer = Some (True, c, lexer)"
| "scan_xdigits (Suc n) c lexer =
     (if is_xdigit c then (let (c, lexer) = lex_get_save lexer in scan_xdigits n c lexer)
      else map_option (\<lambda>lexer. (False, c, lexer)) (lex_unget_unsave c lexer))"

lemma eof_no_digit: "is_digit c \<Longrightarrow> c \<noteq> EOF" "is_xdigit c \<Longrightarrow> c \<noteq> EOF" "is_letter c \<Longrightarrow> c \<noteq> EOF"
  by (auto simp: is_digit_def is_xdigit_def is_letter_def)

lemma scan_xdigits_left:
  "scan_xdigits n c lexer = Some (True, c', lexer') \<Longrightarrow> left_measure c' lexer' \<le> left_measure c lexer"
proof (induction n arbitrary: c lexer)
  case (Suc n)
  obtain c1 l1 where g: "lex_get_save lexer = (c1, l1)" by fastforce
  have x: "is_xdigit c" using Suc.prems by (auto split: if_splits)
  then show ?case using Suc g get_save_less [OF g [symmetric] eof_no_digit(2) [OF x]] by fastforce
qed simp

text \<open>The characters up to the closing quote, with escapes; the result is whether it was found.\<close>

function scan_string :: "char \<Rightarrow> lexer \<Rightarrow> (bool \<times> lexer) option" where
  "scan_string c lexer =
     (if c = CHR 0x22 then Some (True, lexer)
      else if c = EOF then map_option (Pair False) (lex_unget_unsave c lexer)
      else if (of_char c :: nat) \<le> 0x1F then map_option (Pair False) (lex_unget_unsave c lexer)
      else if c = CHR 0x5C
      then (let (c, lexer) = lex_get_save lexer
            in if c = CHR ''u''
               then (let (c, lexer) = lex_get_save lexer
                     in case scan_xdigits 4 c lexer of
                          None \<Rightarrow> None
                        | Some (ok, c, lexer) \<Rightarrow> if ok then scan_string c lexer else Some (False, lexer))
               else if c \<in> set [CHR 0x22, CHR 0x5C, CHR ''/'', CHR ''b'', CHR ''f'', CHR ''n'', CHR ''r'', CHR ''t'']
               then (let (c, lexer) = lex_get_save lexer in scan_string c lexer)
               else map_option (Pair False) (lex_unget_unsave c lexer))
      else (let (c, lexer) = lex_get_save lexer in scan_string c lexer))"
  by pat_completeness auto
termination
proof (relation "measure (\<lambda>(c, lexer). left_measure c lexer)")
  fix c lexer x c1 l1 y c2 l2 ok z c3 l3 a b
  assume "c \<noteq> EOF" "x = lex_get_save lexer" "(c1, l1) = x" "c1 = CHR ''u''" "y = lex_get_save l1" "(c2, l2) = y"
    and x: "scan_xdigits 4 c2 l2 = Some a" "(ok, b) = a" "(c3, l3) = b" ok
  then have "left_measure c1 l1 < left_measure c lexer" "left_measure c2 l2 < left_measure c1 l1" by (auto intro: get_save_less)
  moreover have "left_measure c3 l3 \<le> left_measure c2 l2" using x scan_xdigits_left [of 4 c2 l2 c3 l3] by auto
  ultimately show "((c3, l3), c, lexer) \<in> measure (\<lambda>(c, lexer). left_measure c lexer)" by simp
next
  fix c lexer x c1 l1 y c2 l2
  assume "c \<noteq> EOF" "x = lex_get_save lexer" "(c1, l1) = x" "c1 \<noteq> CHR ''u''"
    and c1: "c1 \<in> set [CHR 0x22, CHR 0x5C, CHR ''/'', CHR ''b'', CHR ''f'', CHR ''n'', CHR ''r'', CHR ''t'']"
    and y: "y = lex_get_save l1" "(c2, l2) = y"
  then have "left_measure c1 l1 < left_measure c lexer" by (auto intro: get_save_less)
  moreover have "c1 \<noteq> EOF" using c1 by auto
  then have "left_measure c2 l2 < left_measure c1 l1" using y by (auto intro: get_save_less)
  ultimately show "((c2, l2), c, lexer) \<in> measure (\<lambda>(c, lexer). left_measure c lexer)" by simp
next
  fix c lexer x c1 l1
  assume "c \<noteq> EOF" "x = lex_get_save lexer" "(c1, l1) = x"
  then have "left_measure c1 l1 < left_measure c lexer" by (intro get_save_less) simp_all
  then show "((c1, l1), c, lexer) \<in> measure (\<lambda>(c, lexer). left_measure c lexer)" by simp
qed auto

declare scan_string.simps [simp del]

text \<open>The value of four hexadecimal digits; \<open>None\<close> when they are not.\<close>

definition decode_unicode_escape :: "string \<Rightarrow> int option" where
  "decode_unicode_escape str =
     (if str \<noteq> [] \<and> hd str = CHR ''u'' \<and> 5 \<le> length str \<and> list_all is_xdigit (take 4 (tl str))
      then Some (foldl (\<lambda>v c. 16 * v + (let n = of_char c in if is_digit c then n - 48 else if 97 \<le> n then n - 97 + 10 else n - 65 + 10))
                   0 (take 4 (tl str)))
      else None)"

definition escape_char :: "char \<Rightarrow> char option" where
  "escape_char c =
     (if c = CHR 0x22 \<or> c = CHR 0x5C \<or> c = CHR ''/'' then Some c
      else if c = CHR ''b'' then Some (CHR 0x08)
      else if c = CHR ''f'' then Some (CHR 0x0C)
      else if c = CHR ''n'' then Some (CHR 0x0A)
      else if c = CHR ''r'' then Some (CHR 0x0D)
      else if c = CHR ''t'' then Some (CHR 0x09)
      else None)"

text \<open>
  The code point of an escape behind its backslash, and the text behind it. The inner option is an escape that is not allowed: half
  of a surrogate pair, or zero.
\<close>

definition unicode_escape :: "string \<Rightarrow> (int \<times> string) option option" where
  "unicode_escape p = do {
     v \<leftarrow> decode_unicode_escape p;
     let p = drop 5 p;
     if 0xD800 \<le> v \<and> v \<le> 0xDBFF
     then if 2 \<le> length p \<and> p ! 0 = CHR 0x5C \<and> p ! 1 = CHR ''u''
          then do {
            v2 \<leftarrow> decode_unicode_escape (tl p);
            Some (if 0xDC00 \<le> v2 \<and> v2 \<le> 0xDFFF
                  then Some (push_bit 10 (v - 0xD800) + (v2 - 0xDC00) + 0x10000, drop 6 p) else None)
          }
          else Some None
     else if 0xDC00 \<le> v \<and> v \<le> 0xDFFF then Some None
     else if v = 0 then Some None
     else Some (Some (v, p))
   }"

lemma unicode_escape_shorter: "unicode_escape p = Some (Some (v, p')) \<Longrightarrow> length p' < length p"
  by (auto simp: unicode_escape_def decode_unicode_escape_def Let_def split: bind_splits if_splits)

text \<open>The text of a string token up to its closing quote; the inner option is an escape that is not allowed.\<close>

function decode_string :: "string \<Rightarrow> string option option" where
  "decode_string [] = None"
| "decode_string (c # p) =
     (if c = CHR 0x22 then Some (Some [])
      else if c = CHR 0x5C
      then if p \<noteq> [] \<and> hd p = CHR ''u''
           then (case unicode_escape p of
                   None \<Rightarrow> None
                 | Some None \<Rightarrow> Some None
                 | Some (Some (v, p')) \<Rightarrow>
                     (case utf8_encode v of
                        None \<Rightarrow> None
                      | Some bs \<Rightarrow> map_option (map_option ((@) (text_of bs))) (decode_string p')))
           else (case p of
                   [] \<Rightarrow> None
                 | d # p' \<Rightarrow> (case escape_char d of
                               None \<Rightarrow> None
                             | Some e \<Rightarrow> map_option (map_option ((#) e)) (decode_string p')))
      else map_option (map_option ((#) c)) (decode_string p))"
  by pat_completeness auto
termination by (relation "measure length") (auto dest: unicode_escape_shorter)

declare decode_string.simps(2) [simp del]

definition lex_scan_string :: "lexer \<Rightarrow> lexer option" where
  "lex_scan_string lexer =
     (let (c, lexer) = lex_get_save (lexer\<lparr>lx_token := T_invalid\<rparr>)
      in case scan_string c lexer of
           None \<Rightarrow> None
         | Some (found, lexer) \<Rightarrow>
             if \<not> found then Some lexer
             else (case decode_string (tl (lx_saved lexer)) of
                     None \<Rightarrow> None
                   | Some None \<Rightarrow> Some lexer
                   | Some (Some str) \<Rightarrow> Some (lexer\<lparr>lx_token := T_string str\<rparr>)))"


section \<open>Numbers\<close>

function scan_digits :: "char \<Rightarrow> lexer \<Rightarrow> char \<times> lexer" where
  "scan_digits c lexer = (if is_digit c then (let (c, lexer) = lex_get_save lexer in scan_digits c lexer) else (c, lexer))"
  by pat_completeness auto
termination
proof (relation "measure (\<lambda>(c, lexer). left_measure c lexer)")
  fix c lexer x c1 l1
  assume "is_digit c" "x = lex_get_save lexer" "(c1, l1) = x"
  then have "left_measure c1 l1 < left_measure c lexer" using eof_no_digit(1) by (intro get_save_less) simp_all
  then show "((c1, l1), c, lexer) \<in> measure (\<lambda>(c, lexer). left_measure c lexer)" by simp
qed auto

declare scan_digits.simps [simp del]

text \<open>
  The numbers \<open>strtol\<close> and \<open>strtod\<close> read from a text they read to its end. \<open>strtod\<close> gives the nearest \<open>double\<close>, and says that
  the number is out of range when it is too large, or when digits are lost because it is too small.
\<close>

definition int_text :: "string \<Rightarrow> int option" where
  "int_text s =
     (let (neg, ds) = (if s \<noteq> [] \<and> hd s = CHR ''-'' then (True, tl s) else (False, s))
      in if ds \<noteq> [] \<and> list_all is_digit ds then Some (if neg then - decimal ds else decimal ds) else None)"

definition exponent_text :: "string \<Rightarrow> int option" where
  "exponent_text s =
     (if s = [] then Some 0
      else if hd s = CHR ''e'' \<or> hd s = CHR ''E''
      then int_text (if tl s \<noteq> [] \<and> hd (tl s) = CHR ''+'' then tl (tl s) else tl s)
      else None)"

definition real_text :: "string \<Rightarrow> rat option" where
  "real_text s =
     (let (neg, s) = (if s \<noteq> [] \<and> hd s = CHR ''-'' then (True, tl s) else (False, s));
          whole = takeWhile is_digit s; s = dropWhile is_digit s;
          (part, s) = (if s \<noteq> [] \<and> hd s = CHR ''.'' then (takeWhile is_digit (tl s), dropWhile is_digit (tl s)) else ([], s))
      in if whole = [] then None
         else map_option (\<lambda>e. (if neg then - 1 else 1) * of_int (decimal (whole @ part)) * 10 powi (e - int (length part)))
                (exponent_text s))"

definition strtod :: "rat \<Rightarrow> rat \<times> bool" where
  "strtod x =
     (if x = 0 then (0, False)
      else if \<bar>x\<bar> < 2 powi (- 1022)
      then (let r = of_int (round_even (\<bar>x\<bar> / 2 powi (- 1074))) * 2 powi (- 1074) in (sgn x * r, r \<noteq> \<bar>x\<bar>))
      else (let r = dbl x in if 2 powi 1024 \<le> \<bar>r\<bar> then (sgn x * 2 powi 1024, True) else (r, False)))"

definition scan_integer :: "char \<Rightarrow> lexer \<Rightarrow> lexer option" where
  "scan_integer c lexer = do {
     lexer \<leftarrow> lex_unget_unsave c lexer;
     v \<leftarrow> int_text (lx_saved lexer);
     let lexer = lexer\<lparr>lx_erange := lx_erange lexer \<or> v < - (2 ^ 63) \<or> 2 ^ 63 - 1 < v\<rparr>;
     Some (if v < - (2 ^ 31) \<or> 2 ^ 31 - 1 < v then lexer else lexer\<lparr>lx_token := T_integer v\<rparr>)
   }"

definition scan_real :: "char \<Rightarrow> lexer \<Rightarrow> lexer option" where
  "scan_real c lexer = do {
     lexer \<leftarrow> lex_unget_unsave c lexer;
     x \<leftarrow> real_text (lx_saved lexer);
     let (v, range) = strtod x;
     let lexer = lexer\<lparr>lx_erange := lx_erange lexer \<or> range\<rparr>;
     Some (if lx_erange lexer \<and> v \<noteq> 0 then lexer else lexer\<lparr>lx_token := T_real v\<rparr>)
   }"

definition scan_exponent :: "char \<Rightarrow> lexer \<Rightarrow> lexer option" where
  "scan_exponent c lexer =
     (if c = CHR ''E'' \<or> c = CHR ''e''
      then (let (c, lexer) = lex_get_save lexer;
                (c, lexer) = (if c = CHR ''+'' \<or> c = CHR ''-'' then lex_get_save lexer else (c, lexer))
            in if \<not> is_digit c then lex_unget_unsave c lexer
               else (let (c, lexer) = lex_get_save lexer; (c, lexer) = scan_digits c lexer in scan_real c lexer))
      else scan_real c lexer)"

definition scan_fraction :: "char \<Rightarrow> lexer \<Rightarrow> lexer option" where
  "scan_fraction c lexer =
     (if c = CHR ''.''
      then (let (c, lexer) = lex_get lexer
            in if \<not> is_digit c then Some lexer
               else (let lexer = lex_save c lexer; (c, lexer) = lex_get_save lexer; (c, lexer) = scan_digits c lexer
                     in scan_exponent c lexer))
      else scan_exponent c lexer)"

definition scan_after_digits :: "char \<Rightarrow> lexer \<Rightarrow> lexer option" where
  "scan_after_digits c lexer =
     (if c \<noteq> CHR ''.'' \<and> c \<noteq> CHR ''E'' \<and> c \<noteq> CHR ''e'' then scan_integer c lexer else scan_fraction c lexer)"

definition lex_scan_number :: "char \<Rightarrow> lexer \<Rightarrow> lexer option" where
  "lex_scan_number c lexer =
     (let lexer = lexer\<lparr>lx_token := T_invalid\<rparr>;
          (c, lexer) = (if c = CHR ''-'' then lex_get_save lexer else (c, lexer))
      in if c = CHR ''0''
         then (let (c, lexer) = lex_get_save lexer
               in if is_digit c then lex_unget_unsave c lexer else scan_after_digits c lexer)
         else if is_digit c
         then (let (c, lexer) = lex_get_save lexer; (c, lexer) = scan_digits c lexer in scan_after_digits c lexer)
         else lex_unget_unsave c lexer)"

section \<open>Tokens\<close>

definition is_blank :: "char \<Rightarrow> bool" where
  "is_blank c \<longleftrightarrow> c = CHR '' '' \<or> c = CHR 0x09 \<or> c = CHR 0x0A \<or> c = CHR 0x0D"

lemma get_left:
  assumes "(c', lexer') = lex_get lexer"
  shows "lex_left lexer' < lex_left lexer \<or> c' = EOF \<and> lex_left lexer' = 0"
proof -
  obtain c1 s1 where g: "stream_get (lx_stream lexer) = (c1, s1)" by fastforce
  then have "c' = c1" "lex_left lexer' = stream_left s1" using assms by (auto simp: lex_get_def lex_left_def)
  then show ?thesis using stream_get_left [OF g] by (simp add: lex_left_def)
qed

lemma get_less: "(c', lexer') = lex_get lexer \<Longrightarrow> c \<noteq> EOF \<Longrightarrow> left_measure c' lexer' < left_measure c lexer"
  using get_left [of c' lexer' lexer] by (auto simp: left_measure_def)

function skip_blanks :: "char \<Rightarrow> lexer \<Rightarrow> char \<times> lexer" where
  "skip_blanks c lexer = (if is_blank c then (let (c, lexer) = lex_get lexer in skip_blanks c lexer) else (c, lexer))"
  by pat_completeness auto
termination
proof (relation "measure (\<lambda>(c, lexer). left_measure c lexer)")
  fix c lexer x c1 l1
  assume "is_blank c" "x = lex_get lexer" "(c1, l1) = x"
  then have "left_measure c1 l1 < left_measure c lexer" by (intro get_less) (auto simp: is_blank_def)
  then show "((c1, l1), c, lexer) \<in> measure (\<lambda>(c, lexer). left_measure c lexer)" by simp
qed auto

declare skip_blanks.simps [simp del]

function scan_letters :: "char \<Rightarrow> lexer \<Rightarrow> char \<times> lexer" where
  "scan_letters c lexer = (if is_letter c then (let (c, lexer) = lex_get_save lexer in scan_letters c lexer) else (c, lexer))"
  by pat_completeness auto
termination
proof (relation "measure (\<lambda>(c, lexer). left_measure c lexer)")
  fix c lexer x c1 l1
  assume "is_letter c" "x = lex_get_save lexer" "(c1, l1) = x"
  then have "left_measure c1 l1 < left_measure c lexer" using eof_no_digit(3) by (intro get_save_less) simp_all
  then show "((c1, l1), c, lexer) \<in> measure (\<lambda>(c, lexer). left_measure c lexer)" by simp
qed auto

declare scan_letters.simps [simp del]

definition word_token :: "string \<Rightarrow> token" where
  "word_token s = (if s = ''true'' then T_true else if s = ''false'' then T_false else if s = ''null'' then T_null else T_invalid)"

definition lex_scan :: "lexer \<Rightarrow> lexer option" where
  "lex_scan lexer =
     (let (c, lexer) = lex_get (lexer\<lparr>lx_saved := []\<rparr>);
          (c, lexer) = skip_blanks c lexer
      in if c = EOF then Some (lexer\<lparr>lx_token := if string_eof (lx_stream lexer) then T_eof else T_invalid\<rparr>)
         else (let lexer = lex_save c lexer
               in if c \<in> set ''{}[]:,'' then Some (lexer\<lparr>lx_token := T_char c\<rparr>)
                  else if c = CHR 0x22 then lex_scan_string lexer
                  else if is_digit c \<or> c = CHR ''-'' then lex_scan_number c lexer
                  else if is_letter c
                  then (let (c, lexer) = lex_get_save lexer; (c, lexer) = scan_letters c lexer
                        in map_option (\<lambda>lexer. lexer\<lparr>lx_token := word_token (lx_saved lexer)\<rparr>) (lex_unget_unsave c lexer))
                  else Some ((lex_save_cached lexer)\<lparr>lx_token := T_invalid\<rparr>)))"

section \<open>The parser\<close>

text \<open>
  The result is the value, none for a syntax error, and the lexer; \<open>None\<close> when an assertion fails or the calls are nested more deeply than
  the first argument. An object is parsed into a table of its members.
\<close>

fun parse_value :: "nat \<Rightarrow> lexer \<Rightarrow> (json option \<times> lexer) option"
  and parse_object :: "nat \<Rightarrow> object \<Rightarrow> lexer \<Rightarrow> (json option \<times> lexer) option"
  and parse_array :: "nat \<Rightarrow> json list \<Rightarrow> lexer \<Rightarrow> (json option \<times> lexer) option" where
  "parse_value 0 lexer = None"
| "parse_value (Suc n) lexer =
     (case lx_token lexer of
        T_string str \<Rightarrow> Some (Some (JString str), lexer)
      | T_integer i \<Rightarrow> Some (Some (JInteger i), lexer)
      | T_real r \<Rightarrow> Some (Some (JReal r), lexer)
      | T_true \<Rightarrow> Some (Some JTrue, lexer)
      | T_false \<Rightarrow> Some (Some JFalse, lexer)
      | T_null \<Rightarrow> Some (Some JNull, lexer)
      | T_char c \<Rightarrow>
          if c = CHR ''{''
          then do {
            lexer \<leftarrow> lex_scan lexer;
            if lx_token lexer = T_char (CHR ''}'') then Some (Some (JObject []), lexer) else parse_object n t_empty lexer
          }
          else if c = CHR ''[''
          then do {
            lexer \<leftarrow> lex_scan lexer;
            if lx_token lexer = T_char (CHR '']'') then Some (Some (JArray []), lexer) else parse_array n [] lexer
          }
          else Some (None, lexer)
      | _ \<Rightarrow> Some (None, lexer))"
| "parse_object 0 obj lexer = None"
| "parse_object (Suc n) obj lexer =
     (case lx_token lexer of
        T_string key \<Rightarrow> do {
          lexer \<leftarrow> lex_scan lexer;
          if lx_token lexer \<noteq> T_char (CHR '':'') then Some (None, lexer)
          else do {
            lexer \<leftarrow> lex_scan lexer;
            (val, lexer) \<leftarrow> parse_value n lexer;
            case val of
              None \<Rightarrow> Some (None, lexer)
            | Some v \<Rightarrow> do {
                let obj = json_object_set_nocheck key v obj;
                lexer \<leftarrow> lex_scan lexer;
                if lx_token lexer = T_char (CHR '','')
                then do { lexer \<leftarrow> lex_scan lexer; parse_object n obj lexer }
                else if lx_token lexer = T_char (CHR ''}'') then Some (Some (JObject (t_entries obj)), lexer)
                else Some (None, lexer)
              }
          }
        }
      | _ \<Rightarrow> Some (None, lexer))"
| "parse_array 0 elems lexer = None"
| "parse_array (Suc n) elems lexer =
     (if lx_token lexer = T_eof then Some (None, lexer)
      else do {
        (val, lexer) \<leftarrow> parse_value n lexer;
        case val of
          None \<Rightarrow> Some (None, lexer)
        | Some v \<Rightarrow> do {
            let elems = elems @ [v];
            lexer \<leftarrow> lex_scan lexer;
            if lx_token lexer = T_char (CHR '','')
            then do { lexer \<leftarrow> lex_scan lexer; parse_array n elems lexer }
            else if lx_token lexer = T_char (CHR '']'') then Some (Some (JArray elems), lexer)
            else Some (None, lexer)
          }
      })"

definition parse_json :: "nat \<Rightarrow> lexer \<Rightarrow> (json option \<times> lexer) option" where
  "parse_json n lexer = do {
     lexer \<leftarrow> lex_scan lexer;
     if lx_token lexer \<noteq> T_char (CHR ''['') \<and> lx_token lexer \<noteq> T_char (CHR ''{'') then Some (None, lexer)
     else parse_value n lexer
   }"

definition lex_init :: "bool \<Rightarrow> string \<Rightarrow> lexer" where
  "lex_init erange s =
     \<lparr>lx_stream = \<lparr>st_data = s, st_buffer = [], st_pos = 0\<rparr>, lx_saved = [], lx_token = T_invalid, lx_erange = erange\<rparr>"

text \<open>The nesting allowed to the calls, enough for any text of the length (\<open>json_loads_total\<close>).\<close>

definition parse_fuel :: "string \<Rightarrow> nat" where
  "parse_fuel s = 4 * length s + 8"

text \<open>The value and the state of \<open>errno\<close> afterwards.\<close>

definition json_loads :: "bool \<Rightarrow> string \<Rightarrow> (json option \<times> bool) option" where
  "json_loads erange s = do {
     (result, lexer) \<leftarrow> parse_json (parse_fuel s) (lex_init erange s);
     case result of
       None \<Rightarrow> Some (None, lx_erange lexer)
     | Some v \<Rightarrow> do {
         lexer \<leftarrow> lex_scan lexer;
         Some (if lx_token lexer = T_eof then Some v else None, lx_erange lexer)
       }
   }"

end
