(* ===== verification/JsonTotal.thy ===== *)
theory JsonTotal
  imports JsonLoad
begin

text \<open>
  The parser of \<open>JsonLoad\<close> ends on every text, none of its assertions fails, and the texts of strings fit their buffers.
\<close>

section \<open>What is left to read\<close>

text \<open>As \<open>stream_left\<close>, but without an end mark that was put back.\<close>

definition stream_rest :: "stream \<Rightarrow> nat" where
  "stream_rest stream =
     (if st_data stream = [] \<and> st_pos stream < length (st_buffer stream) \<and> last (st_buffer stream) = EOF
      then stream_left stream - 1 else stream_left stream)"

definition lex_rest :: "lexer \<Rightarrow> nat" where
  "lex_rest lexer = stream_rest (lx_stream lexer)"

lemma stream_get_rest:
  assumes "stream_get stream = (c, stream')"
  shows "stream_rest stream' < stream_rest stream \<or> c = EOF \<and> stream_rest stream' = 0"
proof (cases "st_pos stream < length (st_buffer stream)")
  case True
  then have c: "c = st_buffer stream ! st_pos stream" "stream' = stream\<lparr>st_pos := st_pos stream + 1\<rparr>"
    using assms by (simp_all add: stream_get_def)
  have "st_pos stream + 1 = length (st_buffer stream) \<Longrightarrow> c = last (st_buffer stream)"
    using True c by (cases "st_buffer stream" rule: rev_cases) auto
  then show ?thesis using True c by (auto simp: stream_rest_def stream_left_def)
next
  case False
  have left: "stream_rest stream = stream_left stream" using False by (simp add: stream_rest_def)
  have "stream_rest stream' \<le> stream_left stream'" by (simp add: stream_rest_def)
  then show ?thesis using stream_get_left [OF assms] left by auto
qed

lemma get_save_fields:
  assumes "lex_get_save lexer = (c, lexer')"
  shows "lx_saved lexer' = lx_saved lexer @ [c]" "lx_token lexer' = lx_token lexer" "lx_erange lexer' = lx_erange lexer"
    "stream_get (lx_stream lexer) = (c, lx_stream lexer')"
  using assms by (auto simp: lex_get_save_def lex_get_def lex_save_def split: prod.splits)

lemma stream_rest_unget:
  assumes "0 < st_pos stream" "st_pos stream \<le> length (st_buffer stream)" "st_buffer stream ! (st_pos stream - 1) = c"
  shows "stream_rest (stream\<lparr>st_pos := st_pos stream - 1\<rparr>)
    = (if c = EOF \<and> st_pos stream = length (st_buffer stream) \<and> st_data stream = [] then stream_rest stream else stream_rest stream + 1)"
proof -
  have l: "st_pos stream = length (st_buffer stream) \<Longrightarrow> last (st_buffer stream) = c"
    using assms by (cases "st_buffer stream" rule: rev_cases) (auto simp: nth_append)
  show ?thesis using assms l by (auto simp: stream_rest_def stream_left_def)
qed

text \<open>The stream is inside its buffer, and an end mark is alone in it.\<close>

definition stream_ok :: "stream \<Rightarrow> bool" where
  "stream_ok stream \<longleftrightarrow> st_pos stream \<le> length (st_buffer stream) \<and> (EOF \<in> set (st_buffer stream) \<longrightarrow> length (st_buffer stream) = 1)"

abbreviation lex_ok :: "lexer \<Rightarrow> bool" where
  "lex_ok lexer \<equiv> stream_ok (lx_stream lexer)"

text \<open>\<open>c\<close> is the last character read and saved, and what would be left if it were put back.\<close>

definition just_read :: "char \<Rightarrow> lexer \<Rightarrow> bool" where
  "just_read c lexer \<longleftrightarrow>
     lex_ok lexer \<and> 0 < st_pos (lx_stream lexer) \<and> st_buffer (lx_stream lexer) ! (st_pos (lx_stream lexer) - 1) = c
     \<and> lx_saved lexer \<noteq> [] \<and> last (lx_saved lexer) = c"

definition cost :: "lexer \<Rightarrow> nat" where
  "cost lexer = stream_rest ((lx_stream lexer)\<lparr>st_pos := st_pos (lx_stream lexer) - 1\<rparr>)"

lemma stream_get_ok:
  assumes "stream_get stream = (c, stream')" "stream_ok stream"
  shows "stream_ok stream' \<and> 0 < st_pos stream' \<and> st_buffer stream' ! (st_pos stream' - 1) = c"
proof -
  have "EOF \<notin> set (a # cs)" if "a \<noteq> EOF" "string_gets (utf8_check_first (of_char a) - 1) d = (cs, d')"
    "utf8_check_full (str_bytes (a # cs)) (utf8_check_first (of_char a)) \<noteq> None" for a cs d d'
  proof -
    have "\<forall>b \<in> set (take (utf8_check_first (of_char a) - 1) (map of_char cs)). b \<le> (0xBF :: byte)"
      using that(3) check_full_bytes by (fastforce simp: str_bytes_def)
    then have "\<forall>c \<in> set cs. (of_char c :: byte) \<le> 0xBF" using string_gets_length [OF that(2)] by (auto simp: take_map)
    then show ?thesis using that(1) by fastforce
  qed
  then show ?thesis
    using assms by (auto simp: stream_get_def stream_bad_def stream_ok_def Let_def split: prod.splits if_splits)
qed

lemma read_get:
  assumes "lex_get_save lexer = (c, lexer')" "lex_ok lexer"
  shows "just_read c lexer'" "cost lexer' \<le> lex_rest lexer" "lex_rest lexer' \<le> lex_rest lexer"
proof -
  note f = get_save_fields [OF assms(1)]
  note ok = stream_get_ok [OF f(4) assms(2)] and r = stream_get_rest [OF f(4)]
  show "just_read c lexer'" using ok f(1) by (simp add: just_read_def)
  show "lex_rest lexer' \<le> lex_rest lexer" using r by (auto simp: lex_rest_def)
  let ?s = "lx_stream lexer'"
  have len: "st_pos ?s \<le> length (st_buffer ?s)" using ok by (simp add: stream_ok_def)
  have "st_buffer ?s ! (st_pos ?s - 1) \<in> set (st_buffer ?s)" using ok len by (intro nth_mem) auto
  then have "c = EOF \<Longrightarrow> length (st_buffer ?s) = 1 \<and> st_pos ?s = 1" using ok len by (auto simp: stream_ok_def)
  then have e: "c = EOF \<Longrightarrow> st_data ?s \<noteq> [] \<Longrightarrow> 0 < stream_rest ?s" by (simp add: stream_rest_def stream_left_def)
  have "cost lexer' = (if c = EOF \<and> st_pos ?s = length (st_buffer ?s) \<and> st_data ?s = [] then stream_rest ?s else stream_rest ?s + 1)"
    unfolding cost_def using ok len by (intro stream_rest_unget) auto
  moreover have "c = EOF \<Longrightarrow> st_pos ?s = length (st_buffer ?s)"
    using \<open>c = EOF \<Longrightarrow> length (st_buffer ?s) = 1 \<and> st_pos ?s = 1\<close> by simp
  ultimately show "cost lexer' \<le> lex_rest lexer" using r e unfolding lex_rest_def by (cases "st_data ?s = []") auto
qed

lemma read_unget:
  assumes "just_read c lexer"
  shows "\<exists>lexer'. lex_unget_unsave c lexer = Some lexer' \<and> lex_rest lexer' = cost lexer \<and> lx_saved lexer' = butlast (lx_saved lexer)
    \<and> lx_token lexer' = lx_token lexer \<and> lx_erange lexer' = lx_erange lexer \<and> lex_ok lexer'"
  using assms by (auto simp: just_read_def lex_unget_unsave_def stream_unget_def cost_def lex_rest_def stream_ok_def)

lemma read_rest:
  assumes "just_read c lexer"
  shows "lex_rest lexer \<le> cost lexer" "c \<noteq> EOF \<Longrightarrow> lex_rest lexer < cost lexer"
  using assms stream_rest_unget [of "lx_stream lexer" c] by (auto simp: just_read_def stream_ok_def cost_def lex_rest_def)

lemma just_read_ok: "just_read c lexer \<Longrightarrow> lex_ok lexer"
  by (simp add: just_read_def)

lemma just_read_saved: "just_read c lexer \<Longrightarrow> lx_saved lexer = butlast (lx_saved lexer) @ [c]"
  using append_butlast_last_id [of "lx_saved lexer"] by (auto simp: just_read_def)

section \<open>Strings\<close>

text \<open>The rest of a string token: characters and escapes up to the closing quote.\<close>

function lexical :: "string \<Rightarrow> bool" where
  "lexical [] \<longleftrightarrow> False"
| "lexical (c # p) \<longleftrightarrow>
     (if c = CHR 0x22 then True
      else if c = CHR 0x5C
      then p \<noteq> [] \<and> (if hd p = CHR ''u'' then 5 \<le> length p \<and> list_all is_xdigit (take 4 (tl p)) \<and> lexical (drop 5 p)
                    else escape_char (hd p) \<noteq> None \<and> lexical (tl p))
      else lexical p)"
  by pat_completeness auto
termination by (relation "measure length") auto

declare lexical.simps(2) [simp del]

text \<open>A scanner ends, keeps the token and does not put back more than it was given.\<close>

lemma scan_xdigits_total:
  assumes "just_read c lexer"
  shows "\<exists>ok c' lexer'. scan_xdigits n c lexer = Some (ok, c', lexer') \<and> lx_token lexer' = lx_token lexer \<and> lx_erange lexer' = lx_erange lexer
    \<and> (if ok then just_read c' lexer' \<and> cost lexer' \<le> cost lexer
           \<and> (\<exists>ds. lx_saved lexer' = butlast (lx_saved lexer) @ ds @ [c'] \<and> length ds = n \<and> list_all is_xdigit ds)
       else lex_ok lexer' \<and> lex_rest lexer' \<le> cost lexer)"
  using assms
proof (induction n arbitrary: c lexer)
  case 0
  then have "lx_saved lexer = butlast (lx_saved lexer) @ [] @ [c]" using just_read_saved by simp
  then show ?case using 0 by fastforce
next
  case (Suc n)
  show ?case
  proof (cases "is_xdigit c")
    case True
    obtain c1 l1 where g: "lex_get_save lexer = (c1, l1)" by fastforce
    note f = get_save_fields [OF g] and r = read_get [OF g just_read_ok [OF Suc.prems]]
    have saved: "lx_saved lexer = butlast (lx_saved lexer) @ [c]" using just_read_saved [OF Suc.prems] .
    have le: "cost l1 \<le> cost lexer" using r(2) read_rest(1) [OF Suc.prems] by simp
    obtain ok c' l' where IH: "scan_xdigits n c1 l1 = Some (ok, c', l')" "lx_token l' = lx_token l1" "lx_erange l' = lx_erange l1"
      "if ok then just_read c' l' \<and> cost l' \<le> cost l1 \<and> (\<exists>ds. lx_saved l' = butlast (lx_saved l1) @ ds @ [c'] \<and> length ds = n \<and> list_all is_xdigit ds)
       else lex_ok l' \<and> lex_rest l' \<le> cost l1"
      using Suc.IH [OF r(1)] by blast
    have "\<exists>ds. lx_saved l' = butlast (lx_saved lexer) @ ds @ [c'] \<and> length ds = Suc n \<and> list_all is_xdigit ds" if ok
    proof -
      obtain ds where "lx_saved l' = butlast (lx_saved l1) @ ds @ [c']" "length ds = n" "list_all is_xdigit ds" using IH(4) \<open>ok\<close> by auto
      then show ?thesis using f(1) saved True by (intro exI [of _ "c # ds"]) (metis append.assoc append_Cons append_Nil butlast_snoc length_Cons list.pred_inject(2))
    qed
    then have "if ok then just_read c' l' \<and> cost l' \<le> cost lexer
           \<and> (\<exists>ds. lx_saved l' = butlast (lx_saved lexer) @ ds @ [c'] \<and> length ds = Suc n \<and> list_all is_xdigit ds)
       else lex_ok l' \<and> lex_rest l' \<le> cost lexer"
      using IH(4) le by (cases ok) simp_all
    moreover have "scan_xdigits (Suc n) c lexer = Some (ok, c', l')" using True g IH(1) by simp
    ultimately show ?thesis using IH(2,3) f(2,3) by metis
  next
    case False
    then show ?thesis using read_unget [OF Suc.prems] by fastforce
  qed
qed


definition string_end :: "lexer \<Rightarrow> bool \<Rightarrow> lexer \<Rightarrow> bool" where
  "string_end lexer found lexer' \<longleftrightarrow>
     lx_token lexer' = lx_token lexer \<and> lx_erange lexer' = lx_erange lexer \<and> lex_ok lexer' \<and> lex_rest lexer' \<le> cost lexer
     \<and> (found \<longrightarrow> (\<exists>b. lx_saved lexer' = butlast (lx_saved lexer) @ b \<and> lexical b))"

lemma string_end_unget:
  assumes "just_read c lexer" "lx_token lexer = lx_token l0" "lx_erange lexer = lx_erange l0" "cost lexer \<le> cost l0"
  shows "\<exists>lexer'. map_option (Pair False) (lex_unget_unsave c lexer) = Some (False, lexer') \<and> string_end l0 False lexer'"
  using read_unget [OF assms(1)] assms(2-4) by (auto simp: string_end_def)

lemma string_end_step:
  assumes "string_end l1 found lexer'" "lx_token l1 = lx_token lexer" "lx_erange l1 = lx_erange lexer" "cost l1 \<le> cost lexer"
    and "butlast (lx_saved l1) = butlast (lx_saved lexer) @ as" "\<And>b. lexical b \<Longrightarrow> lexical (as @ b)"
  shows "string_end lexer found lexer'"
  using assms unfolding string_end_def by fastforce

lemma scan_string_total: "just_read c lexer \<Longrightarrow> \<exists>found lexer'. scan_string c lexer = Some (found, lexer') \<and> string_end lexer found lexer'"
proof (induction "left_measure c lexer" arbitrary: c lexer rule: less_induct)
  case less
  note ok = just_read_ok [OF less.prems] and saved = just_read_saved [OF less.prems]
  obtain c1 l1 where g1: "lex_get_save lexer = (c1, l1)" by fastforce
  note f1 = get_save_fields [OF g1] and r1 = read_get [OF g1 ok] and m1 = get_save_less [OF g1 [symmetric]]
  have c1: "cost l1 \<le> cost lexer" using r1(2) read_rest(1) [OF less.prems] by simp
  obtain c2 l2 where g2: "lex_get_save l1 = (c2, l2)" by fastforce
  note f2 = get_save_fields [OF g2] and r2 = read_get [OF g2 just_read_ok [OF r1(1)]] and m2 = get_save_less [OF g2 [symmetric]]
  have c2: "cost l2 \<le> cost lexer" using r2(2) r1(3) read_rest(1) [OF less.prems] by simp
  have b1: "butlast (lx_saved l1) = butlast (lx_saved lexer) @ [c]" using f1(1) saved by (metis butlast_snoc)
  have b2: "butlast (lx_saved l2) = butlast (lx_saved lexer) @ [c, c1]"
    using f2(1) f1(1) saved by (metis append.assoc append_Cons append_Nil butlast_snoc)
  consider "c = CHR 0x22" | "c \<noteq> CHR 0x22" "c = EOF \<or> (of_char c :: nat) \<le> 0x1F"
    | "c \<noteq> CHR 0x22" "c \<noteq> EOF" "\<not> (of_char c :: nat) \<le> 0x1F" "c \<noteq> CHR 0x5C"
    | "c = CHR 0x5C" "c1 = CHR ''u''"
    | "c = CHR 0x5C" "c1 \<noteq> CHR ''u''" "c1 \<in> set [CHR 0x22, CHR 0x5C, CHR ''/'', CHR ''b'', CHR ''f'', CHR ''n'', CHR ''r'', CHR ''t'']"
    | "c = CHR 0x5C" "c1 \<noteq> CHR ''u''" "c1 \<notin> set [CHR 0x22, CHR 0x5C, CHR ''/'', CHR ''b'', CHR ''f'', CHR ''n'', CHR ''r'', CHR ''t'']"
    by blast
  then show ?case
  proof cases
    case 1
    then have "scan_string c lexer = Some (True, lexer)" by (subst scan_string.simps) simp
    moreover have "lexical [CHR 0x22]" by (simp add: lexical.simps(2))
    then have "string_end lexer True lexer"
      using saved 1 ok read_rest(1) [OF less.prems] unfolding string_end_def by blast
    ultimately show ?thesis by blast
  next
    case 2
    then have "scan_string c lexer = map_option (Pair False) (lex_unget_unsave c lexer)" by (subst scan_string.simps) auto
    then show ?thesis using string_end_unget [OF less.prems refl refl order_refl] by auto
  next
    case 3
    then have s: "scan_string c lexer = scan_string c1 l1" by (subst scan_string.simps) (simp add: g1)
    obtain found l' where IH: "scan_string c1 l1 = Some (found, l')" "string_end l1 found l'"
      using less.hyps [OF m1 [OF 3(2)] r1(1)] by blast
    have "string_end lexer found l'"
      by (rule string_end_step [OF IH(2) f1(2,3) c1 b1]) (use 3 in \<open>simp add: lexical.simps(2)\<close>)
    then show ?thesis using s IH(1) by simp
  next
    case 4
    obtain ok c3 l3 where x: "scan_xdigits 4 c2 l2 = Some (ok, c3, l3)" "lx_token l3 = lx_token l2" "lx_erange l3 = lx_erange l2"
      "if ok then just_read c3 l3 \<and> cost l3 \<le> cost l2 \<and> (\<exists>ds. lx_saved l3 = butlast (lx_saved l2) @ ds @ [c3] \<and> length ds = 4 \<and> list_all is_xdigit ds)
       else lex_ok l3 \<and> lex_rest l3 \<le> cost l2"
      using scan_xdigits_total [OF r2(1), of 4] by blast
    have s: "scan_string c lexer = (if ok then scan_string c3 l3 else Some (False, l3))"
      using 4 x(1) by (subst scan_string.simps) (simp add: g1 g2)
    show ?thesis
    proof (cases ok)
      case True
      then obtain ds where j: "just_read c3 l3" "cost l3 \<le> cost l2" and ds: "lx_saved l3 = butlast (lx_saved l2) @ ds @ [c3]" "length ds = 4" "list_all is_xdigit ds"
        using x(4) by auto
      have "left_measure c3 l3 \<le> left_measure c2 l2" using scan_xdigits_left [of 4 c2 l2 c3 l3] x(1) True by simp
      also have "\<dots> < left_measure c1 l1" using m2 4 by simp
      also have "\<dots> < left_measure c lexer" using m1 4 by simp
      finally obtain found l' where IH: "scan_string c3 l3 = Some (found, l')" "string_end l3 found l'" using less.hyps j(1) by blast
      have b3: "butlast (lx_saved l3) = butlast (lx_saved lexer) @ [c, c1] @ ds" using ds(1) b2 by (simp add: butlast_append)
      have "string_end lexer found l'"
      proof (rule string_end_step [OF IH(2) _ _ _ b3])
        show "lx_token l3 = lx_token lexer" "lx_erange l3 = lx_erange lexer" using x(2,3) f1(2,3) f2(2,3) by simp_all
        show "cost l3 \<le> cost lexer" using j(2) c2 by simp
        show "lexical (([c, c1] @ ds) @ b)" if "lexical b" for b using that 4 ds by (simp add: lexical.simps(2))
      qed
      then show ?thesis using s True IH(1) by simp
    next
      case False
      then have "string_end lexer False l3" using x f1(2,3) f2(2,3) c2 by (simp add: string_end_def)
      then show ?thesis using s False by auto
    qed
  next
    case 5
    then have s: "scan_string c lexer = scan_string c2 l2" by (subst scan_string.simps) (simp add: g1 g2)
    have "c1 \<noteq> EOF" "c \<noteq> EOF" using 5 by auto
    then have "left_measure c2 l2 < left_measure c lexer" using m1 m2 by (meson less_trans)
    then obtain found l' where IH: "scan_string c2 l2 = Some (found, l')" "string_end l2 found l'" using less.hyps r2(1) by blast
    have "string_end lexer found l'"
    proof (rule string_end_step [OF IH(2) _ _ c2 b2])
      show "lx_token l2 = lx_token lexer" "lx_erange l2 = lx_erange lexer" using f1(2,3) f2(2,3) by simp_all
      show "lexical ([c, c1] @ b)" if "lexical b" for b using that 5 by (auto simp: lexical.simps(2) escape_char_def)
    qed
    then show ?thesis using s IH(1) by simp
  next
    case 6
    then have "scan_string c lexer = map_option (Pair False) (lex_unget_unsave c1 l1)" by (subst scan_string.simps) (simp add: g1)
    then show ?thesis using string_end_unget [OF r1(1) f1(2,3) c1] by auto
  qed
qed

text \<open>The text of a token can be decoded, and its value is no longer than the token.\<close>

lemma xdigit_value:
  assumes "is_xdigit c"
  shows "0 \<le> (let n = of_char c :: int in if is_digit c then n - 48 else if 97 \<le> n then n - 97 + 10 else n - 65 + 10)
    \<and> (let n = of_char c :: int in if is_digit c then n - 48 else if 97 \<le> n then n - 97 + 10 else n - 65 + 10) \<le> 15"
  using assms of_nat_of_char [of c, where 'a = int] by (auto simp: is_xdigit_def is_digit_def Let_def)

lemma decode_escape_range:
  assumes "decode_unicode_escape p = Some v"
  shows "0 \<le> v \<and> v < 0x10000 \<and> 5 \<le> length p"
proof -
  obtain a b c d e r where p: "p = a # b # c # d # e # r" "is_xdigit b" "is_xdigit c" "is_xdigit d" "is_xdigit e"
    using assms by (auto simp: decode_unicode_escape_def Suc_le_length_iff numeral_eq_Suc split: if_splits)
  show ?thesis
    using assms p xdigit_value [of b] xdigit_value [of c] xdigit_value [of d] xdigit_value [of e]
    by (simp add: decode_unicode_escape_def Let_def split: if_splits)
qed

lemma lexical_escape:
  assumes "lexical (CHR 0x5C # p)" "p \<noteq> []" "hd p = CHR ''u''"
  shows "decode_unicode_escape p \<noteq> None" "lexical (drop 5 p)" "5 \<le> length p"
  using assms by (simp_all add: lexical.simps(2) decode_unicode_escape_def)

lemma unicode_escape_total:
  assumes "lexical (CHR 0x5C # p)" "p \<noteq> []" "hd p = CHR ''u''"
  shows "\<exists>r. unicode_escape p = Some r
    \<and> (\<forall>v p'. r = Some (v, p') \<longrightarrow> 0 < v \<and> v \<le> 0x10FFFF \<and> lexical p' \<and> (if v < 0x10000 then p' = drop 5 p \<and> 5 \<le> length p else p' = drop 11 p \<and> 11 \<le> length p))"
proof -
  obtain v where v: "decode_unicode_escape p = Some v" using lexical_escape(1) [OF assms] by auto
  note l = lexical_escape(2,3) [OF assms] and r = decode_escape_range [OF v]
  show ?thesis
  proof (cases "0xD800 \<le> v \<and> v \<le> 0xDBFF \<and> 2 \<le> length (drop 5 p) \<and> drop 5 p ! 0 = CHR 0x5C \<and> drop 5 p ! 1 = CHR ''u''")
    case True
    then obtain q where q: "drop 5 p = CHR 0x5C # CHR ''u'' # q"
      by (cases "drop 5 p"; cases "tl (drop 5 p)") auto
    have lq: "lexical (CHR 0x5C # CHR ''u'' # q)" using l(1) q by simp
    obtain v2 where v2: "decode_unicode_escape (CHR ''u'' # q) = Some v2" using lexical_escape(1) [OF lq] by auto
    note l2 = lexical_escape(2,3) [OF lq]
    have d: "drop 6 (drop 5 p) = drop 11 p" by simp
    then have d4: "drop 4 q = drop 11 p" unfolding q by simp
    have "lexical (drop 11 p)" using l2(1) q unfolding d [symmetric] by simp
    moreover have "11 \<le> length p" using l2(2) arg_cong [OF q, of length] l(2) by simp
    moreover have "push_bit 10 (v - 0xD800) + (v2 - 0xDC00) + 0x10000 \<le> 0x10FFFF" "0x10000 \<le> push_bit 10 (v - 0xD800) + (v2 - 0xDC00) + 0x10000"
      if "0xDC00 \<le> v2" "v2 \<le> 0xDFFF"
      using True that by (simp_all add: push_bit_eq_mult)
    ultimately show ?thesis
      using v v2 True q d4 by (auto simp: unicode_escape_def Let_def)
  next
    case False
    then show ?thesis using v l r by (auto simp: unicode_escape_def Let_def)
  qed
qed

lemma encode_total: "0 < v \<Longrightarrow> v \<le> 0x10FFFF \<Longrightarrow> \<exists>bs. utf8_encode v = Some bs \<and> length bs \<le> (if v < 0x10000 then 3 else 4)"
  by (simp add: utf8_encode_def)

lemma decode_string_total:
  "lexical p \<Longrightarrow> \<exists>r. decode_string p = Some r \<and> (\<forall>s. r = Some s \<longrightarrow> length s < length p)"
proof (induction "length p" arbitrary: p rule: less_induct)
  case less
  then obtain c q where p: "p = c # q" by (cases p) auto
  show ?case
  proof (cases "c = CHR 0x5C")
    case False
    then show ?thesis using less.prems less.hyps [of q] by (auto simp: p decode_string.simps(2) lexical.simps(2))
  next
    case bs: True
    have q: "q \<noteq> []" using less.prems bs by (simp add: p lexical.simps(2))
    show ?thesis
    proof (cases "hd q = CHR ''u''")
      case True
      obtain r where u: "unicode_escape q = Some r"
        "\<And>v p'. r = Some (v, p') \<Longrightarrow> 0 < v \<and> v \<le> 0x10FFFF \<and> lexical p' \<and> (if v < 0x10000 then p' = drop 5 q \<and> 5 \<le> length q else p' = drop 11 q \<and> 11 \<le> length q)"
        using unicode_escape_total [of q] less.prems q True bs p by blast
      show ?thesis
      proof (cases r)
        case None
        then show ?thesis using u(1) q True bs by (simp add: p decode_string.simps(2))
      next
        case (Some vp)
        obtain v p' where vp: "vp = (v, p')" by fastforce
        note w = u(2) [of v p', unfolded Some vp, OF refl]
        obtain es where e: "utf8_encode v = Some es" "length es \<le> (if v < 0x10000 then 3 else 4)" using encode_total w by blast
        have "length p' < length p" using w q by (auto simp: p split: if_splits)
        then obtain r' where d: "decode_string p' = Some r'" "\<forall>s. r' = Some s \<longrightarrow> length s < length p'" using less.hyps w by blast
        have "length es + length p' \<le> length p" using w e(2) by (auto simp: p split: if_splits)
        then show ?thesis
          using u(1) Some vp q True bs e(1) d by (cases r') (auto simp: p decode_string.simps(2) text_of_def)
      qed
    next
      case False
      obtain d q' where q': "q = d # q'" using q by (cases q) auto
      have "escape_char d \<noteq> None" "lexical q'" using less.prems bs False by (simp_all add: p q' lexical.simps(2))
      then show ?thesis using less.hyps [of q'] bs False by (auto simp: p q' decode_string.simps(2))
    qed
  qed
qed


lemma lex_scan_string_total:
  assumes "lex_ok lexer"  "lx_saved lexer = [CHR 0x22]"
  shows "\<exists>lexer'. lex_scan_string lexer = Some lexer' \<and> lex_ok lexer' \<and> lex_rest lexer' \<le> lex_rest lexer"
proof -
  let ?l = "lexer\<lparr>lx_token := T_invalid\<rparr>"
  obtain c1 l1 where g: "lex_get_save ?l = (c1, l1)" by fastforce
  note f = get_save_fields [OF g] and r = read_get [OF g, simplified, OF assms(1)]
  obtain found l2 where s: "scan_string c1 l1 = Some (found, l2)" "string_end l1 found l2" using scan_string_total [OF r(1)] by blast
  have rest: "lex_ok l2" "lex_rest l2 \<le> lex_rest lexer" using s(2) r(2) by (auto simp: string_end_def lex_rest_def)
  show ?thesis
  proof (cases found)
    case False
    then show ?thesis using g s(1) rest by (auto simp: lex_scan_string_def)
  next
    case True
    then obtain b where "lx_saved l2 = butlast (lx_saved l1) @ b" "lexical b" using s(2) by (auto simp: string_end_def)
    then have "tl (lx_saved l2) = b" "lexical b" using f(1) assms(2) by simp_all
    then obtain r where "decode_string (tl (lx_saved l2)) = Some r" using decode_string_total by blast
    then show ?thesis using g s(1) rest True by (cases r) (auto simp: lex_scan_string_def lex_rest_def)
  qed
qed

section \<open>Numbers\<close>

lemma scan_digits_total:
  "just_read c lexer \<Longrightarrow> \<exists>c' lexer' ds. scan_digits c lexer = (c', lexer') \<and> just_read c' lexer' \<and> cost lexer' \<le> cost lexer
    \<and> lx_token lexer' = lx_token lexer \<and> lx_erange lexer' = lx_erange lexer
    \<and> lx_saved lexer' = butlast (lx_saved lexer) @ ds @ [c'] \<and> list_all is_digit ds \<and> \<not> is_digit c' \<and> (is_digit c \<longrightarrow> ds \<noteq> [])"
proof (induction "left_measure c lexer" arbitrary: c lexer rule: less_induct)
  case less
  note saved = just_read_saved [OF less.prems]
  show ?case
  proof (cases "is_digit c")
    case False
    then show ?thesis
      using less.prems saved by (intro exI [of _ c] exI [of _ lexer] exI [of _ "[]"]) (subst scan_digits.simps, simp)
  next
    case True
    obtain c1 l1 where g: "lex_get_save lexer = (c1, l1)" by fastforce
    note f = get_save_fields [OF g] and r = read_get [OF g just_read_ok [OF less.prems]]
    obtain c' l' ds where IH: "scan_digits c1 l1 = (c', l')" "just_read c' l'" "cost l' \<le> cost l1" "lx_token l' = lx_token l1"
      "lx_erange l' = lx_erange l1" "lx_saved l' = butlast (lx_saved l1) @ ds @ [c']" "list_all is_digit ds" "\<not> is_digit c'"
      using less.hyps [OF get_save_less [OF g [symmetric] eof_no_digit(1) [OF True]] r(1)] by blast
    have "scan_digits c lexer = (c', l')" using True g IH(1) by (subst scan_digits.simps) simp
    moreover have "lx_saved l' = butlast (lx_saved lexer) @ (c # ds) @ [c']" using IH(6) f(1) saved by (metis append.assoc append_Cons append_Nil butlast_snoc)
    moreover have "cost l' \<le> cost lexer" using IH(3) r(2) read_rest(1) [OF less.prems] by simp
    ultimately show ?thesis using IH f(2,3) True by (intro exI [of _ c'] exI [of _ l'] exI [of _ "c # ds"]) simp
  qed
qed

text \<open>The shapes of numbers.\<close>

definition sign_text :: "string \<Rightarrow> bool" where
  "sign_text s \<longleftrightarrow> s = [] \<or> s = ''-''"

definition digits_text :: "string \<Rightarrow> bool" where
  "digits_text s \<longleftrightarrow> s \<noteq> [] \<and> list_all is_digit s"

definition fraction_shape :: "string \<Rightarrow> bool" where
  "fraction_shape s \<longleftrightarrow> s = [] \<or> (\<exists>gs. s = CHR ''.'' # gs \<and> list_all is_digit gs)"

definition exponent_shape :: "string \<Rightarrow> bool" where
  "exponent_shape s \<longleftrightarrow> s = [] \<or> (\<exists>e sg es. s = e # sg @ es \<and> (e = CHR ''e'' \<or> e = CHR ''E'') \<and> (sg = [] \<or> sg = ''+'' \<or> sg = ''-'') \<and> digits_text es)"

lemma digits_first: "digits_text s \<Longrightarrow> s \<noteq> [] \<and> is_digit (hd s) \<and> hd s \<noteq> CHR ''-'' \<and> hd s \<noteq> CHR ''+'' \<and> hd s \<noteq> CHR ''.''"
  by (cases s) (auto simp: digits_text_def is_digit_def)

lemma int_text_shape: "sign_text sg \<Longrightarrow> digits_text ds \<Longrightarrow> int_text (sg @ ds) = Some (if sg = [] then decimal ds else - decimal ds)"
  using digits_first [of ds] by (auto simp: int_text_def sign_text_def digits_text_def Let_def)

lemma exponent_text_shape: "exponent_shape s \<Longrightarrow> exponent_text s \<noteq> None"
proof -
  assume s: "exponent_shape s"
  show ?thesis
  proof (cases "s = []")
    case False
    then obtain e sg es where e: "s = e # sg @ es" "e = CHR ''e'' \<or> e = CHR ''E''" "sg = [] \<or> sg = ''+'' \<or> sg = ''-''" "digits_text es"
      using s by (auto simp: exponent_shape_def)
    have "int_text es \<noteq> None" "int_text (CHR ''-'' # es) \<noteq> None"
      using int_text_shape [of "[]" es] int_text_shape [of "''-''" es] e(4) by (simp_all add: sign_text_def)
    then show ?thesis using e digits_first [OF e(4)] by (auto simp: exponent_text_def)
  qed (simp add: exponent_text_def)
qed

lemma takeWhile_digits: "list_all is_digit ds \<Longrightarrow> s = [] \<or> \<not> is_digit (hd s) \<Longrightarrow> takeWhile is_digit (ds @ s) = ds \<and> dropWhile is_digit (ds @ s) = s"
  by (induction ds) (auto, (cases s; simp)+)

lemma exponent_no_digit: "exponent_shape s \<Longrightarrow> s = [] \<or> \<not> is_digit (hd s) \<and> hd s \<noteq> CHR ''.''"
  by (auto simp: exponent_shape_def is_digit_def)

lemma real_text_shape:
  assumes "sign_text sg" "digits_text ds" "fraction_shape fs" "exponent_shape es"
  shows "real_text (sg @ ds @ fs @ es) = map_option (\<lambda>e. (if sg = [] then 1 else - 1) * of_int (decimal (ds @ tl fs)) * 10 powi (e - int (length (tl fs)))) (exponent_text es)"
proof -
  have e: "es = [] \<or> \<not> is_digit (hd es)" "es = [] \<or> hd es \<noteq> CHR ''.''" using exponent_no_digit [OF assms(4)] by auto
  have t: "takeWhile is_digit (ds @ fs @ es) = ds \<and> dropWhile is_digit (ds @ fs @ es) = fs @ es"
    using assms(2,3) e by (intro takeWhile_digits) (auto simp: digits_text_def fraction_shape_def is_digit_def)
  have d: "ds \<noteq> []" "hd (ds @ fs @ es) \<noteq> CHR ''-''" using digits_first [OF assms(2)] by auto
  have sgn: "(if sg @ ds @ fs @ es \<noteq> [] \<and> hd (sg @ ds @ fs @ es) = CHR ''-'' then (True, tl (sg @ ds @ fs @ es)) else (False, sg @ ds @ fs @ es))
    = (sg \<noteq> [], ds @ fs @ es)"
    using assms(1) d by (auto simp: sign_text_def)
  have part: "(if fs @ es \<noteq> [] \<and> hd (fs @ es) = CHR ''.'' then (takeWhile is_digit (tl (fs @ es)), dropWhile is_digit (tl (fs @ es))) else ([], fs @ es))
    = (tl fs, es)"
  proof (cases "fs = []")
    case True
    then show ?thesis using e(2) by auto
  next
    case False
    then obtain gs where "fs = CHR ''.'' # gs" "list_all is_digit gs" using assms(3) by (auto simp: fraction_shape_def)
    then show ?thesis using takeWhile_digits [of gs es] e(1) by simp
  qed
  show ?thesis
    unfolding real_text_def sgn Let_def prod.case using t d part by (auto simp: if_distrib)
qed


definition scan_end :: "nat \<Rightarrow> lexer option \<Rightarrow> bool" where
  "scan_end n r \<longleftrightarrow> (\<exists>lexer. r = Some lexer \<and> lex_ok lexer \<and> lex_rest lexer \<le> n)"

lemma scan_end_mono: "scan_end m r \<Longrightarrow> m \<le> n \<Longrightarrow> scan_end n r"
  by (auto simp: scan_end_def)

lemma scan_end_unget: "just_read c lexer \<Longrightarrow> scan_end (cost lexer) (lex_unget_unsave c lexer)"
  using read_unget [of c lexer] by (auto simp: scan_end_def)

lemma scan_integer_total:
  assumes "just_read c lexer" "butlast (lx_saved lexer) = sg @ ds" "sign_text sg" "digits_text ds"
  shows "scan_end (cost lexer) (scan_integer c lexer)"
  using read_unget [OF assms(1)] int_text_shape [OF assms(3,4)] assms(2) by (auto simp: scan_integer_def scan_end_def lex_rest_def Let_def)

lemma scan_real_total:
  assumes "just_read c lexer" "butlast (lx_saved lexer) = sg @ ds @ fs @ es" "sign_text sg" "digits_text ds" "fraction_shape fs" "exponent_shape es"
  shows "scan_end (cost lexer) (scan_real c lexer)"
  using read_unget [OF assms(1)] real_text_shape [OF assms(3-6)] exponent_text_shape [OF assms(6)] assms(2)
  by (auto simp: scan_real_def scan_end_def lex_rest_def Let_def split: prod.splits)

lemma get_save_step:
  assumes "just_read c lexer" "lex_get_save lexer = (c', lexer')"
  shows "just_read c' lexer'" "cost lexer' \<le> cost lexer" "butlast (lx_saved lexer') = lx_saved lexer"
  using read_get [OF assms(2) just_read_ok [OF assms(1)]] read_rest(1) [OF assms(1)] get_save_fields(1) [OF assms(2)] by auto

lemma scan_exponent_total:
  assumes "just_read c lexer" "butlast (lx_saved lexer) = sg @ ds @ fs" "sign_text sg" "digits_text ds" "fraction_shape fs"
  shows "scan_end (cost lexer) (scan_exponent c lexer)"
proof (cases "c = CHR ''E'' \<or> c = CHR ''e''")
  case False
  then show ?thesis using scan_real_total [of c lexer sg ds fs "[]"] assms by (auto simp: scan_exponent_def exponent_shape_def)
next
  case e: True
  obtain c1 l1 where g1: "lex_get_save lexer = (c1, l1)" by fastforce
  note s1 = get_save_step [OF assms(1) g1]
  have b1: "butlast (lx_saved l1) = sg @ ds @ fs @ [c]" using s1(3) just_read_saved [OF assms(1)] assms(2) by simp
  obtain c2 l2 where g2: "(if c1 = CHR ''+'' \<or> c1 = CHR ''-'' then lex_get_save l1 else (c1, l1)) = (c2, l2)" by fastforce
  define sg2 where "sg2 = (if c1 = CHR ''+'' \<or> c1 = CHR ''-'' then [c1] else [])"
  have s2: "just_read c2 l2" "cost l2 \<le> cost lexer" "butlast (lx_saved l2) = sg @ ds @ fs @ c # sg2"
  proof -
    have "just_read c2 l2 \<and> cost l2 \<le> cost l1 \<and> butlast (lx_saved l2) = butlast (lx_saved l1) @ sg2"
    proof (cases "c1 = CHR ''+'' \<or> c1 = CHR ''-''")
      case True
      then have g: "lex_get_save l1 = (c2, l2)" using g2 by simp
      show ?thesis using get_save_step [OF s1(1) g] just_read_saved [OF s1(1)] True by (simp add: sg2_def)
    next
      case False
      then show ?thesis using g2 s1(1) by (simp add: sg2_def)
    qed
    then show "just_read c2 l2" "cost l2 \<le> cost lexer" "butlast (lx_saved l2) = sg @ ds @ fs @ c # sg2" using s1(2) b1 by auto
  qed
  show ?thesis
  proof (cases "is_digit c2")
    case False
    then have "scan_exponent c lexer = lex_unget_unsave c2 l2" using e g1 g2 by (simp add: scan_exponent_def)
    then show ?thesis using scan_end_mono [OF scan_end_unget [OF s2(1)] s2(2)] by simp
  next
    case True
    obtain c3 l3 where g3: "lex_get_save l2 = (c3, l3)" by fastforce
    note s3 = get_save_step [OF s2(1) g3]
    obtain c4 l4 es where d: "scan_digits c3 l3 = (c4, l4)" "just_read c4 l4" "cost l4 \<le> cost l3" "lx_saved l4 = butlast (lx_saved l3) @ es @ [c4]" "list_all is_digit es"
      using scan_digits_total [OF s3(1)] by blast
    have "butlast (lx_saved l4) = sg @ ds @ fs @ (c # sg2 @ c2 # es)"
      using d(4) s3(3) just_read_saved [OF s2(1)] s2(3) by (simp add: butlast_append)
    moreover have "exponent_shape (c # sg2 @ c2 # es)"
      unfolding exponent_shape_def using e True d(5)
      by (intro disjI2 exI [of _ c] exI [of _ sg2] exI [of _ "c2 # es"]) (auto simp: sg2_def digits_text_def)
    ultimately have "scan_end (cost l4) (scan_real c4 l4)" using scan_real_total [OF d(2) _ assms(3-5)] by blast
    moreover have "scan_exponent c lexer = scan_real c4 l4" using e g1 g2 g3 d(1) True by (simp add: scan_exponent_def)
    ultimately show ?thesis using scan_end_mono d(3) s3(2) s2(2) by fastforce
  qed
qed

lemma scan_fraction_total:
  assumes "just_read c lexer" "butlast (lx_saved lexer) = sg @ ds" "sign_text sg" "digits_text ds"
  shows "scan_end (cost lexer) (scan_fraction c lexer)"
proof (cases "c = CHR ''.''")
  case False
  then show ?thesis using scan_exponent_total [of c lexer sg ds "[]"] assms by (auto simp: scan_fraction_def fraction_shape_def)
next
  case dot: True
  obtain c1 l1 where g1: "lex_get lexer = (c1, l1)" by fastforce
  then have g1': "lex_get_save lexer = (c1, lex_save c1 l1)" by (simp add: lex_get_save_def)
  note s1 = get_save_step [OF assms(1) g1'] and r1 = read_get [OF g1' just_read_ok [OF assms(1)]]
  show ?thesis
  proof (cases "is_digit c1")
    case False
    have "lex_ok l1" "lex_rest l1 \<le> lex_rest lexer" using just_read_ok [OF s1(1)] r1(3) by (simp_all add: lex_save_def lex_rest_def)
    then show ?thesis using False dot g1 read_rest(1) [OF assms(1)] by (auto simp: scan_fraction_def scan_end_def)
  next
    case True
    obtain c2 l2 where g2: "lex_get_save (lex_save c1 l1) = (c2, l2)" by fastforce
    note s2 = get_save_step [OF s1(1) g2]
    obtain c3 l3 gs where d: "scan_digits c2 l2 = (c3, l3)" "just_read c3 l3" "cost l3 \<le> cost l2" "lx_saved l3 = butlast (lx_saved l2) @ gs @ [c3]" "list_all is_digit gs"
      using scan_digits_total [OF s2(1)] by blast
    have "butlast (lx_saved l3) = sg @ ds @ (CHR ''.'' # c1 # gs)"
      using d(4) s2(3) just_read_saved [OF s1(1)] s1(3) just_read_saved [OF assms(1)] assms(2) dot by (simp add: butlast_append)
    moreover have "fraction_shape (CHR ''.'' # c1 # gs)" using True d(5) by (simp add: fraction_shape_def)
    ultimately have "scan_end (cost l3) (scan_exponent c3 l3)" using scan_exponent_total [OF d(2) _ assms(3,4)] by blast
    moreover have "scan_fraction c lexer = scan_exponent c3 l3" using dot g1 g2 d(1) True by (simp add: scan_fraction_def Let_def)
    ultimately show ?thesis using scan_end_mono d(3) s2(2) s1(2) by fastforce
  qed
qed

lemma scan_after_digits_total:
  assumes "just_read c lexer" "butlast (lx_saved lexer) = sg @ ds" "sign_text sg" "digits_text ds"
  shows "scan_end (cost lexer) (scan_after_digits c lexer)"
  using scan_integer_total [OF assms] scan_fraction_total [OF assms] by (simp add: scan_after_digits_def)

lemma lex_scan_number_total:
  assumes "just_read c lexer" "lx_saved lexer = [c]" "is_digit c \<or> c = CHR ''-''"
  shows "scan_end (lex_rest lexer) (lex_scan_number c lexer)"
proof -
  let ?l = "lexer\<lparr>lx_token := T_invalid\<rparr>"
  have j: "just_read c ?l" "lex_rest ?l = lex_rest lexer" using assms(1) by (simp_all add: just_read_def lex_rest_def)
  obtain c1 l1 where g1: "(if c = CHR ''-'' then lex_get_save ?l else (c, ?l)) = (c1, l1)" by fastforce
  define sg where "sg = (if c = CHR ''-'' then ''-'' else [])"
  have s1: "just_read c1 l1 \<and> butlast (lx_saved l1) = sg \<and> lex_rest l1 \<le> lex_rest lexer \<and> (c = CHR ''-'' \<longrightarrow> cost l1 \<le> lex_rest lexer)"
  proof (cases "c = CHR ''-''")
    case True
    then have g: "lex_get_save ?l = (c1, l1)" using g1 by simp
    show ?thesis using get_save_step [OF j(1) g] read_get [OF g just_read_ok [OF j(1)]] j(2) assms(2) True by (simp add: sg_def)
  next
    case False
    then show ?thesis using g1 j assms(2) by (auto simp: sg_def)
  qed
  then have l1: "just_read c1 l1" "butlast (lx_saved l1) = sg" "c = CHR ''-'' \<Longrightarrow> cost l1 \<le> lex_rest lexer" by auto
  have sg: "sign_text sg" by (simp add: sg_def sign_text_def)
  obtain c2 l2 where g2: "lex_get_save l1 = (c2, l2)" by fastforce
  note s2 = get_save_step [OF l1(1) g2]
  have le2: "cost l2 \<le> lex_rest lexer" using read_get(2) [OF g2 just_read_ok [OF l1(1)]] s1 by simp
  have b2: "butlast (lx_saved l2) = sg @ [c1]" using s2(3) just_read_saved [OF l1(1)] l1(2) by simp
  consider "c1 = CHR ''0''" "is_digit c2" | "c1 = CHR ''0''" "\<not> is_digit c2" | "c1 \<noteq> CHR ''0''" "is_digit c1" | "c1 \<noteq> CHR ''0''" "\<not> is_digit c1"
    by blast
  then show ?thesis
  proof cases
    case 1
    then have "lex_scan_number c lexer = lex_unget_unsave c2 l2" using g1 g2 by (simp add: lex_scan_number_def Let_def)
    then show ?thesis using scan_end_mono [OF scan_end_unget [OF s2(1)] le2] by simp
  next
    case 2
    then have "lex_scan_number c lexer = scan_after_digits c2 l2" using g1 g2 by (simp add: lex_scan_number_def Let_def)
    moreover have "digits_text [c1]" using 2 by (simp add: digits_text_def is_digit_def)
    ultimately show ?thesis using scan_end_mono [OF scan_after_digits_total [OF s2(1) b2 sg] le2] by simp
  next
    case 3
    obtain c3 l3 es where d: "scan_digits c2 l2 = (c3, l3)" "just_read c3 l3" "cost l3 \<le> cost l2" "lx_saved l3 = butlast (lx_saved l2) @ es @ [c3]" "list_all is_digit es"
      using scan_digits_total [OF s2(1)] by blast
    have "butlast (lx_saved l3) = sg @ (c1 # es)" using d(4) b2 by (simp add: butlast_append)
    moreover have "digits_text (c1 # es)" using 3 d(5) by (simp add: digits_text_def)
    ultimately have "scan_end (cost l3) (scan_after_digits c3 l3)" using scan_after_digits_total [OF d(2) _ sg] by blast
    moreover have "lex_scan_number c lexer = scan_after_digits c3 l3" using g1 g2 d(1) 3 by (simp add: lex_scan_number_def Let_def)
    ultimately show ?thesis using scan_end_mono d(3) le2 by fastforce
  next
    case 4
    then have "c = CHR ''-''" using g1 assms(3) by (auto split: if_splits)
    moreover have "lex_scan_number c lexer = lex_unget_unsave c1 l1" using g1 4 by (simp add: lex_scan_number_def Let_def)
    ultimately show ?thesis using scan_end_mono [OF scan_end_unget [OF l1(1)] l1(3)] by simp
  qed
qed

section \<open>Tokens and values\<close>

lemma lex_get_ok:
  assumes "lex_get lexer = (c, lexer')" "lex_ok lexer"
  shows "lex_ok lexer'" "lex_rest lexer' \<le> lex_rest lexer" "c \<noteq> EOF \<Longrightarrow> lex_rest lexer' < lex_rest lexer" "just_read c (lex_save c lexer')"
    "cost (lex_save c lexer') \<le> lex_rest lexer" "lx_saved lexer' = lx_saved lexer"
proof -
  have g: "lex_get_save lexer = (c, lex_save c lexer')" using assms(1) by (simp add: lex_get_save_def)
  note r = read_get [OF g assms(2)] and f = get_save_fields [OF g]
  show "just_read c (lex_save c lexer')" "cost (lex_save c lexer') \<le> lex_rest lexer" using r by simp_all
  show "lex_ok lexer'" "lex_rest lexer' \<le> lex_rest lexer" "lx_saved lexer' = lx_saved lexer"
    using just_read_ok [OF r(1)] r(3) f(1) by (simp_all add: lex_save_def lex_rest_def)
  show "c \<noteq> EOF \<Longrightarrow> lex_rest lexer' < lex_rest lexer"
    using read_rest(2) [OF r(1)] r(2) by (simp add: lex_save_def lex_rest_def cost_def)
qed

lemma skip_blanks_total:
  assumes "lex_ok lexer" "just_read c (lex_save c lexer)" "lx_saved lexer = []"
  shows "\<exists>c' lexer'. skip_blanks c lexer = (c', lexer') \<and> lex_ok lexer' \<and> just_read c' (lex_save c' lexer')
    \<and> cost (lex_save c' lexer') \<le> cost (lex_save c lexer) \<and> lx_saved lexer' = []"
  using assms
proof (induction "left_measure c lexer" arbitrary: c lexer rule: less_induct)
  case less
  show ?case
  proof (cases "is_blank c")
    case False
    then show ?thesis using less.prems by (subst skip_blanks.simps) auto
  next
    case True
    then have ne: "c \<noteq> EOF" by (auto simp: is_blank_def)
    obtain c1 l1 where g: "lex_get lexer = (c1, l1)" by fastforce
    note o = lex_get_ok [OF g less.prems(1)]
    have "lex_rest lexer \<le> cost (lex_save c lexer)" using read_rest(1) [OF less.prems(2)] by (simp add: lex_save_def lex_rest_def)
    then have le: "cost (lex_save c1 l1) \<le> cost (lex_save c lexer)" using o(5) by simp
    obtain c' l' where IH: "skip_blanks c1 l1 = (c', l')" "lex_ok l'" "just_read c' (lex_save c' l')"
      "cost (lex_save c' l') \<le> cost (lex_save c1 l1)" "lx_saved l' = []"
      using less.hyps [OF get_less [OF g [symmetric] ne] o(1,4)] o(6) less.prems(3) by auto
    have "skip_blanks c lexer = (c', l')" using True g IH(1) by (subst skip_blanks.simps) simp
    then show ?thesis using IH le by auto
  qed
qed

lemma scan_letters_total:
  "just_read c lexer \<Longrightarrow> \<exists>c' lexer'. scan_letters c lexer = (c', lexer') \<and> just_read c' lexer' \<and> cost lexer' \<le> cost lexer"
proof (induction "left_measure c lexer" arbitrary: c lexer rule: less_induct)
  case less
  show ?case
  proof (cases "is_letter c")
    case False
    then show ?thesis using less.prems by (subst scan_letters.simps) auto
  next
    case True
    obtain c1 l1 where g: "lex_get_save lexer = (c1, l1)" by fastforce
    note s = get_save_step [OF less.prems g]
    obtain c' l' where IH: "scan_letters c1 l1 = (c', l')" "just_read c' l'" "cost l' \<le> cost l1"
      using less.hyps [OF get_save_less [OF g [symmetric] eof_no_digit(3) [OF True]] s(1)] by blast
    have "scan_letters c lexer = (c', l')" using True g IH(1) by (subst scan_letters.simps) simp
    then show ?thesis using IH s(2) by auto
  qed
qed

text \<open>A token other than the end uses up something.\<close>

lemma lex_scan_total:
  assumes "lex_ok lexer"
  shows "\<exists>lexer'. lex_scan lexer = Some lexer' \<and> lex_ok lexer' \<and> lex_rest lexer' \<le> lex_rest lexer
    \<and> (lx_token lexer' \<noteq> T_eof \<and> lx_token lexer' \<noteq> T_invalid \<longrightarrow> lex_rest lexer' < lex_rest lexer)"
proof -
  obtain c0 l0 where g: "lex_get (lexer\<lparr>lx_saved := []\<rparr>) = (c0, l0)" by fastforce
  have okl: "lex_ok (lexer\<lparr>lx_saved := []\<rparr>)" using assms by simp
  note o = lex_get_ok [OF g okl]
  obtain c l where sk: "skip_blanks c0 l0 = (c, l)" "lex_ok l" "just_read c (lex_save c l)" "cost (lex_save c l) \<le> cost (lex_save c0 l0)" "lx_saved l = []"
    using skip_blanks_total [OF o(1) o(4)] o(6) by auto
  define l1 where "l1 = lex_save c l"
  have j: "just_read c l1" "lx_saved l1 = [c]" "lex_rest l = lex_rest l1" using sk(3,5) by (simp_all add: l1_def lex_save_def lex_rest_def)
  have le: "cost l1 \<le> lex_rest lexer" using sk(4) o(5) by (simp add: l1_def lex_rest_def)
  have less: "c \<noteq> EOF \<Longrightarrow> lex_rest l1 < lex_rest lexer" and le1: "lex_rest l1 \<le> lex_rest lexer" using read_rest [OF j(1)] le by auto
  define res where "res = (if c \<in> set ''{}[]:,'' then Some (l1\<lparr>lx_token := T_char c\<rparr>)
                  else if c = CHR 0x22 then lex_scan_string l1
                  else if is_digit c \<or> c = CHR ''-'' then lex_scan_number c l1
                  else if is_letter c
                  then (let (c, lexer) = lex_get_save l1; (c, lexer) = scan_letters c lexer
                        in map_option (\<lambda>lexer. lexer\<lparr>lx_token := word_token (lx_saved lexer)\<rparr>) (lex_unget_unsave c lexer))
                  else Some ((lex_save_cached l1)\<lparr>lx_token := T_invalid\<rparr>))"
  have scan: "lex_scan lexer = (if c = EOF then Some (l\<lparr>lx_token := if string_eof (lx_stream l) then T_eof else T_invalid\<rparr>) else res)"
    using g sk(1) by (simp add: lex_scan_def res_def l1_def Let_def del: list.set)
  have "scan_end (lex_rest l1) res"
  proof -
    consider "c \<in> set ''{}[]:,''" | "c \<notin> set ''{}[]:,''" "c = CHR 0x22" | "c \<notin> set ''{}[]:,''" "c \<noteq> CHR 0x22" "is_digit c \<or> c = CHR ''-''"
      | "c \<notin> set ''{}[]:,''" "c \<noteq> CHR 0x22" "\<not> (is_digit c \<or> c = CHR ''-'')" "is_letter c"
      | "c \<notin> set ''{}[]:,''" "c \<noteq> CHR 0x22" "\<not> (is_digit c \<or> c = CHR ''-'')" "\<not> is_letter c"
      by blast
    then show ?thesis
    proof cases
      case 1
      then show ?thesis using just_read_ok [OF j(1)] unfolding res_def by (simp add: scan_end_def lex_rest_def del: list.set)
    next
      case 2
      then have "res = lex_scan_string l1" unfolding res_def by (simp only: if_False if_True refl)
      then show ?thesis using lex_scan_string_total [OF just_read_ok [OF j(1)]] j(2) 2 by (auto simp: scan_end_def)
    next
      case 3
      then have "res = lex_scan_number c l1" unfolding res_def by (simp only: if_False if_True simp_thms)
      then show ?thesis using lex_scan_number_total [OF j(1,2) 3(3)] by simp
    next
      case 4
      obtain c2 l2 where g2: "lex_get_save l1 = (c2, l2)" by fastforce
      note r2 = read_get [OF g2 just_read_ok [OF j(1)]]
      obtain c3 l3 where s3: "scan_letters c2 l2 = (c3, l3)" "just_read c3 l3" "cost l3 \<le> cost l2" using scan_letters_total [OF r2(1)] by blast
      have "res = map_option (\<lambda>lexer. lexer\<lparr>lx_token := word_token (lx_saved lexer)\<rparr>) (lex_unget_unsave c3 l3)"
        using 4 unfolding res_def by (simp only: if_False if_True g2 s3(1) Let_def prod.case simp_thms)
      then show ?thesis using read_unget [OF s3(2)] s3(3) r2(2) by (auto simp: scan_end_def lex_rest_def)
    next
      case 5
      then have "res = Some ((lex_save_cached l1)\<lparr>lx_token := T_invalid\<rparr>)" unfolding res_def by (simp only: if_False)
      then show ?thesis using just_read_ok [OF j(1)]
        by (auto simp: scan_end_def lex_save_cached_def stream_ok_def lex_rest_def stream_rest_def stream_left_def Let_def)
    qed
  qed
  then show ?thesis
    using scan sk(2) j(3) le1 less unfolding scan_end_def by (cases "c = EOF") (auto simp: lex_rest_def)
qed

definition bad_token :: "lexer \<Rightarrow> bool" where
  "bad_token lexer \<longleftrightarrow> lx_token lexer = T_eof \<or> lx_token lexer = T_invalid"

definition fuel_need :: "lexer \<Rightarrow> nat" where
  "fuel_need lexer = (if bad_token lexer then 1 else 4 * lex_rest lexer + 4)"

definition parse_end :: "lexer \<Rightarrow> (json option \<times> lexer) option \<Rightarrow> bool" where
  "parse_end lexer r \<longleftrightarrow> (\<exists>v lexer'. r = Some (v, lexer') \<and> lex_ok lexer' \<and> lex_rest lexer' \<le> lex_rest lexer)"

lemma parse_end_None: "lex_ok lexer' \<Longrightarrow> lex_rest lexer' \<le> lex_rest lexer \<Longrightarrow> parse_end lexer (Some (v, lexer'))"
  by (simp add: parse_end_def)

lemma parse_end_mono: "parse_end l1 r \<Longrightarrow> lex_rest l1 \<le> lex_rest l \<Longrightarrow> parse_end l r"
  unfolding parse_end_def by fastforce

lemma scan_step:
  assumes "lex_ok lexer"
  obtains l' where "lex_scan lexer = Some l'" "lex_ok l'" "lex_rest l' \<le> lex_rest lexer"
    "\<not> bad_token l' \<Longrightarrow> lex_rest l' < lex_rest lexer" "fuel_need l' \<le> 4 * lex_rest lexer + 1"
proof -
  obtain l' where l: "lex_scan lexer = Some l'" "lex_ok l'" "lex_rest l' \<le> lex_rest lexer"
    "\<not> bad_token l' \<Longrightarrow> lex_rest l' < lex_rest lexer"
    using lex_scan_total [OF assms] by (auto simp: bad_token_def)
  then have "fuel_need l' \<le> 4 * lex_rest lexer + 1" by (cases "bad_token l'") (auto simp: fuel_need_def)
  then show ?thesis using that l by blast
qed

lemma need_char: "lx_token l = T_char c \<Longrightarrow> fuel_need l = 4 * lex_rest l + 4"
  and need_string: "lx_token l = T_string str \<Longrightarrow> fuel_need l = 4 * lex_rest l + 4"
  by (simp_all add: fuel_need_def bad_token_def)

lemma parse_bad: "bad_token l \<Longrightarrow> parse_value n l = None \<or> parse_value n l = Some (None, l)"
  by (cases n) (auto simp: bad_token_def)

definition enough :: "nat \<Rightarrow> bool" where
  "enough n \<longleftrightarrow>
     (\<forall>l. lex_ok l \<and> fuel_need l \<le> n \<longrightarrow> parse_end l (parse_value n l))
     \<and> (\<forall>l obj. lex_ok l \<and> fuel_need l \<le> n \<longrightarrow> parse_end l (parse_object n obj l))
     \<and> (\<forall>l elems. lex_ok l \<and> fuel_need l + 1 \<le> n \<longrightarrow> parse_end l (parse_array n elems l))"

lemma enoughD:
  assumes "enough n" "lex_ok l"
  shows "fuel_need l \<le> n \<Longrightarrow> parse_end l (parse_value n l)" "fuel_need l \<le> n \<Longrightarrow> parse_end l (parse_object n obj l)"
    "fuel_need l + 1 \<le> n \<Longrightarrow> parse_end l (parse_array n elems l)"
  using assms unfolding enough_def by blast+

lemma parse_value_total:
  assumes "enough n" "lex_ok l" "fuel_need l \<le> Suc n"
  shows "parse_end l (parse_value (Suc n) l)"
proof (cases "\<exists>c. lx_token l = T_char c \<and> (c = CHR ''{'' \<or> c = CHR ''['')")
  case True
  then obtain c where c: "lx_token l = T_char c" "c = CHR ''{'' \<or> c = CHR ''[''" by blast
  have n: "4 * lex_rest l + 3 \<le> n" using assms(3) need_char [OF c(1)] by simp
  obtain l1 where l1: "lex_scan l = Some l1" "lex_ok l1" "lex_rest l1 \<le> lex_rest l" "fuel_need l1 \<le> 4 * lex_rest l + 1"
    using scan_step [OF assms(2)] by metis
  have "parse_end l (parse_object n t_empty l1)" "parse_end l (parse_array n [] l1)"
    using l1(4) n
    by (intro parse_end_mono [OF enoughD(2) [OF assms(1) l1(2)] l1(3)] parse_end_mono [OF enoughD(3) [OF assms(1) l1(2)] l1(3)]; linarith)+
  then show ?thesis using c l1 by (auto intro!: parse_end_None)
next
  case False
  then show ?thesis using assms(2) by (auto simp: parse_end_def split: token.splits)
qed

lemma parse_object_total:
  assumes "enough n" "lex_ok l" "fuel_need l \<le> Suc n"
  shows "parse_end l (parse_object (Suc n) obj l)"
proof (cases "\<exists>key. lx_token l = T_string key")
  case False
  then show ?thesis using assms(2) by (auto simp: parse_end_def split: token.splits)
next
  case True
  then obtain key where key: "lx_token l = T_string key" by blast
  have n: "4 * lex_rest l + 3 \<le> n" using assms(3) need_string [OF key] by simp
  obtain l1 where l1: "lex_scan l = Some l1" "lex_ok l1" "lex_rest l1 \<le> lex_rest l"
    using scan_step [OF assms(2)] by metis
  obtain l2 where l2: "lex_scan l1 = Some l2" "lex_ok l2" "lex_rest l2 \<le> lex_rest l1" "fuel_need l2 \<le> 4 * lex_rest l1 + 1"
    using scan_step [OF l1(2)] by metis
  obtain v l3 where l3: "parse_value n l2 = Some (v, l3)" "lex_ok l3" "lex_rest l3 \<le> lex_rest l2"
    using enoughD(1) [OF assms(1) l2(2)] l2(4) l1(3) n unfolding parse_end_def by fastforce
  obtain l4 where l4: "lex_scan l3 = Some l4" "lex_ok l4" "lex_rest l4 \<le> lex_rest l3"
    using scan_step [OF l3(2)] by metis
  obtain l5 where l5: "lex_scan l4 = Some l5" "lex_ok l5" "lex_rest l5 \<le> lex_rest l4" "fuel_need l5 \<le> 4 * lex_rest l4 + 1"
    using scan_step [OF l4(2)] by metis
  have "lex_rest l5 \<le> lex_rest l" "fuel_need l5 \<le> n" using l5(3,4) l4(3) l3(3) l2(3) l1(3) n by linarith+
  then have O: "parse_end l (parse_object n obj' l5)" for obj' by (intro parse_end_mono [OF enoughD(2) [OF assms(1) l5(2)]])
  show ?thesis
    using key l1 l2 l3 l4 l5(1) O by (cases v) (auto intro!: parse_end_None simp: Let_def)
qed

lemma parse_array_total:
  assumes "enough n" "lex_ok l" "fuel_need l \<le> n"
  shows "parse_end l (parse_array (Suc n) elems l)"
proof (cases "lx_token l = T_eof")
  case True
  then show ?thesis using assms(2) by (auto simp: parse_end_def)
next
  case False
  obtain v l3 where l3: "parse_value n l = Some (v, l3)" "lex_ok l3" "lex_rest l3 \<le> lex_rest l"
    using enoughD(1) [OF assms(1,2)] assms(3) unfolding parse_end_def by fastforce
  have n: "v \<noteq> None \<Longrightarrow> 4 * lex_rest l + 4 \<le> n"
    using parse_bad [of l n] l3(1) assms(3) by (auto simp: fuel_need_def split: if_split_asm)
  obtain l4 where l4: "lex_scan l3 = Some l4" "lex_ok l4" "lex_rest l4 \<le> lex_rest l3"
    using scan_step [OF l3(2)] by metis
  obtain l5 where l5: "lex_scan l4 = Some l5" "lex_ok l5" "lex_rest l5 \<le> lex_rest l4" "fuel_need l5 \<le> 4 * lex_rest l4 + 1"
    using scan_step [OF l4(2)] by metis
  have le: "lex_rest l5 \<le> lex_rest l" using l5(3) l4(3) l3(3) by linarith
  have "v \<noteq> None \<Longrightarrow> fuel_need l5 + 1 \<le> n" using n l5(4) l4(3) l3(3) by linarith
  then have A: "v \<noteq> None \<Longrightarrow> parse_end l (parse_array n elems' l5)" for elems'
    by (intro parse_end_mono [OF enoughD(3) [OF assms(1) l5(2)] le])
  show ?thesis
    using False l3 l4 l5(1) A by (cases v) (auto intro!: parse_end_None simp: Let_def)
qed

lemma parse_total: "enough n"
proof (induction n)
  case 0
  then show ?case by (simp add: enough_def fuel_need_def)
next
  case (Suc n)
  then show ?case
    unfolding enough_def [of "Suc n"] using parse_value_total parse_object_total parse_array_total by simp
qed

lemma lex_init_ok: "lex_ok (lex_init erange s)" "lex_rest (lex_init erange s) = length s"
  by (simp_all add: lex_init_def stream_ok_def lex_rest_def stream_rest_def stream_left_def)

section \<open>The property\<close>

text \<open>C39: \<open>json_loads\<close> returns on every text, whatever its bytes and whatever \<open>errno\<close> was: no loop of the lexer and no
  recursion of the parser goes on for ever, and none of the assertions on characters put back, on numbers read to their end and
  on escapes in a string fails.\<close>

theorem json_loads_total: "\<exists>result erange'. json_loads erange s = Some (result, erange')"
proof -
  obtain l1 where l1: "lex_scan (lex_init erange s) = Some l1" "lex_ok l1" "fuel_need l1 \<le> 4 * length s + 1"
    using scan_step [OF lex_init_ok(1)] lex_init_ok(2) by metis
  obtain v l2 where l2: "parse_value (parse_fuel s) l1 = Some (v, l2)" "lex_ok l2"
    using enoughD(1) [OF parse_total l1(2), of "parse_fuel s"] l1(3) by (auto simp: parse_fuel_def parse_end_def)
  obtain l3 where "lex_scan l2 = Some l3" using scan_step [OF l2(2)] by metis
  then show ?thesis using l1 l2 by (cases v) (auto simp: json_loads_def parse_json_def)
qed

end
