(* ===== verification/JsonDump.thy ===== *)
theory JsonDump
  imports Difficulty JsonValue JsonLoad "HOL-Library.List_Lexorder" "HOL-Library.Char_ord"
begin

text \<open>
  The printer of the bundled \<open>jansson\<close> (\<open>compat/jansson/dump.c\<close>) behind \<open>json_dumps\<close>. What is written is collected, with
  whether writing goes on; appending to the string buffer succeeds, so only malformed text ends it. The members of an object come
  in the order of its table or sorted. The order by serial numbers of \<open>JSON_PRESERVE_ORDER\<close>, which the values here do not have, is left
  out: the definitions are those of the code for flags without it. So are the marks against circular references, which the values here cannot have.
\<close>

section \<open>Formats\<close>

text \<open>The formats \<open>%d\<close> and \<open>%04x\<close>.\<close>

fun nat_digits :: "nat \<Rightarrow> string" where
  "nat_digits n = (if n < 10 then [char_of (48 + n)] else nat_digits (n div 10) @ [char_of (48 + n mod 10)])"

declare nat_digits.simps [simp del]

definition fmt_d :: "int \<Rightarrow> string" where
  "fmt_d i = (if i < 0 then ''-'' @ nat_digits (nat (- i)) else nat_digits (nat i))"

definition hex_char :: "int \<Rightarrow> char" where
  "hex_char d = (if d < 10 then char_of (48 + nat d) else char_of (87 + nat d))"

definition fmt_04x :: "int \<Rightarrow> string" where
  "fmt_04x v = map hex_char [v div 4096 mod 16, v div 256 mod 16, v div 16 mod 16, v mod 16]"

text \<open>
  The format \<open>%.17g\<close>: seventeen significant digits of the exact value, ties to even, without the zeros at the end of the
  fraction; in exponential notation when the exponent is below \<open>-4\<close> or above \<open>16\<close>. \<open>dec_exp\<close> is the decimal exponent of a positive number.
\<close>

definition dec_exp :: "rat \<Rightarrow> int" where
  "dec_exp x =
     (if 1 \<le> x then int (length (nat_digits (nat \<lfloor>x\<rfloor>))) - 1
      else - int (length (nat_digits (nat (\<lceil>1 / x\<rceil> - 1)))))"

definition dec_round :: "rat \<Rightarrow> int \<times> int" where
  "dec_round x =
     (let e = dec_exp x; m = round_even (x / 10 powi (e - 16)) in if m = 10 ^ 17 then (10 ^ 16, e + 1) else (m, e))"

definition strip_zeros :: "string \<Rightarrow> string" where
  "strip_zeros s = rev (dropWhile (\<lambda>c. c = CHR ''0'') (rev s))"

definition with_fraction :: "string \<Rightarrow> string \<Rightarrow> string" where
  "with_fraction whole part = (if strip_zeros part = [] then whole else whole @ ''.'' @ strip_zeros part)"

definition fmt_exponent :: "int \<Rightarrow> string" where
  "fmt_exponent e =
     (let ds = nat_digits (nat \<bar>e\<bar>) in ''e'' @ (if e < 0 then ''-'' else ''+'') @ (if length ds < 2 then ''0'' @ ds else ds))"

definition fmt_17g :: "rat \<Rightarrow> string" where
  "fmt_17g x =
     (if x = 0 then ''0''
      else (let (m, e) = dec_round \<bar>x\<bar>; ds = nat_digits (nat m)
            in (if x < 0 then ''-'' else [])
               @ (if e < - 4 \<or> 17 \<le> e then with_fraction (take 1 ds) (drop 1 ds) @ fmt_exponent e
                  else if 0 \<le> e then with_fraction (take (nat e + 1) ds) (drop (nat e + 1) ds)
                  else with_fraction ''0'' (replicate (nat (- e) - 1) (CHR ''0'') @ ds))))"

section \<open>Flags and indentation\<close>

definition json_indent :: "u64 \<Rightarrow> nat" where
  "json_indent flags = unat (flags AND 0xFF)"

definition json_compact :: "u64 \<Rightarrow> bool" where
  "json_compact flags \<longleftrightarrow> flags AND 0x100 \<noteq> 0"

definition json_ensure_ascii :: "u64 \<Rightarrow> bool" where
  "json_ensure_ascii flags \<longleftrightarrow> flags AND 0x200 \<noteq> 0"

definition json_sort_keys :: "u64 \<Rightarrow> bool" where
  "json_sort_keys flags \<longleftrightarrow> flags AND 0x400 \<noteq> 0"

definition json_preserve_order :: "u64 \<Rightarrow> bool" where
  "json_preserve_order flags \<longleftrightarrow> flags AND 0x800 \<noteq> 0"

definition dump_indent :: "u64 \<Rightarrow> nat \<Rightarrow> bool \<Rightarrow> string" where
  "dump_indent flags depth space =
     (if 0 < json_indent flags then CHR 0x0A # concat (replicate depth (replicate (json_indent flags) (CHR '' '')))
      else if space \<and> \<not> json_compact flags then '' '' else [])"

section \<open>Values\<close>

text \<open>Whether writing goes on, and what has been written.\<close>

type_synonym dumped = "bool \<times> string"

definition dump_text :: "string \<Rightarrow> dumped" where
  "dump_text s = (True, s)"

definition dump_then :: "dumped \<Rightarrow> dumped \<Rightarrow> dumped" where
  "dump_then a b = (if fst a then (fst b, snd a @ snd b) else a)"

text \<open>The text of an escaped character.\<close>

definition escape_text :: "int \<Rightarrow> string" where
  "escape_text codepoint =
     (if codepoint = 0x5C then [CHR 0x5C, CHR 0x5C]
      else if codepoint = 0x22 then [CHR 0x5C, CHR 0x22]
      else if codepoint = 0x08 then CHR 0x5C # ''b''
      else if codepoint = 0x0C then CHR 0x5C # ''f''
      else if codepoint = 0x0A then CHR 0x5C # ''n''
      else if codepoint = 0x0D then CHR 0x5C # ''r''
      else if codepoint = 0x09 then CHR 0x5C # ''t''
      else if codepoint < 0x10000 then CHR 0x5C # ''u'' @ fmt_04x codepoint
      else (let codepoint = codepoint - 0x10000
            in CHR 0x5C # ''u'' @ fmt_04x (0xD800 OR drop_bit 10 (codepoint AND 0xFFC00))
               @ CHR 0x5C # ''u'' @ fmt_04x (0xDC00 OR (codepoint AND 0x003FF))))"

definition needs_escape :: "bool \<Rightarrow> int \<Rightarrow> bool" where
  "needs_escape ascii codepoint \<longleftrightarrow> codepoint = 0x5C \<or> codepoint = 0x22 \<or> codepoint < 0x20 \<or> ascii \<and> codepoint > 0x7F"

text \<open>The loops of \<open>dump_string\<close>: \<open>str\<close> is what has been read since the last escape, from \<open>str\<close> to \<open>pos\<close>; a malformed sequence ends them before that is written.\<close>

lemma utf8_iterate_shorter: "utf8_iterate pos = Some (Some v, rest) \<Longrightarrow> length rest < length pos"
  by (auto simp: utf8_iterate_def Let_def split: if_split_asm option.split_asm)

function dump_chars :: "bool \<Rightarrow> byte list \<Rightarrow> byte list \<Rightarrow> dumped" where
  "dump_chars ascii str pos =
     (case utf8_iterate pos of
        None \<Rightarrow> (False, [])
      | Some (None, rest) \<Rightarrow> dump_text (text_of str)
      | Some (Some codepoint, rest) \<Rightarrow>
          if needs_escape ascii codepoint
          then dump_then (dump_text (text_of str @ escape_text codepoint)) (dump_chars ascii [] rest)
          else dump_chars ascii (str @ take (length pos - length rest) pos) rest)"
  by pat_completeness auto
termination by (relation "measure (\<lambda>(ascii, str, pos). length pos)") (auto dest: utf8_iterate_shorter)

declare dump_chars.simps [simp del]

definition dump_string :: "string \<Rightarrow> bool \<Rightarrow> dumped" where
  "dump_string str ascii =
     dump_then (dump_text [CHR 0x22]) (dump_then (dump_chars ascii [] (str_bytes str)) (dump_text [CHR 0x22]))"

definition dump_real :: "rat \<Rightarrow> string" where
  "dump_real r =
     (let buffer = fmt_17g r in if CHR ''.'' \<notin> set buffer \<and> CHR ''e'' \<notin> set buffer then buffer @ ''.0'' else buffer)"

definition dump_order :: "u64 \<Rightarrow> (string \<times> json) list \<Rightarrow> (string \<times> json) list" where
  "dump_order flags ms = (if json_sort_keys flags then sort_key fst ms else ms)"

lemma dump_order_mset [simp]: "mset (dump_order flags ms) = mset ms"
  by (simp add: dump_order_def)

lemma dump_order_size [simp]: "size_list f (dump_order flags ms) = size_list f ms"
proof -
  have "sum_list (map f (dump_order flags ms)) = sum_list (map f ms)"
    by (metis dump_order_mset mset_map sum_mset_sum_list)
  moreover have "length (dump_order flags ms) = length ms" by (simp add: dump_order_def)
  ultimately show ?thesis unfolding size_list_conv_sum_list by (simp add: sum_list_addf sum_list_triv)
qed

text \<open>
  The result of \<open>dump_string\<close> is not looked at when the string is the key of a member: what it has written is followed
  by the separator. \<open>depth\<close> is that of the array or object the elements are in.
\<close>

function (sequential) do_dump :: "u64 \<Rightarrow> nat \<Rightarrow> json \<Rightarrow> dumped"
  and dump_elems :: "u64 \<Rightarrow> nat \<Rightarrow> json list \<Rightarrow> dumped"
  and dump_members :: "u64 \<Rightarrow> nat \<Rightarrow> (string \<times> json) list \<Rightarrow> dumped" where
  "do_dump flags depth JNull = dump_text ''null''"
| "do_dump flags depth JTrue = dump_text ''true''"
| "do_dump flags depth JFalse = dump_text ''false''"
| "do_dump flags depth (JInteger i) = dump_text (fmt_d i)"
| "do_dump flags depth (JReal r) = dump_text (dump_real r)"
| "do_dump flags depth (JString s) = dump_string s (json_ensure_ascii flags)"
| "do_dump flags depth (JArray js) =
     (if js = [] then dump_text ''[]''
      else dump_then (dump_text (''['' @ dump_indent flags (depth + 1) False))
             (dump_then (dump_elems flags depth js) (dump_text '']'')))"
| "do_dump flags depth (JObject ms) =
     (if ms = [] then dump_text ''{}''
      else dump_then (dump_text (''{'' @ dump_indent flags (depth + 1) False))
             (dump_then (dump_members flags depth (dump_order flags ms)) (dump_text ''}'')))"
| "dump_elems flags depth [] = dump_text []"
| "dump_elems flags depth (j # js) =
     dump_then (do_dump flags (depth + 1) j)
       (if js = [] then dump_text (dump_indent flags depth False)
        else dump_then (dump_text ('','' @ dump_indent flags (depth + 1) True)) (dump_elems flags depth js))"
| "dump_members flags depth [] = dump_text []"
| "dump_members flags depth ((key, val) # ms) =
     dump_then (dump_text (snd (dump_string key (json_ensure_ascii flags)) @ (if json_compact flags then '':'' else '': '')))
       (dump_then (do_dump flags (depth + 1) val)
          (if ms = [] then dump_text (dump_indent flags depth False)
           else dump_then (dump_text ('','' @ dump_indent flags (depth + 1) True)) (dump_members flags depth ms)))"
  by pat_completeness auto
termination
  by (relation "measure (\<lambda>x. case x of Inl (f, d, j) \<Rightarrow> size j | Inr (Inl (f, d, js)) \<Rightarrow> size_list size js
      | Inr (Inr (f, d, ms)) \<Rightarrow> size_list (size_prod (\<lambda>x. 0) size) ms)") auto

definition json_dumps :: "json \<Rightarrow> u64 \<Rightarrow> string option" where
  "json_dumps json flags =
     (if json_is_array (Some json) \<or> json_is_object (Some json)
      then (let (ok, text) = do_dump flags 0 json in if ok then Some text else None) else None)"

end
