(* ===== verification/JsonFormat.thy ===== *)
theory JsonFormat
  imports JsonDump JsonTotal Http
begin

text \<open>
  The numbers printed by \<open>JsonDump\<close> read back as themselves: seventeen digits are enough for a \<open>double\<close>.
\<close>

section \<open>Decimal digits\<close>

lemma decimal_snoc: "list_all is_digit s \<Longrightarrow> is_digit c \<Longrightarrow> decimal (s @ [c]) = 10 * decimal s + (of_char c - 48)"
proof -
  assume d: "list_all is_digit s" "is_digit c"
  then have "takeWhile is_digit s = s" "takeWhile is_digit (s @ [c]) = s @ [c]" by (simp_all add: takeWhile_eq_all_conv list_all_iff)
  then show ?thesis unfolding decimal_def by (simp only: foldl_append foldl.simps)
qed

lemma digit_char: "d < 10 \<Longrightarrow> is_digit (char_of (48 + d))" "d < 10 \<Longrightarrow> (of_char (char_of (48 + d) :: char) :: int) = 48 + int d"
proof -
  assume d: "d < 10"
  then have "(of_char (char_of (48 + d) :: char) :: nat) = 48 + d" by (simp add: of_char_of)
  then show "is_digit (char_of (48 + d))" "(of_char (char_of (48 + d) :: char) :: int) = 48 + int d"
    using d of_nat_of_char [of "char_of (48 + d) :: char", where 'a = int] by (simp_all add: is_digit_def)
qed

lemma nat_digits_text: "digits_text (nat_digits n) \<and> decimal (nat_digits n) = int n"
proof (induction n rule: nat_digits.induct)
  case (1 n)
  show ?case
  proof (cases "n < 10")
    case True
    then show ?thesis
      using digit_char [OF True] decimal_snoc [of "[]" "char_of (48 + n)"]
      by (subst (1 2) nat_digits.simps) (simp add: digits_text_def decimal_def)
  next
    case False
    then have IH: "list_all is_digit (nat_digits (n div 10))" "decimal (nat_digits (n div 10)) = int (n div 10)"
      using 1 by (simp_all add: digits_text_def)
    have m: "n mod 10 < 10" by simp
    show ?thesis
      using False IH decimal_snoc [OF IH(1) digit_char(1) [OF m]] digit_char [OF m] zdiv_int [of n 10] zmod_int [of n 10]
      by (subst (1 2) nat_digits.simps) (simp add: digits_text_def)
  qed
qed

lemma nat_digits_length: "0 < n \<Longrightarrow> 10 ^ (length (nat_digits n) - 1) \<le> n \<and> n < 10 ^ length (nat_digits n) \<and> 0 < length (nat_digits n) \<and> hd (nat_digits n) \<noteq> CHR ''0''"
proof (induction n rule: nat_digits.induct)
  case (1 n)
  show ?case
  proof (cases "n < 10")
    case True
    have "char_of (48 + n) \<noteq> CHR ''0''"
    proof
      assume "char_of (48 + n) = CHR ''0''"
      then have "(of_char (char_of (48 + n) :: char) :: nat) = 48" by simp
      then show False using True 1 by (simp add: of_char_of)
    qed
    then show ?thesis using True 1 by (subst (1 2 3 4) nat_digits.simps) simp
  next
    case False
    define k where "k = length (nat_digits (n div 10))"
    have IH: "10 ^ (k - 1) \<le> n div 10 \<and> n div 10 < 10 ^ k \<and> 0 < k \<and> hd (nat_digits (n div 10)) \<noteq> CHR ''0''"
      using 1 False by (simp add: k_def)
    have e: "nat_digits n = nat_digits (n div 10) @ [char_of (48 + n mod 10)]" using False by (subst nat_digits.simps) simp
    have l: "length (nat_digits n) = Suc k" by (simp add: e k_def)
    obtain k' where k': "k = Suc k'" using IH by (cases k) auto
    have "10 ^ k \<le> n" "n < 10 ^ Suc k" using IH unfolding k' by (simp_all add: less_mult_imp_div_less) linarith+
    moreover have "hd (nat_digits n) \<noteq> CHR ''0''" using IH by (auto simp: e k_def)
    ultimately show ?thesis unfolding l by simp
  qed
qed

lemma nat_digits_zero: "nat_digits 0 = ''0''"
  using nat_digits_text [of 0] by (subst nat_digits.simps) (simp add: char_of_def bit_simps)

lemma fmt_d_reads: "int_text (fmt_d i) = Some i"
proof (cases "i < 0")
  case True
  then show ?thesis
    using int_text_shape [of "''-''" "nat_digits (nat (- i))"] nat_digits_text [of "nat (- i)"] by (simp add: fmt_d_def sign_text_def)
next
  case False
  then show ?thesis
    using int_text_shape [of "[]" "nat_digits (nat i)"] nat_digits_text [of "nat i"] by (simp add: fmt_d_def sign_text_def)
qed

section \<open>Seventeen digits\<close>

lemma powi_rat: "(10 :: rat) powi (int n) = of_nat (10 ^ n)"
  by simp

lemma dec_exp_bounds:
  assumes "0 < x"
  shows "10 powi (dec_exp x) \<le> x" "x < 10 powi (dec_exp x + 1)"
proof -
  have "10 powi (dec_exp x) \<le> x \<and> x < 10 powi (dec_exp x + 1)"
  proof (cases "1 \<le> x")
    case True
    define n where "n = nat \<lfloor>x\<rfloor>"
    define k where "k = length (nat_digits n) - 1"
    have n: "rat_of_nat n \<le> x" "x < rat_of_nat (n + 1)" "0 < n"
      using True floor_correct [of x] by (auto simp: n_def)
    have l: "10 ^ k \<le> n" "n + 1 \<le> 10 ^ (k + 1)" "dec_exp x = int k"
    proof -
      have L: "10 ^ (length (nat_digits n) - 1) \<le> n" "n < 10 ^ length (nat_digits n)" "0 < length (nat_digits n)" using nat_digits_length [OF n(3)] by blast+
      have "length (nat_digits n) = k + 1" using L(3) by (simp add: k_def)
      then show "10 ^ k \<le> n" "n + 1 \<le> 10 ^ (k + 1)" "dec_exp x = int k" using L True by (simp_all add: dec_exp_def n_def [symmetric])
    qed
    have "rat_of_nat (10 ^ k) \<le> x" "x < rat_of_nat (10 ^ (k + 1))"
      using n(1,2) of_nat_mono [OF l(1), where 'a = rat] of_nat_mono [OF l(2), where 'a = rat] by linarith+
    moreover have "(10 :: rat) powi int k = of_nat (10 ^ k)" "(10 :: rat) powi (int k + 1) = of_nat (10 ^ (k + 1))"
      by (simp_all add: power_int_add)
    ultimately show ?thesis unfolding l(3) by simp
  next
    case False
    define n where "n = nat (\<lceil>1 / x\<rceil> - 1)"
    define k where "k = length (nat_digits n)"
    have x: "1 < 1 / x" using False assms by simp
    then have "1 < \<lceil>1 / x\<rceil>" by linarith
    then have "int n = \<lceil>1 / x\<rceil> - 1" "0 < n" unfolding n_def by linarith+
    moreover from this(1) have "rat_of_int (int n) = rat_of_int (\<lceil>1 / x\<rceil> - 1)" by (rule arg_cong)
    ultimately have n: "rat_of_nat n < 1 / x" "1 / x \<le> rat_of_nat (n + 1)" "0 < n"
      using ceiling_correct [of "1 / x"] by simp_all
    have l: "10 ^ (k - 1) \<le> n" "n + 1 \<le> 10 ^ k" "0 < k" "dec_exp x = - int k"
    proof -
      have L: "10 ^ (length (nat_digits n) - 1) \<le> n" "n < 10 ^ length (nat_digits n)" "0 < length (nat_digits n)" using nat_digits_length [OF n(3)] by blast+
      show "10 ^ (k - 1) \<le> n" "n + 1 \<le> 10 ^ k" "0 < k" "dec_exp x = - int k"
        using L False by (simp_all only: k_def dec_exp_def n_def [symmetric] if_False)
    qed
    have "rat_of_nat (10 ^ (k - 1)) < 1 / x" "1 / x \<le> rat_of_nat (10 ^ k)"
      using n(1,2) of_nat_mono [OF l(1), where 'a = rat] of_nat_mono [OF l(2), where 'a = rat] by linarith+
    then have "x * 10 ^ (k - 1) < 1" "1 \<le> x * 10 ^ k" using assms by (simp_all add: field_simps)
    moreover have "(10 :: rat) powi (- int k) = 1 / 10 ^ k" "(10 :: rat) powi (- int k + 1) = 1 / 10 ^ (k - 1)"
    proof -
      obtain j where j: "k = Suc j" using l(3) by (cases k) auto
      show "(10 :: rat) powi (- int k) = 1 / 10 ^ k" by (simp add: power_int_minus inverse_eq_divide)
      have "- int k + 1 = - int j" by (simp add: j)
      then show "(10 :: rat) powi (- int k + 1) = 1 / 10 ^ (k - 1)" by (simp only: power_int_minus) (simp add: j inverse_eq_divide)
    qed
    ultimately show ?thesis unfolding l(4) by (simp only:) (simp add: divide_le_eq less_divide_eq)
  qed
  then show "10 powi (dec_exp x) \<le> x" "x < 10 powi (dec_exp x + 1)" by auto
qed


lemma dec_round_value:
  assumes "dec_round x = (m, e)"
  shows "of_int m * 10 powi (e - 16) = rat_of_int (round_even (x / 10 powi (dec_exp x - 16))) * 10 powi (dec_exp x - 16)"
proof -
  have "(10 :: rat) powi (dec_exp x + 1 - 16) = 10 * 10 powi (dec_exp x - 16)"
    using power_int_add [of "10 :: rat" "dec_exp x - 16" 1] by (simp add: algebra_simps)
  then show ?thesis using assms by (auto simp: dec_round_def Let_def split: if_split_asm)
qed

lemma dec_round_error:
  assumes "0 < x" "dec_round x = (m, e)"
  shows "10 ^ 16 \<le> m" "m < 10 ^ 17" "\<bar>of_int m * 10 powi (e - 16) - x\<bar> \<le> 10 powi (dec_exp x - 16) / 2"
proof -
  define d where "d = dec_exp x"
  define s where "s = (10 :: rat) powi (d - 16)"
  define r where "r = round_even (x / s)"
  have s: "0 < s" by (simp add: s_def)
  have "(10 :: rat) powi d = s * 10 ^ 16" "(10 :: rat) powi (d + 1) = s * 10 ^ 17"
    using power_int_add [of "10 :: rat" "d - 16" 16] power_int_add [of "10 :: rat" "d - 16" 17] by (simp_all add: s_def add.commute)
  then have B: "10 ^ 16 \<le> x / s" "x / s < 10 ^ 17"
    using dec_exp_bounds [OF assms(1), folded d_def] s by (simp_all add: field_simps)
  have err: "\<bar>of_int r - x / s\<bar> \<le> 1 / 2" unfolding r_def by (rule round_even_error)
  have "10 ^ 16 - 1 < rat_of_int r" "rat_of_int r < 10 ^ 17 + 1" using B err unfolding abs_le_iff by linarith+
  then have "rat_of_int (10 ^ 16 - 1) < rat_of_int r" "rat_of_int r < rat_of_int (10 ^ 17 + 1)" by simp_all
  then have r: "10 ^ 16 \<le> r" "r \<le> 10 ^ 17" unfolding of_int_less_iff by linarith+
  have me: "(m, e) = (if r = 10 ^ 17 then (10 ^ 16, d + 1) else (r, d))"
    using assms(2) unfolding dec_round_def Let_def d_def [symmetric] s_def [symmetric] r_def [symmetric] by simp
  then show "10 ^ 16 \<le> m" "m < 10 ^ 17" using r by (auto split: if_split_asm)
  have "of_int m * 10 powi (e - 16) = of_int r * s"
    using dec_round_value [OF assms(2)] by (simp only: r_def s_def d_def)
  moreover have "of_int r * s - x = (of_int r - x / s) * s" using s by (simp add: left_diff_distrib)
  ultimately show "\<bar>of_int m * 10 powi (e - 16) - x\<bar> \<le> 10 powi (dec_exp x - 16) / 2"
    using mult_right_mono [OF err, of s] s by (simp add: abs_mult s_def d_def)
qed

text \<open>The number a text of seventeen digits stands for.\<close>

definition dec_value :: "rat \<Rightarrow> rat" where
  "dec_value x = (if x = 0 then 0 else (let (m, e) = dec_round \<bar>x\<bar> in sgn x * of_int m * 10 powi (e - 16)))"

lemma decimal_zeros: "list_all is_digit (s @ replicate n (CHR ''0''))  \<Longrightarrow> decimal (s @ replicate n (CHR ''0'')) = decimal s * 10 ^ n"
proof (induction n)
  case (Suc n)
  have d: "is_digit (CHR ''0'')" by (simp add: is_digit_def)
  have "list_all is_digit (s @ replicate n (CHR ''0''))" using Suc.prems by simp
  then show ?case using Suc.IH decimal_snoc [of "s @ replicate n (CHR ''0'')" "CHR ''0''"] d
    by (simp add: replicate_append_same)
qed simp

lemma strip_zeros_shape: "\<exists>n. s = strip_zeros s @ replicate n (CHR ''0'')"
proof (intro exI)
  have "rev s = takeWhile (\<lambda>c. c = CHR ''0'') (rev s) @ dropWhile (\<lambda>c. c = CHR ''0'') (rev s)" by simp
  moreover have "takeWhile (\<lambda>c. c = CHR ''0'') (rev s) = replicate (length (takeWhile (\<lambda>c. c = CHR ''0'') (rev s))) (CHR ''0'')"
    by (intro replicate_eqI) (auto dest: set_takeWhileD)
  ultimately have "rev s = replicate (length (takeWhile (\<lambda>c. c = CHR ''0'') (rev s))) (CHR ''0'') @ dropWhile (\<lambda>c. c = CHR ''0'') (rev s)" by metis
  then have "rev (rev s) = rev (replicate (length (takeWhile (\<lambda>c. c = CHR ''0'') (rev s))) (CHR ''0'') @ dropWhile (\<lambda>c. c = CHR ''0'') (rev s))" by (rule arg_cong)
  then show "s = strip_zeros s @ replicate (length (takeWhile (\<lambda>c. c = CHR ''0'') (rev s))) (CHR ''0'')"
    by (simp add: strip_zeros_def)
qed

lemma decimal_lead: "decimal (CHR ''0'' # s) = decimal s"
  by (simp add: decimal_def is_digit_def)

lemma decimal_lead_zeros: "decimal (replicate n (CHR ''0'') @ s) = decimal s"
  by (induction n) (simp_all add: decimal_lead)

text \<open>A whole part, a fraction without its zeros, and an exponent.\<close>

lemma with_fraction_shape:
  assumes "digits_text w" "list_all is_digit p"
  shows "\<exists>fs. with_fraction w p = w @ fs \<and> fraction_shape fs \<and> fs \<noteq> ''.''
    \<and> rat_of_int (decimal (w @ tl fs)) * 10 powi (e - int (length (tl fs))) = of_int (decimal (w @ p)) * 10 powi (e - int (length p))"
proof -
  obtain n where n: "p = strip_zeros p @ replicate n (CHR ''0'')" using strip_zeros_shape by blast
  define q where "q = strip_zeros p"
  have l: "length p = length q + n" unfolding q_def by (subst n) simp
  have "list_all is_digit (w @ p)" using assms by (simp add: digits_text_def)
  then have "decimal (w @ p) = decimal (w @ q) * 10 ^ n"
    using decimal_zeros [of "w @ q" n] n by (simp add: q_def)
  moreover have "(10 :: rat) powi (e - int (length q)) = 10 ^ n * 10 powi (e - int (length p))"
    using power_int_add [of "10 :: rat" "e - int (length p)" "int n"] by (simp add: l algebra_simps)
  ultimately have v: "rat_of_int (decimal (w @ q)) * 10 powi (e - int (length q)) = of_int (decimal (w @ p)) * 10 powi (e - int (length p))"
    by simp
  have "list_all is_digit q" using assms(2) by (subst (asm) n) (simp add: q_def)
  then show ?thesis
    using v by (intro exI [of _ "if q = [] then [] else CHR ''.'' # q"])
      (auto simp: with_fraction_def fraction_shape_def q_def [symmetric])
qed


lemma fmt_exponent_shape: "exponent_shape (fmt_exponent e) \<and> hd (fmt_exponent e) = CHR ''e'' \<and> fmt_exponent e \<noteq> [] \<and> exponent_text (fmt_exponent e) = Some e"
proof -
  define ds where "ds = (if length (nat_digits (nat \<bar>e\<bar>)) < 2 then CHR ''0'' # nat_digits (nat \<bar>e\<bar>) else nat_digits (nat \<bar>e\<bar>))"
  define sg where "sg = (if e < 0 then ''-'' else ''+'')"
  have f: "fmt_exponent e = CHR ''e'' # sg @ ds" by (simp add: fmt_exponent_def ds_def sg_def Let_def)
  have d: "digits_text ds" "decimal ds = \<bar>e\<bar>"
    using nat_digits_text [of "nat \<bar>e\<bar>"] by (auto simp: ds_def digits_text_def decimal_lead is_digit_def [of "CHR ''0''"])
  have "exponent_shape (fmt_exponent e)" unfolding exponent_shape_def f using d(1)
    by (intro disjI2 exI [of _ "CHR ''e''"] exI [of _ sg] exI [of _ ds]) (simp add: sg_def)
  moreover have "exponent_text (fmt_exponent e) = Some e"
    using int_text_shape [of "[]" ds] int_text_shape [of "''-''" ds] d digits_first [OF d(1)]
    by (auto simp: f exponent_text_def sg_def sign_text_def)
  ultimately show ?thesis by (simp add: f)
qed

text \<open>The texts of real numbers in the grammar, with the number they stand for.\<close>

definition real_shape :: "string \<Rightarrow> string \<Rightarrow> string \<Rightarrow> string \<Rightarrow> rat \<Rightarrow> bool" where
  "real_shape sg ds fs es v \<longleftrightarrow> sign_text sg \<and> digits_text ds \<and> (hd ds = CHR ''0'' \<longrightarrow> ds = ''0'') \<and> fraction_shape fs \<and> fs \<noteq> ''.''
     \<and> exponent_shape es \<and> (es = [] \<or> hd es = CHR ''e'') \<and> real_text (sg @ ds @ fs @ es) = Some v"

lemma real_shapeI:
  assumes "sign_text sg" "digits_text w" "list_all is_digit p" "hd w = CHR ''0'' \<longrightarrow> w = ''0''"
    and "exponent_shape es" "es = [] \<or> hd es = CHR ''e''" "exponent_text es = Some e"
  shows "\<exists>fs. with_fraction w p = w @ fs
    \<and> real_shape sg w fs es ((if sg = [] then 1 else - 1) * of_int (decimal (w @ p)) * 10 powi (e - int (length p)))"
proof -
  obtain fs where fs: "with_fraction w p = w @ fs" "fraction_shape fs" "fs \<noteq> ''.''"
    "rat_of_int (decimal (w @ tl fs)) * 10 powi (e - int (length (tl fs))) = of_int (decimal (w @ p)) * 10 powi (e - int (length p))"
    using with_fraction_shape [OF assms(2,3)] by blast
  then show ?thesis
    using assms real_text_shape [OF assms(1,2) fs(2) assms(5)] by (intro exI [of _ fs]) (simp add: real_shape_def mult.assoc)
qed

lemma digits_text_length:
  assumes "10 ^ 16 \<le> m" "m < 10 ^ 17"
  shows "length (nat_digits (nat m)) = 17" "hd (nat_digits (nat m)) \<noteq> CHR ''0''" "decimal (nat_digits (nat m)) = m"
    "list_all is_digit (nat_digits (nat m))"
proof -
  define l where "l = length (nat_digits (nat m))"
  have m: "0 < nat m" using assms(1) by simp
  have L: "10 ^ (l - 1) \<le> nat m" "nat m < 10 ^ l" "0 < l" "hd (nat_digits (nat m)) \<noteq> CHR ''0''"
    using nat_digits_length [OF m] by (auto simp: l_def)
  have b: "10 ^ 16 \<le> nat m" "nat m < 10 ^ 17" using assms by (simp_all add: le_nat_iff nat_less_iff)
  have "(10 :: nat) ^ (l - 1) < 10 ^ 17" "(10 :: nat) ^ 16 < 10 ^ l" using L(1,2) b by linarith+
  then have "l - 1 < 17" "16 < l" by (simp_all only: power_strict_increasing_iff one_less_numeral_iff semiring_norm)
  then show "length (nat_digits (nat m)) = 17" by (simp add: l_def)
  show "hd (nat_digits (nat m)) \<noteq> CHR ''0''" by (rule L(4))
  show "decimal (nat_digits (nat m)) = m" "list_all is_digit (nat_digits (nat m))"
    using nat_digits_text [of "nat m"] m by (simp_all add: digits_text_def)
qed

lemma fmt_17g_shape: "\<exists>sg ds fs es. fmt_17g x = sg @ ds @ fs @ es \<and> real_shape sg ds fs es (dec_value x)"
proof (cases "x = 0")
  case True
  have "real_text ''0'' = Some 0" using real_text_shape [of "[]" "''0''" "[]" "[]"]
    by (simp add: sign_text_def digits_text_def is_digit_def fraction_shape_def exponent_shape_def exponent_text_def decimal_def)
  then show ?thesis
    using True by (intro exI [of _ "[]"] exI [of _ "''0''"])
      (simp add: fmt_17g_def real_shape_def dec_value_def sign_text_def digits_text_def is_digit_def fraction_shape_def exponent_shape_def)
next
  case False
  obtain m e where me: "dec_round \<bar>x\<bar> = (m, e)" by fastforce
  define ds where "ds = nat_digits (nat m)"
  define sg where "sg = (if x < 0 then ''-'' else [])"
  have "0 < \<bar>x\<bar>" using False by simp
  note E = dec_round_error(1,2) [OF this me]
  note D = digits_text_length [OF E, folded ds_def]
  have sg: "sign_text sg" "(if sg = [] then 1 else - 1 :: rat) = sgn x" using False by (auto simp: sg_def sign_text_def sgn_if)
  have v: "dec_value x = sgn x * of_int m * 10 powi (e - 16)" using False me by (simp add: dec_value_def)
  have nil: "exponent_shape []" "exponent_text [] = Some 0" by (simp_all add: exponent_shape_def exponent_text_def)
  have dt: "digits_text (take (Suc n) ds)" "list_all is_digit (drop (Suc n) ds)" "hd (take (Suc n) ds) \<noteq> CHR ''0''" for n
  proof -
    obtain c cs where "ds = c # cs" using D(1) by (cases ds) auto
    then show "digits_text (take (Suc n) ds)" "hd (take (Suc n) ds) \<noteq> CHR ''0''" using D(2,4)
      by (auto simp: digits_text_def list_all_iff dest: in_set_takeD)
    show "list_all is_digit (drop (Suc n) ds)" using D(4) by (auto simp: list_all_iff dest: in_set_dropD)
  qed
  have split: "decimal (take n ds @ drop n ds) = m" for n using D(3) by simp
  consider "e < - 4 \<or> 17 \<le> e" | "0 \<le> e" "e < 17" | "- 4 \<le> e" "e < 0" by linarith
  then show ?thesis
  proof cases
    case 1
    have "fmt_17g x = sg @ with_fraction (take 1 ds) (drop 1 ds) @ fmt_exponent e"
      using False me 1 by (auto simp: fmt_17g_def sg_def ds_def Let_def)
    moreover have "(if sg = [] then 1 else - 1) * of_int (decimal (take 1 ds @ drop 1 ds)) * 10 powi (e - int (length (drop 1 ds))) = dec_value x"
      unfolding split sg(2) v using D(1) by simp
    ultimately show ?thesis
      using real_shapeI [OF sg(1) dt(1) [of 0] dt(2) [of 0], of "fmt_exponent e" e] dt(3) [of 0] fmt_exponent_shape [of e]
      by (metis One_nat_def append.assoc)
  next
    case 2
    define k where "k = nat e"
    have "fmt_17g x = sg @ with_fraction (take (Suc k) ds) (drop (Suc k) ds)"
      using False me 2 by (auto simp: fmt_17g_def sg_def ds_def Let_def k_def)
    moreover have "0 - int (length (drop (Suc k) ds)) = e - 16" using D(1) 2 by (simp add: k_def)
    then have "(if sg = [] then 1 else - 1) * of_int (decimal (take (Suc k) ds @ drop (Suc k) ds)) * 10 powi (0 - int (length (drop (Suc k) ds))) = dec_value x"
      unfolding split sg(2) v by simp
    ultimately show ?thesis
      using real_shapeI [OF sg(1) dt(1) [of k] dt(2) [of k] _ nil(1) _ nil(2)] dt(3) [of k] by (metis append.right_neutral)
  next
    case 3
    define p where "p = replicate (nat (- e) - 1) (CHR ''0'') @ ds"
    have "fmt_17g x = sg @ with_fraction ''0'' p"
      using False me 3 by (auto simp: fmt_17g_def sg_def ds_def Let_def p_def)
    moreover have "0 - int (length p) = e - 16" using D(1) 3 by (simp add: p_def)
    then have "(if sg = [] then 1 else - 1) * of_int (decimal (''0'' @ p)) * 10 powi (0 - int (length p)) = dec_value x"
      unfolding sg(2) v p_def append_Cons append_Nil decimal_lead decimal_lead_zeros D(3) by simp
    moreover have "digits_text ''0''" "list_all is_digit p" using D(4) by (auto simp: digits_text_def is_digit_def p_def list_all_iff)
    ultimately show ?thesis
      using real_shapeI [OF sg(1) _ _ _ nil(1) _ nil(2), of "''0''" p] by (metis append.right_neutral)
  qed
qed

lemma dump_real_shape: "\<exists>sg ds fs es. dump_real x = sg @ ds @ fs @ es \<and> real_shape sg ds fs es (dec_value x) \<and> (fs \<noteq> [] \<or> es \<noteq> [])"
proof -
  obtain sg ds fs es where s: "fmt_17g x = sg @ ds @ fs @ es" "real_shape sg ds fs es (dec_value x)" using fmt_17g_shape by blast
  note S = s(2) [unfolded real_shape_def]
  show ?thesis
  proof (cases "fs = [] \<and> es = []")
    case False
    then have "CHR ''.'' \<in> set (fmt_17g x) \<or> CHR ''e'' \<in> set (fmt_17g x)"
      using S s(1) by (cases es) (auto simp: fraction_shape_def)
    then have "dump_real x = fmt_17g x" by (auto simp: dump_real_def Let_def)
    then show ?thesis using s False by auto
  next
    case True
    have "c \<noteq> CHR ''.'' \<and> c \<noteq> CHR ''e''" if "c \<in> set (sg @ ds)" for c
      using S that by (auto simp: sign_text_def digits_text_def list_all_iff is_digit_def)
    then have "CHR ''.'' \<notin> set (fmt_17g x)" "CHR ''e'' \<notin> set (fmt_17g x)" using s(1) True by auto
    then have d: "dump_real x = sg @ ds @ ''.0'' @ []" using s(1) True by (simp add: dump_real_def Let_def)
    have fs: "fraction_shape ''.0''" "fraction_shape []" "exponent_shape []" "exponent_text [] = Some 0"
      by (simp_all add: fraction_shape_def exponent_shape_def exponent_text_def is_digit_def)
    have "decimal (ds @ ''0'') = 10 * decimal ds" using S decimal_snoc [of ds "CHR ''0''"] by (simp add: digits_text_def is_digit_def)
    then have "real_text (sg @ ds @ ''.0'' @ []) = real_text (sg @ ds @ [] @ [])"
      using real_text_shape [OF _ _ fs(1,3), of sg ds] real_text_shape [OF _ _ fs(2,3), of sg ds] S fs(4) by simp
    then have "real_shape sg ds ''.0'' [] (dec_value x)" using S True fs by (simp add: real_shape_def)
    then show ?thesis using d by blast
  qed
qed

end
