(* ===== verification/JsonReal.thy ===== *)
theory JsonReal
  imports JsonFormat
begin

lemma round_even_near: "\<bar>y - of_int k\<bar> < 1 / 2 \<Longrightarrow> round_even y = k"
proof -
  assume "\<bar>y - of_int k\<bar> < 1 / 2"
  then have "\<bar>rat_of_int (round_even y) - of_int k\<bar> < 1" using round_even_error [of y] unfolding abs_less_iff abs_le_iff by linarith
  then have "\<bar>rat_of_int (round_even y - k)\<bar> < 1" by simp
  then have "rat_of_int \<bar>round_even y - k\<bar> < rat_of_int 1" by simp
  then show ?thesis unfolding of_int_less_iff by simp
qed

lemma dbl_grid:
  assumes "0 < x" "dbl x = x"
  obtains M where "x = of_int M * 2 powi dbl_exp x" "2 ^ 52 \<le> M" "M < 2 ^ 53"
proof -
  define s where "s = (2 :: rat) powi dbl_exp x"
  have s: "0 < s" by (simp add: s_def)
  define M where "M = round_even (x / s)"
  have x: "x = of_int M * s" using assms by (simp add: dbl_def Let_def s_def M_def)
  have "2 powi (dbl_exp x + 52) = 2 ^ 52 * s" "2 powi (dbl_exp x + 53) = 2 ^ 53 * s"
    unfolding s_def by (simp_all add: power_int_add)
  then have "2 ^ 52 * s \<le> of_int M * s" "of_int M * s < 2 ^ 53 * s" using dbl_exp_bounds [OF assms(1)] x by simp_all
  then have "rat_of_int (2 ^ 52) \<le> of_int M" "rat_of_int M < of_int (2 ^ 53)" using s by simp_all
  then have "2 ^ 52 \<le> M" "M < 2 ^ 53" by (simp_all only: of_int_le_iff of_int_less_iff)
  then show ?thesis by (rule that [OF x [unfolded s_def]])
qed

lemma dbl_of_near:
  assumes "2 powi (e + 52) \<le> y" "y < 2 powi (e + 53)" "\<bar>y - of_int k * 2 powi e\<bar> < 2 powi e / 2"
  shows "dbl y = of_int k * 2 powi e"
proof -
  have e: "dbl_exp y = e" using assms(1,2) by (rule dbl_exp_unique)
  have y: "0 < y" using assms(1) by (rule less_le_trans [rotated]) simp
  define s where "s = (2 :: rat) powi e"
  have s: "0 < s" by (simp add: s_def)
  have "y / s - of_int k = (y - of_int k * s) / s" using s by (simp add: diff_divide_distrib)
  then have "\<bar>y / s - of_int k\<bar> < 1 / 2" using assms(3) s by (simp add: abs_divide s_def [symmetric] divide_less_eq)
  then have "round_even (y / s) = k" by (rule round_even_near)
  then show ?thesis using y by (simp add: dbl_def Let_def e s_def)
qed

text \<open>Seventeen digits tell a \<open>double\<close> from its neighbours.\<close>

lemma dbl_nearest:
  assumes "0 < x" "dbl x = x" "\<bar>y - x\<bar> \<le> 10 powi (dec_exp x - 16) / 2"
  shows "dbl y = x"
proof -
  define e where "e = dbl_exp x"
  define s where "s = (2 :: rat) powi e"
  have s: "0 < s" by (simp add: s_def)
  obtain M where M: "x = of_int M * s" "2 ^ 52 \<le> M" "M < 2 ^ 53" using dbl_grid [OF assms(1,2)] by (auto simp: s_def e_def)
  have p: "2 powi (e + 52) = 2 ^ 52 * s" "2 powi (e + 53) = 2 ^ 53 * s" by (simp_all add: s_def power_int_add)
  have "(10 :: rat) powi (dec_exp x - 16) = 10 powi dec_exp x / 10 ^ 16" by (simp add: power_int_diff)
  then have err: "\<bar>y - x\<bar> \<le> x / 10 ^ 16 / 2" using assms(3) dec_exp_bounds(1) [OF assms(1)] by simp
  have "x < 2 ^ 53 * s" using M(1,3) s of_int_less_iff [of M "2 ^ 53", where 'a = rat] by simp
  then have d: "\<bar>y - x\<bar> < s / 2" using err s by simp
  show ?thesis
  proof (cases "2 powi (e + 52) \<le> y")
    case True
    have "M \<le> 2 ^ 53 - 1" using M(3) by simp
    then have "rat_of_int M \<le> of_int (2 ^ 53 - 1)" unfolding of_int_le_iff .
    then have "x \<le> (2 ^ 53 - 1) * s" unfolding M(1) using s by (intro mult_right_mono) simp_all
    then have "x \<le> 2 ^ 53 * s - s" by (simp only: left_diff_distrib mult_1_left)
    then have "y < 2 powi (e + 53)" using d s unfolding p abs_less_iff by linarith
    then show ?thesis using dbl_of_near [OF True, of M] d M(1) by (simp add: s_def)
  next
    case False
    have "\<not> 2 ^ 52 + 1 \<le> M"
    proof
      assume "2 ^ 52 + 1 \<le> M"
      then have "rat_of_int (2 ^ 52 + 1) \<le> of_int M" unfolding of_int_le_iff .
      then have "(2 ^ 52 + 1) * s \<le> x" unfolding M(1) using s by (intro mult_right_mono) simp_all
      then show False using False d s unfolding p by (simp add: distrib_right abs_less_iff)
    qed
    then have x: "x = 2 ^ 52 * s" using M by (simp add: order_antisym)
    define t where "t = (2 :: rat) powi (e - 1)"
    have "(2 :: rat) powi (e - 1 + 1) = 2 powi (e - 1) * 2" by (subst power_int_add_1) simp_all
    then have t: "s = 2 * t" unfolding s_def t_def by (simp only: diff_add_cancel mult.commute)
    have "0 < t" by (simp add: t_def)
    note t = t this
    have q: "2 powi (e - 1 + 52) = 2 ^ 52 * t" "2 powi (e - 1 + 53) = 2 ^ 53 * t"
      using power_int_add [of "2 :: rat" "e - 1" 52] power_int_add [of "2 :: rat" "e - 1" 53] by (simp_all add: t_def mult.commute)
    have d: "\<bar>y - x\<bar> < t / 2" using err x t by simp
    have "dbl y = of_int (2 ^ 53) * 2 powi (e - 1)"
    proof (rule dbl_of_near)
      show "2 powi (e - 1 + 52) \<le> y" using abs_less_iff [THEN iffD1, OF d, THEN conjunct2] x t unfolding q by simp
      show "y < 2 powi (e - 1 + 53)" using False t unfolding p q by simp
      show "\<bar>y - of_int (2 ^ 53) * 2 powi (e - 1)\<bar> < 2 powi (e - 1) / 2" using d x t by (simp add: t_def)
    qed
    then show ?thesis using x t by (simp add: t_def)
  qed
qed

lemma dbl_minus: "dbl (- x) = - dbl x"
  by (simp add: dbl_def Let_def sgn_minus)

text \<open>Zero and the \<open>double\<close>s whose significand has 53 bits.\<close>

definition normal_double :: "rat \<Rightarrow> bool" where
  "normal_double x \<longleftrightarrow> x = 0 \<or> dbl x = x \<and> 2 powi (- 1022) \<le> \<bar>x\<bar> \<and> \<bar>x\<bar> < 2 powi 1024"

lemma dec_exp_unique:
  assumes "10 powi d \<le> x" "x < 10 powi (d + 1)"
  shows "dec_exp x = d"
proof -
  have "0 < x" using assms(1) by (rule less_le_trans [rotated]) simp
  note B = dec_exp_bounds [OF this]
  have "\<not> d < dec_exp x"
  proof
    assume "d < dec_exp x"
    then have "(10 :: rat) powi (d + 1) \<le> 10 powi dec_exp x" by (intro power_int_increasing) auto
    then show False using assms(2) B(1) by linarith
  qed
  moreover have "\<not> dec_exp x < d"
  proof
    assume "dec_exp x < d"
    then have "(10 :: rat) powi (dec_exp x + 1) \<le> 10 powi d" by (intro power_int_increasing) auto
    then show False using assms(1) B(2) by linarith
  qed
  ultimately show ?thesis by linarith
qed

text \<open>The least of them is not printed as a smaller number.\<close>

lemma least_normal:
  assumes "dec_round (2 powi (- 1022)) = (m, e)"
  shows "2 powi (- 1022) \<le> rat_of_int m * 10 powi (e - 16)"
proof -
  have inv: "(b :: rat) powi (- int n) = 1 / b ^ n" for b n by (simp add: power_int_minus inverse_eq_divide)
  define x where "x = (2 :: rat) powi (- 1022)"
  have x: "x = 1 / 2 ^ 1022" using inv [of 2 1022] by (simp add: x_def)
  have p: "(10 :: rat) powi (- 308) = 1 / 10 ^ 308" "(10 :: rat) powi (- 308 + 1) = 1 / 10 ^ 307" "(10 :: rat) powi (- 324) = 1 / 10 ^ 324"
    using inv [of 10 308] inv [of 10 307] inv [of 10 324] by (simp_all only: of_nat_numeral) simp_all
  have "dec_exp x = - 308"
    by (rule dec_exp_unique; simp only: p x; simp add: divide_le_eq le_divide_eq divide_less_eq less_divide_eq)
  then have d: "dec_exp x - 16 = - 324" by simp
  define t where "t = (10 :: rat) powi (- 324)"
  have t: "t = 1 / 10 ^ 324" using p(3) by (simp only: t_def)
  have "0 < t" by (simp add: t_def)
  define r where "r = round_even (x / t)"
  have y: "22250738585072013 + 1 / 2 < x / t" "x / t \<le> 22250738585072014"
    by (simp_all only: x t; simp add: divide_le_eq le_divide_eq divide_less_eq less_divide_eq)+
  have "22250738585072013 < rat_of_int r" using y(1) round_even_error [of "x / t"] unfolding r_def abs_le_iff by linarith
  then have "rat_of_int 22250738585072013 < rat_of_int r" by simp
  then have "22250738585072013 < r" by (simp only: of_int_less_iff)
  then have "rat_of_int 22250738585072014 \<le> rat_of_int r" unfolding of_int_le_iff by simp
  then have "x / t \<le> of_int r" using y(2) by simp
  then have "x \<le> of_int r * t" using \<open>0 < t\<close> by (simp add: divide_le_eq)
  moreover have "of_int m * 10 powi (e - 16) = of_int r * t"
    using dec_round_value [OF assms [folded x_def]] unfolding d t_def [symmetric] r_def [symmetric] .
  ultimately show ?thesis by (simp only: x_def)
qed


lemma dec_value_near:
  assumes "0 < x"
  shows "\<bar>dec_value x - x\<bar> \<le> 10 powi (dec_exp x - 16) / 2"
proof -
  obtain m e where me: "dec_round x = (m, e)" by fastforce
  then show ?thesis using dec_round_error(3) [OF assms me] assms by (simp add: dec_value_def)
qed

lemma dec_value_minus: "dec_value (- x) = - dec_value x"
  by (simp add: dec_value_def sgn_minus split: prod.splits)

lemma strtod_minus: "strtod (- x) = (let (v, range) = strtod x in (- v, range))"
  by (simp add: strtod_def Let_def sgn_minus dbl_minus)

lemma above_least:
  assumes "0 < x" "dbl x = x" "2 ^ 52 * 2 powi (- 1074) < x"
  shows "(2 ^ 52 + 1) * 2 powi (- 1074) \<le> x"
proof -
  define e u where "e = dbl_exp x" and "u = (2 :: rat) powi (- 1074)"
  have u: "0 < u" by (simp add: u_def)
  obtain M where M: "x = of_int M * 2 powi e" "2 ^ 52 \<le> M" "M < 2 ^ 53" using dbl_grid [OF assms(1,2)] by (auto simp: e_def)
  have r: "2 ^ 52 \<le> rat_of_int M" "rat_of_int M < 2 ^ 53"
    using M(2,3) of_int_le_iff [of "2 ^ 52" M, where 'a = rat] of_int_less_iff [of M "2 ^ 53", where 'a = rat] by simp_all
  have g: "(2 :: rat) powi (- 1074) = 2 powi (- 1075) * 2 powi 1" "(2 :: rat) powi (- 1073) = 2 powi (- 1074) * 2 powi 1"
    by (subst power_int_add [symmetric]; simp)+
  consider "e < - 1074" | "e = - 1074" | "- 1074 < e" by linarith
  then show ?thesis
  proof cases
    case 1
    then have "(2 :: rat) powi e \<le> 2 powi (- 1075)" by (intro power_int_increasing) auto
    then have "2 powi e \<le> u / 2" using g(1) by (simp add: u_def)
    then have "of_int M * 2 powi e \<le> 2 ^ 53 * (u / 2)" using r u by (intro mult_mono) simp_all
    then show ?thesis using assms(3) M(1) by (simp add: u_def)
  next
    case 2
    then have "2 ^ 52 * u < of_int M * u" using assms(3) M(1) by (simp add: u_def)
    then have "rat_of_int (2 ^ 52) < of_int M" using u by simp
    then have "2 ^ 52 + 1 \<le> M" by (simp only: of_int_less_iff)
    then have "rat_of_int (2 ^ 52 + 1) \<le> of_int M" unfolding of_int_le_iff .
    then have "(2 ^ 52 + 1) * u \<le> of_int M * u" using u by (intro mult_right_mono) simp_all
    then show ?thesis using M(1) 2 by (simp add: u_def)
  next
    case 3
    then have "(2 :: rat) powi (- 1073) \<le> 2 powi e" by (intro power_int_increasing) auto
    then have "2 * u \<le> 2 powi e" using g(2) by (simp add: u_def)
    then have "2 ^ 52 * (2 * u) \<le> of_int M * 2 powi e" using r u by (intro mult_mono) simp_all
    then show ?thesis using M(1) u by (simp add: u_def)
  qed
qed

lemma strtod_positive:
  assumes "0 < x" "normal_double x"
  shows "strtod (dec_value x) = (x, False)"
proof -
  have n: "dbl x = x" "2 powi (- 1022) \<le> x" "x < 2 powi 1024" using assms by (simp_all add: normal_double_def)
  have d: "dbl (dec_value x) = x" using dbl_nearest [OF assms(1) n(1) dec_value_near [OF assms(1)]] .
  obtain m e where me: "dec_round x = (m, e)" by fastforce
  have v: "dec_value x = of_int m * 10 powi (e - 16)" using assms(1) me by (simp add: dec_value_def)
  have "0 < m" using dec_round_error(1) [OF assms(1) me] by simp
  then have pos: "0 < dec_value x" unfolding v by simp
  have "2 powi (- 1022) \<le> dec_value x"
  proof (cases "x = 2 powi (- 1022)")
    case True
    show ?thesis unfolding v by (rule least_normal [OF me [unfolded True]])
  next
    case False
    define u where "u = (2 :: rat) powi (- 1074)"
    have u: "0 < u" by (simp add: u_def)
    have "(2 :: rat) powi (- 1022) = 2 powi (- 1074) * 2 powi 52" "(2 :: rat) powi (- 1073) = 2 powi (- 1074) * 2 powi 1"
      by (subst power_int_add [symmetric]; simp)+
    then have p: "(2 :: rat) powi (- 1022) = 2 ^ 52 * u" "(2 :: rat) powi (- 1073) = 2 * u" by (simp_all add: u_def mult.commute)
    have "(2 ^ 52 + 1) * u \<le> x" using above_least [OF assms(1) n(1)] n(2) False p(2) unfolding p(1) u_def [symmetric] by simp
    moreover have "(10 :: rat) powi (dec_exp x - 16) = 10 powi dec_exp x / 10 ^ 16" by (simp add: power_int_diff)
    then have "x - dec_value x \<le> x / 10 ^ 16 / 2"
      using abs_le_D2 [OF dec_value_near [OF assms(1)]] dec_exp_bounds(1) [OF assms(1)] by simp
    ultimately show ?thesis unfolding p(1) using u by simp
  qed
  then show ?thesis using pos d n(3) assms(1) by (simp add: strtod_def Let_def)
qed

text \<open>Printing and reading a number.\<close>

lemma strtod_dec_value: "normal_double x \<Longrightarrow> strtod (dec_value x) = (x, False)"
proof -
  assume x: "normal_double x"
  consider "x = 0" | "0 < x" | "0 < - x" by linarith
  then show ?thesis
  proof cases
    case 1
    then show ?thesis by (simp add: dec_value_def strtod_def)
  next
    case 2
    then show ?thesis using strtod_positive x by blast
  next
    case 3
    have "normal_double (- x)" using x by (simp add: normal_double_def dbl_minus)
    then have "strtod (dec_value (- x)) = (- x, False)" using strtod_positive 3 by blast
    then show ?thesis using strtod_minus [of "dec_value (- x)"] by (simp add: dec_value_minus)
  qed
qed

end
