(* ===== verification/JsonRead.thy ===== *)
theory JsonRead
  imports JsonReal
begin

text \<open>
  What the lexer of \<open>JsonLoad\<close> reads from a stream of well-formed UTF-8: characters one by one, and the tokens of the texts that
  \<open>JsonDump\<close> prints.
\<close>

section \<open>Characters\<close>

lemma bytes_of_text [simp]: "str_bytes (text_of bs) = bs"
proof -
  have "of_char (char_of (unat b) :: char) = b" for b :: byte
  proof -
    have "(of_char (char_of (unat b) :: char) :: nat) = unat b" using unsigned_less [of b, where 'a = nat] by (simp add: of_char_of)
    then have "of_nat (of_char (char_of (unat b) :: char)) = b" by simp
    then show ?thesis by (simp only: of_nat_of_char)
  qed
  then show ?thesis by (induction bs) (simp_all add: str_bytes_def text_of_def)
qed

lemma text_of_append: "text_of (a @ b) = text_of a @ text_of b"
  by (simp add: text_of_def)

lemma byte_of_char: "of_char (char_of (unat b) :: char) = (b :: byte)"
  using bytes_of_text [of "[b]"] by (simp add: str_bytes_def text_of_def)

text \<open>The characters ahead, and a stream of well-formed text.\<close>

definition ahead :: "stream \<Rightarrow> string" where
  "ahead stream = drop (st_pos stream) (st_buffer stream) @ st_data stream"

definition clean :: "stream \<Rightarrow> bool" where
  "clean stream \<longleftrightarrow> st_pos stream \<le> length (st_buffer stream)
     \<and> (\<exists>vs. (\<forall>v \<in> set vs. is_scalar v) \<and> st_data stream = text_of (utf8_text vs))"

definition behind :: "char \<Rightarrow> stream \<Rightarrow> bool" where
  "behind c stream \<longleftrightarrow> 0 < st_pos stream \<and> st_buffer stream ! (st_pos stream - 1) = c"

lemma utf8_text_Cons: "utf8_text (v # vs) = utf8_text [v] @ utf8_text vs"
  by (simp add: utf8_text_def)

lemma string_gets_all: "string_gets (length cs) (cs @ data) = (cs, data)"
  by (induction cs) simp_all

lemma stream_get_char:
  assumes "is_scalar v" "\<not> st_pos stream < length (st_buffer stream)" "st_data stream = text_of (utf8_text [v]) @ data"
  shows "stream_get stream = (hd (text_of (utf8_text [v])), \<lparr>st_data = data, st_buffer = text_of (utf8_text [v]), st_pos = 1\<rparr>)"
proof -
  obtain u us where e: "utf8_encode v = Some (u # us)" "utf8_check_first u = length (u # us)" "utf8_check_first u = 1 \<longleftrightarrow> v < 0x80" "v < 0x80 \<Longrightarrow> uint u = v"
    using encode_first [OF assms(1)] by metis
  have t: "utf8_text [v] = u # us" "text_of (u # us) = char_of (unat u) # text_of us" by (simp_all add: utf8_text_def e(1) text_of_def)
  have c: "(of_char (char_of (unat u) :: char) :: byte) = u" by (rule byte_of_char)
  show ?thesis
  proof (cases "us = []")
    case True
    then have "u < 0x80" using e(2) first_iff(1) [of u] by (simp add: word_less_def)
    then show ?thesis
      using assms(2,3) True c by (simp add: stream_get_def t text_of_def Let_def not_le [symmetric])
  next
    case False
    then have l: "1 < length (u # us)" "0x80 \<le> u" using e(2) by (auto simp: utf8_check_first_def split: if_split_asm)
    have "u \<noteq> 0xFF" using e(2) by (auto simp: utf8_check_first_def)
    then have ne: "char_of (unat u) \<noteq> EOF" using c by auto
    have g: "string_gets (length us) (text_of us @ data) = (text_of us, data)" using string_gets_all [of "text_of us" data] by (simp add: text_of_def)
    have "utf8_check_full (u # us) (length (u # us)) = Some v"
      using full_encodes [OF e(2), of us v] assms(1) e(1) l(1) by simp
    moreover have "str_bytes (char_of (unat u) # text_of us) = u # us" using bytes_of_text [of "u # us"] by (simp add: t)
    ultimately show ?thesis
      using assms(2,3) c l ne g e(2) by (simp add: stream_get_def t Let_def)
  qed
qed

lemma stream_get_ahead:
  assumes "clean stream" "ahead stream = c # s"
  obtains stream' where "stream_get stream = (c, stream')" "clean stream'" "ahead stream' = s" "behind c stream'"
proof (cases "st_pos stream < length (st_buffer stream)")
  case True
  then have d: "drop (st_pos stream) (st_buffer stream) = st_buffer stream ! st_pos stream # drop (st_pos stream + 1) (st_buffer stream)"
    using Cons_nth_drop_Suc [of "st_pos stream" "st_buffer stream"] by simp
  let ?s = "stream\<lparr>st_pos := st_pos stream + 1\<rparr>"
  have "stream_get stream = (c, ?s)" "ahead ?s = s" "behind c ?s" using True assms(2) d by (auto simp: stream_get_def ahead_def behind_def)
  moreover have "clean ?s" using True assms(1) by (simp add: clean_def)
  ultimately show ?thesis using that by blast
next
  case False
  then have data: "st_data stream = c # s" using assms(2) by (simp add: ahead_def)
  obtain ws where ws: "\<forall>v \<in> set ws. is_scalar v" "st_data stream = text_of (utf8_text ws)" using assms(1) by (auto simp: clean_def)
  then obtain v vs where "ws = v # vs" using data by (cases ws) (simp_all add: utf8_text_def text_of_def)
  then have v: "is_scalar v" "\<forall>v \<in> set vs. is_scalar v" "st_data stream = text_of (utf8_text [v]) @ text_of (utf8_text vs)"
    using ws utf8_text_Cons [of v vs] by (simp_all add: text_of_append)
  let ?t = "text_of (utf8_text [v])" and ?s = "\<lparr>st_data = text_of (utf8_text vs), st_buffer = text_of (utf8_text [v]), st_pos = 1\<rparr>"
  obtain u us where "utf8_encode v = Some (u # us)" using encode_first [OF v(1)] by metis
  then have t: "?t \<noteq> []" by (simp add: utf8_text_def text_of_def)
  then have h: "hd ?t = c" "tl ?t @ text_of (utf8_text vs) = s" using v(3) data by (cases ?t; simp)+
  have "stream_get stream = (c, ?s)" using stream_get_char [OF v(1) False v(3)] h(1) by simp
  moreover have "ahead ?s = s" "behind c ?s" "clean ?s" using t h v(2)
    by (auto simp: ahead_def behind_def clean_def drop_Suc hd_conv_nth Suc_le_eq)
  ultimately show ?thesis using that by blast
qed

lemma stream_unget_ahead:
  assumes "clean stream" "behind c stream"
  obtains stream' where "stream_unget c stream = Some stream'" "clean stream'" "ahead stream' = c # ahead stream"
proof -
  let ?s = "stream\<lparr>st_pos := st_pos stream - 1\<rparr>"
  have "st_pos stream - 1 < length (st_buffer stream)" using assms by (auto simp: behind_def clean_def)
  then have "drop (st_pos stream - 1) (st_buffer stream) = c # drop (st_pos stream) (st_buffer stream)"
    using assms Cons_nth_drop_Suc [of "st_pos stream - 1" "st_buffer stream", symmetric] by (simp add: behind_def clean_def)
  then have "stream_unget c stream = Some ?s" "clean ?s" "ahead ?s = c # ahead stream"
    using assms by (auto simp: stream_unget_def behind_def clean_def ahead_def)
  then show ?thesis using that by blast
qed


section \<open>The lexer\<close>

text \<open>\<open>s\<close> is ahead of the lexer; and \<open>c\<close> has just been read and saved behind \<open>saved\<close>.\<close>

definition before :: "string \<Rightarrow> lexer \<Rightarrow> bool" where
  "before s lexer \<longleftrightarrow> clean (lx_stream lexer) \<and> ahead (lx_stream lexer) = s \<and> \<not> lx_erange lexer"

definition reading :: "char \<Rightarrow> string \<Rightarrow> string \<Rightarrow> lexer \<Rightarrow> bool" where
  "reading c s saved lexer \<longleftrightarrow> before s lexer \<and> behind c (lx_stream lexer) \<and> lx_saved lexer = saved @ [c]"

lemma get_before:
  assumes "before (c # s) lexer"
  obtains lexer' where "lex_get lexer = (c, lexer')" "reading c s (lx_saved lexer) (lex_save c lexer')" "lx_saved lexer' = lx_saved lexer"
    "lx_token lexer' = lx_token lexer" "before s lexer'"
proof -
  obtain stream' where "stream_get (lx_stream lexer) = (c, stream')" "clean stream'" "ahead stream' = s" "behind c stream'"
    using stream_get_ahead [of "lx_stream lexer" c s] assms by (auto simp: before_def)
  then show ?thesis
    using assms that [of "lexer\<lparr>lx_stream := stream'\<rparr>"] by (simp add: lex_get_def lex_save_def reading_def before_def)
qed

lemma get_save_before:
  assumes "before (c # s) lexer"
  obtains lexer' where "lex_get_save lexer = (c, lexer')" "reading c s (lx_saved lexer) lexer'" "lx_token lexer' = lx_token lexer"
proof -
  obtain l where l: "lex_get lexer = (c, l)" "reading c s (lx_saved lexer) (lex_save c l)" "lx_token l = lx_token lexer"
    using get_before [OF assms] by metis
  show ?thesis by (rule that [OF _ l(2)]) (simp_all add: lex_get_save_def l lex_save_def)
qed

lemma reading_next:
  assumes "reading c (d # s) saved lexer"
  obtains lexer' where "lex_get_save lexer = (d, lexer')" "reading d s (saved @ [c]) lexer'" "lx_token lexer' = lx_token lexer"
  using get_save_before [of d s lexer] assms unfolding reading_def [of c] by metis

lemma unget_reading:
  assumes "reading c s saved lexer"
  obtains lexer' where "lex_unget_unsave c lexer = Some lexer'" "before (c # s) lexer'" "lx_saved lexer' = saved" "lx_token lexer' = lx_token lexer"
proof -
  obtain stream' where "stream_unget c (lx_stream lexer) = Some stream'" "clean stream'" "ahead stream' = c # s"
    using stream_unget_ahead [of "lx_stream lexer" c] assms by (auto simp: reading_def before_def)
  then show ?thesis
    using assms that [of "lexer\<lparr>lx_stream := stream', lx_saved := saved\<rparr>"] by (simp add: lex_unget_unsave_def reading_def before_def)
qed

text \<open>Runs of characters of a kind.\<close>

lemma scan_digits_run:
  assumes "reading c s saved lexer" "c # s = ds @ d # s'" "list_all is_digit ds" "\<not> is_digit d"
  shows "\<exists>lexer'. scan_digits c lexer = (d, lexer') \<and> reading d s' (saved @ ds) lexer' \<and> lx_token lexer' = lx_token lexer"
  using assms
proof (induction ds arbitrary: c s saved lexer)
  case Nil
  then show ?case by (subst scan_digits.simps) auto
next
  case (Cons e es)
  then have c: "is_digit c" "c = e" "s = es @ d # s'" by simp_all
  obtain f r where f: "es @ d # s' = f # r" by (cases es) simp_all
  obtain l1 where l1: "lex_get_save lexer = (f, l1)" "reading f r (saved @ [c]) l1" "lx_token l1 = lx_token lexer"
    using reading_next [of c f r saved lexer] Cons.prems(1) f c(3) by auto
  obtain l2 where "scan_digits f l1 = (d, l2)" "reading d s' ((saved @ [c]) @ es) l2" "lx_token l2 = lx_token l1"
    using Cons.IH [OF l1(2)] f Cons.prems(3,4) by auto
  then show ?case using c l1 by (subst scan_digits.simps) simp
qed

lemma scan_letters_run:
  assumes "reading c s saved lexer" "c # s = ds @ d # s'" "list_all is_letter ds" "\<not> is_letter d"
  shows "\<exists>lexer'. scan_letters c lexer = (d, lexer') \<and> reading d s' (saved @ ds) lexer'"
  using assms
proof (induction ds arbitrary: c s saved lexer)
  case Nil
  then show ?case by (subst scan_letters.simps) auto
next
  case (Cons e es)
  then have c: "is_letter c" "c = e" "s = es @ d # s'" by simp_all
  obtain f r where f: "es @ d # s' = f # r" by (cases es) simp_all
  obtain l1 where l1: "lex_get_save lexer = (f, l1)" "reading f r (saved @ [c]) l1"
    using reading_next [of c f r saved lexer] Cons.prems(1) f c(3) by auto
  obtain l2 where "scan_letters f l1 = (d, l2)" "reading d s' ((saved @ [c]) @ es) l2"
    using Cons.IH [OF l1(2)] f Cons.prems(3,4) by auto
  then show ?case using c l1 by (subst scan_letters.simps) simp
qed

lemma skip_blanks_run:
  assumes "reading c s [] (lex_save c lexer)" "lx_saved lexer = []" "c # s = bs @ d # s'" "list_all is_blank bs" "\<not> is_blank d"
  shows "\<exists>lexer'. skip_blanks c lexer = (d, lexer') \<and> reading d s' [] (lex_save d lexer')"
  using assms
proof (induction bs arbitrary: c s lexer)
  case Nil
  then show ?case by (subst skip_blanks.simps) auto
next
  case (Cons e es)
  then have c: "is_blank c" "c = e" "s = es @ d # s'" by simp_all
  obtain f r where f: "es @ d # s' = f # r" by (cases es) simp_all
  have "before (f # r) lexer" using Cons.prems(1) f c(3) by (simp add: reading_def before_def lex_save_def)
  then obtain l1 where l1: "lex_get lexer = (f, l1)" "reading f r [] (lex_save f l1)" "lx_saved l1 = []"
    using get_before [of f r lexer] Cons.prems(2) by metis
  obtain l2 where "skip_blanks f l1 = (d, l2)" "reading d s' [] (lex_save d l2)"
    using Cons.IH [OF l1(2,3)] f Cons.prems(4,5) by auto
  then show ?case using c l1 by (subst skip_blanks.simps) simp
qed

text \<open>A token behind blanks.\<close>

definition scan_token :: "char \<Rightarrow> lexer \<Rightarrow> lexer option" where
  "scan_token c lexer =
     (if c \<in> set ''{}[]:,'' then Some (lexer\<lparr>lx_token := T_char c\<rparr>)
      else if c = CHR 0x22 then lex_scan_string lexer
      else if is_digit c \<or> c = CHR ''-'' then lex_scan_number c lexer
      else if is_letter c
      then (let (c, lexer) = lex_get_save lexer; (c, lexer) = scan_letters c lexer
            in map_option (\<lambda>lexer. lexer\<lparr>lx_token := word_token (lx_saved lexer)\<rparr>) (lex_unget_unsave c lexer))
      else Some ((lex_save_cached lexer)\<lparr>lx_token := T_invalid\<rparr>))"

lemma lex_scan_token:
  assumes "before (bs @ c # s) lexer" "list_all is_blank bs" "\<not> is_blank c" "c \<noteq> EOF"
  obtains lexer' where "reading c s [] lexer'" "lex_scan lexer = scan_token c lexer'"
proof -
  obtain d r where d: "bs @ c # s = d # r" by (cases bs) simp_all
  have "before (d # r) (lexer\<lparr>lx_saved := []\<rparr>)" using assms(1) d by (simp add: before_def)
  then obtain l1 where l1: "lex_get (lexer\<lparr>lx_saved := []\<rparr>) = (d, l1)" "reading d r [] (lex_save d l1)" "lx_saved l1 = []"
    using get_before [of d r "lexer\<lparr>lx_saved := []\<rparr>"] by (metis lexer.select_convs(2) lexer.surjective lexer.update_convs(2))
  obtain l2 where "skip_blanks d l1 = (c, l2)" "reading c s [] (lex_save c l2)"
    using skip_blanks_run [OF l1(2,3)] d assms(2,3) by metis
  then show ?thesis using that [of "lex_save c l2"] l1(1) assms(4) by (simp add: lex_scan_def scan_token_def Let_def)
qed


text \<open>The token read, with what is ahead.\<close>

definition token_read :: "token \<Rightarrow> string \<Rightarrow> lexer option \<Rightarrow> bool" where
  "token_read tok s r \<longleftrightarrow> (\<exists>lexer. r = Some lexer \<and> lx_token lexer = tok \<and> before s lexer)"

lemma before_token [simp]: "before s (lexer\<lparr>lx_token := tok\<rparr>) = before s lexer"
  by (simp add: before_def)

lemma reading_token [simp]: "reading c s saved (lexer\<lparr>lx_token := tok\<rparr>) = reading c s saved lexer"
  by (simp add: reading_def)

lemma punctuation_read: "c \<in> set ''{}[]:,'' \<Longrightarrow> reading c s [] lexer \<Longrightarrow> token_read (T_char c) s (scan_token c lexer)"
  by (simp add: scan_token_def token_read_def reading_def del: list.set)

section \<open>Numbers\<close>

lemma number_head:
  assumes "reading c s [] lexer" "c # s = sg @ ds @ e # t" "sign_text sg" "digits_text ds" "hd ds = CHR ''0'' \<longrightarrow> ds = ''0''" "\<not> is_digit e"
  shows "\<exists>lexer'. lex_scan_number c lexer = scan_after_digits e lexer' \<and> reading e t (sg @ ds) lexer'"
proof -
  obtain d xs where ds: "ds = d # xs" "is_digit d" "list_all is_digit xs" using assms(4) by (cases ds) (auto simp: digits_text_def)
  let ?l = "lexer\<lparr>lx_token := T_invalid\<rparr>"
  have nd: "d \<noteq> CHR ''-''" using ds(2) by (auto simp: is_digit_def)
  have "\<exists>l1. (if c = CHR ''-'' then lex_get_save ?l else (c, ?l)) = (d, l1) \<and> reading d (xs @ e # t) sg l1"
  proof (cases "sg = []")
    case True
    then show ?thesis using assms(1,2) ds nd by auto
  next
    case False
    then have "sg = [c]" "c = CHR ''-''" "s = d # xs @ e # t" using assms(2,3) ds(1) by (auto simp: sign_text_def)
    then show ?thesis using reading_next [of c d "xs @ e # t" "[]" ?l] assms(1) by auto
  qed
  then obtain l1 where l1: "(if c = CHR ''-'' then lex_get_save ?l else (c, ?l)) = (d, l1)" "reading d (xs @ e # t) sg l1" by blast
  obtain f r where f: "xs @ e # t = f # r" by (cases xs) simp_all
  obtain l2 where l2: "lex_get_save l1 = (f, l2)" "reading f r (sg @ [d]) l2" using reading_next [of d f r sg l1] l1(2) f by auto
  show ?thesis
  proof (cases "d = CHR ''0''")
    case True
    then have "xs = []" using assms(5) ds(1) by simp
    then have "e = f" "t = r" using f by simp_all
    then show ?thesis using l1 l2 f True \<open>xs = []\<close> assms(6) ds(1) by (intro exI [of _ l2]) (simp add: lex_scan_number_def Let_def)
  next
    case False
    obtain l3 where "scan_digits f l2 = (e, l3)" "reading e t ((sg @ [d]) @ xs) l3"
      using scan_digits_run [OF l2(2) f [symmetric] ds(3) assms(6)] by blast
    then show ?thesis using l1 l2 False ds by (intro exI [of _ l3]) (simp add: lex_scan_number_def Let_def)
  qed
qed

lemma integer_read:
  assumes "reading c s [] lexer" "c # s = fmt_d i @ d # t" "- (2 ^ 31) \<le> i" "i \<le> 2 ^ 31 - 1"
    and "\<not> is_digit d" "d \<noteq> CHR ''.''" "d \<noteq> CHR ''e''" "d \<noteq> CHR ''E''"
  shows "token_read (T_integer i) (d # t) (lex_scan_number c lexer)"
proof -
  define sg ds where "sg = (if i < 0 then ''-'' else [])" and "ds = nat_digits (nat \<bar>i\<bar>)"
  have f: "fmt_d i = sg @ ds" by (simp add: fmt_d_def sg_def ds_def)
  have "hd ds = CHR ''0'' \<longrightarrow> ds = ''0''"
    using nat_digits_length [of "nat \<bar>i\<bar>"] nat_digits_zero by (cases "i = 0") (simp_all add: ds_def)
  then obtain l1 where l1: "lex_scan_number c lexer = scan_after_digits d l1" "reading d t (sg @ ds) l1"
  proof -
    have "c # s = sg @ ds @ d # t" using assms(2) f by simp
    moreover have "sign_text sg" "digits_text ds" using nat_digits_text by (simp_all add: sg_def sign_text_def ds_def)
    ultimately show ?thesis using number_head [OF assms(1)] that assms(5) \<open>hd ds = CHR ''0'' \<longrightarrow> ds = ''0''\<close> by blast
  qed
  obtain l2 where l2: "lex_unget_unsave d l1 = Some l2" "before (d # t) l2" "lx_saved l2 = sg @ ds"
    using unget_reading [OF l1(2)] by metis
  have "int_text (sg @ ds) = Some i" using fmt_d_reads [of i] f by simp
  moreover have "before (d # t) (l2\<lparr>lx_erange := lx_erange l2 \<or> i < - (2 ^ 63) \<or> 2 ^ 63 - 1 < i\<rparr>)"
    using l2(2) assms(3,4) by (simp add: before_def)
  ultimately show ?thesis
    using l1(1) l2 assms(3-8) by (simp add: scan_after_digits_def scan_integer_def token_read_def Let_def)
qed

lemma exponent_read:
  assumes "reading c s saved lexer" "c # s = es @ d # t" "exponent_shape es" "\<not> is_digit d" "d \<noteq> CHR ''e''" "d \<noteq> CHR ''E''"
  shows "\<exists>lexer'. scan_exponent c lexer = scan_real d lexer' \<and> reading d t (saved @ es) lexer'"
proof (cases "es = []")
  case True
  then show ?thesis using assms by (auto simp: scan_exponent_def)
next
  case False
  then obtain e sg ys where ys: "es = e # sg @ ys" "e = CHR ''e'' \<or> e = CHR ''E''" "sg = [] \<or> sg = ''+'' \<or> sg = ''-''" "digits_text ys"
    using assms(3) unfolding exponent_shape_def by blast
  then obtain x xs where "ys = x # xs" "is_digit x" "list_all is_digit xs" by (cases ys) (auto simp: digits_text_def)
  note es = ys(1) [unfolded this(1)] ys(2,3) this(2,3)
  obtain f r where f: "sg @ x # xs @ d # t = f # r" by (cases sg) simp_all
  obtain l1 where l1: "lex_get_save lexer = (f, l1)" "reading f r (saved @ [e]) l1"
    using reading_next [of c f r saved lexer] assms(1,2) f es(1) by auto
  have nx: "x \<noteq> CHR ''+'' \<and> x \<noteq> CHR ''-''" using es(4) by (auto simp: is_digit_def)
  have "\<exists>l2. (if f = CHR ''+'' \<or> f = CHR ''-'' then lex_get_save l1 else (f, l1)) = (x, l2) \<and> reading x (xs @ d # t) (saved @ e # sg) l2"
  proof (cases "sg = []")
    case True
    then show ?thesis using l1 f nx by auto
  next
    case False
    then have "sg = [f]" "f = CHR ''+'' \<or> f = CHR ''-''" "r = x # xs @ d # t" using es(3) f by auto
    then show ?thesis using reading_next [of f x "xs @ d # t" "saved @ [e]" l1] l1(2) by auto
  qed
  then obtain l2 where l2: "(if f = CHR ''+'' \<or> f = CHR ''-'' then lex_get_save l1 else (f, l1)) = (x, l2)" "reading x (xs @ d # t) (saved @ e # sg) l2" by blast
  obtain g u where g: "xs @ d # t = g # u" by (cases xs) simp_all
  obtain l3 where l3: "lex_get_save l2 = (g, l3)" "reading g u ((saved @ e # sg) @ [x]) l3" using reading_next [of x g u] l2(2) g by metis
  obtain l4 where "scan_digits g l3 = (d, l4)" "reading d t (((saved @ e # sg) @ [x]) @ xs) l4"
    using scan_digits_run [OF l3(2) g [symmetric] es(5) assms(4)] by blast
  moreover have "c = e" using assms(2) es(1) by simp
  ultimately show ?thesis using l1 l2 l3 es by (auto simp: scan_exponent_def Let_def)
qed

lemma real_read:
  assumes "reading c s [] lexer" "c # s = sg @ ds @ fs @ es @ d # t" "real_shape sg ds fs es x" "fs \<noteq> [] \<or> es \<noteq> []" "strtod x = (v, False)"
    and "\<not> is_digit d" "d \<noteq> CHR ''.''" "d \<noteq> CHR ''e''" "d \<noteq> CHR ''E''"
  shows "token_read (T_real v) (d # t) (lex_scan_number c lexer)"
proof -
  note S = assms(3) [unfolded real_shape_def]
  obtain e r where e: "fs @ es @ d # t = e # r" by (cases fs; cases es) simp_all
  have "\<not> is_digit e" "e = CHR ''.'' \<or> e = CHR ''e'' \<or> e = CHR ''E''" "fs \<noteq> [] \<longleftrightarrow> e = CHR ''.''"
    using e S assms(4) by (auto simp: fraction_shape_def exponent_shape_def is_digit_def)
  note E = this
  have "c # s = sg @ ds @ e # r" using assms(2) e by simp
  then obtain l1 where "lex_scan_number c lexer = scan_after_digits e l1" "reading e r (sg @ ds) l1"
    using number_head [OF assms(1)] S E(1) by blast
  then have l1: "lex_scan_number c lexer = scan_fraction e l1" "reading e r (sg @ ds) l1" "fs \<noteq> [] \<longleftrightarrow> e = CHR ''.''"
    using E(2,3) by (auto simp: scan_after_digits_def)
  have "\<exists>l2. scan_fraction e l1 = scan_real d l2 \<and> reading d t (sg @ ds @ fs @ es) l2"
  proof (cases "fs = []")
    case True
    then have "e \<noteq> CHR ''.''" "e # r = es @ d # t" using l1(3) e by simp_all
    then show ?thesis using exponent_read [OF l1(2), of es d t] S assms(6,8,9) True by (simp add: scan_fraction_def)
  next
    case False
    then obtain hs where "fs = CHR ''.'' # hs" "list_all is_digit hs" "hs \<noteq> []" using S by (auto simp: fraction_shape_def)
    then obtain g gs where fs: "fs = CHR ''.'' # g # gs" "is_digit g" "list_all is_digit gs" by (cases hs) auto
    then have er: "e = CHR ''.''" "r = g # gs @ es @ d # t" using e by auto
    have "before (g # gs @ es @ d # t) l1" "lx_saved l1 = (sg @ ds) @ [e]" using l1(2) er by (simp_all add: reading_def)
    then obtain l2 where l2: "lex_get l1 = (g, l2)" "reading g (gs @ es @ d # t) ((sg @ ds) @ [e]) (lex_save g l2)"
      using get_before [of g "gs @ es @ d # t" l1] by metis
    obtain h u where h: "gs @ es @ d # t = h # u" by (cases gs; cases es) simp_all
    obtain l3 where l3: "lex_get_save (lex_save g l2) = (h, l3)" "reading h u (((sg @ ds) @ [e]) @ [g]) l3"
      using reading_next [of g h u] l2(2) h by metis
    obtain k w where k: "es @ d # t = k # w" by (cases es) simp_all
    then have nk: "\<not> is_digit k" using S assms(6) by (auto simp: exponent_shape_def is_digit_def)
    obtain l4 where l4: "scan_digits h l3 = (k, l4)" "reading k w ((((sg @ ds) @ [e]) @ [g]) @ gs) l4"
      using scan_digits_run [OF l3(2) _ fs(3) nk] h k by metis
    obtain l5 where "scan_exponent k l4 = scan_real d l5" "reading d t (((((sg @ ds) @ [e]) @ [g]) @ gs) @ es) l5"
      using exponent_read [OF l4(2), of es d t] k S assms(6,8,9) by auto
    then show ?thesis using er l2 l3 l4 fs by (intro exI [of _ l5]) (simp add: scan_fraction_def Let_def)
  qed
  then obtain l2 where l2: "scan_fraction e l1 = scan_real d l2" "reading d t (sg @ ds @ fs @ es) l2" by blast
  obtain l3 where l3: "lex_unget_unsave d l2 = Some l3" "before (d # t) l3" "lx_saved l3 = sg @ ds @ fs @ es"
    using unget_reading [OF l2(2)] by metis
  have "\<not> lx_erange l3" using l3(2) by (simp add: before_def)
  moreover have "before (d # t) (l3\<lparr>lx_erange := lx_erange l3 \<or> False\<rparr>)" using l3(2) by (simp add: before_def)
  ultimately show ?thesis
    using l1(1) l2(1) l3 S assms(5) by (simp add: scan_real_def token_read_def Let_def)
qed

section \<open>Words\<close>

lemma word_read:
  assumes "reading c s [] lexer" "c # s = w @ d # t" "w \<in> set [''true'', ''false'', ''null'']" "\<not> is_letter d"
  shows "token_read (word_token w) (d # t) (scan_token c lexer)"
proof -
  have w: "list_all is_letter w" "w \<noteq> []" using assms(3) by (auto simp: is_letter_def)
  then obtain x xs where xs: "w = x # xs" by (cases w) auto
  have x: "x = c" "is_letter c" "s = xs @ d # t" using xs assms(2) w by auto
  have nc: "c \<notin> set ''{}[]:,''" "c \<noteq> CHR 0x22" "\<not> is_digit c" "c \<noteq> CHR ''-''" using x(2) by (auto simp: is_letter_def is_digit_def Let_def)
  obtain f r where f: "xs @ d # t = f # r" by (cases xs) simp_all
  obtain l1 where l1: "lex_get_save lexer = (f, l1)" "reading f r ([] @ [c]) l1" using reading_next [of c f r "[]" lexer] assms(1) x(3) f by metis
  obtain l2 where l2: "scan_letters f l1 = (d, l2)" "reading d t (([] @ [c]) @ xs) l2"
    using scan_letters_run [OF l1(2) _ _ assms(4), of xs t] f w xs by auto
  obtain l3 where "lex_unget_unsave d l2 = Some l3" "before (d # t) l3" "lx_saved l3 = w"
    using unget_reading [OF l2(2)] xs x(1) by auto
  then show ?thesis using nc x(2) l1 l2 unfolding scan_token_def by (simp add: token_read_def Let_def del: list.set)
qed


section \<open>Strings\<close>

text \<open>Parts of string tokens: the scanner goes over them, and the decoder gives their value.\<close>

definition scans :: "string \<Rightarrow> bool" where
  "scans p \<longleftrightarrow> (\<forall>c s saved lexer d t. reading c s saved lexer \<longrightarrow> c # s = p @ d # t \<longrightarrow>
     (\<exists>lexer'. scan_string c lexer = scan_string d lexer' \<and> reading d t (saved @ p) lexer'))"

definition decodes :: "string \<Rightarrow> string \<Rightarrow> bool" where
  "decodes p v \<longleftrightarrow> (\<forall>r w. decode_string r = Some (Some w) \<longrightarrow> decode_string (p @ r) = Some (Some (v @ w)))"

lemma scans_Nil: "scans []"
  unfolding scans_def by auto

lemma scans_append:
  assumes "scans p" "scans q"
  shows "scans (p @ q)"
  unfolding scans_def
proof (intro allI impI)
  fix c s saved lexer d t
  assume "reading c s saved lexer" "c # s = (p @ q) @ d # t"
  moreover obtain e r where e: "q @ d # t = e # r" by (cases q) simp_all
  ultimately obtain l1 where l1: "scan_string c lexer = scan_string e l1" "reading e r (saved @ p) l1"
    using assms(1) unfolding scans_def by (metis append.assoc)
  then obtain l2 where "scan_string e l1 = scan_string d l2" "reading d t ((saved @ p) @ q) l2"
    using assms(2) e unfolding scans_def by metis
  then show "\<exists>lexer'. scan_string c lexer = scan_string d lexer' \<and> reading d t (saved @ p @ q) lexer'" using l1(1) by auto
qed

lemma decodes_Nil: "decodes [] []"
  by (simp add: decodes_def)

lemma decodes_append: "decodes p v \<Longrightarrow> decodes q w \<Longrightarrow> decodes (p @ q) (v @ w)"
  by (simp add: decodes_def)

text \<open>Plain characters.\<close>

definition plain :: "char \<Rightarrow> bool" where
  "plain c \<longleftrightarrow> c \<noteq> CHR 0x22 \<and> c \<noteq> EOF \<and> \<not> (of_char c :: nat) \<le> 0x1F \<and> c \<noteq> CHR 0x5C"

lemma scans_plain: "plain c \<Longrightarrow> scans [c]"
  unfolding scans_def
proof (intro allI impI)
  fix e s saved lexer d t
  assume c: "plain c" "reading e s saved lexer" "e # s = [c] @ d # t"
  then obtain l1 where "lex_get_save lexer = (d, l1)" "reading d t (saved @ [c]) l1"
    using reading_next [of c d t saved lexer] by auto
  then show "\<exists>lexer'. scan_string e lexer = scan_string d lexer' \<and> reading d t (saved @ [c]) lexer'"
    using c by (intro exI [of _ l1]) (subst scan_string.simps, simp add: plain_def)
qed

lemma decodes_plain: "plain c \<Longrightarrow> decodes [c] [c]"
  by (simp add: decodes_def decode_string.simps(2) plain_def)

lemma plain_text: "list_all plain p \<Longrightarrow> scans p \<and> decodes p p"
proof (induction p)
  case (Cons c p)
  then show ?case using scans_append [OF scans_plain, of c p] decodes_append [OF decodes_plain, of c p p] by simp
qed (simp add: scans_Nil decodes_Nil)

text \<open>Escapes.\<close>

lemma scans_escape:
  assumes "x \<in> set [CHR 0x22, CHR 0x5C, CHR ''/'', CHR ''b'', CHR ''f'', CHR ''n'', CHR ''r'', CHR ''t'']"
  shows "scans [CHR 0x5C, x]"
  unfolding scans_def
proof (intro allI impI)
  fix c s saved lexer d t
  assume c: "reading c s saved lexer" "c # s = [CHR 0x5C, x] @ d # t"
  then obtain l1 where l1: "lex_get_save lexer = (x, l1)" "reading x (d # t) (saved @ [c]) l1"
    using reading_next [of c x "d # t" saved lexer] by auto
  obtain l2 where l2: "lex_get_save l1 = (d, l2)" "reading d t ((saved @ [c]) @ [x]) l2"
    using reading_next [OF l1(2)] by metis
  have "x \<noteq> CHR ''u''" using assms by auto
  then have "scan_string c lexer = scan_string d l2"
    using c(2) l1(1) l2(1) assms by (subst scan_string.simps) (simp add: Let_def del: list.set)
  then show "\<exists>lexer'. scan_string c lexer = scan_string d lexer' \<and> reading d t (saved @ [CHR 0x5C, x]) lexer'"
    using l2(2) c(2) by auto
qed

lemma decodes_escape: "x \<noteq> CHR ''u'' \<Longrightarrow> escape_char x = Some v \<Longrightarrow> decodes [CHR 0x5C, x] [v]"
  by (simp add: decodes_def decode_string.simps(2))

lemma scan_xdigits_run:
  assumes "reading c s saved lexer" "c # s = xs @ d # t" "list_all is_xdigit xs"
  shows "\<exists>lexer'. scan_xdigits (length xs) c lexer = Some (True, d, lexer') \<and> reading d t (saved @ xs) lexer'"
  using assms
proof (induction xs arbitrary: c s saved lexer)
  case (Cons y ys)
  then have c: "is_xdigit c" "c = y" "s = ys @ d # t" by simp_all
  obtain f r where f: "ys @ d # t = f # r" by (cases ys) simp_all
  obtain l1 where l1: "lex_get_save lexer = (f, l1)" "reading f r (saved @ [c]) l1"
    using reading_next [of c f r saved lexer] Cons.prems(1) f c(3) by auto
  obtain l2 where "scan_xdigits (length ys) f l1 = Some (True, d, l2)" "reading d t ((saved @ [c]) @ ys) l2"
    using Cons.IH [OF l1(2) f [symmetric]] Cons.prems(3) by auto
  then show ?case using c l1 by simp
qed auto

lemma scans_unicode:
  assumes "length xs = 4" "list_all is_xdigit xs"
  shows "scans (CHR 0x5C # CHR ''u'' # xs)"
  unfolding scans_def
proof (intro allI impI)
  fix c s saved lexer d t
  assume c: "reading c s saved lexer" "c # s = (CHR 0x5C # CHR ''u'' # xs) @ d # t"
  then obtain l1 where l1: "lex_get_save lexer = (CHR ''u'', l1)" "reading (CHR ''u'') (xs @ d # t) (saved @ [c]) l1"
    using reading_next [of c "CHR ''u''" "xs @ d # t" saved lexer] by auto
  obtain f r where f: "xs @ d # t = f # r" by (cases xs) simp_all
  obtain l2 where l2: "lex_get_save l1 = (f, l2)" "reading f r ((saved @ [c]) @ ''u'') l2"
    using reading_next [of "CHR ''u''" f r] l1(2) f by metis
  obtain l3 where l3: "scan_xdigits 4 f l2 = Some (True, d, l3)" "reading d t (((saved @ [c]) @ ''u'') @ xs) l3"
    using scan_xdigits_run [OF l2(2) f [symmetric] assms(2)] assms(1) by auto
  have "scan_string c lexer = scan_string d l3" using c(2) l1(1) l2(1) l3(1) by (subst scan_string.simps) (simp add: Let_def)
  then show "\<exists>lexer'. scan_string c lexer = scan_string d lexer' \<and> reading d t (saved @ CHR 0x5C # CHR ''u'' # xs) lexer'"
    using l3(2) c(2) by auto
qed


text \<open>Four hexadecimal digits.\<close>

lemma hex_char_digit:
  assumes "0 \<le> d" "d < 16"
  shows "is_xdigit (hex_char d) \<and> (let n = of_char (hex_char d) :: int in if is_digit (hex_char d) then n - 48 else if 97 \<le> n then n - 97 + 10 else n - 65 + 10) = d"
proof -
  define n where "n = nat d"
  have n: "d = int n" "n < 16" using assms by (simp_all add: n_def)
  then have "(of_char (hex_char d) :: nat) = (if n < 10 then 48 + n else 87 + n)" by (simp add: hex_char_def of_char_of)
  moreover then have "(of_char (hex_char d) :: int) = (if n < 10 then 48 + int n else 87 + int n)"
    using of_nat_of_char [of "hex_char d", where 'a = int] by (auto split: if_split_asm)
  ultimately show ?thesis using n by (auto simp: is_xdigit_def is_digit_def Let_def)
qed

lemma decode_four:
  assumes "\<forall>d \<in> {a, b, c, d}. 0 \<le> d \<and> d < 16"
  shows "decode_unicode_escape (CHR ''u'' # map hex_char [a, b, c, d] @ r) = Some (16 * (16 * (16 * a + b) + c) + d)"
proof -
  define F where "F = (\<lambda>c. let n = of_char c :: int in if is_digit c then n - 48 else if 97 \<le> n then n - 97 + 10 else n - 65 + 10)"
  have F: "F (hex_char e) = e" "is_xdigit (hex_char e)" if "e \<in> {a, b, c, d}" for e
    using hex_char_digit [of e] assms that unfolding F_def by blast+
  have "decode_unicode_escape (CHR ''u'' # map hex_char [a, b, c, d] @ r) = Some (foldl (\<lambda>v c. 16 * v + F c) 0 (map hex_char [a, b, c, d]))"
    using F(2) unfolding decode_unicode_escape_def F_def by simp
  also have "\<dots> = Some (16 * (16 * (16 * a + b) + c) + d)" using F(1) by simp
  finally show ?thesis .
qed

lemma fmt_04x_reads:
  assumes "0 \<le> v" "v < 0x10000"
  shows "length (fmt_04x v) = 4 \<and> list_all is_xdigit (fmt_04x v) \<and> decode_unicode_escape (CHR ''u'' # fmt_04x v @ r) = Some v"
proof -
  have x: "list_all is_xdigit (fmt_04x v)" by (simp add: fmt_04x_def hex_char_digit)
  have q: "v div 4096 = v div 16 div 16 div 16" "v div 256 = v div 16 div 16" by (simp_all add: zdiv_zmult2_eq [symmetric])
  have c: "v div 16 div 16 div 16 mod 16 = v div 16 div 16 div 16" using assms by (simp add: zdiv_zmult2_eq [symmetric])
  have "16 * (16 * (16 * (v div 4096 mod 16) + v div 256 mod 16) + v div 16 mod 16) + v mod 16 = v"
    unfolding q c by (simp only: mult_div_mod_eq)
  note e = this
  have "\<forall>d \<in> {v div 4096 mod 16, v div 256 mod 16, v div 16 mod 16, v mod 16}. 0 \<le> d \<and> d < 16" by simp
  then have "decode_unicode_escape (CHR ''u'' # map hex_char [v div 4096 mod 16, v div 256 mod 16, v div 16 mod 16, v mod 16] @ r)
      = Some (16 * (16 * (16 * (v div 4096 mod 16) + v div 256 mod 16) + v div 16 mod 16) + v mod 16)"
    by (rule decode_four)
  then have "decode_unicode_escape (CHR ''u'' # fmt_04x v @ r) = Some v" unfolding e fmt_04x_def .
  then show ?thesis using x by (simp add: fmt_04x_def)
qed

text \<open>The text of a character in a string: itself or an escape.\<close>

definition piece :: "bool \<Rightarrow> int \<Rightarrow> string" where
  "piece ascii v = (if needs_escape ascii v then escape_text v else text_of (utf8_text [v]))"

lemma unicode_bmp: 
  assumes "0 < v" "v < 0x10000" "is_scalar v"
  shows "decodes (CHR 0x5C # CHR ''u'' # fmt_04x v) (text_of (utf8_text [v]))"
  unfolding decodes_def
proof (intro allI impI)
  fix r w
  assume r: "decode_string r = Some (Some w)"
  obtain bs where e: "utf8_encode v = Some bs" using encode_first [OF assms(3)] by metis
  have "unicode_escape (CHR ''u'' # fmt_04x v @ r) = Some (Some (v, r))"
    using fmt_04x_reads [of v r] assms by (auto simp: unicode_escape_def is_scalar_def)
  then show "decode_string ((CHR 0x5C # CHR ''u'' # fmt_04x v) @ r) = Some (Some (text_of (utf8_text [v]) @ w))"
    using e r by (simp add: decode_string.simps(2) utf8_text_def)
qed

lemma or_low_bits:
  fixes x :: int
  assumes "0 \<le> x" "x < 1024"
  shows "0xD800 OR x = 0xD800 + x" "0xDC00 OR x = 0xDC00 + x"
proof -
  have "x = take_bit 10 x" using assms by (simp add: take_bit_int_eq_self)
  then have x: "x = 1023 AND x" by (simp add: take_bit_eq_mask mask_eq_exp_minus_1 and.commute)
  have "0xD800 AND x = (0xD800 AND 1023) AND x" "0xDC00 AND x = (0xDC00 AND 1023) AND x" by (subst (1) x, simp only: and.assoc)+
  then have "0xD800 AND x = 0" "0xDC00 AND x = 0" by simp_all
  then show "0xD800 OR x = 0xD800 + x" "0xDC00 OR x = 0xDC00 + x" by (simp_all only: disjunctive_add_eq_or)
qed

lemma surrogate_halves:
  fixes v :: int
  assumes "0 \<le> v" "v < 0x100000"
  shows "0xD800 OR drop_bit 10 (v AND 0xFFC00) = 0xD800 + v div 1024" "0xDC00 OR (v AND 0x3FF) = 0xDC00 + v mod 1024"
proof -
  have m: "x AND 1023 = x mod 1024" for x :: int
    using take_bit_eq_mask [of 10 x] by (simp add: take_bit_eq_mod mask_eq_exp_minus_1)
  have "drop_bit 10 (v AND 0xFFC00) = v div 1024 mod 1024"
    unfolding drop_bit_and by (simp add: drop_bit_eq_div m)
  also have "\<dots> = v div 1024" using assms by simp
  finally have d: "drop_bit 10 (v AND 0xFFC00) = v div 1024" .
  have b: "0 \<le> v div 1024" "v div 1024 < 1024" "0 \<le> v mod 1024" "v mod 1024 < 1024" using assms by simp_all
  show "0xD800 OR drop_bit 10 (v AND 0xFFC00) = 0xD800 + v div 1024" unfolding d by (rule or_low_bits(1) [OF b(1,2)])
  show "0xDC00 OR (v AND 0x3FF) = 0xDC00 + v mod 1024" unfolding m by (rule or_low_bits(2) [OF b(3,4)])
qed

lemma unicode_pair:
  assumes "0x10000 \<le> v" "is_scalar v" "u = v - 0x10000"
  shows "decodes (CHR 0x5C # CHR ''u'' # fmt_04x (0xD800 + u div 1024) @ CHR 0x5C # CHR ''u'' # fmt_04x (0xDC00 + u mod 1024))
    (text_of (utf8_text [v]))"
  unfolding decodes_def
proof (intro allI impI)
  fix r w
  assume r: "decode_string r = Some (Some w)"
  obtain bs where e: "utf8_encode v = Some bs" using encode_first [OF assms(2)] by metis
  have u: "0 \<le> u" "u < 0x100000" using assms by (simp_all add: is_scalar_def)
  define h l where "h = 0xD800 + u div 1024" and "l = 0xDC00 + u mod 1024"
  have "0 \<le> u div 1024" "u div 1024 < 1024" "0 \<le> u mod 1024" "u mod 1024 < 1024" using u by simp_all
  then have hl: "0xD800 \<le> h" "h \<le> 0xDBFF" "0xDC00 \<le> l" "l \<le> 0xDFFF" by (simp_all add: h_def l_def)
  have "push_bit 10 (h - 0xD800) + (l - 0xDC00) + 0x10000 = v"
    using mult_div_mod_eq [of 1024 u] assms(3) by (simp add: h_def l_def push_bit_eq_mult)
  moreover have "drop 5 (CHR ''u'' # fmt_04x h @ t) = t" for t using fmt_04x_reads [of h "[]"] hl by simp
  moreover have "drop 6 (CHR 0x5C # CHR ''u'' # fmt_04x l @ r) = r" using fmt_04x_reads [of l "[]"] hl by simp
  ultimately have "unicode_escape (CHR ''u'' # fmt_04x h @ CHR 0x5C # CHR ''u'' # fmt_04x l @ r) = Some (Some (v, r))"
    using fmt_04x_reads [of h "CHR 0x5C # CHR ''u'' # fmt_04x l @ r"] fmt_04x_reads [of l r] hl by (simp add: unicode_escape_def Let_def)
  then show "decode_string ((CHR 0x5C # CHR ''u'' # fmt_04x (0xD800 + u div 1024) @ CHR 0x5C # CHR ''u'' # fmt_04x (0xDC00 + u mod 1024)) @ r)
      = Some (Some (text_of (utf8_text [v]) @ w))"
    unfolding h_def [symmetric] l_def [symmetric] using e r by (simp add: decode_string.simps(2) utf8_text_def)
qed

lemma encode_bytes_high:
  assumes "is_scalar v" "0x80 \<le> v" "b \<in> set (utf8_text [v])"
  shows "0x80 \<le> uint b \<and> uint b \<le> 0xF4"
proof -
  obtain u us where e: "utf8_encode v = Some (u # us)" "utf8_check_first u = length (u # us)" "utf8_check_first u = 1 \<longleftrightarrow> v < 0x80"
    using encode_first [OF assms(1)] by metis
  have u: "0x80 \<le> uint u \<and> uint u \<le> 0xF4"
    using e(2,3) assms(2) first_iff [of u] first_cases [of u] by auto
  have "continuation a" if "a \<in> set us" for a
  proof -
    consider "v < 0x800" | "0x800 \<le> v" "v < 0x10000" | "0x10000 \<le> v" "v \<le> 0x10FFFF" using assms(1) unfolding is_scalar_def by linarith
    then show ?thesis
    proof cases
      case 1
      then obtain x where "us = [x]" using encode_length(1) [OF assms(1) e(1)] assms(2) by (auto simp: length_Suc_conv)
      then have "uint x = 128 + v mod 64" using e(1) 1 encode_bytes(1) [of v u x] assms(2) by simp
      then show ?thesis using that in_continuation \<open>us = [x]\<close> by auto
    next
      case 2
      then obtain x y where xy: "us = [x, y]" using encode_length(2) [OF assms(1) e(1)] by (auto simp: length_Suc_conv numeral_eq_Suc)
      then have "uint x = 128 + v div 64 mod 64" "uint y = 128 + v mod 64" using e(1) 2 encode_bytes(2) [of v u x y] by simp_all
      then have "continuation x" "continuation y" using in_continuation by blast+
      then show ?thesis using that xy by auto
    next
      case 3
      then obtain x y z where xyz: "us = [x, y, z]" using encode_length(3) [OF assms(1) e(1)] by (auto simp: length_Suc_conv numeral_eq_Suc)
      then have "uint x = 128 + v div 64 div 64 mod 64" "uint y = 128 + v div 64 mod 64" "uint z = 128 + v mod 64"
        using e(1) 3 encode_bytes(3) [of v u x y z] by (simp_all only:)
      then have "continuation x" "continuation y" "continuation z" using in_continuation by blast+
      then show ?thesis using that xyz by auto
    qed
  qed
  then show ?thesis using u assms(3) by (force simp: utf8_text_def e(1))
qed


lemma plain_code: "(of_char c :: nat) = n \<Longrightarrow> 0x1F < n \<Longrightarrow> n \<noteq> 0x22 \<Longrightarrow> n \<noteq> 0x5C \<Longrightarrow> n \<noteq> 0xFF \<Longrightarrow> plain c"
  by (auto simp: plain_def)

lemma code_of_byte: "(of_char (char_of (unat b) :: char) :: nat) = unat (b :: byte)"
  using unsigned_less [of b, where 'a = nat] by (simp add: of_char_of)

lemma ascii_text: "0 \<le> v \<Longrightarrow> v < 0x80 \<Longrightarrow> text_of (utf8_text [v]) = [char_of (nat v)]"
proof -
  assume v: "0 \<le> v" "v < 0x80"
  have "uint (of_int v :: byte) = v" using uint_of_int_byte [of v] v by simp
  moreover have "int (unat (of_int v :: byte)) = uint (of_int v :: byte)" by (rule uint_nat [symmetric])
  ultimately have "unat (of_int v :: byte) = nat v" by linarith
  then show ?thesis using encode_scalar(1) [OF v] by (simp only: utf8_text_def text_of_def list.map concat.simps option.sel append_Nil2)
qed

lemma plain_piece:
  assumes "is_scalar v" "\<not> needs_escape ascii v"
  shows "list_all plain (text_of (utf8_text [v]))"
proof (cases "v < 0x80")
  case True
  then have "0 \<le> v" "0x20 \<le> v" "v \<noteq> 0x22" "v \<noteq> 0x5C" using assms by (auto simp: needs_escape_def is_scalar_def)
  moreover from this True have "(of_char (char_of (nat v) :: char) :: nat) = nat v" by (simp add: of_char_of)
  then have "plain (char_of (nat v))" using calculation True by (intro plain_code) auto
  ultimately show ?thesis using True ascii_text by simp
next
  case False
  have "plain (char_of (unat b))" if "b \<in> set (utf8_text [v])" for b
  proof -
    have "0x80 \<le> uint b \<and> uint b \<le> 0xF4" using encode_bytes_high [OF assms(1) _ that] False by simp
    moreover have "uint b = int (unat b)" by simp
    ultimately have "0x80 \<le> unat b \<and> unat b \<le> 0xF4" by linarith
    then show ?thesis using code_of_byte [of b] by (intro plain_code) auto
  qed
  then show ?thesis by (auto simp: list_all_iff text_of_def)
qed

lemma short_escape:
  assumes "x \<in> set [CHR 0x22, CHR 0x5C, CHR ''/'', CHR ''b'', CHR ''f'', CHR ''n'', CHR ''r'', CHR ''t'']" "escape_char x = Some (char_of (nat v))" "0 \<le> v" "v < 0x80"
  shows "scans [CHR 0x5C, x] \<and> decodes [CHR 0x5C, x] (text_of (utf8_text [v]))"
proof -
  have "x \<noteq> CHR ''u''" using assms(1) by auto
  then show ?thesis using scans_escape [OF assms(1)] decodes_escape [OF _ assms(2)] ascii_text [OF assms(3,4)] by simp
qed

lemma piece_good:
  assumes "is_scalar v" "0 < v"
  shows "scans (piece ascii v) \<and> decodes (piece ascii v) (text_of (utf8_text [v]))"
proof (cases "needs_escape ascii v")
  case False
  then show ?thesis using plain_text plain_piece [OF assms(1)] by (simp add: piece_def)
next
  case True
  have chars: "char_of (0x5C :: nat) = CHR 0x5C" "char_of (0x22 :: nat) = CHR 0x22" "char_of (0x08 :: nat) = CHR 0x08" "char_of (0x0C :: nat) = CHR 0x0C"
    "char_of (0x0A :: nat) = CHR 0x0A" "char_of (0x0D :: nat) = CHR 0x0D" "char_of (0x09 :: nat) = CHR 0x09"
    by (simp_all add: char_of_def bit_simps)
  consider "v = 0x5C" | "v = 0x22" | "v = 0x08" | "v = 0x0C" | "v = 0x0A" | "v = 0x0D" | "v = 0x09"
    | "v \<notin> {0x5C, 0x22, 0x08, 0x0C, 0x0A, 0x0D, 0x09}" "v < 0x10000" | "v \<notin> {0x5C, 0x22, 0x08, 0x0C, 0x0A, 0x0D, 0x09}" "0x10000 \<le> v"
    by (cases "v < 0x10000") auto
  then show ?thesis
  proof cases
    case 1
    then show ?thesis using True short_escape [of "CHR 0x5C" v] chars by (simp add: piece_def escape_text_def escape_char_def)
  next
    case 2
    then show ?thesis using True short_escape [of "CHR 0x22" v] chars by (simp add: piece_def escape_text_def escape_char_def)
  next
    case 3
    then show ?thesis using True short_escape [of "CHR ''b''" v] chars by (simp add: piece_def escape_text_def escape_char_def)
  next
    case 4
    then show ?thesis using True short_escape [of "CHR ''f''" v] chars by (simp add: piece_def escape_text_def escape_char_def)
  next
    case 5
    then show ?thesis using True short_escape [of "CHR ''n''" v] chars by (simp add: piece_def escape_text_def escape_char_def)
  next
    case 6
    then show ?thesis using True short_escape [of "CHR ''r''" v] chars by (simp add: piece_def escape_text_def escape_char_def)
  next
    case 7
    then show ?thesis using True short_escape [of "CHR ''t''" v] chars by (simp add: piece_def escape_text_def escape_char_def)
  next
    case 8
    have "piece ascii v = CHR 0x5C # CHR ''u'' # fmt_04x v" using True 8 by (simp add: piece_def escape_text_def)
    then show ?thesis using scans_unicode fmt_04x_reads [of v "[]"] unicode_bmp [OF assms(2) 8(2) assms(1)] assms(2) 8(2) by simp
  next
    case 9
    define u where "u = v - 0x10000"
    have u: "0 \<le> u" "u < 0x100000" using 9 assms(1) by (simp_all add: u_def is_scalar_def)
    have b: "0 \<le> u div 1024" "u div 1024 < 1024" "0 \<le> u mod 1024" "u mod 1024 < 1024" using u by simp_all
    have "piece ascii v = (CHR 0x5C # CHR ''u'' # fmt_04x (0xD800 + u div 1024)) @ CHR 0x5C # CHR ''u'' # fmt_04x (0xDC00 + u mod 1024)"
      using True 9 unfolding piece_def escape_text_def Let_def u_def [symmetric] surrogate_halves [OF u] by simp
    moreover have p: "scans (CHR 0x5C # CHR ''u'' # fmt_04x (0xD800 + u div 1024))" "scans (CHR 0x5C # CHR ''u'' # fmt_04x (0xDC00 + u mod 1024))"
      using scans_unicode fmt_04x_reads [of "0xD800 + u div 1024" "[]"] fmt_04x_reads [of "0xDC00 + u mod 1024" "[]"] b by simp_all
    ultimately show ?thesis using scans_append [OF p] unicode_pair [OF 9(2) assms(1) u_def] by simp
  qed
qed

section \<open>The texts of strings\<close>

definition pieces :: "bool \<Rightarrow> int list \<Rightarrow> string" where
  "pieces ascii vs = concat (map (piece ascii) vs)"

lemma pieces_good:
  assumes "\<forall>v \<in> set vs. is_scalar v \<and> 0 < v"
  shows "scans (pieces ascii vs) \<and> decodes (pieces ascii vs) (text_of (utf8_text vs))"
  using assms
proof (induction vs)
  case Nil
  then show ?case using scans_Nil decodes_Nil by (simp add: pieces_def utf8_text_def text_of_def)
next
  case (Cons v vs)
  have "pieces ascii (v # vs) = piece ascii v @ pieces ascii vs" by (simp add: pieces_def)
  moreover have "text_of (utf8_text (v # vs)) = text_of (utf8_text [v]) @ text_of (utf8_text vs)"
    by (simp add: utf8_text_Cons [of v vs] text_of_append)
  ultimately show ?case using piece_good [of v ascii] Cons scans_append decodes_append by simp
qed

lemma dump_chars_pieces:
  "\<forall>v \<in> set vs. is_scalar v \<Longrightarrow> \<exists>q. dump_chars ascii str (utf8_text vs) = (True, q) \<and> q = text_of str @ pieces ascii vs"
proof (induction vs arbitrary: str)
  case Nil
  then show ?case by (subst dump_chars.simps) (simp add: utf8_text_def utf8_iterate_def dump_text_def pieces_def)
next
  case (Cons v vs)
  have i: "utf8_iterate (utf8_text (v # vs)) = Some (Some v, utf8_text vs)"
    using iterate_text [of v "utf8_text vs"] Cons.prems by (simp add: utf8_text_Cons [of v vs])
  have t: "take (length (utf8_text (v # vs)) - length (utf8_text vs)) (utf8_text (v # vs)) = utf8_text [v]"
    by (simp add: utf8_text_Cons [of v vs])
  have p: "pieces ascii (v # vs) = piece ascii v @ pieces ascii vs" by (simp add: pieces_def)
  show ?case
    using Cons.IH [of "[]"] Cons.IH [of "str @ utf8_text [v]"] Cons.prems
    by (subst dump_chars.simps, unfold i p) (auto simp: t dump_then_def dump_text_def piece_def text_of_append text_of_def [of "[]"])
qed

lemma dump_string_pieces:
  assumes "\<forall>v \<in> set vs. is_scalar v" "str = text_of (utf8_text vs)"
  shows "dump_string str ascii = (True, CHR 0x22 # pieces ascii vs @ [CHR 0x22])"
  using dump_chars_pieces [OF assms(1), of ascii "[]"] assms(2)
  by (auto simp: dump_string_def dump_then_def dump_text_def text_of_def [of "[]"])

lemma string_read:
  assumes "reading (CHR 0x22) s [] lexer" "s = pieces ascii vs @ CHR 0x22 # t" "\<forall>v \<in> set vs. is_scalar v \<and> 0 < v"
  shows "token_read (T_string (text_of (utf8_text vs))) t (lex_scan_string lexer)"
proof -
  obtain d r where d: "s = d # r" using assms(2) by (cases "pieces ascii vs") auto
  obtain l1 where l1: "lex_get_save (lexer\<lparr>lx_token := T_invalid\<rparr>) = (d, l1)" "reading d r ([] @ [CHR 0x22]) l1"
    using reading_next [of "CHR 0x22" d r "[]" "lexer\<lparr>lx_token := T_invalid\<rparr>"] assms(1) d by auto
  note g = pieces_good [OF assms(3), of ascii]
  obtain l2 where l2: "scan_string d l1 = scan_string (CHR 0x22) l2" "reading (CHR 0x22) t (([] @ [CHR 0x22]) @ pieces ascii vs) l2"
    using g l1(2) d assms(2) unfolding scans_def by metis
  have "scan_string (CHR 0x22) l2 = Some (True, l2)" by (subst scan_string.simps) simp
  moreover have "tl (lx_saved l2) = pieces ascii vs @ [CHR 0x22]" using l2(2) by (simp add: reading_def)
  moreover have "decode_string [CHR 0x22] = Some (Some [])" by (simp add: decode_string.simps(2))
  then have "decode_string (pieces ascii vs @ [CHR 0x22]) = Some (Some (text_of (utf8_text vs)))" using g by (simp add: decodes_def)
  ultimately show ?thesis using l1(1) l2 by (simp add: lex_scan_string_def token_read_def reading_def)
qed

end
