(* ===== verification/JsonRound.thy ===== *)
theory JsonRound
  imports JsonRead
begin

text \<open>
  The parser reads what the printer writes: \<open>json_loads\<close> after \<open>json_dumps\<close> gives an equal value, whatever the flags.
\<close>

section \<open>Values that can be printed\<close>

text \<open>
  Texts are well-formed UTF-8 without zero bytes, integers fit an \<open>int\<close>, and reals are zero or have a significand of 53 bits.
\<close>

definition text_ok :: "string \<Rightarrow> bool" where
  "text_ok s \<longleftrightarrow> utf8_check_string (str_bytes s) \<and> CHR 0x00 \<notin> set s"

fun printable :: "json \<Rightarrow> bool" where
  "printable (JObject ms) \<longleftrightarrow> distinct (map fst ms) \<and> (\<forall>(key, val) \<in> set ms. text_ok key \<and> printable val)"
| "printable (JArray js) \<longleftrightarrow> (\<forall>j \<in> set js. printable j)"
| "printable (JString s) \<longleftrightarrow> text_ok s"
| "printable (JInteger i) \<longleftrightarrow> - (2 ^ 31) \<le> i \<and> i \<le> 2 ^ 31 - 1"
| "printable (JReal r) \<longleftrightarrow> normal_double r"
| "printable _ \<longleftrightarrow> True"

lemma printable_wf: "printable json \<Longrightarrow> json_wf json"
proof (induction json)
  case (JObject ms)
  then show ?case by fastforce
qed auto

lemma text_of_bytes: "text_of (str_bytes s) = s"
proof -
  have "char_of (unat (of_char c :: byte)) = c" for c :: char
  proof -
    have "unat (of_char c :: byte) = (of_char c :: nat)"
    proof -
      have "(of_char c :: nat) mod 256 = of_char c" by simp
      moreover have "(of_char c :: nat) mod 256 < 256" by (rule mod_less_divisor) simp
      ultimately show ?thesis using of_nat_of_char [of c, where 'a = "8 word", symmetric] by (simp add: unat_of_nat)
    qed
    then show ?thesis by simp
  qed
  then show ?thesis by (induction s) (simp_all add: text_of_def str_bytes_def)
qed

lemma text_ok_scalars:
  assumes "text_ok s"
  obtains vs where "s = text_of (utf8_text vs)" "\<forall>v \<in> set vs. is_scalar v \<and> 0 < v"
proof -
  obtain vs where vs: "\<forall>v \<in> set vs. is_scalar v" "str_bytes s = utf8_text vs"
    using assms check_string_sound unfolding text_ok_def by blast
  have "v \<noteq> 0" if "v \<in> set vs" for v
  proof
    assume "v = 0"
    then have "utf8_text [v] = [0]" by (simp add: utf8_text_def encode_scalar(1))
    moreover have "set (utf8_text [v]) \<subseteq> set (utf8_text vs)" using that by (auto simp: utf8_text_def)
    ultimately have "(0 :: byte) \<in> set (str_bytes s)" using vs(2) by simp
    then obtain c where "c \<in> set s" "(of_char c :: byte) = 0" by (auto simp: str_bytes_def)
    moreover have "c = CHR 0x00"
      using text_of_bytes [of "[c]"] text_of_bytes [of "[CHR 0x00]"] \<open>(of_char c :: byte) = 0\<close> by (simp add: text_of_def str_bytes_def)
    ultimately show False using assms by (simp add: text_ok_def)
  qed
  then have "\<forall>v \<in> set vs. is_scalar v \<and> 0 < v" using vs(1) unfolding is_scalar_def by force
  moreover have "s = text_of (utf8_text vs)" using vs(2) text_of_bytes [of s] by simp
  ultimately show ?thesis using that by blast
qed

text \<open>The value that is read back.\<close>

fun reload :: "u64 \<Rightarrow> json \<Rightarrow> json" where
  "reload flags (JObject ms) = JObject (t_entries (object_of (dump_order flags (map (\<lambda>(key, val). (key, reload flags val)) ms))))"
| "reload flags (JArray js) = JArray (map (reload flags) js)"
| "reload flags json = json"

lemma reload_deep_copy: "\<not> json_sort_keys flags \<Longrightarrow> reload flags json = json_deep_copy json"
proof (induction json rule: json_deep_copy.induct)
  case (1 ms)
  have "map (\<lambda>(key, val). (key, reload flags val)) ms = map (\<lambda>(key, val). (key, json_deep_copy val)) ms"
    using 1 by (intro map_cong [OF refl]) auto
  then show ?case using 1(2) by (simp only: reload.simps json_deep_copy.simps dump_order_def if_False)
qed auto

lemma dump_order_keys: "distinct (map fst ms) \<Longrightarrow> distinct (map fst (dump_order flags ms))"
proof -
  have m: "mset (map fst (dump_order flags ms)) = mset (map fst ms)" by (metis dump_order_mset mset_map)
  show "distinct (map fst ms) \<Longrightarrow> distinct (map fst (dump_order flags ms))" by (simp only: mset_eq_imp_distinct_iff [OF m])
qed

lemma dump_order_set [simp]: "set (dump_order flags ms) = set ms"
  by (metis dump_order_mset set_mset_mset)

lemma map_insort_fst: "map (\<lambda>(key, val). (key, f val)) (insort_key fst x ms) = insort_key fst (case x of (key, val) \<Rightarrow> (key, f val)) (map (\<lambda>(key, val). (key, f val)) ms)"
  by (induction ms) (auto split: prod.splits)

lemma dump_order_map: "dump_order flags (map (\<lambda>(key, val). (key, f val)) ms) = map (\<lambda>(key, val). (key, f val)) (dump_order flags ms)"
proof -
  have "sort_key fst (map (\<lambda>(key, val). (key, f val)) ms) = map (\<lambda>(key, val). (key, f val)) (sort_key fst ms)"
    unfolding sort_key_def by (induction ms) (simp_all add: map_insort_fst)
  then show ?thesis by (simp add: dump_order_def)
qed

lemma reload_equal: "json_wf json \<Longrightarrow> json_equal json (reload flags json)"
proof (induction flags json rule: reload.induct)
  case (1 flags ms)
  let ?ms = "map (\<lambda>(key, val). (key, reload flags val)) ms"
  have d: "distinct (map fst ?ms)" "distinct (map fst ms)" unfolding keys_members using "1.prems" by simp_all
  note o = dump_order_keys [OF d(1)]
  have "length (t_entries (object_of (dump_order flags ?ms))) = length ms"
    using object_of_mset [OF o] by (metis dump_order_mset length_map mset_eq_length)
  moreover have "map_of (t_entries (object_of (dump_order flags ?ms))) key = Some (reload flags v) \<and> json_equal v (reload flags v)"
    if kv: "(key, v) \<in> set ms" for key v
  proof -
    have "map_of (t_entries (object_of (dump_order flags ?ms))) = map_of (dump_order flags ?ms)"
      using object_of_map map_of_rev_distinct [OF o] by metis
    also have "\<dots> = map_of ?ms" using map_of_inject_set [OF o d(1)] by simp
    finally show ?thesis using kv d(2) "1.IH" "1.prems" by (fastforce simp: map_members)
  qed
  ultimately show ?case by fastforce
next
  case (2 flags js)
  then show ?case by (auto simp: set_zip)
qed (auto intro: equal_refl)

section \<open>Deeper calls\<close>

text \<open>A result does not depend on how deeply calls may be nested.\<close>

lemma parse_deeper:
  "(\<forall>l r. parse_value n l = Some r \<longrightarrow> parse_value (Suc n) l = Some r)
   \<and> (\<forall>l r obj. parse_object n obj l = Some r \<longrightarrow> parse_object (Suc n) obj l = Some r)
   \<and> (\<forall>l r elems. parse_array n elems l = Some r \<longrightarrow> parse_array (Suc n) elems l = Some r)"
proof (induction n)
  case 0
  then show ?case by simp
next
  case (Suc n)
  then have V: "\<And>l r. parse_value n l = Some r \<Longrightarrow> parse_value (Suc n) l = Some r"
    and O: "\<And>l r obj. parse_object n obj l = Some r \<Longrightarrow> parse_object (Suc n) obj l = Some r"
    and A: "\<And>l r elems. parse_array n elems l = Some r \<Longrightarrow> parse_array (Suc n) elems l = Some r" by blast+
  have "parse_value (Suc (Suc n)) l = Some r" if "parse_value (Suc n) l = Some r" for l r
    using that [unfolded parse_value.simps(2)]
    by (subst parse_value.simps(2)) (auto split: token.splits if_split_asm bind_split_asm simp del: parse_value.simps(2) parse_object.simps(2) parse_array.simps(2) dest!: O A)
  moreover have "parse_object (Suc (Suc n)) obj l = Some r" if "parse_object (Suc n) obj l = Some r" for l r obj
    using that [unfolded parse_object.simps(2)]
    by (subst parse_object.simps(2)) (auto simp: Let_def split: token.splits option.splits if_split_asm bind_split_asm simp del: parse_value.simps(2) parse_object.simps(2) dest!: V O)
  moreover have "parse_array (Suc (Suc n)) elems l = Some r" if "parse_array (Suc n) elems l = Some r" for l r elems
    using that [unfolded parse_array.simps(2)]
    by (subst parse_array.simps(2)) (auto simp: Let_def split: option.splits if_split_asm bind_split_asm simp del: parse_value.simps(2) parse_array.simps(2) dest!: V A)
  ultimately show ?case by blast
qed

lemma parse_value_deeper: "parse_value n l = Some r \<Longrightarrow> n \<le> m \<Longrightarrow> parse_value m l = Some r"
proof (induction m)
  case (Suc m)
  show ?case
  proof (cases "n = Suc m")
    case False
    then show ?thesis using Suc parse_deeper [of m] le_SucE by blast
  qed (use Suc in blast)
qed simp

lemma parse_object_deeper: "parse_object n obj l = Some r \<Longrightarrow> n \<le> m \<Longrightarrow> parse_object m obj l = Some r"
proof (induction m)
  case (Suc m)
  show ?case
  proof (cases "n = Suc m")
    case False
    then show ?thesis using Suc parse_deeper [of m] le_SucE by blast
  qed (use Suc in blast)
qed simp

lemma parse_array_deeper: "parse_array n elems l = Some r \<Longrightarrow> n \<le> m \<Longrightarrow> parse_array m elems l = Some r"
proof (induction m)
  case (Suc m)
  show ?case
  proof (cases "n = Suc m")
    case False
    then show ?thesis using Suc parse_deeper [of m] le_SucE by blast
  qed (use Suc in blast)
qed simp


section \<open>Tokens\<close>

text \<open>The characters behind a value in a printed text.\<close>

definition delim :: "char \<Rightarrow> bool" where
  "delim c \<longleftrightarrow> c = CHR '','' \<or> c = CHR '']'' \<or> c = CHR ''}'' \<or> c = CHR 0x0A"

lemma delim_end: "delim d \<Longrightarrow> \<not> is_digit d \<and> \<not> is_letter d \<and> d \<noteq> CHR ''.'' \<and> d \<noteq> CHR ''e'' \<and> d \<noteq> CHR ''E''"
  by (auto simp: delim_def is_digit_def is_letter_def)

lemma punctuation_scan:
  assumes "before (bs @ c # r) l" "list_all is_blank bs" "c \<in> set ''{}[]:,''"
  shows "token_read (T_char c) r (lex_scan l)"
proof -
  have "\<not> is_blank c" "c \<noteq> EOF" using assms(3) by (auto simp: is_blank_def)
  then obtain l1 where "reading c r [] l1" "lex_scan l = scan_token c l1" using lex_scan_token [OF assms(1,2)] by metis
  then show ?thesis using punctuation_read [OF assms(3)] by simp
qed

lemma string_scan:
  assumes "before (bs @ CHR 0x22 # pieces ascii vs @ CHR 0x22 # r) l" "list_all is_blank bs" "\<forall>v \<in> set vs. is_scalar v \<and> 0 < v"
  shows "token_read (T_string (text_of (utf8_text vs))) r (lex_scan l)"
proof -
  obtain l1 where l1: "reading (CHR 0x22) (pieces ascii vs @ CHR 0x22 # r) [] l1" "lex_scan l = scan_token (CHR 0x22) l1"
    using lex_scan_token [OF assms(1,2)] by (auto simp: is_blank_def)
  have "scan_token (CHR 0x22) l1 = lex_scan_string l1" by (simp add: scan_token_def)
  then show ?thesis using string_read [OF l1(1) refl assms(3)] l1(2) by simp
qed

lemma number_first:
  assumes "sign_text sg" "digits_text ds" "sg @ ds @ t = c # s"
  shows "scan_token c l = lex_scan_number c l" "\<not> is_blank c" "c \<noteq> EOF"
proof -
  have "c = CHR ''-'' \<or> is_digit c" using assms digits_first [OF assms(2)] by (auto simp: sign_text_def hd_append split: if_split_asm) (metis hd_append2 list.sel(1))
  then show "scan_token c l = lex_scan_number c l" "\<not> is_blank c" "c \<noteq> EOF" by (auto simp: scan_token_def is_digit_def is_blank_def)
qed

lemma integer_scan:
  assumes "before (bs @ fmt_d i @ d # r) l" "list_all is_blank bs" "delim d" "printable (JInteger i)"
  shows "token_read (T_integer i) (d # r) (lex_scan l)"
proof -
  obtain c s where c: "fmt_d i @ d # r = c # s" by (cases "fmt_d i") simp_all
  have f: "fmt_d i = (if i < 0 then ''-'' else []) @ nat_digits (nat \<bar>i\<bar>)" by (simp add: fmt_d_def)
  have "scan_token c l1 = lex_scan_number c l1" "\<not> is_blank c" "c \<noteq> EOF" for l1
    using number_first [of "if i < 0 then ''-'' else []" "nat_digits (nat \<bar>i\<bar>)" "d # r" c s] c nat_digits_text
    unfolding f by (simp_all add: sign_text_def)
  moreover from this obtain l1 where "reading c s [] l1" "lex_scan l = scan_token c l1"
    using lex_scan_token [of bs c s l] assms(1,2) c by metis
  ultimately show ?thesis using integer_read [of c s l1 i d r] c assms(3,4) delim_end [OF assms(3)] by simp
qed

lemma real_scan:
  assumes "before (bs @ dump_real x @ d # r) l" "list_all is_blank bs" "delim d" "printable (JReal x)"
  shows "token_read (T_real x) (d # r) (lex_scan l)"
proof -
  obtain sg ds fs es where f: "dump_real x = sg @ ds @ fs @ es" "real_shape sg ds fs es (dec_value x)" "fs \<noteq> [] \<or> es \<noteq> []"
    using dump_real_shape by blast
  have sd: "sign_text sg" "digits_text ds" using f(2) by (simp_all add: real_shape_def)
  obtain c s where c: "sg @ ds @ fs @ es @ d # r = c # s" using digits_first [OF sd(2)] by (cases sg; cases ds) auto
  have "scan_token c l1 = lex_scan_number c l1" "\<not> is_blank c" "c \<noteq> EOF" for l1 using number_first [OF sd c] by simp_all
  moreover from this obtain l1 where "reading c s [] l1" "lex_scan l = scan_token c l1"
    using lex_scan_token [of bs c s l] assms(1,2) c f(1) by (metis append.assoc)
  moreover have "strtod (dec_value x) = (x, False)" using strtod_dec_value assms(4) by simp
  ultimately show ?thesis using real_read [OF _ c [symmetric] f(2,3)] delim_end [OF assms(3)] by simp
qed

lemma word_scan:
  assumes "before (bs @ w @ d # r) l" "list_all is_blank bs" "delim d" "w \<in> set [''true'', ''false'', ''null'']"
  shows "token_read (word_token w) (d # r) (lex_scan l)"
proof -
  obtain c s where c: "w @ d # r = c # s" by (cases w) simp_all
  then have "\<not> is_blank c" "c \<noteq> EOF" using assms(4) by (auto simp: is_blank_def)
  then obtain l1 where "reading c s [] l1" "lex_scan l = scan_token c l1" using lex_scan_token [of bs c s l] assms(1,2) c by metis
  then show ?thesis using word_read [OF _ c [symmetric] assms(4)] delim_end [OF assms(3)] by simp
qed

section \<open>Values\<close>

text \<open>What the next token and the parser give, with what is ahead of them.\<close>

definition value_read :: "json \<Rightarrow> string \<Rightarrow> lexer \<Rightarrow> bool" where
  "value_read v r l \<longleftrightarrow> (\<exists>l1 n l2. lex_scan l = Some l1 \<and> parse_value n l1 = Some (Some v, l2) \<and> before r l2)"

definition elems_read :: "json list \<Rightarrow> json \<Rightarrow> string \<Rightarrow> lexer \<Rightarrow> bool" where
  "elems_read elems v r l \<longleftrightarrow> (\<exists>l1 n l2. lex_scan l = Some l1 \<and> parse_array n elems l1 = Some (Some v, l2) \<and> before r l2)"

definition members_read :: "object \<Rightarrow> json \<Rightarrow> string \<Rightarrow> lexer \<Rightarrow> bool" where
  "members_read obj v r l \<longleftrightarrow> (\<exists>l1 n l2. lex_scan l = Some l1 \<and> parse_object n obj l1 = Some (Some v, l2) \<and> before r l2)"

lemma scalar_value: "token_read tok r (lex_scan l) \<Longrightarrow> (\<And>l1. lx_token l1 = tok \<Longrightarrow> parse_value 1 l1 = Some (Some v, l1)) \<Longrightarrow> value_read v r l"
  unfolding token_read_def value_read_def by blast

lemma value_token: "parse_value n l = Some (Some v, l') \<Longrightarrow> lx_token l \<noteq> T_eof \<and> lx_token l \<noteq> T_char (CHR '']'')"
  by (cases n) auto

lemma array_token: "parse_array n elems l = Some (Some v, l') \<Longrightarrow> lx_token l \<noteq> T_char (CHR '']'')"
  using value_token by (cases n) (auto split: bind_split_asm option.split_asm if_split_asm)

lemma object_token: "parse_object n obj l = Some (Some v, l') \<Longrightarrow> lx_token l \<noteq> T_char (CHR ''}'')"
  by (cases n) auto

lemma elems_last:
  assumes "value_read v (bs @ CHR '']'' # r) l" "list_all is_blank bs"
  shows "elems_read elems (JArray (elems @ [v])) r l"
proof -
  obtain l1 n l2 where l: "lex_scan l = Some l1" "parse_value n l1 = Some (Some v, l2)" "before (bs @ CHR '']'' # r) l2"
    using assms(1) by (auto simp: value_read_def)
  obtain l3 where "lex_scan l2 = Some l3" "lx_token l3 = T_char (CHR '']'')" "before r l3"
    using punctuation_scan [OF l(3) assms(2)] by (auto simp: token_read_def)
  then have "parse_array (Suc n) elems l1 = Some (Some (JArray (elems @ [v])), l3)"
    using l(2) value_token [OF l(2)] by (simp add: Let_def)
  then show ?thesis using l(1) \<open>before r l3\<close> unfolding elems_read_def by blast
qed

lemma elems_more:
  assumes "value_read v (CHR '','' # t) l" "\<And>l. before t l \<Longrightarrow> elems_read (elems @ [v]) w r l"
  shows "elems_read elems w r l"
proof -
  obtain l1 n l2 where l: "lex_scan l = Some l1" "parse_value n l1 = Some (Some v, l2)" "before (CHR '','' # t) l2"
    using assms(1) by (auto simp: value_read_def)
  obtain l3 where l3: "lex_scan l2 = Some l3" "lx_token l3 = T_char (CHR '','')" "before t l3"
    using punctuation_scan [of "[]" "CHR '',''" t l2] l(3) by (auto simp: token_read_def)
  obtain l4 m l5 where l4: "lex_scan l3 = Some l4" "parse_array m (elems @ [v]) l4 = Some (Some w, l5)" "before r l5"
    using assms(2) [OF l3(3)] by (auto simp: elems_read_def)
  have "parse_value (max n m) l1 = Some (Some v, l2)" "parse_array (max n m) (elems @ [v]) l4 = Some (Some w, l5)"
    using parse_value_deeper [OF l(2)] parse_array_deeper [OF l4(2)] by simp_all
  then have "parse_array (Suc (max n m)) elems l1 = Some (Some w, l5)"
    using l3 l4(1) value_token [OF l(2)] by (simp add: Let_def)
  then show ?thesis using l(1) l4(3) unfolding elems_read_def by blast
qed

lemma array_value:
  assumes "before (bs @ CHR ''['' # t) l" "list_all is_blank bs" "\<And>l. before t l \<Longrightarrow> elems_read [] w r l"
  shows "value_read w r l"
proof -
  obtain l1 where l1: "lex_scan l = Some l1" "lx_token l1 = T_char (CHR ''['')" "before t l1"
    using punctuation_scan [OF assms(1,2)] by (auto simp: token_read_def)
  obtain l2 n l3 where "lex_scan l1 = Some l2" "parse_array n [] l2 = Some (Some w, l3)" "before r l3"
    using assms(3) [OF l1(3)] by (auto simp: elems_read_def)
  then have "parse_value (Suc n) l1 = Some (Some w, l3)" using l1(2) array_token by simp
  then show ?thesis using l1(1) \<open>before r l3\<close> unfolding value_read_def by blast
qed

lemma empty_array_value:
  assumes "before (bs @ CHR ''['' # CHR '']'' # r) l" "list_all is_blank bs"
  shows "value_read (JArray []) r l"
proof -
  obtain l1 where l1: "lex_scan l = Some l1" "lx_token l1 = T_char (CHR ''['')" "before (CHR '']'' # r) l1"
    using punctuation_scan [OF assms] by (auto simp: token_read_def)
  obtain l2 where "lex_scan l1 = Some l2" "lx_token l2 = T_char (CHR '']'')" "before r l2"
    using punctuation_scan [of "[]" "CHR '']''" r l1] l1(3) by (auto simp: token_read_def)
  then have "parse_value 1 l1 = Some (Some (JArray []), l2)" using l1(2) by simp
  then show ?thesis using l1(1) \<open>before r l2\<close> unfolding value_read_def by blast
qed


lemma object_value:
  assumes "before (bs @ CHR ''{'' # t) l" "list_all is_blank bs" "\<And>l. before t l \<Longrightarrow> members_read t_empty w r l"
  shows "value_read w r l"
proof -
  obtain l1 where l1: "lex_scan l = Some l1" "lx_token l1 = T_char (CHR ''{'')" "before t l1"
    using punctuation_scan [OF assms(1,2)] by (auto simp: token_read_def)
  obtain l2 n l3 where "lex_scan l1 = Some l2" "parse_object n t_empty l2 = Some (Some w, l3)" "before r l3"
    using assms(3) [OF l1(3)] by (auto simp: members_read_def)
  then have "parse_value (Suc n) l1 = Some (Some w, l3)" using l1(2) object_token by simp
  then show ?thesis using l1(1) \<open>before r l3\<close> unfolding value_read_def by blast
qed

lemma empty_object_value:
  assumes "before (bs @ CHR ''{'' # CHR ''}'' # r) l" "list_all is_blank bs"
  shows "value_read (JObject []) r l"
proof -
  obtain l1 where l1: "lex_scan l = Some l1" "lx_token l1 = T_char (CHR ''{'')" "before (CHR ''}'' # r) l1"
    using punctuation_scan [OF assms] by (auto simp: token_read_def)
  obtain l2 where "lex_scan l1 = Some l2" "lx_token l2 = T_char (CHR ''}'')" "before r l2"
    using punctuation_scan [of "[]" "CHR ''}''" r l1] l1(3) by (auto simp: token_read_def)
  then have "parse_value 1 l1 = Some (Some (JObject []), l2)" using l1(2) by simp
  then show ?thesis using l1(1) \<open>before r l2\<close> unfolding value_read_def by blast
qed

text \<open>A key, its value and what is behind them.\<close>

lemma member_key:
  assumes "before (bs @ CHR 0x22 # pieces ascii vs @ CHR 0x22 # CHR '':'' # t) l" "list_all is_blank bs" "\<forall>v \<in> set vs. is_scalar v \<and> 0 < v"
  obtains l1 l2 where "lex_scan l = Some l1" "lx_token l1 = T_string (text_of (utf8_text vs))" "lex_scan l1 = Some l2"
    "lx_token l2 = T_char (CHR '':'')" "before t l2"
proof -
  obtain l1 where l1: "lex_scan l = Some l1" "lx_token l1 = T_string (text_of (utf8_text vs))" "before (CHR '':'' # t) l1"
    using string_scan [OF assms] by (auto simp: token_read_def)
  obtain l2 where "lex_scan l1 = Some l2" "lx_token l2 = T_char (CHR '':'')" "before t l2"
    using punctuation_scan [of "[]" "CHR '':''" t l1] l1(3) by (auto simp: token_read_def)
  then show ?thesis using that l1 by blast
qed

lemma members_last:
  assumes "before (bs @ CHR 0x22 # pieces ascii vs @ CHR 0x22 # CHR '':'' # t) l" "list_all is_blank bs" "\<forall>v \<in> set vs. is_scalar v \<and> 0 < v"
    and "\<And>l. before t l \<Longrightarrow> value_read v (bs' @ CHR ''}'' # r) l" "list_all is_blank bs'"
  shows "members_read obj (JObject (t_entries (json_object_set_nocheck (text_of (utf8_text vs)) v obj))) r l"
proof -
  obtain l1 l2 where l: "lex_scan l = Some l1" "lx_token l1 = T_string (text_of (utf8_text vs))" "lex_scan l1 = Some l2"
    "lx_token l2 = T_char (CHR '':'')" "before t l2"
    using member_key [OF assms(1-3)] by metis
  obtain l3 n l4 where l4: "lex_scan l2 = Some l3" "parse_value n l3 = Some (Some v, l4)" "before (bs' @ CHR ''}'' # r) l4"
    using assms(4) [OF l(5)] by (auto simp: value_read_def)
  obtain l5 where "lex_scan l4 = Some l5" "lx_token l5 = T_char (CHR ''}'')" "before r l5"
    using punctuation_scan [OF l4(3) assms(5)] by (auto simp: token_read_def)
  then have "parse_object (Suc n) obj l1 = Some (Some (JObject (t_entries (json_object_set_nocheck (text_of (utf8_text vs)) v obj))), l5)"
    using l l4 by (simp add: Let_def)
  then show ?thesis using l(1) \<open>before r l5\<close> unfolding members_read_def by blast
qed

lemma members_more:
  assumes "before (bs @ CHR 0x22 # pieces ascii vs @ CHR 0x22 # CHR '':'' # t) l" "list_all is_blank bs" "\<forall>v \<in> set vs. is_scalar v \<and> 0 < v"
    and "\<And>l. before t l \<Longrightarrow> value_read v (CHR '','' # u) l"
    and "\<And>l. before u l \<Longrightarrow> members_read (json_object_set_nocheck (text_of (utf8_text vs)) v obj) w r l"
  shows "members_read obj w r l"
proof -
  obtain l1 l2 where l: "lex_scan l = Some l1" "lx_token l1 = T_string (text_of (utf8_text vs))" "lex_scan l1 = Some l2"
    "lx_token l2 = T_char (CHR '':'')" "before t l2"
    using member_key [OF assms(1-3)] by metis
  obtain l3 n l4 where l4: "lex_scan l2 = Some l3" "parse_value n l3 = Some (Some v, l4)" "before (CHR '','' # u) l4"
    using assms(4) [OF l(5)] by (auto simp: value_read_def)
  obtain l5 where l5: "lex_scan l4 = Some l5" "lx_token l5 = T_char (CHR '','')" "before u l5"
    using punctuation_scan [of "[]" "CHR '',''" u l4] l4(3) by (auto simp: token_read_def)
  let ?obj = "json_object_set_nocheck (text_of (utf8_text vs)) v obj"
  obtain l6 m l7 where l6: "lex_scan l5 = Some l6" "parse_object m ?obj l6 = Some (Some w, l7)" "before r l7"
    using assms(5) [OF l5(3)] by (auto simp: members_read_def)
  have "parse_value (max n m) l3 = Some (Some v, l4)" "parse_object (max n m) ?obj l6 = Some (Some w, l7)"
    using parse_value_deeper [OF l4(2)] parse_object_deeper [OF l6(2)] by simp_all
  then have "parse_object (Suc (max n m)) obj l1 = Some (Some w, l7)" using l l4(1) l5 l6(1) by (simp add: Let_def)
  then show ?thesis using l(1) l6(3) unfolding members_read_def by blast
qed

section \<open>Printed values\<close>

lemma indent_blank: "list_all is_blank (dump_indent flags depth space)"
  by (auto simp: dump_indent_def is_blank_def list_all_iff)

lemma indent_delim: "c = CHR '']'' \<or> c = CHR ''}'' \<Longrightarrow> \<exists>d t. dump_indent flags depth False @ c # r = d # t \<and> delim d"
  by (auto simp: dump_indent_def delim_def)

text \<open>The text behind a value: a character that ends it, unless it ends by itself.\<close>

definition follows :: "json \<Rightarrow> string \<Rightarrow> bool" where
  "follows j r \<longleftrightarrow> (\<exists>d t. r = d # t \<and> delim d) \<or> json_is_array (Some j) \<or> json_is_object (Some j)"

lemma scalar_printed:
  assumes "printable j" "\<not> json_is_array (Some j)" "\<not> json_is_object (Some j)" "do_dump flags depth j = (ok, text)"
    and "before (bs @ text @ r) l" "list_all is_blank bs" "follows j r"
  shows "ok \<and> value_read j r l"
proof -
  obtain d t where r: "r = d # t" "delim d" using assms(2,3,7) by (auto simp: follows_def)
  show ?thesis
  proof (cases j)
    case (JString s)
    then obtain vs where vs: "s = text_of (utf8_text vs)" "\<forall>v \<in> set vs. is_scalar v \<and> 0 < v"
      using text_ok_scalars assms(1) by auto
    then have "(ok, text) = (True, CHR 0x22 # pieces (json_ensure_ascii flags) vs @ [CHR 0x22])"
      using dump_string_pieces [of vs s] assms(4) JString by simp
    then have "token_read (T_string s) r (lex_scan l)" "ok"
      using string_scan [of bs "json_ensure_ascii flags" vs r l] assms(5,6) vs by auto
    then show ?thesis using JString scalar_value [of "T_string s" r l "JString s"] by simp
  next
    case (JInteger i)
    then have "ok" "text = fmt_d i" using assms(4) by (simp_all add: dump_text_def)
    then show ?thesis using integer_scan [of bs i d t l] assms(1,5,6) r JInteger scalar_value [of "T_integer i" r l "JInteger i"] by simp
  next
    case (JReal x)
    then have "ok" "text = dump_real x" using assms(4) by (simp_all add: dump_text_def)
    then show ?thesis using real_scan [of bs x d t l] assms(1,5,6) r JReal scalar_value [of "T_real x" r l "JReal x"] by simp
  next
    case JTrue
    then have "ok" "text = ''true''" using assms(4) by (simp_all add: dump_text_def)
    then show ?thesis using word_scan [of bs "''true''" d t l] assms(5,6) r JTrue scalar_value [of T_true r l JTrue] by (simp add: word_token_def)
  next
    case JFalse
    then have "ok" "text = ''false''" using assms(4) by (simp_all add: dump_text_def)
    then show ?thesis using word_scan [of bs "''false''" d t l] assms(5,6) r JFalse scalar_value [of T_false r l JFalse] by (simp add: word_token_def)
  next
    case JNull
    then have "ok" "text = ''null''" using assms(4) by (simp_all add: dump_text_def)
    then show ?thesis using word_scan [of bs "''null''" d t l] assms(5,6) r JNull scalar_value [of T_null r l JNull] by (simp add: word_token_def)
  qed (use assms(2,3) in simp_all)
qed


lemma scalar_ok: "printable j \<Longrightarrow> \<not> json_is_array (Some j) \<Longrightarrow> \<not> json_is_object (Some j) \<Longrightarrow> fst (do_dump flags depth j)"
proof (cases j)
  case (JString s)
  moreover assume "printable j"
  ultimately obtain vs where "s = text_of (utf8_text vs)" "\<forall>v \<in> set vs. is_scalar v \<and> 0 < v" using text_ok_scalars [of s] by auto
  then show ?thesis using JString dump_string_pieces [of vs s] by simp
qed (simp_all add: dump_text_def)

lemma reload_scalar: "\<not> json_is_array (Some j) \<Longrightarrow> \<not> json_is_object (Some j) \<Longrightarrow> reload flags j = j"
  by (cases j) simp_all

definition value_printed :: "u64 \<Rightarrow> nat \<Rightarrow> json \<Rightarrow> bool" where
  "value_printed flags depth j \<longleftrightarrow> (\<exists>printed. do_dump flags depth j = (True, printed)
     \<and> (\<forall>bs r l. before (bs @ printed @ r) l \<longrightarrow> list_all is_blank bs \<longrightarrow> follows j r \<longrightarrow> value_read (reload flags j) r l))"

definition elems_printed :: "u64 \<Rightarrow> nat \<Rightarrow> json list \<Rightarrow> bool" where
  "elems_printed flags depth js \<longleftrightarrow> (\<exists>printed. dump_elems flags depth js = (True, printed)
     \<and> (\<forall>bs r l elems. before (bs @ printed @ CHR '']'' # r) l \<longrightarrow> list_all is_blank bs \<longrightarrow> elems_read elems (JArray (elems @ map (reload flags) js)) r l))"

definition members_printed :: "u64 \<Rightarrow> nat \<Rightarrow> (string \<times> json) list \<Rightarrow> bool" where
  "members_printed flags depth ms \<longleftrightarrow> (\<exists>printed. dump_members flags depth ms = (True, printed)
     \<and> (\<forall>bs r l obj. before (bs @ printed @ CHR ''}'' # r) l \<longrightarrow> list_all is_blank bs \<longrightarrow>
          members_read obj (JObject (t_entries (fold (\<lambda>(key, val). json_object_set_nocheck key val) (map (\<lambda>(key, val). (key, reload flags val)) ms) obj))) r l))"

lemma scalar_value_printed:
  assumes "printable j" "\<not> json_is_array (Some j)" "\<not> json_is_object (Some j)"
  shows "value_printed flags depth j"
proof -
  obtain printed where "do_dump flags depth j = (True, printed)" using scalar_ok [OF assms, of flags depth] by (cases "do_dump flags depth j") auto
  then show ?thesis
    using scalar_printed [OF assms] reload_scalar [OF assms(2,3)] unfolding value_printed_def by metis
qed

lemma array_printed:
  assumes "js \<noteq> [] \<Longrightarrow> elems_printed flags depth js"
  shows "value_printed flags depth (JArray js)"
proof (cases "js = []")
  case True
  then show ?thesis using empty_array_value unfolding value_printed_def by (auto simp: dump_text_def)
next
  case False
  obtain printed where printed: "dump_elems flags depth js = (True, printed)"
    "\<And>bs r l elems. before (bs @ printed @ CHR '']'' # r) l \<Longrightarrow> list_all is_blank bs \<Longrightarrow> elems_read elems (JArray (elems @ map (reload flags) js)) r l"
    using assms [OF False] unfolding elems_printed_def by blast
  have d: "do_dump flags depth (JArray js) = (True, CHR ''['' # dump_indent flags (depth + 1) False @ printed @ '']'')"
    using False printed(1) by (simp add: dump_then_def dump_text_def)
  have "value_read (JArray (map (reload flags) js)) r l"
    if "before (bs @ (CHR ''['' # dump_indent flags (depth + 1) False @ printed @ '']'') @ r) l" "list_all is_blank bs" for bs r l
  proof (rule array_value [OF _ that(2)])
    show "before (bs @ CHR ''['' # (dump_indent flags (depth + 1) False @ printed @ CHR '']'' # r)) l" using that(1) by simp
    show "elems_read [] (JArray (map (reload flags) js)) r l" if "before (dump_indent flags (depth + 1) False @ printed @ CHR '']'' # r) l" for l
      using printed(2) [OF that indent_blank, of "[]"] by simp
  qed
  then show ?thesis unfolding value_printed_def d by auto
qed

lemma object_printed:
  assumes "ms \<noteq> [] \<Longrightarrow> members_printed flags depth (dump_order flags ms)"
  shows "value_printed flags depth (JObject ms)"
proof (cases "ms = []")
  case True
  have "dump_order flags [] = []" for k :: "(string \<times> json) list" by (simp add: dump_order_def)
  then have "reload flags (JObject []) = JObject []" by (simp add: object_of_def t_empty_def t_entries_def)
  then show ?thesis using True empty_object_value unfolding value_printed_def by (auto simp: dump_text_def simp del: reload.simps)
next
  case False
  let ?w = "JObject (t_entries (object_of (map (\<lambda>(key, val). (key, reload flags val)) (dump_order flags ms))))"
  have w: "reload flags (JObject ms) = ?w" by (simp add: dump_order_map)
  obtain printed where printed: "dump_members flags depth (dump_order flags ms) = (True, printed)"
    "\<And>bs r l. before (bs @ printed @ CHR ''}'' # r) l \<Longrightarrow> list_all is_blank bs \<Longrightarrow> members_read t_empty ?w r l"
    using assms [OF False] unfolding members_printed_def object_of_def by blast
  have d: "do_dump flags depth (JObject ms) = (True, CHR ''{'' # dump_indent flags (depth + 1) False @ printed @ ''}'')"
    using False printed(1) by (simp add: dump_then_def dump_text_def)
  have "value_read ?w r l"
    if "before (bs @ (CHR ''{'' # dump_indent flags (depth + 1) False @ printed @ ''}'') @ r) l" "list_all is_blank bs" for bs r l
  proof (rule object_value [OF _ that(2)])
    show "before (bs @ CHR ''{'' # (dump_indent flags (depth + 1) False @ printed @ CHR ''}'' # r)) l" using that(1) by simp
    show "members_read t_empty ?w r l" if "before (dump_indent flags (depth + 1) False @ printed @ CHR ''}'' # r) l" for l
      using printed(2) [OF that indent_blank] .
  qed
  then show ?thesis unfolding value_printed_def d w by auto
qed

lemma elems_cons_printed:
  assumes "value_printed flags (depth + 1) j" "js \<noteq> [] \<Longrightarrow> elems_printed flags depth js"
  shows "elems_printed flags depth (j # js)"
proof -
  obtain printed where printed: "do_dump flags (depth + 1) j = (True, printed)"
    "\<And>bs r l. before (bs @ printed @ r) l \<Longrightarrow> list_all is_blank bs \<Longrightarrow> follows j r \<Longrightarrow> value_read (reload flags j) r l"
    using assms(1) unfolding value_printed_def by blast
  show ?thesis
  proof (cases "js = []")
    case True
    have "elems_read elems (JArray (elems @ [reload flags j])) r l"
      if "before (bs @ (printed @ dump_indent flags depth False) @ CHR '']'' # r) l" "list_all is_blank bs" for bs r l elems
    proof (rule elems_last [OF printed(2) indent_blank])
      show "before (bs @ printed @ dump_indent flags depth False @ CHR '']'' # r) l" using that(1) by simp
      show "follows j (dump_indent flags depth False @ CHR '']'' # r)" using indent_delim [of "CHR '']''" flags depth r] by (simp add: follows_def)
    qed (rule that(2))
    then show ?thesis using True printed(1) unfolding elems_printed_def by (simp add: dump_then_def dump_text_def)
  next
    case False
    obtain rest where rest: "dump_elems flags depth js = (True, rest)"
      "\<And>bs r l elems. before (bs @ rest @ CHR '']'' # r) l \<Longrightarrow> list_all is_blank bs \<Longrightarrow> elems_read elems (JArray (elems @ map (reload flags) js)) r l"
      using assms(2) [OF False] unfolding elems_printed_def by blast
    let ?i = "dump_indent flags (depth + 1) True"
    have "elems_read elems (JArray (elems @ map (reload flags) (j # js))) r l"
      if "before (bs @ (printed @ CHR '','' # ?i @ rest) @ CHR '']'' # r) l" "list_all is_blank bs" for bs r l elems
    proof (rule elems_more [OF printed(2)])
      show "before (bs @ printed @ CHR '','' # ?i @ rest @ CHR '']'' # r) l" using that(1) by simp
      show "follows j (CHR '','' # ?i @ rest @ CHR '']'' # r)" by (simp add: follows_def delim_def)
      show "elems_read (elems @ [reload flags j]) (JArray (elems @ map (reload flags) (j # js))) r l" if "before (?i @ rest @ CHR '']'' # r) l" for l
        using rest(2) [OF that indent_blank, of "elems @ [reload flags j]"] by simp
    qed (rule that(2))
    then show ?thesis using False printed(1) rest(1) unfolding elems_printed_def by (simp add: dump_then_def dump_text_def)
  qed
qed


lemma members_cons_printed:
  assumes "text_ok key" "value_printed flags (depth + 1) val" "ms \<noteq> [] \<Longrightarrow> members_printed flags depth ms"
  shows "members_printed flags depth ((key, val) # ms)"
proof -
  obtain vs where vs: "key = text_of (utf8_text vs)" "\<forall>v \<in> set vs. is_scalar v \<and> 0 < v" using text_ok_scalars [OF assms(1)] .
  let ?ps = "pieces (json_ensure_ascii flags) vs" and ?sp = "if json_compact flags then [] else '' ''"
  let ?set = "json_object_set_nocheck key (reload flags val)"
  have k: "snd (dump_string key (json_ensure_ascii flags)) = CHR 0x22 # ?ps @ [CHR 0x22]" using dump_string_pieces [of vs key] vs by simp
  have sp: "list_all is_blank ?sp" by (simp add: is_blank_def)
  obtain printed where val: "do_dump flags (depth + 1) val = (True, printed)"
    "\<And>bs r l. before (bs @ printed @ r) l \<Longrightarrow> list_all is_blank bs \<Longrightarrow> follows val r \<Longrightarrow> value_read (reload flags val) r l"
    using assms(2) unfolding value_printed_def by blast
  show ?thesis
  proof (cases "ms = []")
    case True
    let ?i = "dump_indent flags depth False"
    have d: "dump_members flags depth ((key, val) # ms) = (True, CHR 0x22 # ?ps @ CHR 0x22 # CHR '':'' # ?sp @ printed @ ?i)"
      using True val(1) k by (simp add: dump_then_def dump_text_def)
    have "members_read obj (JObject (t_entries (?set obj))) r l"
      if "before (bs @ (CHR 0x22 # ?ps @ CHR 0x22 # CHR '':'' # ?sp @ printed @ ?i) @ CHR ''}'' # r) l" "list_all is_blank bs" for bs r l obj
      unfolding vs(1)
    proof (rule members_last [OF _ that(2) vs(2)])
      show "before (bs @ CHR 0x22 # ?ps @ CHR 0x22 # CHR '':'' # (?sp @ printed @ ?i @ CHR ''}'' # r)) l" using that(1) by simp
      show "value_read (reload flags val) (?i @ CHR ''}'' # r) l" if "before (?sp @ printed @ ?i @ CHR ''}'' # r) l" for l
        using val(2) [OF that sp] indent_delim [of "CHR ''}''" flags depth r] by (simp add: follows_def)
    qed (rule indent_blank)
    then show ?thesis using True unfolding members_printed_def d by simp
  next
    case False
    let ?i = "dump_indent flags (depth + 1) True"
    let ?w = "\<lambda>obj. JObject (t_entries (fold (\<lambda>(key, val). json_object_set_nocheck key val) (map (\<lambda>(key, val). (key, reload flags val)) ms) obj))"
    obtain rest where rest: "dump_members flags depth ms = (True, rest)"
      "\<And>bs r l obj. before (bs @ rest @ CHR ''}'' # r) l \<Longrightarrow> list_all is_blank bs \<Longrightarrow> members_read obj (?w obj) r l"
      using assms(3) [OF False] unfolding members_printed_def by blast
    have d: "dump_members flags depth ((key, val) # ms) = (True, CHR 0x22 # ?ps @ CHR 0x22 # CHR '':'' # ?sp @ printed @ CHR '','' # ?i @ rest)"
      using False val(1) rest(1) k by (simp add: dump_then_def dump_text_def)
    have "members_read obj (?w (?set obj)) r l"
      if "before (bs @ (CHR 0x22 # ?ps @ CHR 0x22 # CHR '':'' # ?sp @ printed @ CHR '','' # ?i @ rest) @ CHR ''}'' # r) l" "list_all is_blank bs" for bs r l obj
    proof (rule members_more [OF _ that(2) vs(2)])
      show "before (bs @ CHR 0x22 # ?ps @ CHR 0x22 # CHR '':'' # (?sp @ printed @ CHR '','' # ?i @ rest @ CHR ''}'' # r)) l" using that(1) by simp
      show "value_read (reload flags val) (CHR '','' # (?i @ rest @ CHR ''}'' # r)) l" if "before (?sp @ printed @ CHR '','' # ?i @ rest @ CHR ''}'' # r) l" for l
        using val(2) [OF that sp] by (simp add: follows_def delim_def)
      show "members_read (json_object_set_nocheck (text_of (utf8_text vs)) (reload flags val) obj) (?w (?set obj)) r l"
        if "before (?i @ rest @ CHR ''}'' # r) l" for l
        using rest(2) [OF that indent_blank, of "?set obj"] vs(1) by simp
    qed
    then show ?thesis unfolding members_printed_def d by simp
  qed
qed

lemma all_printed:
  shows "printable j \<Longrightarrow> value_printed flags depth j"
    and "\<forall>j \<in> set js. printable j \<Longrightarrow> js \<noteq> [] \<Longrightarrow> elems_printed flags depth js"
    and "\<forall>(key, val) \<in> set ms. text_ok key \<and> printable val \<Longrightarrow> ms \<noteq> [] \<Longrightarrow> members_printed flags depth ms"
proof (induction flags depth j and flags depth js and flags depth ms rule: do_dump_dump_elems_dump_members.induct)
  case (7 flags depth js)
  then show ?case by (intro array_printed) simp
next
  case (8 flags depth ms)
  have "dump_order flags ms \<noteq> []" if "ms \<noteq> []" using that dump_order_set [of flags ms] by (metis set_empty)
  then show ?case using 8 by (intro object_printed) auto
next
  case (10 flags depth j js)
  then show ?case by (intro elems_cons_printed) auto
next
  case (12 flags depth key val ms)
  then show ?case by (intro members_cons_printed) auto
qed (auto intro: scalar_value_printed)

section \<open>Printed text is well-formed\<close>

definition utf8_string :: "string \<Rightarrow> bool" where
  "utf8_string s \<longleftrightarrow> (\<exists>vs. (\<forall>v \<in> set vs. is_scalar v) \<and> s = text_of (utf8_text vs))"

lemma utf8_string_append: "utf8_string s \<Longrightarrow> utf8_string t \<Longrightarrow> utf8_string (s @ t)"
proof -
  assume "utf8_string s" "utf8_string t"
  then obtain vs ws where "\<forall>v \<in> set (vs @ ws). is_scalar v" "s = text_of (utf8_text vs)" "t = text_of (utf8_text ws)"
    unfolding utf8_string_def by auto
  moreover have "text_of (utf8_text (vs @ ws)) = text_of (utf8_text vs) @ text_of (utf8_text ws)" by (simp add: utf8_text_def text_of_append)
  ultimately show ?thesis unfolding utf8_string_def by metis
qed

definition ascii_string :: "string \<Rightarrow> bool" where
  "ascii_string s \<longleftrightarrow> list_all (\<lambda>c. (of_char c :: nat) < 0x80) s"

lemma utf8_string_ascii: "ascii_string s \<Longrightarrow> utf8_string s"
proof (induction s)
  case Nil
  then show ?case unfolding utf8_string_def by (intro exI [of _ "[]"]) (simp add: utf8_text_def text_of_def)
next
  case (Cons c s)
  have "text_of (utf8_text [int (of_char c)]) = [c]" using ascii_text [of "int (of_char c)"] Cons.prems by (simp add: ascii_string_def)
  then have "utf8_string [c]" using Cons.prems unfolding utf8_string_def
    by (intro exI [of _ "[int (of_char c)]"]) (simp add: is_scalar_def ascii_string_def)
  then show ?case using utf8_string_append [of "[c]" s] Cons by (simp add: ascii_string_def)
qed

lemma digit_ascii: "is_digit c \<Longrightarrow> (of_char c :: nat) < 0x80" "is_xdigit c \<Longrightarrow> (of_char c :: nat) < 0x80"
  by (auto simp: is_digit_def is_xdigit_def Let_def)

lemma digits_ascii: "digits_text s \<Longrightarrow> ascii_string s" "list_all is_digit s \<Longrightarrow> ascii_string s" "list_all is_xdigit s \<Longrightarrow> ascii_string s"
  by (auto simp: digits_text_def ascii_string_def list_all_iff digit_ascii)

lemma ascii_append [simp]: "ascii_string (s @ t) \<longleftrightarrow> ascii_string s \<and> ascii_string t" "ascii_string []"
  by (simp_all add: ascii_string_def)

lemma ascii_Cons [simp]: "ascii_string (c # s) \<longleftrightarrow> (of_char c :: nat) < 0x80 \<and> ascii_string s"
  by (simp add: ascii_string_def)

lemma fmt_d_ascii: "ascii_string (fmt_d i)"
  using nat_digits_text digits_ascii(1) by (simp add: fmt_d_def)

lemma dump_real_ascii: "ascii_string (dump_real x)"
proof -
  obtain sg ds fs es where f: "dump_real x = sg @ ds @ fs @ es" "real_shape sg ds fs es (dec_value x)" using dump_real_shape by blast
  note S = f(2) [unfolded real_shape_def]
  have "ascii_string sg" "ascii_string ds" using S digits_ascii(1) by (auto simp: sign_text_def)
  moreover have "ascii_string fs" using S digits_ascii(2) by (auto simp: fraction_shape_def)
  moreover have "ascii_string es" using S digits_ascii(1) by (auto simp: exponent_shape_def)
  ultimately show ?thesis using f(1) by simp
qed

lemma indent_ascii: "ascii_string (dump_indent flags depth space)"
  by (auto simp: dump_indent_def ascii_string_def list_all_iff)

lemma piece_utf8:
  assumes "is_scalar v"
  shows "utf8_string (piece ascii v)"
proof (cases "needs_escape ascii v")
  case True
  have v: "0 \<le> v" "v \<le> 0x10FFFF" using assms by (auto simp: is_scalar_def)
  have "list_all is_xdigit (fmt_04x u)" for u unfolding fmt_04x_def by (simp add: hex_char_digit)
  then have f: "ascii_string (fmt_04x u)" for u by (rule digits_ascii(3))
  have "ascii_string (escape_text v)" unfolding escape_text_def Let_def by (simp add: f)
  then show ?thesis using True utf8_string_ascii by (simp add: piece_def)
next
  case False
  then show ?thesis using assms unfolding utf8_string_def by (intro exI [of _ "[v]"]) (simp add: piece_def)
qed

lemma dump_string_utf8: "text_ok str \<Longrightarrow> utf8_string (snd (dump_string str ascii))"
proof -
  assume "text_ok str"
  then obtain vs where vs: "str = text_of (utf8_text vs)" "\<forall>v \<in> set vs. is_scalar v \<and> 0 < v" using text_ok_scalars [of str] by auto
  then have "utf8_string (pieces ascii vs)"
  proof (induction vs arbitrary: str)
    case (Cons v vs)
    then show ?case using utf8_string_append [OF piece_utf8 [of v ascii], of "pieces ascii vs"] by (simp add: pieces_def)
  qed (simp add: pieces_def utf8_string_ascii)
  then have "utf8_string ([CHR 0x22] @ pieces ascii vs @ [CHR 0x22])"
    by (intro utf8_string_append [OF utf8_string_ascii utf8_string_append [OF _ utf8_string_ascii]]) simp_all
  then show ?thesis using dump_string_pieces [of vs str ascii] vs by simp
qed

lemma dump_then_utf8: "utf8_string (snd a) \<Longrightarrow> utf8_string (snd b) \<Longrightarrow> utf8_string (snd (dump_then a b))"
  by (simp add: dump_then_def utf8_string_append)

lemma dump_text_utf8: "ascii_string s \<Longrightarrow> utf8_string (snd (dump_text s))"
  by (simp add: dump_text_def utf8_string_ascii)

lemma printed_utf8:
  shows "printable j \<Longrightarrow> utf8_string (snd (do_dump flags depth j))"
    and "\<forall>j \<in> set js. printable j \<Longrightarrow> utf8_string (snd (dump_elems flags depth js))"
    and "\<forall>(key, val) \<in> set ms. text_ok key \<and> printable val \<Longrightarrow> utf8_string (snd (dump_members flags depth ms))"
proof (induction flags depth j and flags depth js and flags depth ms rule: do_dump_dump_elems_dump_members.induct)
  case (12 flags depth key val ms)
  have "ascii_string (if json_compact flags then '':'' else '': '')" by simp
  then have "utf8_string (snd (dump_text (snd (dump_string key (json_ensure_ascii flags)) @ (if json_compact flags then '':'' else '': ''))))"
    using utf8_string_append [OF dump_string_utf8 utf8_string_ascii] 12 by (simp add: dump_text_def)
  moreover have "utf8_string (snd (if ms = [] then dump_text (dump_indent flags depth False)
      else dump_then (dump_text ('','' @ dump_indent flags (depth + 1) True)) (dump_members flags depth ms)))"
    using 12 by (auto intro!: dump_then_utf8 dump_text_utf8 simp: indent_ascii)
  ultimately show ?case unfolding dump_members.simps using 12 by (intro dump_then_utf8) auto
qed (auto intro!: dump_then_utf8 dump_text_utf8 dump_string_utf8 simp: fmt_d_ascii dump_real_ascii indent_ascii)

section \<open>The round trip\<close>

lemma before_end:
  assumes "before [] lexer"
  obtains lexer' where "lex_scan lexer = Some lexer'" "lx_token lexer' = T_eof" "\<not> lx_erange lexer'"
proof -
  have "st_data (lx_stream lexer) = []" "\<not> st_pos (lx_stream lexer) < length (st_buffer (lx_stream lexer))" "\<not> lx_erange lexer"
    using assms by (auto simp: before_def ahead_def)
  then show ?thesis
    using that by (simp add: lex_scan_def lex_get_def stream_get_def skip_blanks.simps is_blank_def string_eof_def Let_def)
qed

lemma before_init: "utf8_string s \<Longrightarrow> before s (lex_init False s)"
  by (simp add: utf8_string_def before_def lex_init_def clean_def ahead_def)

lemma value_loads:
  assumes "utf8_string s" "value_read v [] (lex_init False s)" "s = c # t" "c = CHR ''['' \<or> c = CHR ''{''"
  shows "json_loads False s = Some (Some v, False)"
proof -
  obtain l1 n l2 where l: "lex_scan (lex_init False s) = Some l1" "parse_value n l1 = Some (Some v, l2)" "before [] l2"
    using assms(2) unfolding value_read_def by blast
  have "lx_token l1 = T_char c"
    using punctuation_scan [of "[]" c t "lex_init False s"] before_init [OF assms(1)] assms(3,4) l(1) by (auto simp: token_read_def)
  moreover have "parse_value (parse_fuel s) l1 = Some (Some v, l2)"
  proof -
    have ok: "lex_ok l1" "fuel_need l1 \<le> parse_fuel s"
      using scan_step [OF lex_init_ok(1) [of False s]] l(1) lex_init_ok(2) [of False s] by (force simp: parse_fuel_def)+
    obtain r where r: "parse_value (parse_fuel s) l1 = Some r"
      using enoughD(1) [OF parse_total ok] unfolding parse_end_def by blast
    then show ?thesis
      using parse_value_deeper [OF r, of "max n (parse_fuel s)"] parse_value_deeper [OF l(2), of "max n (parse_fuel s)"] by simp
  qed
  moreover obtain l3 where "lex_scan l2 = Some l3" "lx_token l3 = T_eof" "\<not> lx_erange l3" using before_end [OF l(3)] .
  ultimately show ?thesis using l(1) assms(4) by (auto simp: json_loads_def parse_json_def)
qed



end
