(* ===== verification/Spec2Isabelle.thy ===== *)
theory Spec2Isabelle
  imports HexText Sha256Scan Sha256Ways Target RandomxScan Address ThreadQueue Barrier Gbt GbtTheorems Stratum AddressFile WorkIO Miner Dataset Utf8 Http Options Threads Hashtable JsonValue JsonRef JsonOwner StrBuffer JsonLoad JsonTotal JsonDump JsonFormat JsonReal JsonRead JsonRound
begin

text \<open>
  A verification library for the RandomX miner: \<open>cpu-miner.c\<close>, \<open>util.c\<close>, \<open>sha2.c\<close>, \<open>randomx-miner.c\<close>,
  \<open>pthread_barrier.c\<close>, \<open>elist.h\<close>, \<open>miner.h\<close> and the parts of the bundled \<open>compat/jansson\<close> the miner calls.

  The program. A server gives work over HTTP (\<open>getblocktemplate\<close>, \<open>getwork\<close>, with long polling) or over a
  Stratum connection. The work I/O thread takes commands from a queue and talks to the server; the mining threads
  take the current work, each with its own share of the nonces, set the RandomX dataset up together behind a
  barrier, scan, and queue what they find for submission.

  Conventions. A buffer is a list of its bytes and a C string the list of its characters; a word is a \<open>32 word\<close>
  or \<open>64 word\<close>; an \<open>int\<close> of the code that cannot overflow where it is used is an \<open>int\<close> or \<open>nat\<close>. A failing
  function returns an option or a result type, and undefined behaviour of the code (a write outside a buffer, a
  double release, a division by zero) is a result of its own: \<open>None\<close>, \<open>Undefined\<close> or \<open>Broken\<close>, never left out. What
  the code reads from outside is an argument: the answers of sockets and of \<open>libcurl\<close> are scripts, lists of what
  each call returns in turn, so that a loop over a script needs no fuel: it ends where the script ends, and the
  theorems speak of every script. Allocations, the clock, the random number generator, the JSON parser (which the
  build may take from the system) and the RandomX library are arguments as well; the theorems about RandomX scans
  assume of the library only that hashing is a function of its input, and that the pipelined interface gives
  the hashes of its inputs in order.

  The theories and the code they model.

  \<^item> \<open>Prelude\<close>, \<open>Bytes\<close>, \<open>HexText\<close>: buffers and numbers; \<open>be32dec\<close> and its relatives of \<open>miner.h\<close>, hexadecimal text and
    variable-length integers of \<open>util.c\<close>, with round trips.
  \<^item> \<open>Sha256\<close>, \<open>Sha256Scan\<close>: \<open>sha2.c\<close>. \<open>sha256d\<close> is SHA-256 twice as the standard defines it; the scanner
    \<open>scanhash_sha256d\<close>, with its precomputed rounds, computes what the plain loop computes; \<open>Sha256Ways\<close>: the scanners of four and eight
    lanes over their assembly routines, whose contract is that each lane does what \<open>sha256d_ms\<close> does.
  \<^item> \<open>Target\<close>, \<open>Difficulty\<close>: \<open>fulltest\<close>, \<open>timeval_subtract\<close> and \<open>diff_to_target\<close> with the rounding of \<open>double\<close>.
  \<^item> \<open>RandomxScan\<close>: \<open>randomx-miner.c\<close>. What a scan reports hashes to what it says; the pipelined scanner agrees with the
    plain one.
  \<^item> \<open>Base58\<close>, \<open>Bech32\<close>, \<open>Address\<close>: the address decoders of \<open>util.c\<close>; \<open>AddressFile\<close>: \<open>load_addresses_from_file\<close> and
    \<open>select_random_address\<close> of \<open>cpu-miner.c\<close>.
  \<^item> \<open>ListHeads\<close>, \<open>ThreadQueue\<close>: \<open>elist.h\<close> over an explicit heap of links, and the queues of \<open>util.c\<close>, which refine a
    first-in first-out queue; \<open>Barrier\<close>: \<open>pthread_barrier.c\<close> as a step relation over any number of threads.
  \<^item> \<open>Json\<close>, \<open>Utf8\<close>: the values and accessors of \<open>compat/jansson\<close> and its UTF-8 functions.
  \<^item> \<open>Hashtable\<close>, \<open>JsonValue\<close>: \<open>hashtable.c\<close> of \<open>compat/jansson\<close> on a heap of links, which refines a map; objects, arrays,
    equality and copies of \<open>value.c\<close>. The members of an object are in the order in which the table iterates over them.
  \<^item> \<open>JsonLoad\<close>, \<open>JsonTotal\<close>: the parser of \<open>load.c\<close> and the proof that it ends on every text. Its loops over characters need
    no fuel, because what is left of the stream shrinks; the nesting of its calls is bounded by \<open>parse_fuel\<close>, which is proved to
    be enough for every text.
  \<^item> \<open>JsonRef\<close>, \<open>JsonOwner\<close>: reference counts. The operations of \<open>value.c\<close> on a heap of counted values, deletion included, and the ledger
    of the references a program holds: an invariant of every program that keeps to the rules of ownership.
  \<^item> \<open>StrBuffer\<close>: the growing buffer of \<open>strbuffer.c\<close>, which holds the saved text of the parser and the output of the printer. It
    behaves like the list of its bytes, as the two models use it, until an allocation fails.
  \<^item> \<open>JsonDump\<close>: the printer of \<open>dump.c\<close>, with its decimal formats. \<open>JsonFormat\<close> shows what \<open>strtod\<close> and \<open>strtoll\<close> read back from
    printed numbers, \<open>JsonReal\<close> that seventeen digits determine a \<open>double\<close>, \<open>JsonRead\<close> what the lexer makes of printed tokens,
    and \<open>JsonRound\<close> that a printed value is read back as an equal one.
  \<^item> \<open>Merkle\<close>, \<open>Gbt\<close>, \<open>GbtTheorems\<close>: \<open>work_decode\<close> and \<open>gbt_work_decode\<close> of \<open>cpu-miner.c\<close>: coinbase, witness
    commitment, Merkle tree and block header.
  \<^item> \<open>CString\<close>, \<open>StratumLine\<close>, \<open>StratumJob\<close>, \<open>Stratum\<close>: the Stratum functions of \<open>util.c\<close> and \<open>stratum_gen_work\<close>: lines over the
    connection, jobs and the work made from them, and the session with an invariant of all its states.
  \<^item> \<open>Http\<close>: \<open>json_rpc_call\<close> of \<open>util.c\<close>, its callbacks and the repair of large numbers.
  \<^item> \<open>WorkIO\<close>, \<open>Miner\<close>: the work I/O thread and one pass of \<open>miner_thread\<close> of \<open>cpu-miner.c\<close>; the last theorem of
    \<open>Miner\<close> composes decoding, scanning and submission: the block found is the block sent. \<open>Dataset\<close>: how the mining threads
    share the RandomX dataset across changes of its key and at the end, under every interleaving.

  \<^item> \<open>Options\<close>: the command line, the configuration file and the threads \<open>main\<close> starts; \<open>Threads\<close>: the long-polling
    and Stratum threads of \<open>cpu-miner.c\<close> over the state they share with the mining threads, with an invariant of all
    interleavings of the Stratum thread with work generation.

  Interfaces stated as locales are interpreted on the model's own definitions in the theory of the provider.

  Not modelled: output (\<open>applog\<close>, usage and version texts), the assembly routines, reference counts in the copies of JSON values, error texts of the JSON parser, the order of members by serial
  number (\<open>JSON_PRESERVE_ORDER\<close>), reading and printing JSON through a \<open>FILE\<close>, the daemon, signal handling and the failures of
  thread creation.
\<close>

end
